(* ===== verification/Prelude.thy ===== *)
theory Prelude
  imports Main "HOL-Library.Word" "HOL-Library.Multiset" "HOL-Library.While_Combinator"
begin

text \<open>
  Shared vocabulary of the development: panics and the result type of code that may
  panic, Rust's fixed-width arithmetic in a release build, the ordered containers of the
  standard library (\<open>BTreeSet\<close> as a sorted list, \<open>BTreeMap\<close> as a sorted association list),
  vectors with checked indexing, and loops whose body may panic.
\<close>

section \<open>Panics and results\<close>

text \<open>
  One constructor for every kind of place where the modelled code panics (an \<open>assert!\<close>, an
  \<open>expect\<close>, an explicit \<open>panic!\<close>, an index out of bounds, a \<open>range\<close> of a container whose start is
  after its end, or a storage error), grouped by component.
  \<open>Diverges\<close> is not a panic of the code: it is the value of a loop or recursion of the
  model that does not end.
\<close>

datatype committee_panic = CommitteeEmpty | TooManyAuthorities | ZeroTotalStake

datatype dag_panic =
    GenesisSerializationFailed | GenesisBlockAccepted | BlockFromTheFuture | OwnSlotTaken
  | RoundAlreadyCommitted | BlockNotFound | GenesisNotFound | BeforeGenesis | RoundEvicted
  | NoQuorumInDag

datatype commit_panic =
    CommitIndexGap | CommitTimestampRegressed | FirstCommitIndexNotOne
  | UnscoredSubdagsNotEmpty | NoLastCommit | LeaderNotInSubdag | BlockCommittedTwice
  | CommitSerializationFailed | CommitIndexNotContinuous | ConsumerAheadOfStore | SendFailed

datatype manager_panic =
    AncestorCountMismatch | AncestorRefMismatch | SuspendedBlockNotFound
  | DependencyNotMissing | UnsuspendedMissingAncestor

datatype committer_panic = WaveTooShort | MoreThanOneCertifiedLeader

datatype schedule_panic =
    SwapThresholdOutOfRange | ScoresCommitteeMismatch | SwapMultiLeader | NoGoodNode
  | LeaderOffsetTooLarge | NoWeightedChoice | NoUnscoredSubdags | NonContiguousSubdags
  | SubdagWithoutBlocks | SeveralLeaderBlocks | InvalidCommitRange | TooManyUnscoredSubdags
  | ScoringRangeTooShort | ScoreWithoutAuthority

datatype core_panic =
    NoCommitBeforeUpdate | AncestorsCommitteeMismatch | ProposalWithoutQuorum
  | AncestorFromTheFuture | OwnBlockNotAccepted | OwnBlockMissingAncestors | NoLeaderForRound
  | NoBlockProposedInRecovery | BlockSerializationFailed | BlockSigningFailed | RecoveryFailed
  | InvalidOwnIndex

datatype sync_panic =
    NoInflightEntry | PeerNotInflight | PeerAlreadyInflight | NoFetchSender | NoPeerLeft
  | ZeroBatchSize | NoFetchedCommit

datatype panic =
    Diverges
  | IndexOutOfBounds
  | InvalidRange
  | StorageFailure
  | InvalidAddress
  | CommitteePanic committee_panic
  | DagPanic dag_panic
  | CommitPanic commit_panic
  | ManagerPanic manager_panic
  | CommitterPanic committer_panic
  | SchedulePanic schedule_panic
  | CorePanic core_panic
  | SyncPanic sync_panic

type_synonym 'a res = "panic + 'a"

text \<open>\<open>and_then m f\<close> runs \<open>f\<close> on the value of \<open>m\<close>, and stops where \<open>m\<close> does.\<close>

definition and_then :: "'e + 'a \<Rightarrow> ('a \<Rightarrow> 'e + 'b) \<Rightarrow> 'e + 'b" where
  "and_then m f = (case m of Inl e \<Rightarrow> Inl e | Inr x \<Rightarrow> f x)"

lemma and_then_Inl [simp]: "and_then (Inl e) f = Inl e"
  by (simp add: and_then_def)

lemma and_then_Inr [simp]: "and_then (Inr x) f = f x"
  by (simp add: and_then_def)

lemma and_then_eq_Inr: "and_then m f = Inr y \<longleftrightarrow> (\<exists>x. m = Inr x \<and> f x = Inr y)"
  by (cases m) auto

lemma and_then_eq_Inl: "and_then m f = Inl e \<longleftrightarrow> m = Inl e \<or> (\<exists>x. m = Inr x \<and> f x = Inl e)"
  by (cases m) auto

lemma and_then_cong [fundef_cong]:
  "m = m' \<Longrightarrow> (\<And>x. m' = Inr x \<Longrightarrow> f x = g x) \<Longrightarrow> and_then m f = and_then m' g"
  by (cases m') auto

lemma and_then_assoc: "and_then (and_then m f) g = and_then m (\<lambda>x. and_then (f x) g)"
  by (cases m) auto

lemma and_then_Inr_right [simp]: "and_then m Inr = m"
  by (cases m) auto

text \<open>\<open>assert_that b p\<close> is \<open>assert!(b)\<close>: it panics with \<open>p\<close> unless \<open>b\<close>.\<close>

definition assert_that :: "bool \<Rightarrow> 'e \<Rightarrow> 'e + unit" where
  "assert_that b p = (if b then Inr () else Inl p)"

lemma assert_that_simps [simp]: "assert_that True p = Inr ()" "assert_that False p = Inl p"
  by (simp_all add: assert_that_def)

lemma assert_that_eq_Inr [simp]: "assert_that b p = Inr u \<longleftrightarrow> b"
  by (simp add: assert_that_def)

lemma assert_that_eq_Inl [simp]: "assert_that b p = Inl e \<longleftrightarrow> \<not> b \<and> e = p"
  by (auto simp: assert_that_def)

text \<open>\<open>expect o p\<close> is \<open>Option::expect\<close> (and \<open>unwrap\<close>, and \<open>unwrap_or_else(panic)\<close>).\<close>

definition expect :: "'a option \<Rightarrow> 'e \<Rightarrow> 'e + 'a" where
  "expect m p = (case m of None \<Rightarrow> Inl p | Some x \<Rightarrow> Inr x)"

lemma expect_simps [simp]: "expect None p = Inl p" "expect (Some x) p = Inr x"
  by (simp_all add: expect_def)

lemma expect_eq_Inr [simp]: "expect m p = Inr x \<longleftrightarrow> m = Some x"
  by (cases m) auto

lemma expect_eq_Inl [simp]: "expect m p = Inl e \<longleftrightarrow> m = None \<and> e = p"
  by (cases m) auto

text \<open>A loop \<open>for x in xs\<close> whose body may panic, over a state; and \<open>map\<close> with such a body.\<close>

fun for_each :: "('a \<Rightarrow> 's \<Rightarrow> 'e + 's) \<Rightarrow> 'a list \<Rightarrow> 's \<Rightarrow> 'e + 's" where
  "for_each f [] s = Inr s"
| "for_each f (x # xs) s = and_then (f x s) (for_each f xs)"

fun map_res :: "('a \<Rightarrow> 'e + 'b) \<Rightarrow> 'a list \<Rightarrow> 'e + 'b list" where
  "map_res f [] = Inr []"
| "map_res f (x # xs) = and_then (f x) (\<lambda>y. and_then (map_res f xs) (\<lambda>ys. Inr (y # ys)))"

fun filter_res :: "('a \<Rightarrow> 'e + bool) \<Rightarrow> 'a list \<Rightarrow> 'e + 'a list" where
  "filter_res f [] = Inr []"
| "filter_res f (x # xs) =
     and_then (f x) (\<lambda>b. and_then (filter_res f xs) (\<lambda>ys. Inr (if b then x # ys else ys)))"

lemma for_each_append:
  "for_each f (xs @ ys) s = and_then (for_each f xs s) (for_each f ys)"
proof (induction xs arbitrary: s)
  case (Cons x xs)
  then show ?case by (cases "f x s") auto
qed simp

text \<open>Invariants of a loop: what every iteration keeps, the whole loop keeps.\<close>

lemma for_each_invariant:
  assumes "for_each f xs s = Inr t" and "P s"
    and "\<And>x s s'. x \<in> set xs \<Longrightarrow> P s \<Longrightarrow> f x s = Inr s' \<Longrightarrow> P s'"
  shows "P t"
  using assms
proof (induction xs arbitrary: s)
  case (Cons x xs)
  from Cons.prems(1) obtain u where u: "f x s = Inr u" "for_each f xs u = Inr t"
    by (auto simp: and_then_eq_Inr)
  moreover from Cons.prems(2,3) u(1) have "P u" by (meson list.set_intros(1))
  ultimately show ?case using Cons.IH Cons.prems(3) by (meson list.set_intros(2))
qed simp

lemma for_each_total:
  assumes "P s"
    and "\<And>x s. x \<in> set xs \<Longrightarrow> P s \<Longrightarrow> \<exists>s'. f x s = Inr s' \<and> P s'"
  shows "\<exists>t. for_each f xs s = Inr t \<and> P t"
  using assms
proof (induction xs arbitrary: s)
  case (Cons x xs)
  from Cons.prems obtain u where "f x s = Inr u" "P u" by (meson list.set_intros(1))
  moreover from Cons.IH [OF \<open>P u\<close>] Cons.prems(2)
  obtain t where "for_each f xs u = Inr t" "P t" by (meson list.set_intros(2))
  ultimately show ?case by simp
qed simp

lemma for_each_cong:
  "(\<And>x s. x \<in> set xs \<Longrightarrow> f x s = g x s) \<Longrightarrow> for_each f xs s = for_each g xs s"
  by (induction xs arbitrary: s) (auto intro!: and_then_cong)

lemma for_each_nested:
  "for_each (\<lambda>x. for_each (f x) (ys x)) xs = for_each (\<lambda>(x, y). f x y) (concat (map (\<lambda>x. map (Pair x) (ys x)) xs))"
proof (induction xs)
  case (Cons x xs)
  have one: "for_each (\<lambda>(x, y). f x y) (map (Pair x) zs) = for_each (f x) zs" for zs
    by (induction zs) (rule ext, simp)+
  show ?case by (simp add: fun_eq_iff for_each_append one Cons)
qed simp

lemma for_each_prefix:
  assumes "P ys s" "\<And>ys x s. x \<in> set xs \<Longrightarrow> P ys s \<Longrightarrow> \<exists>s'. f x s = Inr s' \<and> P (ys @ [x]) s'"
  shows "\<exists>t. for_each f xs s = Inr t \<and> P (ys @ xs) t"
  using assms
proof (induction xs arbitrary: ys s)
  case (Cons x xs)
  obtain u where u: "f x s = Inr u" "P (ys @ [x]) u" using Cons.prems(2) [OF _ Cons.prems(1), of x] by auto
  have "\<exists>t. for_each f xs u = Inr t \<and> P ((ys @ [x]) @ xs) t"
    by (rule Cons.IH [OF u(2)]) (use Cons.prems(2) in auto)
  with u(1) show ?case by simp
qed simp

lemma map_res_eq_Inr:
  "map_res f xs = Inr ys \<longleftrightarrow> list_all2 (\<lambda>x y. f x = Inr y) xs ys"
proof (induction xs arbitrary: ys)
  case (Cons x xs)
  show ?case by (cases ys) (auto simp: and_then_eq_Inr Cons.IH)
qed auto

lemma map_res_Inr: "(\<And>x. x \<in> set xs \<Longrightarrow> f x = Inr (g x)) \<Longrightarrow> map_res f xs = Inr (map g xs)"
  by (induction xs) auto

lemma map_res_expect: "map_res (\<lambda>x. expect x p) xs = Inr ys \<longleftrightarrow> xs = map Some ys"
proof (induction xs arbitrary: ys)
  case (Cons x xs)
  then show ?case by (cases ys; cases x) (auto simp: and_then_eq_Inr)
qed auto

lemma filter_res_eq_Inr:
  "filter_res f xs = Inr ys \<longleftrightarrow>
     (\<forall>x\<in>set xs. \<exists>b. f x = Inr b) \<and> ys = filter (\<lambda>x. f x = Inr True) xs"
proof (induction xs arbitrary: ys)
  case (Cons x xs)
  show ?case
  proof (cases "f x")
    case (Inr b)
    then show ?thesis by (cases b) (auto simp: and_then_eq_Inr Cons.IH)
  qed simp
qed auto

lemma filter_res_mem:
  "filter_res f xs = Inr ys \<Longrightarrow> y \<in> set ys \<longleftrightarrow> y \<in> set xs \<and> f y = Inr True"
  by (auto simp: filter_res_eq_Inr)

lemma filter_res_Inr: "(\<And>x. x \<in> set xs \<Longrightarrow> f x = Inr (p x)) \<Longrightarrow> filter_res f xs = Inr (filter p xs)"
  by (auto simp: filter_res_eq_Inr intro: filter_cong)

section \<open>While loops that may panic\<close>

definition while_res :: "('s \<Rightarrow> bool) \<Rightarrow> ('s \<Rightarrow> panic + 's) \<Rightarrow> 's \<Rightarrow> panic + 's" where
  "while_res b c s =
     (case while_option (\<lambda>r. case r of Inl _ \<Rightarrow> False | Inr s \<Rightarrow> b s)
             (\<lambda>r. and_then r c) (Inr s) of
        None \<Rightarrow> Inl Diverges
      | Some r \<Rightarrow> r)"

lemma while_res_unfold:
  "while_res b c s = (if b s then and_then (c s) (while_res b c) else Inr s)"
proof (cases "b s")
  case True
  show ?thesis
  proof (cases "c s")
    case (Inl p)
    with True show ?thesis
      unfolding while_res_def by (subst while_option_unfold) (simp add: while_option_unfold)
  next
    case (Inr t)
    with True show ?thesis
      unfolding while_res_def by (subst while_option_unfold) simp
  qed
next
  case False
  then show ?thesis
    unfolding while_res_def by (subst while_option_unfold) simp
qed

lemma while_res_invariant:
  fixes s t :: 's
  assumes "while_res b c s = Inr t" and "P s"
    and step: "\<And>s s'. P s \<Longrightarrow> b s \<Longrightarrow> c s = Inr s' \<Longrightarrow> P s'"
  shows "P t \<and> \<not> b t"
proof -
  let ?b = "\<lambda>r :: panic + 's. case r of Inl _ \<Rightarrow> False | Inr s \<Rightarrow> b s"
  let ?c = "\<lambda>r. and_then r c"
  let ?P = "\<lambda>r :: panic + 's. case r of Inl _ \<Rightarrow> True | Inr s \<Rightarrow> P s"
  from assms(1) have opt: "while_option ?b ?c (Inr s) = Some (Inr t)"
    unfolding while_res_def by (auto split: option.splits)
  have kept: "?P (?c r)" if "?P r" "?b r" for r
  proof (cases r)
    case (Inr u)
    with that step [of u] show ?thesis by (cases "c u") auto
  qed (use that in simp)
  have "?P (Inr s)" using assms(2) by simp
  have "?P (Inr t)"
    by (rule while_option_rule [where P = ?P and b = ?b and c = ?c, OF kept opt \<open>?P (Inr s)\<close>])
  moreover from while_option_stop [OF opt] have "\<not> b t" by simp
  ultimately show ?thesis by simp
qed

text \<open>
  Total correctness: an invariant under which the body neither panics nor fails to decrease
  a measure gives a loop that ends, without a panic, in a state with the invariant.
\<close>

lemma while_res_total:
  assumes "P s"
    and "\<And>s. P s \<Longrightarrow> b s \<Longrightarrow> \<exists>s'. c s = Inr s' \<and> P s' \<and> (m s' :: nat) < m s"
  shows "\<exists>t. while_res b c s = Inr t \<and> P t \<and> \<not> b t"
  using assms(1)
proof (induction "m s" arbitrary: s rule: less_induct)
  case less
  show ?case
  proof (cases "b s")
    case True
    with assms(2) less.prems obtain u where u: "c s = Inr u" "P u" "m u < m s" by blast
    from less.hyps [OF u(3,2)] obtain t where t: "while_res b c u = Inr t" "P t" "\<not> b t" by blast
    from True u(1) t(1) have "while_res b c s = Inr t"
      by (subst while_res_unfold) simp
    with t(2,3) show ?thesis by blast
  next
    case False
    with less.prems show ?thesis by (subst while_res_unfold) simp
  qed
qed

section \<open>Fixed-width unsigned arithmetic\<close>

text \<open>
  Unsigned integers are natural numbers below the bound of their width. The release profile
  of the workspace (\<^verbatim>\<open>src/Cargo.toml\<close>) leaves overflow checks off, so \<open>+\<close>, \<open>*\<close> and \<open>sum\<close>
  wrap around. \<open>saturating_sub\<close> is subtraction on \<open>nat\<close>.
\<close>

definition u32_max :: nat where "u32_max = 2 ^ 32 - 1"

definition u64_max :: nat where "u64_max = 2 ^ 64 - 1"

definition u32_add :: "nat \<Rightarrow> nat \<Rightarrow> nat" where "u32_add a b = (a + b) mod 2 ^ 32"

definition u32_sub :: "nat \<Rightarrow> nat \<Rightarrow> nat" where "u32_sub a b = (a + 2 ^ 32 - b) mod 2 ^ 32"

definition u32_mul :: "nat \<Rightarrow> nat \<Rightarrow> nat" where "u32_mul a b = (a * b) mod 2 ^ 32"

definition u64_add :: "nat \<Rightarrow> nat \<Rightarrow> nat" where "u64_add a b = (a + b) mod 2 ^ 64"

definition u64_mul :: "nat \<Rightarrow> nat \<Rightarrow> nat" where "u64_mul a b = (a * b) mod 2 ^ 64"

definition u64_sum :: "nat list \<Rightarrow> nat" where "u64_sum xs = foldl u64_add 0 xs"

named_theorems width "width arithmetic: the wrapping operations and what they are without overflow"

lemmas width_defs = u32_add_def u32_sub_def u32_mul_def u64_add_def u64_mul_def

lemma u32_add_exact [width]: "a + b < 2 ^ 32 \<Longrightarrow> u32_add a b = a + b"
  by (simp add: u32_add_def)

lemma u32_mul_exact [width]: "a * b < 2 ^ 32 \<Longrightarrow> u32_mul a b = a * b"
  by (simp add: u32_mul_def)

lemma u32_sub_exact [width]: "b \<le> a \<Longrightarrow> a < 2 ^ 32 \<Longrightarrow> u32_sub a b = a - b"
proof -
  assume "b \<le> a" "a < 2 ^ 32"
  then have "a + 2 ^ 32 - b = (a - b) + 2 ^ 32" "a - b < 2 ^ 32" by auto
  then show ?thesis unfolding u32_sub_def by (metis mod_add_self2 mod_less)
qed

lemma u64_add_exact [width]: "a + b < 2 ^ 64 \<Longrightarrow> u64_add a b = a + b"
  by (simp add: u64_add_def)

lemma u64_mul_exact [width]: "a * b < 2 ^ 64 \<Longrightarrow> u64_mul a b = a * b"
  by (simp add: u64_mul_def)

lemma u32_add_less [simp]: "u32_add a b < 2 ^ 32" "u32_add a b < 4294967296"
  by (simp_all add: u32_add_def)

lemma u64_add_less [simp]: "u64_add a b < 2 ^ 64" "u64_add a b < 18446744073709551616"
  by (simp_all add: u64_add_def)

lemma foldl_u64_add: "foldl u64_add (s mod 2 ^ 64) xs = (s + sum_list xs) mod 2 ^ 64"
proof (induction xs arbitrary: s)
  case (Cons x xs)
  have "u64_add (s mod 2 ^ 64) x = (s + x) mod 2 ^ 64"
    by (simp add: u64_add_def mod_simps)
  with Cons.IH [of "s + x"] show ?case by (simp add: add.assoc)
qed simp

lemma u64_sum_eq: "u64_sum xs = sum_list xs mod 2 ^ 64"
  using foldl_u64_add [of 0 xs] by (simp add: u64_sum_def)

lemma u64_sum_exact [width]: "sum_list xs < 2 ^ 64 \<Longrightarrow> u64_sum xs = sum_list xs"
  by (simp add: u64_sum_eq)

section \<open>Vectors\<close>

text \<open>\<open>v[i]\<close> and \<open>v[i] = x\<close> on a vector: both panic out of range.\<close>

definition vec_get :: "'a list \<Rightarrow> nat \<Rightarrow> panic + 'a" where
  "vec_get xs i = (if i < length xs then Inr (xs ! i) else Inl IndexOutOfBounds)"

definition vec_set :: "'a list \<Rightarrow> nat \<Rightarrow> 'a \<Rightarrow> panic + 'a list" where
  "vec_set xs i x = (if i < length xs then Inr (xs[i := x]) else Inl IndexOutOfBounds)"

lemma vec_get_Inr [simp]: "vec_get xs i = Inr x \<longleftrightarrow> i < length xs \<and> xs ! i = x"
  by (auto simp: vec_get_def)

lemma vec_get_in [simp]: "i < length xs \<Longrightarrow> vec_get xs i = Inr (xs ! i)"
  by (simp add: vec_get_def)

lemma vec_set_Inr [simp]: "vec_set xs i x = Inr ys \<longleftrightarrow> i < length xs \<and> ys = xs[i := x]"
  by (auto simp: vec_set_def)

lemma vec_set_in [simp]: "i < length xs \<Longrightarrow> vec_set xs i x = Inr (xs[i := x])"
  by (simp add: vec_set_def)

lemma length_filter_card: "distinct xs \<Longrightarrow> length (filter p xs) = card {x \<in> set xs. p x}"
  using distinct_card [of "filter p xs"] by simp

definition last_opt :: "'a list \<Rightarrow> 'a option" where
  "last_opt xs = (if xs = [] then None else Some (last xs))"

definition first_opt :: "'a list \<Rightarrow> 'a option" where
  "first_opt xs = (case xs of [] \<Rightarrow> None | x # _ \<Rightarrow> Some x)"

lemma last_opt_simps [simp]:
  "last_opt [] = None" "last_opt (xs @ [x]) = Some x"
  "last_opt (x # xs) = Some (if xs = [] then x else last xs)"
  by (simp_all add: last_opt_def)

lemma first_opt_simps [simp]: "first_opt [] = None" "first_opt (x # xs) = Some x"
  by (simp_all add: first_opt_def)

lemma last_opt_None [simp]: "last_opt xs = None \<longleftrightarrow> xs = []"
  by (simp add: last_opt_def)

lemma last_opt_Some: "last_opt xs = Some x \<longleftrightarrow> (\<exists>ys. xs = ys @ [x])"
  by (cases xs rule: rev_cases) auto

lemma first_opt_None [simp]: "first_opt xs = None \<longleftrightarrow> xs = []"
  by (cases xs) auto

section \<open>Lookups in two passes\<close>

text \<open>
  The shape of a batched lookup: a first pass answers what it can and collects the rest with its
  positions; the answers to the rest then fill those positions.
\<close>

definition lookup_pass ::
  "('a \<Rightarrow> 'b option) \<Rightarrow> 'b \<Rightarrow> 'a list \<Rightarrow> 'b list \<times> (nat \<times> 'a) list" where
  "lookup_pass answer d xs =
     foldl (\<lambda>(acc, missing) (i, x).
         case answer x of
           Some v \<Rightarrow> (acc[i := v], missing)
         | None \<Rightarrow> (acc, missing @ [(i, x)]))
       (replicate (length xs) d, []) (List.enumerate 0 xs)"

definition fill_results :: "'b list \<Rightarrow> (nat \<times> 'a) list \<Rightarrow> 'b list \<Rightarrow> 'b list" where
  "fill_results acc missing results =
     foldl (\<lambda>acc ((i, _), r). acc[i := r]) acc (zip missing results)"

lemma foldl_lookup_pass:
  "foldl (\<lambda>(acc, missing) (i, x).
       case answer x of
         Some v \<Rightarrow> (acc[i := v], missing)
       | None \<Rightarrow> (acc, missing @ [(i, x)]))
     (ys @ replicate (length xs) d, ms) (List.enumerate (length ys) xs) =
   (ys @ map (\<lambda>x. case answer x of None \<Rightarrow> d | Some v \<Rightarrow> v) xs,
    ms @ filter (\<lambda>(i, x). answer x = None) (List.enumerate (length ys) xs))"
proof (induction xs arbitrary: ys ms)
  case (Cons x xs)
  let ?y = "case answer x of None \<Rightarrow> d | Some v \<Rightarrow> v"
  have "(ys @ replicate (length (x # xs)) d)[length ys := v] = (ys @ [v]) @ replicate (length xs) d"
    for v by (simp add: list_update_append)
  with Cons.IH [of "ys @ [?y]" "if answer x = None then ms @ [(length ys, x)] else ms"]
  show ?case by (cases "answer x") auto
qed simp

lemma lookup_pass_eq:
  "lookup_pass answer d xs =
     (map (\<lambda>x. case answer x of None \<Rightarrow> d | Some v \<Rightarrow> v) xs,
      filter (\<lambda>(i, x). answer x = None) (List.enumerate 0 xs))"
  using foldl_lookup_pass [of answer "[]" xs d "[]"] by (simp add: lookup_pass_def)

lemma fill_results_tail:
  "fill_results (ys @ map (\<lambda>x. case answer x of None \<Rightarrow> d | Some v \<Rightarrow> v) xs)
     (filter (\<lambda>(i, x). answer x = None) (List.enumerate (length ys) xs))
     (map f (map snd (filter (\<lambda>(i, x). answer x = None) (List.enumerate (length ys) xs)))) =
   ys @ map (\<lambda>x. case answer x of None \<Rightarrow> f x | Some v \<Rightarrow> v) xs"
proof (induction xs arbitrary: ys)
  case (Cons x xs)
  let ?y = "case answer x of None \<Rightarrow> f x | Some v \<Rightarrow> v"
  have "(ys @ d # zs)[length ys := v] = (ys @ [v]) @ zs" for v zs
    by (simp add: list_update_append)
  with Cons.IH [of "ys @ [?y]"] show ?case
    by (cases "answer x") (auto simp: fill_results_def)
qed (simp add: fill_results_def)

lemma lookup_two_passes:
  assumes "lookup_pass answer d xs = (acc, missing)"
  shows "fill_results acc missing (map f (map snd missing)) =
    map (\<lambda>x. case answer x of None \<Rightarrow> f x | Some v \<Rightarrow> v) xs"
  using assms fill_results_tail [where ys = "[]" and answer = answer and d = d and xs = xs and f = f] by (simp add: lookup_pass_eq)

lemma fill_results_Nil [simp]: "fill_results acc [] rs = acc"
  by (simp add: fill_results_def)

section \<open>BTreeSet: a sorted list without repetitions\<close>

definition bs_insert :: "'a::linorder \<Rightarrow> 'a list \<Rightarrow> 'a list" where
  "bs_insert x xs = (if x \<in> set xs then xs else insort x xs)"

definition bs_remove :: "'a \<Rightarrow> 'a list \<Rightarrow> 'a list" where
  "bs_remove x xs = filter (\<lambda>y. y \<noteq> x) xs"

definition bs_extend :: "'a::linorder list \<Rightarrow> 'a list \<Rightarrow> 'a list" where
  "bs_extend ys xs = foldl (\<lambda>acc y. bs_insert y acc) xs ys"

definition bs_wf :: "'a::linorder list \<Rightarrow> bool" where
  "bs_wf xs \<longleftrightarrow> sorted xs \<and> distinct xs"

named_theorems btree "the ordered containers: contents and well-formedness of every operation"

lemma set_bs_insert [simp, btree]: "set (bs_insert x xs) = insert x (set xs)"
  by (auto simp: bs_insert_def set_insort_key)

lemma bs_insert_ne [simp]: "bs_insert x xs \<noteq> []"
  using set_bs_insert [of x xs] by (metis empty_set insert_not_empty)

lemma set_bs_remove [simp, btree]: "set (bs_remove x xs) = set xs - {x}"
  by (auto simp: bs_remove_def)

lemma bs_wf_Nil [simp, btree]: "bs_wf []"
  by (simp add: bs_wf_def)

lemma bs_wf_insert [simp, btree]: "bs_wf xs \<Longrightarrow> bs_wf (bs_insert x xs)"
  by (auto simp: bs_wf_def bs_insert_def sorted_insort distinct_insort)

lemma bs_wf_remove [simp, btree]: "bs_wf xs \<Longrightarrow> bs_wf (bs_remove x xs)"
  by (auto simp: bs_wf_def bs_remove_def sorted_wrt_filter)

lemma set_bs_extend [simp, btree]: "set (bs_extend ys xs) = set ys \<union> set xs"
  by (induction ys arbitrary: xs) (auto simp: bs_extend_def)

lemma bs_wf_extend [simp, btree]: "bs_wf xs \<Longrightarrow> bs_wf (bs_extend ys xs)"
  by (induction ys arbitrary: xs) (auto simp: bs_extend_def)

lemma bs_wf_filter [btree]: "bs_wf xs \<Longrightarrow> bs_wf (filter P xs)"
  by (auto simp: bs_wf_def sorted_wrt_filter)

lemma bs_wf_last_max: "bs_wf xs \<Longrightarrow> x \<in> set xs \<Longrightarrow> x \<le> last xs"
  by (cases xs rule: rev_cases) (auto simp: bs_wf_def sorted_append)

lemma bs_wf_butlast: "bs_wf (xs @ [x]) \<Longrightarrow> bs_wf xs \<and> (\<forall>y\<in>set xs. y < x)"
  by (fastforce simp: bs_wf_def sorted_append order_less_le)

lemma bs_wf_set_eq: "bs_wf xs \<Longrightarrow> bs_wf ys \<Longrightarrow> set xs = set ys \<longleftrightarrow> xs = ys"
  by (auto simp: bs_wf_def intro: sorted_distinct_set_unique)

section \<open>BTreeMap: an association list sorted by key\<close>

fun bm_insert :: "'k::linorder \<Rightarrow> 'v \<Rightarrow> ('k \<times> 'v) list \<Rightarrow> ('k \<times> 'v) list" where
  "bm_insert k v [] = [(k, v)]"
| "bm_insert k v ((k', v') # m) =
     (if k < k' then (k, v) # (k', v') # m
      else if k = k' then (k, v) # m
      else (k', v') # bm_insert k v m)"

definition bm_remove :: "'k \<Rightarrow> ('k \<times> 'v) list \<Rightarrow> ('k \<times> 'v) list" where
  "bm_remove k m = filter (\<lambda>(k', _). k' \<noteq> k) m"

definition bm_wf :: "('k::linorder \<times> 'v) list \<Rightarrow> bool" where
  "bm_wf m \<longleftrightarrow> sorted (map fst m) \<and> distinct (map fst m)"

lemma map_of_bm_insert [simp, btree]: "map_of (bm_insert k v m) = (map_of m)(k \<mapsto> v)"
  by (induction k v m rule: bm_insert.induct) (auto simp: fun_eq_iff)

lemma keys_bm_insert [simp, btree]: "fst ` set (bm_insert k v m) = insert k (fst ` set m)"
  by (induction k v m rule: bm_insert.induct) auto

lemma map_of_bm_remove [simp, btree]: "map_of (bm_remove k m) = (map_of m)(k := None)"
  by (induction m) (auto simp: bm_remove_def fun_eq_iff)

lemma set_bm_remove [btree]: "set (bm_remove k m) = {kv \<in> set m. fst kv \<noteq> k}"
  by (auto simp: bm_remove_def)

lemma keys_bm_remove [simp, btree]: "fst ` set (bm_remove k m) = fst ` set m - {k}"
  by (auto simp: bm_remove_def)

lemma bm_wf_Nil [simp, btree]: "bm_wf []"
  by (simp add: bm_wf_def)

lemma bm_wf_Cons: "bm_wf ((k, v) # m) \<longleftrightarrow> bm_wf m \<and> (\<forall>k'\<in>fst ` set m. k < k')"
  by (auto simp: bm_wf_def order_less_le)

lemma bm_wf_insert [simp, btree]: "bm_wf m \<Longrightarrow> bm_wf (bm_insert k v m)"
  by (induction k v m rule: bm_insert.induct) (auto simp: bm_wf_Cons)

lemma bm_wf_filter [btree]: "bm_wf m \<Longrightarrow> bm_wf (filter P m)"
  by (induction m) (auto simp: bm_wf_Cons)

lemma bm_wf_remove [simp, btree]: "bm_wf m \<Longrightarrow> bm_wf (bm_remove k m)"
  by (simp add: bm_remove_def bm_wf_filter)

lemma bm_wf_mem [btree]: "bm_wf m \<Longrightarrow> (k, v) \<in> set m \<longleftrightarrow> map_of m k = Some v"
  by (simp add: bm_wf_def)

lemma keys_eq_dom: "fst ` set m = dom (map_of m)"
  by (simp add: dom_map_of_conv_image_fst)

end
