(* ===== verification/Committees.thy ===== *)
theory Committees
  imports Prelude
begin

text \<open>
  The committee of an epoch (\<^verbatim>\<open>consensus/config/src/committee.rs\<close>) and the stake aggregator
  (\<^verbatim>\<open>consensus/core/src/stake_aggregator.rs\<close>). The trait \<open>CommitteeThreshold\<close> is the locale
  \<open>committee_threshold\<close>, interpreted for both of its implementations. The lemmas give the
  arithmetic of the two thresholds, the intersection of quorums, and that the aggregator
  counts the stake of the set of its voters, whatever the order and repetition of votes.
\<close>

section \<open>Committee\<close>

type_synonym byte = "8 word"

type_synonym stake = nat

type_synonym authority_index = nat

record authority =
  au_stake :: stake
  au_address :: string
  au_hostname :: string
  au_authority_key :: "byte list"
  au_protocol_key :: "byte list"
  au_network_key :: "byte list"

record committee =
  cm_epoch :: nat
  cm_total_stake :: stake
  cm_quorum_threshold :: stake
  cm_validity_threshold :: stake
  cm_authorities :: "authority list"

definition Committee_new :: "nat \<Rightarrow> authority list \<Rightarrow> committee res" where
  "Committee_new epoch authorities =
     (if authorities = [] then Inl (CommitteePanic CommitteeEmpty)
      else if \<not> length authorities < u32_max then Inl (CommitteePanic TooManyAuthorities)
      else
        let total_stake = u64_sum (map au_stake authorities) in
        if total_stake = 0 then Inl (CommitteePanic ZeroTotalStake)
        else Inr \<lparr> cm_epoch = epoch,
                   cm_total_stake = total_stake,
                   cm_quorum_threshold = u64_add (u64_mul 2 total_stake div 3) 1,
                   cm_validity_threshold = u64_add total_stake 2 div 3,
                   cm_authorities = authorities \<rparr>)"

definition committee_authority :: "committee \<Rightarrow> authority_index \<Rightarrow> authority res" where
  "committee_authority c i = vec_get (cm_authorities c) i"

definition committee_stake :: "committee \<Rightarrow> authority_index \<Rightarrow> stake res" where
  "committee_stake c i = and_then (vec_get (cm_authorities c) i) (\<lambda>a. Inr (au_stake a))"

definition committee_authorities :: "committee \<Rightarrow> (authority_index \<times> authority) list" where
  "committee_authorities c = List.enumerate 0 (cm_authorities c)"

definition committee_size :: "committee \<Rightarrow> nat" where
  "committee_size c = length (cm_authorities c)"

definition reached_quorum :: "committee \<Rightarrow> stake \<Rightarrow> bool" where
  "reached_quorum c s \<longleftrightarrow> s \<ge> cm_quorum_threshold c"

definition reached_validity :: "committee \<Rightarrow> stake \<Rightarrow> bool" where
  "reached_validity c s \<longleftrightarrow> s \<ge> cm_validity_threshold c"

definition to_authority_index :: "committee \<Rightarrow> nat \<Rightarrow> authority_index option" where
  "to_authority_index c index = (if index < length (cm_authorities c) then Some index else None)"

definition is_valid_index :: "committee \<Rightarrow> authority_index \<Rightarrow> bool" where
  "is_valid_index c index \<longleftrightarrow> index < committee_size c"

section \<open>Stake aggregator\<close>

record stake_aggregator =
  sa_votes :: "authority_index list"
  sa_stake :: stake

definition agg_new :: stake_aggregator where
  "agg_new = \<lparr> sa_votes = [], sa_stake = 0 \<rparr>"

definition agg_add ::
  "(committee \<Rightarrow> stake \<Rightarrow> bool) \<Rightarrow> authority_index \<Rightarrow> committee \<Rightarrow> stake_aggregator
     \<Rightarrow> (bool \<times> stake_aggregator) res" where
  "agg_add is_threshold vote c agg =
     (if vote \<in> set (sa_votes agg) then Inr (is_threshold c (sa_stake agg), agg)
      else and_then (committee_stake c vote) (\<lambda>s.
        let agg' = agg\<lparr> sa_votes := bs_insert vote (sa_votes agg),
                        sa_stake := u64_add (sa_stake agg) s \<rparr>
        in Inr (is_threshold c (sa_stake agg'), agg')))"

definition agg_reached_threshold ::
  "(committee \<Rightarrow> stake \<Rightarrow> bool) \<Rightarrow> committee \<Rightarrow> stake_aggregator \<Rightarrow> bool" where
  "agg_reached_threshold is_threshold c agg = is_threshold c (sa_stake agg)"

definition agg_clear :: "stake_aggregator \<Rightarrow> stake_aggregator" where
  "agg_clear agg = agg\<lparr> sa_votes := [], sa_stake := 0 \<rparr>"

text \<open>The implementations of \<open>CommitteeThreshold::is_threshold\<close>.\<close>

definition quorum_is_threshold :: "committee \<Rightarrow> stake \<Rightarrow> bool" where
  "quorum_is_threshold c amount = reached_quorum c amount"

definition validity_is_threshold :: "committee \<Rightarrow> stake \<Rightarrow> bool" where
  "validity_is_threshold c amount = reached_validity c amount"

text \<open>
  The two ways the code drives an aggregator: adding every vote of a list, and adding the
  votes of a list until one of them reaches the threshold.
\<close>

definition agg_add_all ::
  "(committee \<Rightarrow> stake \<Rightarrow> bool) \<Rightarrow> committee \<Rightarrow> authority_index list \<Rightarrow> stake_aggregator
     \<Rightarrow> stake_aggregator res" where
  "agg_add_all is_threshold c =
     for_each (\<lambda>v agg. and_then (agg_add is_threshold v c agg) (\<lambda>(_, agg'). Inr agg'))"

fun agg_add_until ::
  "(committee \<Rightarrow> stake \<Rightarrow> bool) \<Rightarrow> committee \<Rightarrow> authority_index list \<Rightarrow> stake_aggregator
     \<Rightarrow> bool res" where
  "agg_add_until is_threshold c [] agg = Inr False"
| "agg_add_until is_threshold c (v # vs) agg =
     and_then (agg_add is_threshold v c agg) (\<lambda>(reached, agg').
       if reached then Inr True else agg_add_until is_threshold c vs agg')"

section \<open>Stake of a set of authorities\<close>

definition stake_of :: "committee \<Rightarrow> authority_index set \<Rightarrow> stake" where
  "stake_of c A = (\<Sum>i\<in>A. au_stake (cm_authorities c ! i))"

definition members :: "committee \<Rightarrow> authority_index set" where
  "members c = {i. is_valid_index c i}"

text \<open>What \<open>Committee::new\<close> establishes when twice the total stake fits 64 bits.\<close>

definition committee_wf :: "committee \<Rightarrow> bool" where
  "committee_wf c \<longleftrightarrow>
     cm_authorities c \<noteq> [] \<and> length (cm_authorities c) < u32_max \<and>
     cm_total_stake c = sum_list (map au_stake (cm_authorities c)) \<and>
     0 < cm_total_stake c \<and> 2 * cm_total_stake c + 2 < 2 ^ 64 \<and>
     cm_quorum_threshold c = 2 * cm_total_stake c div 3 + 1 \<and>
     cm_validity_threshold c = (cm_total_stake c + 2) div 3"

lemma Committee_new_wf:
  assumes "Committee_new e auths = Inr c" and "2 * sum_list (map au_stake auths) + 2 < 2 ^ 64"
  shows "committee_wf c" and "cm_authorities c = auths" and "cm_epoch c = e"
proof -
  let ?t = "sum_list (map au_stake auths)"
  have sum: "u64_sum (map au_stake auths) = ?t"
    using assms(2) by (intro u64_sum_exact) simp
  have "u64_mul 2 ?t = 2 * ?t" "u64_add ?t 2 = ?t + 2"
    using assms(2) by (simp_all add: u64_mul_def u64_add_def)
  moreover have "u64_add (2 * ?t div 3) 1 = 2 * ?t div 3 + 1"
    using assms(2) by (simp add: u64_add_def)
  ultimately show "committee_wf c" "cm_authorities c = auths" "cm_epoch c = e"
    using assms sum
    by (auto simp: Committee_new_def committee_wf_def Let_def simp del: sum_list_eq_0_iff
        split: if_splits)
qed

lemma members_eq: "members c = {..<committee_size c}"
  by (auto simp: members_def is_valid_index_def)

lemma finite_members [simp, intro]: "finite (members c)"
  by (simp add: members_eq)

lemma stake_of_members: "committee_wf c \<Longrightarrow> stake_of c (members c) = cm_total_stake c"
  by (simp add: stake_of_def members_eq committee_wf_def committee_size_def
      sum_list_sum_nth atLeast0LessThan)

lemma stake_of_mono: "A \<subseteq> B \<Longrightarrow> B \<subseteq> members c \<Longrightarrow> stake_of c A \<le> stake_of c B"
  unfolding stake_of_def
  by (rule sum_mono2) (auto intro: finite_subset [OF _ finite_members])

lemma stake_of_le_total: "committee_wf c \<Longrightarrow> A \<subseteq> members c \<Longrightarrow> stake_of c A \<le> cm_total_stake c"
  using stake_of_mono [of A "members c" c] stake_of_members [of c] by auto

lemma stake_of_empty [simp]: "stake_of c {} = 0"
  by (simp add: stake_of_def)

lemma stake_of_insert:
  "finite A \<Longrightarrow> stake_of c (insert v A) =
     (if v \<in> A then stake_of c A else stake_of c A + au_stake (cm_authorities c ! v))"
  by (simp add: stake_of_def insert_absorb)

lemma stake_of_Un_Int:
  "finite A \<Longrightarrow> finite B \<Longrightarrow>
     stake_of c (A \<union> B) + stake_of c (A \<inter> B) = stake_of c A + stake_of c B"
  by (simp add: stake_of_def sum.union_inter)

lemma committee_stake_valid:
  "v \<in> members c \<Longrightarrow> committee_stake c v = Inr (au_stake (cm_authorities c ! v))"
  by (simp add: committee_stake_def members_eq committee_size_def)

lemma committee_stake_Inr:
  "committee_stake c v = Inr s \<longleftrightarrow> v \<in> members c \<and> s = au_stake (cm_authorities c ! v)"
  by (auto simp: committee_stake_def members_eq committee_size_def and_then_eq_Inr)

section \<open>Thresholds\<close>

lemma threshold_arith: "(2 * t div 3 + 1) + ((t + 2) div 3) = (t :: nat) + 1"
  by linarith

lemma quorum_overlap:
  assumes wf: "committee_wf c" and "A \<subseteq> members c" "B \<subseteq> members c"
    and "reached_quorum c (stake_of c A)" "reached_quorum c (stake_of c B)"
  shows "reached_validity c (stake_of c (A \<inter> B))"
proof -
  have fin: "finite A" "finite B" using assms(2,3) finite_subset finite_members by blast+
  have "stake_of c (A \<union> B) \<le> cm_total_stake c"
    using assms(2,3) by (intro stake_of_le_total [OF wf]) auto
  moreover note stake_of_Un_Int [OF fin, of c]
  moreover have "2 * cm_total_stake c div 3 + 1 \<le> stake_of c A"
    "2 * cm_total_stake c div 3 + 1 \<le> stake_of c B"
    using assms(1,4,5) by (auto simp: reached_quorum_def committee_wf_def)
  ultimately have "(cm_total_stake c + 2) div 3 \<le> stake_of c (A \<inter> B)"
    by linarith
  then show ?thesis using wf by (simp add: reached_validity_def committee_wf_def)
qed

text \<open>
  Two quorums share an authority outside any set of Byzantine authorities whose stake stays
  below the validity threshold.
\<close>

lemma quorum_overlap_honest:
  assumes wf: "committee_wf c" and "A \<subseteq> members c" "B \<subseteq> members c"
    and "reached_quorum c (stake_of c A)" "reached_quorum c (stake_of c B)"
    and "\<not> reached_validity c (stake_of c byz)" "byz \<subseteq> members c"
  obtains v where "v \<in> A" "v \<in> B" "v \<notin> byz"
proof -
  have "reached_validity c (stake_of c (A \<inter> B))" by (rule quorum_overlap [OF assms(1-5)])
  then have "\<not> A \<inter> B \<subseteq> byz"
    using stake_of_mono [of "A \<inter> B" byz c] assms(6,7) by (auto simp: reached_validity_def)
  then show thesis using that by auto
qed

section \<open>The aggregator counts a set of voters\<close>

definition agg_inv :: "committee \<Rightarrow> stake_aggregator \<Rightarrow> bool" where
  "agg_inv c agg \<longleftrightarrow> set (sa_votes agg) \<subseteq> members c \<and> bs_wf (sa_votes agg) \<and>
     sa_stake agg = stake_of c (set (sa_votes agg))"

lemma agg_inv_new [simp]: "agg_inv c agg_new"
  by (simp add: agg_inv_def agg_new_def)

lemma agg_inv_clear [simp]: "agg_inv c (agg_clear agg)"
  by (simp add: agg_inv_def agg_clear_def)

lemma agg_add_spec:
  assumes "committee_wf c" "agg_inv c agg" "v \<in> members c"
  obtains agg' where "agg_add thr v c agg = Inr (thr c (sa_stake agg'), agg')"
    "agg_inv c agg'" "set (sa_votes agg') = insert v (set (sa_votes agg))"
proof (cases "v \<in> set (sa_votes agg)")
  case True
  then show ?thesis using that [of agg] assms(2) by (auto simp: agg_add_def insert_absorb)
next
  case False
  let ?s = "au_stake (cm_authorities c ! v)"
  let ?agg' = "agg\<lparr> sa_votes := bs_insert v (sa_votes agg), sa_stake := u64_add (sa_stake agg) ?s \<rparr>"
  have sub: "insert v (set (sa_votes agg)) \<subseteq> members c"
    using assms(2,3) by (auto simp: agg_inv_def)
  have sum: "stake_of c (insert v (set (sa_votes agg))) = sa_stake agg + ?s"
    using False assms(2) by (simp add: stake_of_insert agg_inv_def)
  have "sa_stake agg + ?s < 2 ^ 64"
    using stake_of_le_total [OF assms(1) sub] assms(1) by (simp add: sum committee_wf_def)
  then have "agg_inv c ?agg'"
    using assms(2) sub sum by (simp add: agg_inv_def u64_add_exact)
  moreover have "agg_add thr v c agg = Inr (thr c (sa_stake ?agg'), ?agg')"
    using False assms(3) by (simp add: agg_add_def committee_stake_valid Let_def)
  ultimately show ?thesis using that [of ?agg'] by simp
qed

lemma agg_add_Inr_member: "agg_add thr v c agg = Inr r \<Longrightarrow> agg_inv c agg \<Longrightarrow> v \<in> members c"
  by (auto simp: agg_add_def agg_inv_def and_then_eq_Inr committee_stake_Inr split: if_splits)

lemma agg_add_all_spec:
  assumes "committee_wf c" "agg_inv c agg" "set vs \<subseteq> members c"
  shows "\<exists>agg'. agg_add_all thr c vs agg = Inr agg' \<and> agg_inv c agg' \<and>
    set (sa_votes agg') = set vs \<union> set (sa_votes agg)"
  using assms(2,3)
proof (induction vs arbitrary: agg)
  case Nil
  then show ?case by (simp add: agg_add_all_def)
next
  case (Cons v vs)
  have v: "v \<in> members c" using Cons.prems(2) by simp
  obtain agg1 where "agg_add thr v c agg = Inr (thr c (sa_stake agg1), agg1)" "agg_inv c agg1"
    "set (sa_votes agg1) = insert v (set (sa_votes agg))"
    by (rule agg_add_spec [OF assms(1) Cons.prems(1) v])
  then show ?case
    using Cons.IH [of agg1] Cons.prems(2) by (simp add: agg_add_all_def)
qed

lemma agg_add_all_Inr_members:
  "agg_add_all thr c vs agg = Inr agg' \<Longrightarrow> agg_inv c agg \<Longrightarrow> committee_wf c \<Longrightarrow> set vs \<subseteq> members c"
proof (induction vs arbitrary: agg)
  case (Cons v vs)
  from Cons.prems(1) obtain b agg1 where step: "agg_add thr v c agg = Inr (b, agg1)"
    "agg_add_all thr c vs agg1 = Inr agg'"
    by (auto simp: agg_add_all_def and_then_eq_Inr)
  have v: "v \<in> members c" using agg_add_Inr_member [OF step(1) Cons.prems(2)] .
  with agg_add_spec [OF Cons.prems(3,2) v, of thr] step(1) have "agg_inv c agg1"
    by (metis prod.inject sum.inject(2))
  with Cons.IH [OF step(2)] Cons.prems(3) v show ?case by simp
qed simp

text \<open>The trait \<open>CommitteeThreshold\<close>: reaching it is having at least some stake.\<close>

locale committee_threshold =
  fixes is_threshold :: "committee \<Rightarrow> stake \<Rightarrow> bool"
    and threshold :: "committee \<Rightarrow> stake"
  assumes is_threshold_iff: "is_threshold c amount \<longleftrightarrow> threshold c \<le> amount"
    and threshold_pos: "committee_wf c \<Longrightarrow> 0 < threshold c"
begin

lemma reached_mono:
  "A \<subseteq> B \<Longrightarrow> B \<subseteq> members c \<Longrightarrow> is_threshold c (stake_of c A) \<Longrightarrow> is_threshold c (stake_of c B)"
  using stake_of_mono [of A B c] by (auto simp: is_threshold_iff)

text \<open>Adding votes until the threshold is reached decides whether all of them reach it.\<close>

lemma add_until_acc:
  assumes "committee_wf c" "agg_inv c agg" "set vs \<subseteq> members c"
    and "\<not> is_threshold c (sa_stake agg)"
  shows "agg_add_until is_threshold c vs agg =
    Inr (is_threshold c (stake_of c (set vs \<union> set (sa_votes agg))))"
  using assms(2-4)
proof (induction vs arbitrary: agg)
  case Nil
  then show ?case by (simp add: agg_inv_def)
next
  case (Cons v vs)
  have v: "v \<in> members c" using Cons.prems(2) by simp
  obtain agg1 where agg1: "agg_add is_threshold v c agg = Inr (is_threshold c (sa_stake agg1), agg1)"
    "agg_inv c agg1" "set (sa_votes agg1) = insert v (set (sa_votes agg))"
    by (rule agg_add_spec [OF assms(1) Cons.prems(1) v])
  have eq: "set (v # vs) \<union> set (sa_votes agg) = set vs \<union> set (sa_votes agg1)"
    using agg1(3) by auto
  show ?case
  proof (cases "is_threshold c (sa_stake agg1)")
    case True
    then have "is_threshold c (stake_of c (set (sa_votes agg1)))"
      using agg1(2) by (simp add: agg_inv_def)
    moreover have "set vs \<union> set (sa_votes agg1) \<subseteq> members c"
      using Cons.prems(2) agg1(2) by (auto simp: agg_inv_def)
    ultimately have "is_threshold c (stake_of c (set vs \<union> set (sa_votes agg1)))"
      using reached_mono [of "set (sa_votes agg1)" "set vs \<union> set (sa_votes agg1)" c] by blast
    with True agg1(1) eq show ?thesis by simp
  next
    case False
    with Cons.IH [OF agg1(2) _ False] Cons.prems(2) agg1(1) eq show ?thesis by simp
  qed
qed

lemma add_until_new:
  assumes "committee_wf c" "set vs \<subseteq> members c"
  shows "agg_add_until is_threshold c vs agg_new = Inr (is_threshold c (stake_of c (set vs)))"
  using add_until_acc [OF assms(1) agg_inv_new assms(2)] threshold_pos [OF assms(1)]
  by (simp add: is_threshold_iff agg_new_def)

lemma add_until_True:
  assumes "committee_wf c" "agg_add_until is_threshold c vs agg = Inr True" "agg_inv c agg"
    and "set vs \<subseteq> members c"
  shows "is_threshold c (stake_of c (set vs \<union> set (sa_votes agg)))"
proof (cases "is_threshold c (sa_stake agg)")
  case True
  moreover have "set vs \<union> set (sa_votes agg) \<subseteq> members c"
    using assms(3,4) by (auto simp: agg_inv_def)
  ultimately show ?thesis
    using assms(3) reached_mono [of "set (sa_votes agg)" "set vs \<union> set (sa_votes agg)" c]
    by (auto simp: agg_inv_def)
next
  case False
  with add_until_acc [OF assms(1,3,4)] assms(2) show ?thesis by simp
qed

end

interpretation quorum_thr: committee_threshold quorum_is_threshold cm_quorum_threshold
  by unfold_locales (auto simp: quorum_is_threshold_def reached_quorum_def committee_wf_def)

interpretation validity_thr: committee_threshold validity_is_threshold cm_validity_threshold
  by unfold_locales (auto simp: validity_is_threshold_def reached_validity_def committee_wf_def)

section \<open>A concrete committee\<close>

text \<open>Four authorities of stake one, the committee on which theorems are evaluated.\<close>

definition ex_authority :: authority where
  "ex_authority = \<lparr> au_stake = 1, au_address = [], au_hostname = [], au_authority_key = [],
                    au_protocol_key = [], au_network_key = [] \<rparr>"

definition ex_committee :: committee where
  "ex_committee = \<lparr> cm_epoch = 0, cm_total_stake = 4, cm_quorum_threshold = 3,
                    cm_validity_threshold = 2, cm_authorities = replicate 4 ex_authority \<rparr>"

lemma ex_committee_wf [simp]: "committee_wf ex_committee"
  by (simp add: committee_wf_def ex_committee_def ex_authority_def u32_max_def sum_list_replicate)

lemma ex_committee_new: "Committee_new 0 (replicate 4 ex_authority) = Inr ex_committee"
  unfolding Committee_new_def ex_committee_def
  by (simp add: u64_sum_eq u64_add_def u64_mul_def u32_max_def sum_list_replicate Let_def
      ex_authority_def)

lemma ex_committee_size [simp]: "committee_size ex_committee = 4"
  by (simp add: committee_size_def ex_committee_def)

lemma ex_members: "v \<in> members ex_committee \<longleftrightarrow> v < 4"
  by (simp add: members_eq)

lemma ex_stake_of: "A \<subseteq> {..<4} \<Longrightarrow> stake_of ex_committee A = card A"
proof -
  assume "A \<subseteq> {..<4}"
  then have "stake_of ex_committee A = (\<Sum>i\<in>A. 1)"
    unfolding stake_of_def ex_committee_def ex_authority_def by (intro sum.cong) auto
  then show ?thesis by simp
qed

lemma ex_thresholds:
  "reached_quorum ex_committee s \<longleftrightarrow> 3 \<le> s" "reached_validity ex_committee s \<longleftrightarrow> 2 \<le> s"
  by (simp_all add: reached_quorum_def reached_validity_def ex_committee_def)

section \<open>Properties\<close>

text \<open>C5: In a committee built by \<open>Committee::new\<close> without overflow, two sets of authorities that each
  reach the quorum threshold share an authority outside any set of authorities whose stake is
  below the validity threshold.\<close>

theorem quorums_share_an_honest_authority:
  assumes "Committee_new e auths = Inr c" and "2 * sum_list (map au_stake auths) + 2 < 2 ^ 64"
    and "A \<subseteq> members c" "B \<subseteq> members c" "byz \<subseteq> members c"
    and "reached_quorum c (stake_of c A)" "reached_quorum c (stake_of c B)"
    and "\<not> reached_validity c (stake_of c byz)"
  shows "\<exists>v. v \<in> A \<and> v \<in> B \<and> v \<notin> byz"
  using quorum_overlap_honest [OF Committee_new_wf(1) [OF assms(1,2)] assms(3,4,6,7,8,5)] by blast

theorem quorums_share_an_honest_authority_witness:
  "Committee_new 0 (replicate 4 ex_authority) = Inr ex_committee \<and>
     (\<exists>v. v \<in> {0, 1, 2} \<and> v \<in> {1, 2, 3} \<and> v \<notin> {1 :: nat})"
proof
  show "Committee_new 0 (replicate 4 ex_authority) = Inr ex_committee" by (rule ex_committee_new)
  show "\<exists>v. v \<in> {0, 1, 2} \<and> v \<in> {1, 2, 3} \<and> v \<notin> {1 :: nat}"
    by (rule quorums_share_an_honest_authority [OF ex_committee_new])
      (simp_all add: ex_authority_def sum_list_replicate ex_members ex_thresholds ex_stake_of)
qed

text \<open>C6: Adding votes to a fresh \<open>StakeAggregator\<close> never panics for authorities of the committee; the
  stake it holds is that of the set of voters, each counted once whatever the order and repetition
  of votes, and the quorum is reported exactly when that set reaches it.\<close>

theorem aggregator_counts_each_voter_once:
  assumes "committee_wf c" "set votes \<subseteq> members c"
  shows "\<exists>agg. agg_add_all quorum_is_threshold c votes agg_new = Inr agg \<and>
    sa_stake agg = stake_of c (set votes) \<and>
    agg_reached_threshold quorum_is_threshold c agg = reached_quorum c (stake_of c (set votes))"
  using agg_add_all_spec [OF assms(1) agg_inv_new assms(2), of quorum_is_threshold]
  by (auto simp: agg_inv_def agg_new_def agg_reached_threshold_def quorum_is_threshold_def)

theorem aggregator_counts_each_voter_once_witness:
  "\<exists>agg. agg_add_all quorum_is_threshold ex_committee [2, 0, 2, 1] agg_new = Inr agg \<and>
     sa_stake agg = 3 \<and> agg_reached_threshold quorum_is_threshold ex_committee agg"
proof -
  have "set [2, 0, 2, 1] \<subseteq> members ex_committee" by (simp add: ex_members)
  from aggregator_counts_each_voter_once [OF ex_committee_wf this] show ?thesis
    by (simp add: ex_stake_of ex_thresholds card_insert_if numeral_3_eq_3)
qed

end
