(* ===== verification/Consensus_Types.thy ===== *)
theory Consensus_Types
  imports Committees "HOL-Library.Product_Lexorder"
begin

text \<open>
  The data of the consensus protocol: blocks and their references
  (\<^verbatim>\<open>consensus/core/src/block.rs\<close>), commits, sub-dags and leader decisions
  (\<^verbatim>\<open>consensus/core/src/commit.rs\<close>), reputation scores (\<^verbatim>\<open>leader_scoring.rs\<close>), the errors of
  \<^verbatim>\<open>error.rs\<close> and the per-epoch context (\<^verbatim>\<open>context.rs\<close>).

  Serialization (the crate \<open>bcs\<close>), hashing and signatures (the crate \<open>fastcrypto\<close>) are
  fields of the record \<open>crypto\<close>, an argument of every definition that uses them.
\<close>

section \<open>References and slots\<close>

type_synonym round = nat

type_synonym timestamp_ms = nat

type_synonym commit_index = nat

text \<open>
  A digest is an array of 32 bytes ordered lexicographically, that is a 256-bit word in its
  unsigned order; \<open>MIN\<close> and \<open>MAX\<close> are the least and the greatest word.
\<close>

type_synonym digest = "256 word"

definition digest_min :: digest where "digest_min = 0"

definition digest_max :: digest where "digest_max = - 1"

definition genesis_round :: round where "genesis_round = 0"

definition genesis_commit_index :: commit_index where "genesis_commit_index = 0"

definition minimum_wave_length :: round where "minimum_wave_length = 3"

definition default_wave_length :: round where "default_wave_length = minimum_wave_length"

datatype block_ref =
  BlockRef (br_round: round) (br_author: authority_index) (br_digest: digest)

text \<open>The derived order of references: by round, then author, then digest.\<close>

definition block_ref_le :: "block_ref \<Rightarrow> block_ref \<Rightarrow> bool" where
  "block_ref_le a b \<longleftrightarrow>
     br_round a < br_round b \<or>
     br_round a = br_round b \<and>
       (br_author a < br_author b \<or> br_author a = br_author b \<and> br_digest a \<le> br_digest b)"

definition block_ref_lt :: "block_ref \<Rightarrow> block_ref \<Rightarrow> bool" where
  "block_ref_lt a b \<longleftrightarrow>
     br_round a < br_round b \<or>
     br_round a = br_round b \<and>
       (br_author a < br_author b \<or> br_author a = br_author b \<and> br_digest a < br_digest b)"

instantiation block_ref :: linorder
begin

definition less_eq_block_ref :: "block_ref \<Rightarrow> block_ref \<Rightarrow> bool" where
  "less_eq_block_ref = block_ref_le"

definition less_block_ref :: "block_ref \<Rightarrow> block_ref \<Rightarrow> bool" where
  "less_block_ref = block_ref_lt"

instance
  by standard (auto simp: less_eq_block_ref_def less_block_ref_def block_ref_le_def block_ref_lt_def intro: block_ref.expand)

end

lemmas block_ref_less_eq = block_ref_le_def [folded less_eq_block_ref_def]

lemmas block_ref_less = block_ref_lt_def [folded less_block_ref_def]

datatype slot = Slot (slot_round: round) (slot_authority: authority_index)

definition slot_of :: "block_ref \<Rightarrow> slot" where
  "slot_of r = Slot (br_round r) (br_author r)"

datatype commit_ref = CommitRef (cr_index: commit_index) (cr_digest: digest)

type_synonym commit_vote = commit_ref

section \<open>Blocks\<close>

record transaction =
  tx_data :: "byte list"

datatype misbehavior_proof = InvalidBlock block_ref

record misbehavior_report =
  mr_target :: authority_index
  mr_proof :: misbehavior_proof

record block_v1 =
  bv_epoch :: nat
  bv_round :: round
  bv_author :: authority_index
  bv_timestamp_ms :: timestamp_ms
  bv_ancestors :: "block_ref list"
  bv_transactions :: "transaction list"
  bv_commit_votes :: "commit_vote list"
  bv_misbehavior_reports :: "misbehavior_report list"

datatype block = V1 block_v1

fun block_epoch :: "block \<Rightarrow> nat" where "block_epoch (V1 b) = bv_epoch b"

fun block_round :: "block \<Rightarrow> round" where "block_round (V1 b) = bv_round b"

fun block_author :: "block \<Rightarrow> authority_index" where "block_author (V1 b) = bv_author b"

fun block_slot :: "block \<Rightarrow> slot" where "block_slot (V1 b) = Slot (bv_round b) (bv_author b)"

fun block_timestamp_ms :: "block \<Rightarrow> timestamp_ms" where
  "block_timestamp_ms (V1 b) = bv_timestamp_ms b"

fun block_ancestors :: "block \<Rightarrow> block_ref list" where "block_ancestors (V1 b) = bv_ancestors b"

fun block_transactions :: "block \<Rightarrow> transaction list" where
  "block_transactions (V1 b) = bv_transactions b"

fun block_commit_votes :: "block \<Rightarrow> commit_vote list" where
  "block_commit_votes (V1 b) = bv_commit_votes b"

definition block_v1_new ::
  "nat \<Rightarrow> round \<Rightarrow> authority_index \<Rightarrow> timestamp_ms \<Rightarrow> block_ref list \<Rightarrow> transaction list
     \<Rightarrow> commit_vote list \<Rightarrow> misbehavior_report list \<Rightarrow> block_v1" where
  "block_v1_new epoch rnd author timestamp_ms ancestors transactions votes reports =
     \<lparr> bv_epoch = epoch, bv_round = rnd, bv_author = author, bv_timestamp_ms = timestamp_ms,
       bv_ancestors = ancestors, bv_transactions = transactions, bv_commit_votes = votes,
       bv_misbehavior_reports = reports \<rparr>"

definition genesis_block :: "nat \<Rightarrow> authority_index \<Rightarrow> block_v1" where
  "genesis_block epoch author =
     \<lparr> bv_epoch = epoch, bv_round = genesis_round, bv_author = author, bv_timestamp_ms = 0,
       bv_ancestors = [], bv_transactions = [], bv_commit_votes = [],
       bv_misbehavior_reports = [] \<rparr>"

record signed_block =
  sb_inner :: block
  sb_signature :: "byte list"

record verified_block =
  vb_signed :: signed_block
  vb_digest :: digest
  vb_serialized :: "byte list"

text \<open>Access to the inner block through \<open>Deref\<close>, and the reference of a verified block.\<close>

definition vb_inner :: "verified_block \<Rightarrow> block" where "vb_inner b = sb_inner (vb_signed b)"

definition vb_round :: "verified_block \<Rightarrow> round" where "vb_round b = block_round (vb_inner b)"

definition vb_author :: "verified_block \<Rightarrow> authority_index" where
  "vb_author b = block_author (vb_inner b)"

definition vb_slot :: "verified_block \<Rightarrow> slot" where "vb_slot b = block_slot (vb_inner b)"

definition vb_timestamp_ms :: "verified_block \<Rightarrow> timestamp_ms" where
  "vb_timestamp_ms b = block_timestamp_ms (vb_inner b)"

definition vb_ancestors :: "verified_block \<Rightarrow> block_ref list" where
  "vb_ancestors b = block_ancestors (vb_inner b)"

definition vb_commit_votes :: "verified_block \<Rightarrow> commit_vote list" where
  "vb_commit_votes b = block_commit_votes (vb_inner b)"

definition vb_reference :: "verified_block \<Rightarrow> block_ref" where
  "vb_reference b = BlockRef (vb_round b) (vb_author b) (vb_digest b)"

lemma vb_reference_sel [simp]:
  "br_round (vb_reference b) = vb_round b"
  "br_author (vb_reference b) = vb_author b"
  "br_digest (vb_reference b) = vb_digest b"
  by (simp_all add: vb_reference_def)

lemma slot_of_sel [simp]: "slot_round (slot_of r) = br_round r" "slot_authority (slot_of r) = br_author r"
  by (simp_all add: slot_of_def)

lemma slot_of_eq_iff: "slot_of r = s \<longleftrightarrow> br_round r = slot_round s \<and> br_author r = slot_authority s"
  by (cases s) (auto simp: slot_of_def)

lemma vb_slot_eq: "vb_slot b = slot_of (vb_reference b)"
  by (cases "vb_inner b") (simp add: vb_slot_def slot_of_def vb_round_def vb_author_def)

lemmas vb_defs = vb_inner_def vb_round_def vb_author_def vb_slot_def vb_timestamp_ms_def
  vb_ancestors_def vb_commit_votes_def vb_reference_def

section \<open>Commits, sub-dags and leader decisions\<close>

record commit_v1 =
  co_index :: commit_index
  co_previous_digest :: digest
  co_timestamp_ms :: timestamp_ms
  co_leader :: block_ref
  co_blocks :: "block_ref list"

datatype commit = Commit_V1 commit_v1

definition Commit_new ::
  "commit_index \<Rightarrow> digest \<Rightarrow> timestamp_ms \<Rightarrow> block_ref \<Rightarrow> block_ref list \<Rightarrow> commit" where
  "Commit_new index previous_digest timestamp_ms leader blocks =
     Commit_V1 \<lparr> co_index = index, co_previous_digest = previous_digest,
                 co_timestamp_ms = timestamp_ms, co_leader = leader, co_blocks = blocks \<rparr>"

fun commit_round :: "commit \<Rightarrow> round" where "commit_round (Commit_V1 c) = br_round (co_leader c)"

fun commit_index_of :: "commit \<Rightarrow> commit_index" where "commit_index_of (Commit_V1 c) = co_index c"

fun commit_previous_digest :: "commit \<Rightarrow> digest" where
  "commit_previous_digest (Commit_V1 c) = co_previous_digest c"

fun commit_timestamp_ms :: "commit \<Rightarrow> timestamp_ms" where
  "commit_timestamp_ms (Commit_V1 c) = co_timestamp_ms c"

fun commit_leader :: "commit \<Rightarrow> block_ref" where "commit_leader (Commit_V1 c) = co_leader c"

fun commit_blocks :: "commit \<Rightarrow> block_ref list" where "commit_blocks (Commit_V1 c) = co_blocks c"

record trusted_commit =
  tc_inner :: commit
  tc_digest :: digest
  tc_serialized :: "byte list"

definition tc_index :: "trusted_commit \<Rightarrow> commit_index" where
  "tc_index c = commit_index_of (tc_inner c)"

definition tc_timestamp_ms :: "trusted_commit \<Rightarrow> timestamp_ms" where
  "tc_timestamp_ms c = commit_timestamp_ms (tc_inner c)"

definition tc_leader :: "trusted_commit \<Rightarrow> block_ref" where
  "tc_leader c = commit_leader (tc_inner c)"

definition tc_round :: "trusted_commit \<Rightarrow> round" where
  "tc_round c = commit_round (tc_inner c)"

definition tc_blocks :: "trusted_commit \<Rightarrow> block_ref list" where
  "tc_blocks c = commit_blocks (tc_inner c)"

definition tc_reference :: "trusted_commit \<Rightarrow> commit_ref" where
  "tc_reference c = CommitRef (tc_index c) (tc_digest c)"

lemma tc_round_eq: "tc_round c = br_round (tc_leader c)"
  by (cases "tc_inner c") (simp add: tc_round_def tc_leader_def)

lemma Commit_new_sel [simp]:
  "commit_index_of (Commit_new i d t l bs) = i"
  "commit_previous_digest (Commit_new i d t l bs) = d"
  "commit_timestamp_ms (Commit_new i d t l bs) = t"
  "commit_leader (Commit_new i d t l bs) = l"
  "commit_blocks (Commit_new i d t l bs) = bs"
  by (simp_all add: Commit_new_def)

lemmas tc_defs = tc_index_def tc_timestamp_ms_def tc_leader_def tc_round_def tc_blocks_def
  tc_reference_def

record committed_sub_dag =
  sd_leader :: block_ref
  sd_blocks :: "verified_block list"
  sd_timestamp_ms :: timestamp_ms
  sd_commit_ref :: commit_ref
  sd_reputation_scores_desc :: "(authority_index \<times> nat) list"

definition CommittedSubDag_new ::
  "block_ref \<Rightarrow> verified_block list \<Rightarrow> timestamp_ms \<Rightarrow> commit_ref \<Rightarrow> committed_sub_dag" where
  "CommittedSubDag_new leader blocks timestamp_ms commit_ref =
     \<lparr> sd_leader = leader, sd_blocks = blocks, sd_timestamp_ms = timestamp_ms,
       sd_commit_ref = commit_ref, sd_reputation_scores_desc = [] \<rparr>"

definition update_scores ::
  "(authority_index \<times> nat) list \<Rightarrow> committed_sub_dag \<Rightarrow> committed_sub_dag" where
  "update_scores scores sd = sd\<lparr> sd_reputation_scores_desc := scores \<rparr>"

text \<open>\<open>sort_by\<close> on round, then author, is a stable sort by the pair of the two.\<close>

definition sort_sub_dag_blocks :: "verified_block list \<Rightarrow> verified_block list" where
  "sort_sub_dag_blocks blocks = sort_key (\<lambda>b. (vb_round b, vb_author b)) blocks"

datatype decision = Direct | Indirect

datatype leader_status = Commit verified_block | Skip slot | Undecided slot

fun status_round :: "leader_status \<Rightarrow> round" where
  "status_round (Commit b) = vb_round b"
| "status_round (Skip s) = slot_round s"
| "status_round (Undecided s) = slot_round s"

fun is_decided :: "leader_status \<Rightarrow> bool" where
  "is_decided (Commit _) = True"
| "is_decided (Skip _) = True"
| "is_decided (Undecided _) = False"

datatype decided_leader = CommitLeader verified_block | SkipLeader slot

fun into_decided_leader :: "leader_status \<Rightarrow> decided_leader option" where
  "into_decided_leader (Commit b) = Some (CommitLeader b)"
| "into_decided_leader (Skip s) = Some (SkipLeader s)"
| "into_decided_leader (Undecided _) = None"

fun decided_slot :: "decided_leader \<Rightarrow> slot" where
  "decided_slot (CommitLeader b) = slot_of (vb_reference b)"
| "decided_slot (SkipLeader s) = s"

fun into_committed_block :: "decided_leader \<Rightarrow> verified_block option" where
  "into_committed_block (CommitLeader b) = Some b"
| "into_committed_block (SkipLeader _) = None"

datatype commit_range = CommitRange (range_start: commit_index) (range_end: commit_index)

definition range_len :: "commit_range \<Rightarrow> nat" where
  "range_len r = range_end r - range_start r"

definition is_next_range :: "commit_range \<Rightarrow> commit_range \<Rightarrow> bool" where
  "is_next_range r other \<longleftrightarrow> range_len r = range_len other \<and> range_end r = range_start other"

record reputation_scores =
  rs_scores_per_authority :: "nat list"
  rs_commit_range :: commit_range

definition reputation_scores_default :: reputation_scores where
  "reputation_scores_default =
     \<lparr> rs_scores_per_authority = [], rs_commit_range = CommitRange 0 0 \<rparr>"

record commit_info =
  ci_committed_rounds :: "round list"
  ci_reputation_scores :: reputation_scores

section \<open>Errors and context\<close>

text \<open>The variants of \<open>ConsensusError\<close> that the modelled code returns.\<close>

datatype consensus_error =
    MalformedBlock
  | MalformedCommit
  | SerializationFailure
  | UnexpectedAuthority authority_index authority_index
  | WrongEpoch nat nat
  | UnexpectedGenesisBlock
  | UnexpectedGenesisBlockRequested
  | TooManyFetchBlocksRequested authority_index
  | InvalidSizeOfHighestAcceptedRounds nat nat
  | InvalidAuthorityIndex authority_index nat
  | MalformedSignature
  | SignatureVerificationFailure
  | BlockRejected block_ref
  | InvalidAncestorPosition authority_index authority_index nat
  | InvalidAncestorRound round round
  | InvalidGenesisAncestor block_ref
  | TooManyAncestors nat nat
  | DuplicatedAncestorsAuthority authority_index
  | InsufficientParentStakes stake stake
  | InvalidTransaction
  | InvalidBlockTimestamp timestamp_ms timestamp_ms
  | TooManyFetchedBlocksReturned authority_index
  | UnexpectedFetchedBlock authority_index block_ref
  | SynchronizerSaturated authority_index
  | NetworkRequest
  | NetworkRequestTimeout
  | UnknownNetworkPeer
  | PeerDisconnected
  | NetworkConfig
  | NetworkClientConnection
  | NetworkServerConnection
  | UnexpectedStartCommit authority_index commit_index commit
  | UnexpectedCommitSequence authority_index commit commit
  | NoCommitReceived authority_index
  | NotEnoughCommitVotes stake authority_index commit
  | NoAvailableAuthorityToFetchCommits
  | UnexpectedNumberOfBlocksFetched authority_index nat nat
  | UnexpectedBlockForCommit authority_index block_ref block_ref
  | Shutdown

type_synonym 'a consensus_result = "consensus_error + 'a"

record parameters =
  pa_leader_timeout_ms :: nat
  pa_min_round_delay_ms :: nat
  pa_max_forward_time_drift_ms :: nat
  pa_max_blocks_per_fetch :: nat
  pa_dag_state_cached_rounds :: round
  pa_commit_sync_parallel_fetches :: nat
  pa_commit_sync_batch_size :: nat
  pa_commit_sync_batches_ahead :: nat

text \<open>The default of each parameter, outside of simulations.\<close>

definition Parameters_default :: parameters where
  "Parameters_default =
     \<lparr> pa_leader_timeout_ms = 250, pa_min_round_delay_ms = 50, pa_max_forward_time_drift_ms = 500,
       pa_max_blocks_per_fetch = 1000, pa_dag_state_cached_rounds = 500, pa_commit_sync_parallel_fetches = 20,
       pa_commit_sync_batch_size = 100, pa_commit_sync_batches_ahead = 200 \<rparr>"

record protocol_config =
  pc_mysticeti_leader_scoring_and_schedule :: bool
  pc_consensus_bad_nodes_stake_threshold :: nat
  pc_consensus_max_transactions_in_block_bytes :: nat
  pc_consensus_max_transaction_size_bytes :: nat

record epoch_context =
  cx_own_index :: authority_index
  cx_committee :: committee
  cx_parameters :: parameters
  cx_protocol_config :: protocol_config

section \<open>Serialization, digests and signatures\<close>

datatype intent_scope =
    TransactionData | TransactionEffects | CheckpointSummary | PersonalMessage
  | SenderSignedTransaction | ProofOfPossession | HeaderDigest | BridgeEventUnused
  | ConsensusBlock

datatype intent_version = V0

datatype app_id = Sui | Narwhal | Consensus

record intent =
  in_scope :: intent_scope
  in_version :: intent_version
  in_app_id :: app_id

definition consensus_app :: "intent_scope \<Rightarrow> intent" where
  "consensus_app scope = \<lparr> in_scope = scope, in_version = V0, in_app_id = Consensus \<rparr>"

text \<open>
  The functions of \<open>bcs\<close> and \<open>fastcrypto\<close> the code calls. \<open>bcs::to_bytes\<close> returns \<open>None\<close> for a
  serialization error.
\<close>

record crypto =
  cy_bcs_block :: "block \<Rightarrow> byte list option"
  cy_bcs_signed_block :: "signed_block \<Rightarrow> byte list option"
  cy_bcs_commit :: "commit \<Rightarrow> byte list option"
  cy_bcs_intent_message :: "intent \<times> digest \<Rightarrow> byte list option"
  cy_hash :: "byte list \<Rightarrow> digest"
  cy_sign :: "byte list \<Rightarrow> byte list \<Rightarrow> byte list"
  cy_signature_from_bytes :: "byte list \<Rightarrow> byte list option"
  cy_verify :: "byte list \<Rightarrow> byte list \<Rightarrow> byte list \<Rightarrow> bool"

definition ok_or :: "'a option \<Rightarrow> 'e \<Rightarrow> 'e + 'a" where
  "ok_or m e = (case m of None \<Rightarrow> Inl e | Some x \<Rightarrow> Inr x)"

definition compute_inner_block_digest :: "crypto \<Rightarrow> block \<Rightarrow> digest consensus_result" where
  "compute_inner_block_digest cry b =
     and_then (ok_or (cy_bcs_block cry b) SerializationFailure) (\<lambda>bytes. Inr (cy_hash cry bytes))"

definition to_consensus_block_intent :: "digest \<Rightarrow> intent \<times> digest" where
  "to_consensus_block_intent d = (consensus_app ConsensusBlock, d)"

definition compute_block_signature ::
  "crypto \<Rightarrow> block \<Rightarrow> byte list \<Rightarrow> byte list consensus_result" where
  "compute_block_signature cry b protocol_keypair =
     and_then (compute_inner_block_digest cry b) (\<lambda>d.
     and_then (ok_or (cy_bcs_intent_message cry (to_consensus_block_intent d)) SerializationFailure)
       (\<lambda>message. Inr (cy_sign cry protocol_keypair message)))"

definition verify_block_signature ::
  "crypto \<Rightarrow> block \<Rightarrow> byte list \<Rightarrow> byte list \<Rightarrow> unit consensus_result" where
  "verify_block_signature cry b signature protocol_pubkey =
     and_then (compute_inner_block_digest cry b) (\<lambda>d.
     and_then (ok_or (cy_bcs_intent_message cry (to_consensus_block_intent d)) SerializationFailure)
       (\<lambda>message.
     and_then (ok_or (cy_signature_from_bytes cry signature) MalformedSignature) (\<lambda>sig.
       if cy_verify cry protocol_pubkey message sig then Inr ()
       else Inl SignatureVerificationFailure)))"

definition SignedBlock_new_genesis :: "block \<Rightarrow> signed_block" where
  "SignedBlock_new_genesis b = \<lparr> sb_inner = b, sb_signature = [] \<rparr>"

definition SignedBlock_new :: "crypto \<Rightarrow> block \<Rightarrow> byte list \<Rightarrow> signed_block consensus_result" where
  "SignedBlock_new cry b protocol_keypair =
     and_then (compute_block_signature cry b protocol_keypair)
       (\<lambda>signature. Inr \<lparr> sb_inner = b, sb_signature = signature \<rparr>)"

definition verify_signature :: "crypto \<Rightarrow> committee \<Rightarrow> signed_block \<Rightarrow> unit consensus_result" where
  "verify_signature cry c sb =
     (let author = block_author (sb_inner sb) in
      if \<not> is_valid_index c author then Inl (InvalidAuthorityIndex author (committee_size c - 1))
      else verify_block_signature cry (sb_inner sb) (sb_signature sb)
             (au_protocol_key (cm_authorities c ! author)))"

definition VerifiedBlock_new_verified :: "crypto \<Rightarrow> signed_block \<Rightarrow> byte list \<Rightarrow> verified_block" where
  "VerifiedBlock_new_verified cry sb serialized =
     \<lparr> vb_signed = sb, vb_digest = cy_hash cry serialized, vb_serialized = serialized \<rparr>"

definition TrustedCommit_new_trusted :: "crypto \<Rightarrow> commit \<Rightarrow> byte list \<Rightarrow> trusted_commit" where
  "TrustedCommit_new_trusted cry c serialized =
     \<lparr> tc_inner = c, tc_digest = cy_hash cry serialized, tc_serialized = serialized \<rparr>"

definition genesis_blocks :: "crypto \<Rightarrow> epoch_context \<Rightarrow> verified_block list res" where
  "genesis_blocks cry cx =
     map_res (\<lambda>(authority_index, _).
       let sb = SignedBlock_new_genesis (V1 (genesis_block (cm_epoch (cx_committee cx)) authority_index))
       in and_then (expect (cy_bcs_signed_block cry sb) (DagPanic GenesisSerializationFailed))
            (\<lambda>serialized. Inr (VerifiedBlock_new_verified cry sb serialized)))
       (committee_authorities (cx_committee cx))"

lemma TrustedCommit_new_trusted_sel [simp]:
  "tc_inner (TrustedCommit_new_trusted cry c ser) = c"
  "tc_serialized (TrustedCommit_new_trusted cry c ser) = ser"
  "tc_digest (TrustedCommit_new_trusted cry c ser) = cy_hash cry ser"
  by (simp_all add: TrustedCommit_new_trusted_def)

text \<open>The genesis block of every authority, in authority order.\<close>

lemma genesis_blocks_spec:
  assumes "genesis_blocks cry cx = Inr bs"
  shows "length bs = committee_size (cx_committee cx)"
    and "\<And>i. i < length bs \<Longrightarrow> vb_round (bs ! i) = 0 \<and> vb_author (bs ! i) = i \<and>
           vb_ancestors (bs ! i) = [] \<and> vb_timestamp_ms (bs ! i) = 0"
proof -
  note all2 = assms [unfolded genesis_blocks_def map_res_eq_Inr]
  show len: "length bs = committee_size (cx_committee cx)"
    using list_all2_lengthD [OF all2] by (simp add: committee_authorities_def committee_size_def)
  fix i assume i: "i < length bs"
  with list_all2_nthD2 [OF all2 i] len obtain ser where
    "VerifiedBlock_new_verified cry
       (SignedBlock_new_genesis (V1 (genesis_block (cm_epoch (cx_committee cx)) i))) ser = bs ! i"
    by (auto simp: committee_authorities_def committee_size_def nth_enumerate_eq Let_def
        and_then_eq_Inr)
  from this [symmetric] show "vb_round (bs ! i) = 0 \<and> vb_author (bs ! i) = i \<and>
           vb_ancestors (bs ! i) = [] \<and> vb_timestamp_ms (bs ! i) = 0"
    by (simp add: VerifiedBlock_new_verified_def SignedBlock_new_genesis_def
        genesis_block_def genesis_round_def vb_defs)
qed

text \<open>Sorting a sub-dag keeps its blocks and orders them by round, then author.\<close>

lemma sort_sub_dag_blocks_perm:
  "mset (sort_sub_dag_blocks bs) = mset bs" "set (sort_sub_dag_blocks bs) = set bs"
  "distinct (sort_sub_dag_blocks bs) = distinct bs"
  by (simp_all add: sort_sub_dag_blocks_def)

lemma sort_sub_dag_blocks_sorted:
  "sorted (map (\<lambda>b. (vb_round b, vb_author b)) (sort_sub_dag_blocks bs))"
  by (simp add: sort_sub_dag_blocks_def)

lemma digest_bounds [simp]: "digest_min \<le> d" "d \<le> digest_max"
  by (simp_all add: digest_min_def digest_max_def)

section \<open>Maps of blocks\<close>

text \<open>Blocks collected into a map by their reference, which orders them by round and author.\<close>

abbreviation add_block :: "(block_ref \<times> verified_block) list \<Rightarrow> verified_block \<Rightarrow> (block_ref \<times> verified_block) list" where
  "add_block m b \<equiv> bm_insert (vb_reference b) b m"

lemma add_blocks:
  "bm_wf m \<Longrightarrow> bm_wf (foldl add_block m bs)"
  "map_of (foldl add_block m bs) = map_of m ++ map_of (rev (map (\<lambda>b. (vb_reference b, b)) bs))"
  by (induction bs arbitrary: m) (auto simp: map_add_def fun_eq_iff split: option.splits)

lemma added_block_mem:
  assumes "distinct (map vb_reference bs)"
  shows "(r, b) \<in> set (foldl add_block [] bs) \<longleftrightarrow> b \<in> set bs \<and> vb_reference b = r"
proof -
  have wf: "bm_wf (foldl add_block [] bs)" by (simp add: add_blocks(1))
  have "distinct (map fst (rev (map (\<lambda>b. (vb_reference b, b)) bs)))"
    using assms by (simp add: comp_def flip: rev_map)
  then show ?thesis
    unfolding bm_wf_mem [OF wf] add_blocks(2) by (auto simp: map_of_eq_Some_iff)
qed

lemma added_blocks:
  assumes "distinct (map vb_reference bs)"
  shows "set (map snd (foldl add_block [] bs)) = set bs"
    and "sorted_wrt (<) (map vb_reference (map snd (foldl add_block [] bs)))"
proof -
  let ?m = "foldl add_block [] bs"
  note mem = added_block_mem [OF assms]
  then show "set (map snd ?m) = set bs" by (force simp: image_iff)
  have "bm_wf ?m" by (simp add: add_blocks(1))
  moreover have "map vb_reference (map snd ?m) = map fst ?m" using mem by auto
  ultimately show "sorted_wrt (<) (map vb_reference (map snd ?m))"
    unfolding bm_wf_def strict_sorted_iff by metis
qed

end
