(* ===== verification/Stores.thy ===== *)
theory Stores
  imports Consensus_Types
begin

text \<open>
  Persistent storage: the trait \<open>Store\<close> (\<^verbatim>\<open>consensus/core/src/storage/mod.rs\<close>) as the locale
  \<open>block_store\<close>, its in-memory implementation (\<^verbatim>\<open>storage/mem_store.rs\<close>) as the record
  \<open>mem_store\<close> with an interpretation of the locale, and the recovery of a committed sub-dag from
  storage (\<^verbatim>\<open>commit.rs\<close>).
\<close>

section \<open>In-memory store\<close>

record write_batch =
  wb_blocks :: "verified_block list"
  wb_commits :: "trusted_commit list"
  wb_commit_info :: "(commit_ref \<times> commit_info) list"

definition WriteBatch_new ::
  "verified_block list \<Rightarrow> trusted_commit list \<Rightarrow> (commit_ref \<times> commit_info) list \<Rightarrow> write_batch" where
  "WriteBatch_new blocks commits infos =
     \<lparr> wb_blocks = blocks, wb_commits = commits, wb_commit_info = infos \<rparr>"

record mem_store =
  ms_blocks :: "((round \<times> authority_index \<times> digest) \<times> verified_block) list"
  ms_digests_by_authorities :: "(authority_index \<times> round \<times> digest) list"
  ms_commits :: "((commit_index \<times> digest) \<times> trusted_commit) list"
  ms_commit_votes :: "(commit_index \<times> digest \<times> block_ref) list"
  ms_commit_info :: "((commit_index \<times> digest) \<times> commit_info) list"

definition MemStore_new :: mem_store where
  "MemStore_new = \<lparr> ms_blocks = [], ms_digests_by_authorities = [], ms_commits = [],
                    ms_commit_votes = [], ms_commit_info = [] \<rparr>"

definition ref_key :: "block_ref \<Rightarrow> round \<times> authority_index \<times> digest" where
  "ref_key r = (br_round r, br_author r, br_digest r)"

definition mem_write_block :: "verified_block \<Rightarrow> mem_store \<Rightarrow> mem_store" where
  "mem_write_block b ms =
     (let r = vb_reference b in
      ms\<lparr> ms_blocks := bm_insert (ref_key r) b (ms_blocks ms),
          ms_digests_by_authorities :=
            bs_insert (br_author r, br_round r, br_digest r) (ms_digests_by_authorities ms),
          ms_commit_votes :=
            bs_extend (map (\<lambda>v. (cr_index v, cr_digest v, r)) (vb_commit_votes b))
              (ms_commit_votes ms) \<rparr>)"

definition mem_write_commit :: "trusted_commit \<Rightarrow> mem_store \<Rightarrow> mem_store" where
  "mem_write_commit c ms =
     ms\<lparr> ms_commits := bm_insert (tc_index c, tc_digest c) c (ms_commits ms) \<rparr>"

definition mem_write_commit_info :: "commit_ref \<times> commit_info \<Rightarrow> mem_store \<Rightarrow> mem_store" where
  "mem_write_commit_info ri ms =
     ms\<lparr> ms_commit_info :=
           bm_insert (cr_index (fst ri), cr_digest (fst ri)) (snd ri) (ms_commit_info ms) \<rparr>"

definition mem_write :: "write_batch \<Rightarrow> mem_store \<Rightarrow> mem_store" where
  "mem_write wb ms =
     fold mem_write_commit_info (wb_commit_info wb)
       (fold mem_write_commit (wb_commits wb)
         (fold mem_write_block (wb_blocks wb) ms))"

definition mem_read_blocks :: "mem_store \<Rightarrow> block_ref list \<Rightarrow> verified_block option list" where
  "mem_read_blocks ms refs = map (\<lambda>r. map_of (ms_blocks ms) (ref_key r)) refs"

definition mem_contains_blocks :: "mem_store \<Rightarrow> block_ref list \<Rightarrow> bool list" where
  "mem_contains_blocks ms refs = map (\<lambda>r. ref_key r \<in> fst ` set (ms_blocks ms)) refs"

definition mem_contains_block_at_slot :: "mem_store \<Rightarrow> slot \<Rightarrow> bool" where
  "mem_contains_block_at_slot ms s =
     (filter (\<lambda>k. (slot_authority s, slot_round s, digest_min) \<le> k \<and>
                  k \<le> (slot_authority s, slot_round s, digest_max))
        (ms_digests_by_authorities ms) \<noteq> [])"

definition mem_scan_blocks_by_author ::
  "mem_store \<Rightarrow> authority_index \<Rightarrow> round \<Rightarrow> verified_block list res" where
  "mem_scan_blocks_by_author ms author start_round =
     (let refs = map (\<lambda>(a, r, d). BlockRef r a d)
                   (filter (\<lambda>k. (author, start_round, digest_min) \<le> k \<and>
                                k \<le> (author, u32_max, digest_max))
                     (ms_digests_by_authorities ms))
      in map_res (\<lambda>b. expect b (DagPanic BlockNotFound)) (mem_read_blocks ms refs))"

text \<open>
  The layout of a \<open>VecDeque\<close> of block references: capacity, index of the first element, and
  length. A full buffer grows to at least four entries and at least twice its size; a buffer that
  wraps around moves its shorter part. \<open>as_slices().0\<close> ends with the buffer.
\<close>

fun deque_push_front :: "nat \<times> nat \<times> nat \<Rightarrow> nat \<times> nat \<times> nat" where
  "deque_push_front (cap, head, len) =
     (let cap' = (if len = cap then max 4 (2 * cap) else cap);
          head' = (if len \<noteq> cap \<or> head = 0 \<or> cap - head > head then head
                   else cap' - (cap - head))
      in (cap', if head' = 0 then cap' - 1 else head' - 1, len + 1))"

fun deque_first_slice_len :: "nat \<times> nat \<times> nat \<Rightarrow> nat" where
  "deque_first_slice_len (cap, head, len) = min len (cap - head)"

definition first_slice :: "'a list \<Rightarrow> 'a list" where
  "first_slice xs = take (deque_first_slice_len ((deque_push_front ^^ length xs) (0, 0, 0))) xs"

definition mem_scan_last_blocks_by_author ::
  "mem_store \<Rightarrow> authority_index \<Rightarrow> nat \<Rightarrow> round option \<Rightarrow> verified_block list res" where
  "mem_scan_last_blocks_by_author ms author num_of_rounds before_round =
     (let before = (case before_round of None \<Rightarrow> u32_max | Some r \<Rightarrow> r);
          hits = filter (\<lambda>k. (author, 0, digest_min) \<le> k \<and> k \<le> (author, before, digest_max))
                   (ms_digests_by_authorities ms);
          refs = map (\<lambda>(a, r, d). BlockRef r a d) (drop (length hits - num_of_rounds) hits)
      in map_res (\<lambda>b. expect b (DagPanic BlockNotFound)) (mem_read_blocks ms (first_slice refs)))"

definition mem_read_last_commit :: "mem_store \<Rightarrow> trusted_commit option" where
  "mem_read_last_commit ms = map_option snd (last_opt (ms_commits ms))"

definition mem_scan_commits :: "mem_store \<Rightarrow> commit_range \<Rightarrow> trusted_commit list res" where
  "mem_scan_commits ms rng =
     and_then (assert_that (range_start rng \<le> range_end rng) InvalidRange) (\<lambda>_.
       Inr (map snd (filter (\<lambda>(k, _). (range_start rng, digest_min) \<le> k \<and>
                                      k < (range_end rng, digest_min)) (ms_commits ms))))"

definition mem_read_commit_votes :: "mem_store \<Rightarrow> commit_index \<Rightarrow> block_ref list" where
  "mem_read_commit_votes ms index =
     map (\<lambda>(_, _, r). r)
       (filter (\<lambda>k. (index, digest_min, BlockRef 0 0 digest_min) \<le> k \<and>
                    k \<le> (index, digest_max, BlockRef u32_max u32_max digest_max))
         (ms_commit_votes ms))"

definition mem_read_last_commit_info :: "mem_store \<Rightarrow> (commit_ref \<times> commit_info) option" where
  "mem_read_last_commit_info ms =
     map_option (\<lambda>(k, v). (CommitRef (fst k) (snd k), v)) (last_opt (ms_commit_info ms))"

definition load_committed_subdag_from_store ::
  "mem_store \<Rightarrow> trusted_commit \<Rightarrow> committed_sub_dag res" where
  "load_committed_subdag_from_store ms c =
     and_then (map_res (\<lambda>b. expect b (DagPanic BlockNotFound)) (mem_read_blocks ms (tc_blocks c)))
       (\<lambda>blocks.
         let leader_block_idx =
           last_opt (filter (\<lambda>i. vb_reference (blocks ! i) = tc_leader c) [0..<length blocks])
         in and_then (expect leader_block_idx (CommitPanic LeaderNotInSubdag)) (\<lambda>idx.
              Inr (CommittedSubDag_new (vb_reference (blocks ! idx)) blocks
                     (tc_timestamp_ms c) (tc_reference c))))"

section \<open>Contract of a store\<close>

definition block_entries :: "verified_block list \<Rightarrow> (block_ref \<times> verified_block) list" where
  "block_entries bs = map (\<lambda>b. (vb_reference b, b)) bs"

text \<open>
  What \<open>DagState\<close> relies on: reads answer from one map of blocks by reference, and a write
  adds its blocks to that map, later ones over earlier ones.
\<close>

locale block_store =
  fixes read_blocks :: "'s \<Rightarrow> block_ref list \<Rightarrow> verified_block option list"
    and contains_blocks :: "'s \<Rightarrow> block_ref list \<Rightarrow> bool list"
    and scan_by_author :: "'s \<Rightarrow> authority_index \<Rightarrow> round \<Rightarrow> verified_block list res"
    and store_write :: "write_batch \<Rightarrow> 's \<Rightarrow> 's"
    and block_of :: "'s \<Rightarrow> block_ref \<Rightarrow> verified_block option"
    and store_inv :: "'s \<Rightarrow> bool"
  assumes read: "read_blocks s refs = map (block_of s) refs"
    and contains: "contains_blocks s refs = map (\<lambda>r. block_of s r \<noteq> None) refs"
    and write_law: "block_of (store_write wb s) =
      block_of s ++ map_of (rev (block_entries (wb_blocks wb)))"
    and write_inv: "store_inv s \<Longrightarrow> store_inv (store_write wb s)"
    and ref: "store_inv s \<Longrightarrow> block_of s r = Some b \<Longrightarrow> vb_reference b = r"
    and scan: "store_inv s \<Longrightarrow> \<exists>bs. scan_by_author s a start = Inr bs \<and>
      set bs = {b. \<exists>r. block_of s r = Some b \<and> br_author r = a \<and>
                       start \<le> br_round r \<and> br_round r \<le> u32_max}"
begin

lemma write_read:
  assumes "b \<in> set (wb_blocks wb)" "distinct (map vb_reference (wb_blocks wb))"
  shows "block_of (store_write wb s) (vb_reference b) = Some b"
proof -
  have "map_of (rev (block_entries (wb_blocks wb))) (vb_reference b) = Some b"
    using assms by (intro map_of_is_SomeI) (auto simp: block_entries_def rev_map comp_def simp flip: rev_map)
  then show ?thesis by (simp add: write_law)
qed

lemma write_keeps:
  assumes "store_inv s" "block_of s r = Some b"
  shows "\<exists>b'. block_of (store_write wb s) r = Some b' \<and> vb_reference b' = r"
proof -
  have "\<exists>b'. block_of (store_write wb s) r = Some b'"
    using assms(2) by (auto simp: write_law map_add_def split: option.splits)
  then show ?thesis using ref [OF write_inv [OF assms(1)]] by blast
qed

lemma written_dom:
  "block_of (store_write wb s) r \<noteq> None \<longleftrightarrow>
     block_of s r \<noteq> None \<or> r \<in> vb_reference ` set (wb_blocks wb)"
proof -
  have "fst ` set (block_entries (wb_blocks wb)) = vb_reference ` set (wb_blocks wb)"
    by (force simp: block_entries_def)
  then show ?thesis
    using map_of_eq_None_iff [of "rev (block_entries (wb_blocks wb))" r]
    by (auto simp: write_law map_add_def split: option.splits)
qed

end

section \<open>The in-memory store meets the contract\<close>

definition mem_block :: "mem_store \<Rightarrow> block_ref \<Rightarrow> verified_block option" where
  "mem_block ms r = map_of (ms_blocks ms) (ref_key r)"

definition mem_inv :: "mem_store \<Rightarrow> bool" where
  "mem_inv ms \<longleftrightarrow>
     bm_wf (ms_blocks ms) \<and> bs_wf (ms_digests_by_authorities ms) \<and>
     (\<forall>k b. map_of (ms_blocks ms) k = Some b \<longrightarrow> k = ref_key (vb_reference b)) \<and>
     (\<forall>a r d. (a, r, d) \<in> set (ms_digests_by_authorities ms) \<longleftrightarrow>
              (r, a, d) \<in> dom (map_of (ms_blocks ms))) \<and>
     bm_wf (ms_commits ms) \<and>
     (\<forall>k c. map_of (ms_commits ms) k = Some c \<longrightarrow> k = (tc_index c, tc_digest c)) \<and>
     bm_wf (ms_commit_info ms)"

lemma ref_key_inj [simp]: "ref_key a = ref_key b \<longleftrightarrow> a = b"
  by (cases a; cases b) (simp add: ref_key_def)

lemma mem_write_block_frames:
  "ms_commits (fold mem_write_block bs ms) = ms_commits ms"
  "ms_commit_info (fold mem_write_block bs ms) = ms_commit_info ms"
  by (induction bs arbitrary: ms) (simp_all add: mem_write_block_def Let_def)

lemma mem_write_commit_frames:
  "ms_blocks (fold mem_write_commit cs ms) = ms_blocks ms"
  "ms_digests_by_authorities (fold mem_write_commit cs ms) = ms_digests_by_authorities ms"
  "ms_commit_info (fold mem_write_commit cs ms) = ms_commit_info ms"
  by (induction cs arbitrary: ms) (simp_all add: mem_write_commit_def)

lemma mem_write_commit_info_frames:
  "ms_blocks (fold mem_write_commit_info infos ms) = ms_blocks ms"
  "ms_digests_by_authorities (fold mem_write_commit_info infos ms) = ms_digests_by_authorities ms"
  "ms_commits (fold mem_write_commit_info infos ms) = ms_commits ms"
  by (induction infos arbitrary: ms) (simp_all add: mem_write_commit_info_def)

lemmas mem_write_frames = mem_write_block_frames mem_write_commit_frames mem_write_commit_info_frames

lemma mem_inv_new [simp]: "mem_inv MemStore_new"
  by (simp add: mem_inv_def MemStore_new_def)

lemma mem_inv_write_block: "mem_inv ms \<Longrightarrow> mem_inv (mem_write_block b ms)"
  by (auto simp: mem_inv_def mem_write_block_def Let_def ref_key_def split: if_splits)

lemma mem_inv_write_commit: "mem_inv ms \<Longrightarrow> mem_inv (mem_write_commit c ms)"
  by (auto simp: mem_inv_def mem_write_commit_def split: if_splits)

lemma mem_inv_write_commit_info: "mem_inv ms \<Longrightarrow> mem_inv (mem_write_commit_info i ms)"
  by (auto simp: mem_inv_def mem_write_commit_info_def)

lemma mem_inv_write: "mem_inv ms \<Longrightarrow> mem_inv (mem_write wb ms)"
proof -
  assume "mem_inv ms"
  then have "mem_inv (fold mem_write_block (wb_blocks wb) ms)"
    by (rule fold_invariant [where Q = "\<lambda>_. True", rotated]) (auto intro: mem_inv_write_block)
  then have "mem_inv (fold mem_write_commit (wb_commits wb) (fold mem_write_block (wb_blocks wb) ms))"
    by (rule fold_invariant [where Q = "\<lambda>_. True", rotated]) (auto intro: mem_inv_write_commit)
  then show ?thesis unfolding mem_write_def
    by (rule fold_invariant [where Q = "\<lambda>_. True", rotated]) (auto intro: mem_inv_write_commit_info)
qed

lemma mem_block_write_blocks:
  "mem_block (fold mem_write_block bs ms) = mem_block ms ++ map_of (rev (block_entries bs))"
proof (induction bs arbitrary: ms)
  case (Cons b bs)
  have "mem_block (mem_write_block b ms) = (mem_block ms)(vb_reference b \<mapsto> b)"
    by (auto simp: mem_block_def mem_write_block_def Let_def fun_eq_iff)
  with Cons.IH [of "mem_write_block b ms"] show ?case
    by (auto simp: block_entries_def fun_eq_iff map_add_def split: option.splits)
qed (simp add: block_entries_def)

lemma mem_block_write:
  "mem_block (mem_write wb ms) = mem_block ms ++ map_of (rev (block_entries (wb_blocks wb)))"
  unfolding mem_block_write_blocks [symmetric]
  by (simp add: mem_block_def mem_write_def mem_write_frames fun_eq_iff)

lemma author_range:
  "(a, s, digest_min) \<le> (a', r, d) \<and> (a', r, d) \<le> (a, e, digest_max) \<longleftrightarrow>
     a' = (a :: authority_index) \<and> s \<le> (r :: round) \<and> r \<le> e"
  by auto

lemma mem_block_ref: "mem_inv s \<Longrightarrow> mem_block s r = Some b \<Longrightarrow> vb_reference b = r"
  unfolding mem_inv_def mem_block_def by (metis ref_key_inj)

lemma mem_digests_mem:
  "mem_inv s \<Longrightarrow> (a, r, d) \<in> set (ms_digests_by_authorities s) \<longleftrightarrow> mem_block s (BlockRef r a d) \<noteq> None"
  by (auto simp: mem_inv_def mem_block_def ref_key_def)

lemma mem_scan_set:
  assumes inv: "mem_inv ms"
  shows "\<exists>bs. mem_scan_blocks_by_author ms a start = Inr bs \<and>
    set bs = {b. \<exists>r. mem_block ms r = Some b \<and> br_author r = a \<and>
                     start \<le> br_round r \<and> br_round r \<le> u32_max}"
proof -
  define keys where "keys = filter (\<lambda>k. (a, start, digest_min) \<le> k \<and> k \<le> (a, u32_max, digest_max))
    (ms_digests_by_authorities ms)"
  define refs where "refs = map (\<lambda>(a, r, d). BlockRef r a d) keys"
  have refs: "set refs = {r. mem_block ms r \<noteq> None \<and> br_author r = a \<and>
      start \<le> br_round r \<and> br_round r \<le> u32_max}" (is "_ = ?R")
  proof (rule set_eqI)
    fix r
    have "r \<in> set refs \<longleftrightarrow> (br_author r, br_round r, br_digest r) \<in> set keys"
      unfolding refs_def by (cases r) force
    also have "\<dots> \<longleftrightarrow> r \<in> ?R"
      unfolding keys_def set_filter mem_Collect_eq author_range mem_digests_mem [OF inv]
      by auto
    finally show "r \<in> set refs \<longleftrightarrow> r \<in> ?R" .
  qed
  let ?bs = "map (\<lambda>r. the (mem_block ms r)) refs"
  have "mem_read_blocks ms refs = map Some ?bs"
    using refs by (auto simp: mem_read_blocks_def mem_block_def)
  then have "mem_scan_blocks_by_author ms a start = Inr ?bs"
    unfolding mem_scan_blocks_by_author_def Let_def keys_def [symmetric] refs_def [symmetric]
    by (simp only: map_res_expect)
  moreover have "set ?bs = {b. \<exists>r. mem_block ms r = Some b \<and> br_author r = a \<and>
      start \<le> br_round r \<and> br_round r \<le> u32_max}"
    using refs by (auto simp: image_iff) force
  ultimately show ?thesis by blast
qed

interpretation mem: block_store mem_read_blocks mem_contains_blocks mem_scan_blocks_by_author
  mem_write mem_block mem_inv
proof unfold_locales
  fix s refs wb r b a start
  show "mem_read_blocks s refs = map (mem_block s) refs"
    by (simp add: mem_read_blocks_def mem_block_def)
  show "mem_contains_blocks s refs = map (\<lambda>r. mem_block s r \<noteq> None) refs"
    by (simp add: mem_contains_blocks_def mem_block_def keys_eq_dom dom_def)
  show "mem_block (mem_write wb s) = mem_block s ++ map_of (rev (block_entries (wb_blocks wb)))"
    by (rule mem_block_write)
  show "mem_inv s \<Longrightarrow> mem_inv (mem_write wb s)" by (rule mem_inv_write)
  show "mem_inv s \<Longrightarrow> mem_block s r = Some b \<Longrightarrow> vb_reference b = r"
    by (rule mem_block_ref)
  show "mem_inv s \<Longrightarrow> \<exists>bs. mem_scan_blocks_by_author s a start = Inr bs \<and>
      set bs = {b. \<exists>r. mem_block s r = Some b \<and> br_author r = a \<and>
                       start \<le> br_round r \<and> br_round r \<le> u32_max}"
    by (rule mem_scan_set)
qed

end
