(* ===== verification/Dag_State.thy ===== *)
theory Dag_State
  imports Stores
begin

text \<open>
  The in-memory DAG of accepted blocks over persistent storage
  (\<^verbatim>\<open>consensus/core/src/dag_state.rs\<close>). The lock around \<open>DagState\<close> is explicit state passing; the
  clock of the context is the argument \<open>now\<close>; metrics, logs and the wall time of the last
  commit, which only feeds a metric, are left out.

  \<open>dag_lookup\<close> is the abstract view of the state, one map of blocks by reference. The lemmas
  show that the cached and batched operations implement it, and that the cache invariant
  \<open>dag_inv\<close> is kept.
\<close>

section \<open>State and operations\<close>

record dag_state =
  ds_context :: epoch_context
  ds_genesis :: "(block_ref \<times> verified_block) list"
  ds_recent_blocks :: "(block_ref \<times> verified_block) list"
  ds_recent_refs :: "block_ref list list"
  ds_highest_accepted_round :: round
  ds_last_commit :: "trusted_commit option"
  ds_last_committed_rounds :: "round list"
  ds_unscored_committed_subdags :: "committed_sub_dag list"
  ds_pending_commit_votes :: "commit_vote list"
  ds_blocks_to_write :: "verified_block list"
  ds_commits_to_write :: "trusted_commit list"
  ds_commit_info_to_write :: "(commit_ref \<times> commit_info) list"
  ds_store :: mem_store
  ds_cached_rounds :: round

definition eviction_round :: "round \<Rightarrow> round \<Rightarrow> round" where
  "eviction_round committed cached = committed - cached"

definition update_block_metadata :: "verified_block \<Rightarrow> dag_state \<Rightarrow> dag_state res" where
  "update_block_metadata b ds =
     (let r = vb_reference b in
      and_then (vec_get (ds_recent_refs ds) (br_author r)) (\<lambda>refs.
        Inr (ds\<lparr> ds_recent_blocks := bm_insert r b (ds_recent_blocks ds),
                 ds_recent_refs := (ds_recent_refs ds)[br_author r := bs_insert r refs],
                 ds_highest_accepted_round := max (ds_highest_accepted_round ds) (vb_round b) \<rparr>)))"

text \<open>One committed block raises the last committed round of its author.\<close>

definition raise_committed_round :: "block_ref \<Rightarrow> round list \<Rightarrow> round list res" where
  "raise_committed_round r rounds =
     and_then (vec_get rounds (br_author r)) (\<lambda>old.
       vec_set rounds (br_author r) (max old (br_round r)))"

definition recover_commit ::
  "epoch_context \<Rightarrow> mem_store \<Rightarrow> trusted_commit \<Rightarrow> round list \<times> committed_sub_dag list
     \<Rightarrow> (round list \<times> committed_sub_dag list) res" where
  "recover_commit cx store c = (\<lambda>(rounds, subdags).
     and_then (for_each raise_committed_round (tc_blocks c) rounds) (\<lambda>rounds'.
       if pc_mysticeti_leader_scoring_and_schedule (cx_protocol_config cx)
       then and_then (load_committed_subdag_from_store store c) (\<lambda>sd. Inr (rounds', subdags @ [sd]))
       else Inr (rounds', subdags)))"

definition DagState_new :: "crypto \<Rightarrow> epoch_context \<Rightarrow> mem_store \<Rightarrow> dag_state res" where
  "DagState_new cry cx store =
     (let cached_rounds = pa_dag_state_cached_rounds (cx_parameters cx);
          num_authorities = committee_size (cx_committee cx) in
      and_then (genesis_blocks cry cx) (\<lambda>gs.
      let genesis = foldl (\<lambda>m b. bm_insert (vb_reference b) b m) [] gs;
          last_commit = mem_read_last_commit store;
          (rounds, start_index) = (case mem_read_last_commit_info store of
              Some (cref, info) \<Rightarrow> (ci_committed_rounds info, u32_add (cr_index cref) 1)
            | None \<Rightarrow> (replicate num_authorities 0, genesis_commit_index + 1))
      in
      and_then
        (case last_commit of
           Some c \<Rightarrow>
             and_then (mem_scan_commits store (CommitRange start_index (u32_add (tc_index c) 1)))
               (\<lambda>commits. for_each (recover_commit cx store) commits (rounds, []))
         | None \<Rightarrow> Inr (rounds, []))
        (\<lambda>(last_committed_rounds, unscored).
      let state = \<lparr> ds_context = cx, ds_genesis = genesis, ds_recent_blocks = [],
                    ds_recent_refs = replicate num_authorities [],
                    ds_highest_accepted_round = 0, ds_last_commit = last_commit,
                    ds_last_committed_rounds = last_committed_rounds,
                    ds_unscored_committed_subdags = unscored, ds_pending_commit_votes = [],
                    ds_blocks_to_write = [], ds_commits_to_write = [],
                    ds_commit_info_to_write = [], ds_store = store,
                    ds_cached_rounds = cached_rounds \<rparr>
      in for_each (\<lambda>(i, r) s.
           and_then (expect (to_authority_index (cx_committee cx) i) IndexOutOfBounds) (\<lambda>a.
           and_then (mem_scan_blocks_by_author store a (u32_add (eviction_round r cached_rounds) 1))
             (\<lambda>blocks. for_each update_block_metadata blocks s)))
           (List.enumerate 0 last_committed_rounds) state)))"

text \<open>What the first pass of \<open>get_blocks\<close> answers without storage.\<close>

definition cached_block :: "dag_state \<Rightarrow> block_ref \<Rightarrow> verified_block option option" where
  "cached_block ds r =
     (if br_round r = genesis_round then Some (map_of (ds_genesis ds) r)
      else map_option Some (map_of (ds_recent_blocks ds) r))"

definition get_blocks :: "dag_state \<Rightarrow> block_ref list \<Rightarrow> verified_block option list" where
  "get_blocks ds refs =
     (let (blocks, missing) = lookup_pass (cached_block ds) None refs in
      if missing = [] then blocks
      else fill_results blocks missing (mem_read_blocks (ds_store ds) (map snd missing)))"

definition get_block :: "dag_state \<Rightarrow> block_ref \<Rightarrow> verified_block option" where
  "get_block ds r = last (get_blocks ds [r])"

text \<open>What the first pass of \<open>contains_blocks\<close> answers without storage.\<close>

definition cached_contains :: "dag_state \<Rightarrow> block_ref \<times> block_ref list \<Rightarrow> bool option" where
  "cached_contains ds = (\<lambda>(r, recent_refs).
     if r \<in> set recent_refs \<or> map_of (ds_genesis ds) r \<noteq> None then Some True
     else if recent_refs = [] \<or> br_round (last recent_refs) < br_round r then Some False
     else None)"

definition contains_blocks :: "dag_state \<Rightarrow> block_ref list \<Rightarrow> bool list res" where
  "contains_blocks ds refs =
     and_then
       (map_res (\<lambda>r. and_then (vec_get (ds_recent_refs ds) (br_author r)) (\<lambda>rs. Inr (r, rs))) refs)
       (\<lambda>pairs.
         let (exist, missing) = lookup_pass (cached_contains ds) False pairs in
         if missing = [] then Inr exist
         else Inr (fill_results exist missing
                (mem_contains_blocks (ds_store ds) (map (\<lambda>(_, r, _). r) missing))))"

definition contains_block :: "dag_state \<Rightarrow> block_ref \<Rightarrow> bool res" where
  "contains_block ds r =
     and_then (contains_blocks ds [r]) (\<lambda>bs. expect (first_opt bs) IndexOutOfBounds)"

definition get_uncommitted_blocks_at_slot :: "dag_state \<Rightarrow> slot \<Rightarrow> verified_block list" where
  "get_uncommitted_blocks_at_slot ds s =
     map snd (filter (\<lambda>(r, _). BlockRef (slot_round s) (slot_authority s) digest_min \<le> r \<and>
                               r \<le> BlockRef (slot_round s) (slot_authority s) digest_max)
       (ds_recent_blocks ds))"

definition last_commit_round :: "dag_state \<Rightarrow> round" where
  "last_commit_round ds =
     (case ds_last_commit ds of Some c \<Rightarrow> br_round (tc_leader c) | None \<Rightarrow> 0)"

definition last_commit_index :: "dag_state \<Rightarrow> commit_index" where
  "last_commit_index ds = (case ds_last_commit ds of Some c \<Rightarrow> tc_index c | None \<Rightarrow> 0)"

definition last_commit_digest :: "dag_state \<Rightarrow> digest" where
  "last_commit_digest ds = (case ds_last_commit ds of Some c \<Rightarrow> tc_digest c | None \<Rightarrow> digest_min)"

definition last_commit_timestamp_ms :: "dag_state \<Rightarrow> timestamp_ms" where
  "last_commit_timestamp_ms ds =
     (case ds_last_commit ds of Some c \<Rightarrow> tc_timestamp_ms c | None \<Rightarrow> 0)"

definition last_commit_leader :: "dag_state \<Rightarrow> slot res" where
  "last_commit_leader ds =
     (case ds_last_commit ds of
        Some c \<Rightarrow> Inr (slot_of (tc_leader c))
      | None \<Rightarrow> and_then (expect (first_opt (ds_genesis ds)) (DagPanic GenesisNotFound))
                  (\<lambda>(r, _). Inr (slot_of r)))"

definition get_uncommitted_blocks_at_round :: "dag_state \<Rightarrow> round \<Rightarrow> verified_block list res" where
  "get_uncommitted_blocks_at_round ds rnd =
     (if rnd \<le> last_commit_round ds then Inl (DagPanic RoundAlreadyCommitted)
      else if u32_add rnd 1 < rnd then Inl InvalidRange
      else Inr (map snd (filter (\<lambda>(r, _). BlockRef rnd 0 digest_min \<le> r \<and>
                                          r < BlockRef (u32_add rnd 1) 0 digest_min)
                  (ds_recent_blocks ds))))"

definition ancestors_at_round :: "dag_state \<Rightarrow> verified_block \<Rightarrow> round \<Rightarrow> verified_block list res" where
  "ancestors_at_round ds later_block earlier_round =
     and_then
       (while_res
         (\<lambda>linked. linked \<noteq> [] \<and> \<not> br_round (last linked) \<le> earlier_round)
         (\<lambda>linked. and_then (expect (get_block ds (last linked)) (DagPanic BlockNotFound))
                     (\<lambda>b. Inr (bs_extend (vb_ancestors b) (butlast linked))))
         (bs_extend (vb_ancestors later_block) []))
       (\<lambda>linked. map_res (\<lambda>r. expect (get_block ds r) (DagPanic BlockNotFound))
                   (filter (\<lambda>r. BlockRef earlier_round 0 digest_min \<le> r) linked))"

definition authority_eviction_round :: "dag_state \<Rightarrow> authority_index \<Rightarrow> round res" where
  "authority_eviction_round ds a =
     and_then (vec_get (ds_last_committed_rounds ds) a) (\<lambda>commit_round.
       Inr (eviction_round commit_round (ds_cached_rounds ds)))"

definition get_last_block_for_authority :: "dag_state \<Rightarrow> authority_index \<Rightarrow> verified_block res" where
  "get_last_block_for_authority ds a =
     and_then (vec_get (ds_recent_refs ds) a) (\<lambda>refs.
       case last_opt refs of
         Some r \<Rightarrow> expect (map_of (ds_recent_blocks ds) r) (DagPanic BlockNotFound)
       | None \<Rightarrow> and_then (expect (List.find (\<lambda>(r, _). br_author r = a) (ds_genesis ds))
                             (DagPanic GenesisNotFound)) (\<lambda>(_, b). Inr b))"

definition get_cached_blocks ::
  "dag_state \<Rightarrow> authority_index \<Rightarrow> round \<Rightarrow> verified_block list res" where
  "get_cached_blocks ds a start =
     and_then (vec_get (ds_recent_refs ds) a) (\<lambda>refs.
       map_res (\<lambda>r. expect (map_of (ds_recent_blocks ds) r) (DagPanic BlockNotFound))
         (filter (\<lambda>r. BlockRef start a digest_min \<le> r) refs))"

definition last_cached_step ::
  "dag_state \<Rightarrow> round \<Rightarrow> nat \<times> block_ref list \<Rightarrow> verified_block list \<Rightarrow> verified_block list res" where
  "last_cached_step ds end_round = (\<lambda>(i, refs) blocks.
     and_then (expect (to_authority_index (cx_committee (ds_context ds)) i) IndexOutOfBounds) (\<lambda>a.
     and_then (authority_eviction_round ds a) (\<lambda>evicted.
     and_then (assert_that (\<not> end_round - 1 \<le> evicted) (DagPanic RoundEvicted)) (\<lambda>_.
       case last_opt (filter (\<lambda>r. BlockRef (u32_add evicted 1) a digest_min \<le> r \<and>
                                  r < BlockRef end_round a digest_min) refs) of
         Some r \<Rightarrow>
           and_then (expect (map_of (ds_recent_blocks ds) r) (DagPanic BlockNotFound)) (\<lambda>b.
             vec_set blocks a b)
       | None \<Rightarrow> Inr blocks))))"

definition genesis_blocks_of :: "dag_state \<Rightarrow> verified_block list" where
  "genesis_blocks_of ds = map snd (ds_genesis ds)"

definition get_last_cached_block_per_authority ::
  "dag_state \<Rightarrow> round \<Rightarrow> verified_block list res" where
  "get_last_cached_block_per_authority ds end_round =
     (let blocks = map snd (ds_genesis ds) in
      if end_round = genesis_round then Inl (DagPanic BeforeGenesis)
      else if end_round = genesis_round + 1 then Inr blocks
      else for_each (last_cached_step ds end_round)
             (List.enumerate 0 (ds_recent_refs ds)) blocks)"

definition contains_cached_block_at_slot :: "dag_state \<Rightarrow> slot \<Rightarrow> bool res" where
  "contains_cached_block_at_slot ds s =
     (if slot_round s = genesis_round then Inr True
      else and_then (authority_eviction_round ds (slot_authority s)) (\<lambda>evicted.
        if slot_round s \<le> evicted then Inl (DagPanic RoundEvicted)
        else and_then (vec_get (ds_recent_refs ds) (slot_authority s)) (\<lambda>refs.
          Inr (filter (\<lambda>r. BlockRef (slot_round s) (slot_authority s) digest_min \<le> r \<and>
                           r \<le> BlockRef (slot_round s) (slot_authority s) digest_max) refs \<noteq> []))))"

definition accept_block :: "timestamp_ms \<Rightarrow> verified_block \<Rightarrow> dag_state \<Rightarrow> dag_state res" where
  "accept_block now b ds =
     and_then (assert_that (vb_round b \<noteq> 0) (DagPanic GenesisBlockAccepted)) (\<lambda>_.
     let r = vb_reference b in
     and_then (contains_block ds r) (\<lambda>known.
     if known then Inr ds
     else if vb_timestamp_ms b > now then Inl (DagPanic BlockFromTheFuture)
     else
       and_then (assert_that
           (br_author r = cx_own_index (ds_context ds) \<longrightarrow>
              get_uncommitted_blocks_at_slot ds (slot_of r) = []) (DagPanic OwnSlotTaken)) (\<lambda>_.
       and_then (update_block_metadata b ds) (\<lambda>ds'.
         Inr (ds'\<lparr> ds_blocks_to_write := ds_blocks_to_write ds' @ [b] \<rparr>)))))"

definition accept_blocks :: "timestamp_ms \<Rightarrow> verified_block list \<Rightarrow> dag_state \<Rightarrow> dag_state res" where
  "accept_blocks now = for_each (accept_block now)"

definition add_commit :: "trusted_commit \<Rightarrow> dag_state \<Rightarrow> dag_state res" where
  "add_commit c ds =
     (let record_commit =
        and_then (for_each raise_committed_round (tc_blocks c) (ds_last_committed_rounds ds))
          (\<lambda>rounds. Inr (ds\<lparr> ds_last_commit := Some c,
                             ds_last_committed_rounds := rounds,
                             ds_pending_commit_votes := ds_pending_commit_votes ds @ [tc_reference c],
                             ds_commits_to_write := ds_commits_to_write ds @ [c] \<rparr>))
      in case ds_last_commit ds of
        Some prev \<Rightarrow>
          if tc_index c \<le> tc_index prev then Inr ds
          else if tc_index c \<noteq> u32_add (tc_index prev) 1 then Inl (CommitPanic CommitIndexGap)
          else if tc_timestamp_ms c < tc_timestamp_ms prev then
            Inl (CommitPanic CommitTimestampRegressed)
          else record_commit
      | None \<Rightarrow>
          if tc_index c \<noteq> 1 then Inl (CommitPanic FirstCommitIndexNotOne) else record_commit)"

definition add_commit_info :: "reputation_scores \<Rightarrow> dag_state \<Rightarrow> dag_state res" where
  "add_commit_info scores ds =
     and_then (assert_that (ds_unscored_committed_subdags ds = [])
                 (CommitPanic UnscoredSubdagsNotEmpty)) (\<lambda>_.
     let info = \<lparr> ci_committed_rounds = ds_last_committed_rounds ds,
                  ci_reputation_scores = scores \<rparr> in
     and_then (expect (ds_last_commit ds) (CommitPanic NoLastCommit)) (\<lambda>c.
       Inr (ds\<lparr> ds_commit_info_to_write :=
                  ds_commit_info_to_write ds @ [(tc_reference c, info)] \<rparr>)))"

text \<open>The loop of \<open>take_commit_votes\<close> moves votes from the queue until it has \<open>limit\<close> of them.\<close>

fun take_votes :: "nat \<Rightarrow> commit_vote list \<Rightarrow> commit_vote list \<Rightarrow> commit_vote list \<times> commit_vote list" where
  "take_votes limit votes [] = (votes, [])"
| "take_votes limit votes (v # pending) =
     (if length votes < limit then take_votes limit (votes @ [v]) pending else (votes, v # pending))"

definition take_commit_votes :: "nat \<Rightarrow> dag_state \<Rightarrow> commit_vote list \<times> dag_state" where
  "take_commit_votes limit ds =
     (let (votes, pending) = take_votes limit [] (ds_pending_commit_votes ds)
      in (votes, ds\<lparr> ds_pending_commit_votes := pending \<rparr>))"

text \<open>Eviction of one authority's references, and of all authorities', by \<open>flush\<close>.\<close>

fun evict_refs ::
  "round \<Rightarrow> block_ref list \<Rightarrow> (block_ref \<times> verified_block) list
     \<Rightarrow> block_ref list \<times> (block_ref \<times> verified_block) list" where
  "evict_refs evicted [] blocks = ([], blocks)"
| "evict_refs evicted (r # refs) blocks =
     (if br_round r \<le> evicted then evict_refs evicted refs (bm_remove r blocks)
      else (r # refs, blocks))"

fun evict_all ::
  "round \<Rightarrow> block_ref list list \<Rightarrow> round list \<Rightarrow> (block_ref \<times> verified_block) list
     \<Rightarrow> block_ref list list \<times> (block_ref \<times> verified_block) list" where
  "evict_all cached (refs # rest) (committed # rounds) blocks =
     (let (refs', blocks') = evict_refs (eviction_round committed cached) refs blocks;
          (rest', blocks'') = evict_all cached rest rounds blocks'
      in (refs' # rest', blocks''))"
| "evict_all cached rest rounds blocks = (rest, blocks)"

definition flush :: "dag_state \<Rightarrow> dag_state" where
  "flush ds =
     (let blocks = ds_blocks_to_write ds;
          commits = ds_commits_to_write ds;
          scoring = pc_mysticeti_leader_scoring_and_schedule (cx_protocol_config (ds_context ds));
          infos = (if scoring then ds_commit_info_to_write ds
                   else if commits = [] then []
                   else [(tc_reference (last commits),
                          \<lparr> ci_committed_rounds = ds_last_committed_rounds ds,
                            ci_reputation_scores = reputation_scores_default \<rparr>)]);
          ds1 = ds\<lparr> ds_blocks_to_write := [], ds_commits_to_write := [],
                    ds_commit_info_to_write := (if scoring then [] else ds_commit_info_to_write ds) \<rparr>
      in if blocks = [] \<and> commits = [] then ds1
         else
           let (refs, recent) = evict_all (ds_cached_rounds ds) (ds_recent_refs ds)
                                  (ds_last_committed_rounds ds) (ds_recent_blocks ds)
           in ds1\<lparr> ds_store := mem_write (WriteBatch_new blocks commits infos) (ds_store ds),
                   ds_recent_refs := refs, ds_recent_blocks := recent \<rparr>)"

fun last_quorum_at :: "dag_state \<Rightarrow> round list \<Rightarrow> verified_block list res" where
  "last_quorum_at ds [] = Inl (DagPanic NoQuorumInDag)"
| "last_quorum_at ds (rnd # rounds) =
     (if rnd = genesis_round then Inr (genesis_blocks_of ds)
      else and_then (get_uncommitted_blocks_at_round ds rnd) (\<lambda>blocks.
        and_then (agg_add_until quorum_is_threshold (cx_committee (ds_context ds))
                    (map vb_author blocks) agg_new) (\<lambda>reached.
          if reached then Inr blocks else last_quorum_at ds rounds)))"

definition last_quorum :: "dag_state \<Rightarrow> verified_block list res" where
  "last_quorum ds =
     (let h = ds_highest_accepted_round ds in last_quorum_at ds (rev [h - 1..<h + 1]))"

definition recover_last_commit_info :: "dag_state \<Rightarrow> (commit_ref \<times> commit_info) option" where
  "recover_last_commit_info ds = mem_read_last_commit_info (ds_store ds)"

definition unscored_committed_subdags_count :: "dag_state \<Rightarrow> nat" where
  "unscored_committed_subdags_count ds = length (ds_unscored_committed_subdags ds)"

definition add_unscored_committed_subdags :: "committed_sub_dag list \<Rightarrow> dag_state \<Rightarrow> dag_state" where
  "add_unscored_committed_subdags subdags ds =
     ds\<lparr> ds_unscored_committed_subdags := ds_unscored_committed_subdags ds @ subdags \<rparr>"

definition take_unscored_committed_subdags :: "dag_state \<Rightarrow> committed_sub_dag list \<times> dag_state" where
  "take_unscored_committed_subdags ds =
     (ds_unscored_committed_subdags ds, ds\<lparr> ds_unscored_committed_subdags := [] \<rparr>)"

end
