(* ===== verification/Dag_Invariant.thy ===== *)
theory Dag_Invariant
  imports Dag_State
begin

text \<open>
  The cache invariant of \<open>DagState\<close> and what its operations do to the abstract view
  \<open>dag_lookup\<close>: batched reads, existence checks with their shortcut, accepting blocks, recording
  commits, and flushing with eviction.
\<close>

section \<open>Abstract view\<close>

definition dag_lookup :: "dag_state \<Rightarrow> block_ref \<Rightarrow> verified_block option" where
  "dag_lookup ds r =
     (if br_round r = genesis_round then map_of (ds_genesis ds) r
      else case map_of (ds_recent_blocks ds) r of
             Some b \<Rightarrow> Some b
           | None \<Rightarrow> mem_block (ds_store ds) r)"

lemma get_blocks_eq: "get_blocks ds refs = map (dag_lookup ds) refs"
proof -
  obtain acc missing where pass: "lookup_pass (cached_block ds) None refs = (acc, missing)"
    by fastforce
  have "get_blocks ds refs = fill_results acc missing (map (mem_block (ds_store ds)) (map snd missing))"
    unfolding get_blocks_def Let_def pass by (simp add: mem.read)
  also have "\<dots> = map (dag_lookup ds) refs"
    unfolding lookup_two_passes [OF pass]
    by (auto simp: cached_block_def dag_lookup_def split: option.splits)
  finally show ?thesis .
qed

lemma get_block_eq [simp]: "get_block ds r = dag_lookup ds r"
  by (simp add: get_block_def get_blocks_eq)

section \<open>Invariant\<close>

abbreviation num_authorities :: "dag_state \<Rightarrow> nat" where
  "num_authorities ds \<equiv> committee_size (cx_committee (ds_context ds))"

abbreviation evicted_of :: "dag_state \<Rightarrow> authority_index \<Rightarrow> round" where
  "evicted_of ds a \<equiv> eviction_round (ds_last_committed_rounds ds ! a) (ds_cached_rounds ds)"

definition genesis_wf :: "dag_state \<Rightarrow> bool" where
  "genesis_wf ds \<longleftrightarrow>
     map (br_author \<circ> fst) (ds_genesis ds) = [0..<num_authorities ds] \<and> 0 < num_authorities ds \<and>
     (\<forall>r b. (r, b) \<in> set (ds_genesis ds) \<longrightarrow>
        vb_reference b = r \<and> br_round r = 0 \<and> vb_ancestors b = [] \<and> vb_timestamp_ms b = 0)"

text \<open>The cached blocks and the per-authority references describe the same blocks.\<close>

definition cache_wf :: "dag_state \<Rightarrow> bool" where
  "cache_wf ds \<longleftrightarrow>
     length (ds_recent_refs ds) = num_authorities ds \<and>
     length (ds_last_committed_rounds ds) = num_authorities ds \<and>
     bm_wf (ds_recent_blocks ds) \<and>
     (\<forall>r b. map_of (ds_recent_blocks ds) r = Some b \<longrightarrow>
        vb_reference b = r \<and> 0 < br_round r \<and> br_author r < num_authorities ds) \<and>
     (\<forall>a < num_authorities ds.
        bs_wf (ds_recent_refs ds ! a) \<and>
        set (ds_recent_refs ds ! a) = {r \<in> dom (map_of (ds_recent_blocks ds)). br_author r = a})"

text \<open>The cache agrees with storage, and what storage lacks is waiting to be written.\<close>

definition cache_sync :: "dag_state \<Rightarrow> bool" where
  "cache_sync ds \<longleftrightarrow>
     mem_inv (ds_store ds) \<and>
     (\<forall>r b. mem_block (ds_store ds) r = Some b \<longrightarrow>
        0 < br_round r \<and> br_author r < num_authorities ds) \<and>
     (\<forall>r b b'. map_of (ds_recent_blocks ds) r = Some b \<longrightarrow>
        mem_block (ds_store ds) r = Some b' \<longrightarrow> b' = b) \<and>
     (\<forall>b \<in> set (ds_blocks_to_write ds). map_of (ds_recent_blocks ds) (vb_reference b) = Some b) \<and>
     (\<forall>r b. map_of (ds_recent_blocks ds) r = Some b \<longrightarrow>
        mem_block (ds_store ds) r = None \<longrightarrow> b \<in> set (ds_blocks_to_write ds))"

text \<open>
  Above its eviction round every stored block of an authority is cached, and so is a block at its
  last committed round. No authority has a committed round after the round of the last commit.
\<close>

definition cache_complete :: "dag_state \<Rightarrow> bool" where
  "cache_complete ds \<longleftrightarrow>
     0 < ds_cached_rounds ds \<and>
     (\<forall>r. mem_block (ds_store ds) r \<noteq> None \<longrightarrow> evicted_of ds (br_author r) < br_round r \<longrightarrow>
        map_of (ds_recent_blocks ds) r \<noteq> None) \<and>
     (\<forall>a < num_authorities ds. 0 < ds_last_committed_rounds ds ! a \<longrightarrow>
        (\<exists>r. map_of (ds_recent_blocks ds) r \<noteq> None \<and> br_author r = a \<and>
             br_round r = ds_last_committed_rounds ds ! a)) \<and>
     (\<forall>a < num_authorities ds. ds_last_committed_rounds ds ! a \<le> last_commit_round ds)"

definition dag_inv :: "dag_state \<Rightarrow> bool" where
  "dag_inv ds \<longleftrightarrow> genesis_wf ds \<and> cache_wf ds \<and> cache_sync ds \<and> cache_complete ds"

lemma dag_invD:
  assumes "dag_inv ds"
  shows "genesis_wf ds" "cache_wf ds" "cache_sync ds" "cache_complete ds"
  using assms by (simp_all add: dag_inv_def)

lemma genesis_lookup:
  "genesis_wf ds \<Longrightarrow> map_of (ds_genesis ds) r = Some b \<Longrightarrow>
     vb_reference b = r \<and> br_round r = 0 \<and> vb_ancestors b = [] \<and> vb_timestamp_ms b = 0"
  unfolding genesis_wf_def using map_of_SomeD by fast

lemma genesis_author:
  assumes "genesis_wf ds" "map_of (ds_genesis ds) r = Some b"
  shows "br_author r < num_authorities ds"
proof -
  from assms(2) have "br_author r \<in> set (map (br_author \<circ> fst) (ds_genesis ds))"
    by (force dest: map_of_SomeD)
  with assms(1) show ?thesis unfolding genesis_wf_def by simp
qed

lemma cache_refs:
  "cache_wf ds \<Longrightarrow> a < num_authorities ds \<Longrightarrow>
     set (ds_recent_refs ds ! a) = {r \<in> dom (map_of (ds_recent_blocks ds)). br_author r = a}"
  "cache_wf ds \<Longrightarrow> a < num_authorities ds \<Longrightarrow> bs_wf (ds_recent_refs ds ! a)"
  by (simp_all add: cache_wf_def)

lemma cache_lookup:
  "cache_wf ds \<Longrightarrow> map_of (ds_recent_blocks ds) r = Some b \<Longrightarrow>
     vb_reference b = r \<and> 0 < br_round r \<and> br_author r < num_authorities ds"
  by (simp add: cache_wf_def)

lemma cache_syncD:
  assumes "cache_sync ds"
  shows "mem_inv (ds_store ds)"
    and "mem_block (ds_store ds) r = Some b \<Longrightarrow> 0 < br_round r \<and> br_author r < num_authorities ds"
    and "map_of (ds_recent_blocks ds) r = Some b \<Longrightarrow> mem_block (ds_store ds) r = Some b' \<Longrightarrow> b' = b"
    and "b \<in> set (ds_blocks_to_write ds) \<Longrightarrow> map_of (ds_recent_blocks ds) (vb_reference b) = Some b"
    and "map_of (ds_recent_blocks ds) r = Some b \<Longrightarrow> mem_block (ds_store ds) r = None \<Longrightarrow>
           b \<in> set (ds_blocks_to_write ds)"
  using assms unfolding cache_sync_def by blast+

lemma cache_completeD:
  assumes "cache_complete ds"
  shows "0 < ds_cached_rounds ds"
    and "mem_block (ds_store ds) r \<noteq> None \<Longrightarrow> evicted_of ds (br_author r) < br_round r \<Longrightarrow>
           map_of (ds_recent_blocks ds) r \<noteq> None"
    and "a < num_authorities ds \<Longrightarrow> 0 < ds_last_committed_rounds ds ! a \<Longrightarrow>
           \<exists>r. map_of (ds_recent_blocks ds) r \<noteq> None \<and> br_author r = a \<and>
               br_round r = ds_last_committed_rounds ds ! a"
    and "a < num_authorities ds \<Longrightarrow> ds_last_committed_rounds ds ! a \<le> last_commit_round ds"
  using assms unfolding cache_complete_def by blast+

lemma dag_lookup_ref:
  assumes "dag_inv ds" "dag_lookup ds r = Some b"
  shows "vb_reference b = r" and "br_author r < num_authorities ds"
  using assms genesis_lookup [of ds r b] genesis_author [of ds r b] cache_lookup [of ds r b]
    mem_block_ref [of "ds_store ds" r b]
  by (auto simp: dag_inv_def dag_lookup_def cache_sync_def split: if_splits option.splits)

text \<open>A stored block that is not cached lies at or below a cached round of its author.\<close>

lemma uncached_below_last:
  assumes inv: "dag_inv ds" and "mem_block (ds_store ds) r \<noteq> None"
    and "map_of (ds_recent_blocks ds) r = None"
  shows "ds_recent_refs ds ! br_author r \<noteq> []"
    and "br_round r \<le> br_round (last (ds_recent_refs ds ! br_author r))"
proof -
  let ?a = "br_author r"
  from inv assms(2) have r: "0 < br_round r" "?a < num_authorities ds"
    by (auto simp: dag_inv_def cache_sync_def)
  from inv assms have "br_round r \<le> evicted_of ds ?a" "0 < ds_cached_rounds ds"
    unfolding dag_inv_def cache_complete_def by (meson not_le)+
  then have below: "br_round r < ds_last_committed_rounds ds ! ?a"
    using r(1) by (simp add: eviction_round_def)
  with inv r(2) obtain q where q: "map_of (ds_recent_blocks ds) q \<noteq> None" "br_author q = ?a"
    "br_round q = ds_last_committed_rounds ds ! ?a"
    unfolding dag_inv_def cache_complete_def by (metis gr_implies_not0 neq0_conv)
  then have mem: "q \<in> set (ds_recent_refs ds ! ?a)"
    using cache_refs(1) [OF dag_invD(2) [OF inv] r(2)] by auto
  then show "ds_recent_refs ds ! ?a \<noteq> []" by auto
  from bs_wf_last_max [OF cache_refs(2) [OF dag_invD(2) [OF inv] r(2)] mem]
  have "br_round q \<le> br_round (last (ds_recent_refs ds ! ?a))"
    by (auto simp: block_ref_less_eq)
  with below q(3) show "br_round r \<le> br_round (last (ds_recent_refs ds ! ?a))" by simp
qed

section \<open>Existence checks\<close>

lemma cached_contains_eq:
  assumes inv: "dag_inv ds" and a: "br_author r < num_authorities ds"
  shows "(case cached_contains ds (r, ds_recent_refs ds ! br_author r) of
            Some v \<Rightarrow> v | None \<Rightarrow> mem_block (ds_store ds) r \<noteq> None) \<longleftrightarrow> dag_lookup ds r \<noteq> None"
proof (cases "br_round r = 0")
  case True
  then have "mem_block (ds_store ds) r = None" "map_of (ds_recent_blocks ds) r = None"
    using inv cache_lookup [OF dag_invD(2) [OF inv], of r]
    by (cases "mem_block (ds_store ds) r"; cases "map_of (ds_recent_blocks ds) r";
        fastforce simp: dag_inv_def cache_sync_def)+
  with True show ?thesis
    using cache_refs(1) [OF dag_invD(2) [OF inv] a]
    by (auto simp: cached_contains_def dag_lookup_def genesis_round_def)
next
  case False
  then have "map_of (ds_genesis ds) r = None"
    using genesis_lookup [OF dag_invD(1) [OF inv], of r] by (cases "map_of (ds_genesis ds) r") auto
  note genesis = this
  have refs: "r \<in> set (ds_recent_refs ds ! br_author r) \<longleftrightarrow> map_of (ds_recent_blocks ds) r \<noteq> None"
    using cache_refs(1) [OF dag_invD(2) [OF inv] a] by (simp add: dom_def)
  show ?thesis
  proof (cases "map_of (ds_recent_blocks ds) r")
    case None
    with False genesis refs uncached_below_last [OF inv _ None] show ?thesis
      by (cases "mem_block (ds_store ds) r")
        (auto simp: cached_contains_def dag_lookup_def genesis_round_def)
  next
    case (Some b)
    with False refs show ?thesis
      by (simp add: cached_contains_def dag_lookup_def genesis_round_def)
  qed
qed

lemma contains_blocks_eq:
  assumes inv: "dag_inv ds" and "\<And>r. r \<in> set refs \<Longrightarrow> br_author r < num_authorities ds"
  shows "contains_blocks ds refs = Inr (map (\<lambda>r. dag_lookup ds r \<noteq> None) refs)"
proof -
  let ?pairs = "map (\<lambda>r. (r, ds_recent_refs ds ! br_author r)) refs"
  have len: "length (ds_recent_refs ds) = num_authorities ds"
    using inv by (simp add: dag_inv_def cache_wf_def)
  have pairs: "map_res (\<lambda>r. and_then (vec_get (ds_recent_refs ds) (br_author r))
      (\<lambda>rs. Inr (r, rs))) refs = Inr ?pairs"
    using assms(2) len by (intro map_res_Inr) simp
  obtain acc missing where pass: "lookup_pass (cached_contains ds) False ?pairs = (acc, missing)"
    by fastforce
  have store: "mem_contains_blocks (ds_store ds) (map (\<lambda>(_, r, _). r) missing) =
      map (\<lambda>p. mem_block (ds_store ds) (fst p) \<noteq> None) (map snd missing)"
    by (auto simp: mem.contains)
  have "contains_blocks ds refs = Inr (fill_results acc missing
      (map (\<lambda>p. mem_block (ds_store ds) (fst p) \<noteq> None) (map snd missing)))"
    unfolding contains_blocks_def pairs and_then_Inr pass Let_def prod.case store by auto
  also have "\<dots> = Inr (map (\<lambda>r. dag_lookup ds r \<noteq> None) refs)"
    unfolding lookup_two_passes [OF pass]
    using cached_contains_eq [OF inv] assms(2) by (simp add: comp_def cong: option.case_cong del: not_None_eq)
  finally show ?thesis .
qed

lemma contains_block_eq:
  "dag_inv ds \<Longrightarrow> br_author r < num_authorities ds \<Longrightarrow>
     contains_block ds r = Inr (dag_lookup ds r \<noteq> None)"
  using contains_blocks_eq [of ds "[r]"] by (simp add: contains_block_def del: not_None_eq)

section \<open>Blocks of a slot or a round\<close>

lemma slot_range:
  "BlockRef rnd a digest_min \<le> r \<and> r \<le> BlockRef rnd a digest_max \<longleftrightarrow>
     br_round r = rnd \<and> br_author r = a"
  by (cases r) (auto simp: block_ref_less_eq)

lemma round_range:
  "BlockRef rnd 0 digest_min \<le> r \<and> r < BlockRef (Suc rnd) 0 digest_min \<longleftrightarrow> br_round r = rnd"
  by (cases r) (auto simp: block_ref_less_eq block_ref_less digest_min_def)

lemma set_uncommitted_at_slot:
  assumes "cache_wf ds"
  shows "set (get_uncommitted_blocks_at_slot ds s) =
    {b. map_of (ds_recent_blocks ds) (vb_reference b) = Some b \<and> slot_of (vb_reference b) = s}"
proof -
  have mem: "(r, b) \<in> set (ds_recent_blocks ds) \<longleftrightarrow> map_of (ds_recent_blocks ds) r = Some b" for r b
    using assms by (intro bm_wf_mem) (simp add: cache_wf_def)
  have ref: "map_of (ds_recent_blocks ds) r = Some b \<longleftrightarrow>
      r = vb_reference b \<and> map_of (ds_recent_blocks ds) (vb_reference b) = Some b" for r b
    using cache_lookup [OF assms, of r b] by blast
  have "set (get_uncommitted_blocks_at_slot ds s) =
      {b. \<exists>r. map_of (ds_recent_blocks ds) r = Some b \<and> slot_of r = s}"
    unfolding get_uncommitted_blocks_at_slot_def slot_range
    by (auto simp: mem slot_of_eq_iff image_iff)
  also have "\<dots> = {b. map_of (ds_recent_blocks ds) (vb_reference b) = Some b \<and>
      slot_of (vb_reference b) = s}"
    by (rule Collect_cong) (use ref in metis)
  finally show ?thesis .
qed

lemma dag_block_cached:
  assumes inv: "dag_inv ds" and "dag_lookup ds r = Some b" and "last_commit_round ds < br_round r"
  shows "map_of (ds_recent_blocks ds) r = Some b"
proof (rule ccontr)
  assume uncached: "map_of (ds_recent_blocks ds) r \<noteq> Some b"
  have "br_round r \<noteq> 0" using assms(3) by simp
  with assms(2) uncached have store: "mem_block (ds_store ds) r = Some b"
    "map_of (ds_recent_blocks ds) r = None"
    by (auto simp: dag_lookup_def genesis_round_def split: option.splits)
  with inv have "br_author r < num_authorities ds" "br_round r \<le> evicted_of ds (br_author r)"
    unfolding dag_inv_def cache_sync_def cache_complete_def by (auto simp: not_less [symmetric])
  moreover from calculation(1) inv
  have "ds_last_committed_rounds ds ! br_author r \<le> last_commit_round ds"
    unfolding dag_inv_def cache_complete_def by blast
  ultimately show False using assms(3) by (simp add: eviction_round_def)
qed

lemma uncommitted_at_slot_dag:
  assumes inv: "dag_inv ds" and "last_commit_round ds < slot_round s"
  shows "set (get_uncommitted_blocks_at_slot ds s) =
    {b. dag_lookup ds (vb_reference b) = Some b \<and> slot_of (vb_reference b) = s}"
proof -
  have "dag_lookup ds (vb_reference b) = Some b \<longleftrightarrow> map_of (ds_recent_blocks ds) (vb_reference b) = Some b"
    if "slot_of (vb_reference b) = s" for b
    using that assms(2) dag_block_cached [OF inv, of "vb_reference b" b]
    by (auto simp: dag_lookup_def slot_of_eq_iff genesis_round_def)
  then show ?thesis
    unfolding set_uncommitted_at_slot [OF dag_invD(2) [OF inv]] by auto
qed

lemma uncommitted_at_round_dag:
  assumes inv: "dag_inv ds" and gt: "last_commit_round ds < rnd" and bound: "rnd + 1 < 2 ^ 32"
  shows "\<exists>bs. get_uncommitted_blocks_at_round ds rnd = Inr bs \<and>
    set bs = {b. dag_lookup ds (vb_reference b) = Some b \<and> vb_round b = rnd} \<and>
    distinct (map vb_reference bs)"
proof -
  have add: "u32_add rnd 1 = Suc rnd" using u32_add_exact [OF bound] by simp
  let ?bs = "map snd (filter (\<lambda>(r, _). br_round r = rnd) (ds_recent_blocks ds))"
  have eq: "get_uncommitted_blocks_at_round ds rnd = Inr ?bs"
    unfolding get_uncommitted_blocks_at_round_def add round_range using gt by simp
  have wf: "bm_wf (ds_recent_blocks ds)" using inv by (simp add: dag_inv_def cache_wf_def)
  have ref: "(r, b) \<in> set (ds_recent_blocks ds) \<Longrightarrow> vb_reference b = r" for r b
    using cache_lookup [OF dag_invD(2) [OF inv]] bm_wf_mem [OF wf] by blast
  have "dag_lookup ds (vb_reference b) = Some b \<longleftrightarrow> (vb_reference b, b) \<in> set (ds_recent_blocks ds)"
    if "vb_round b = rnd" for b
    using that gt dag_block_cached [OF inv, of "vb_reference b" b] bm_wf_mem [OF wf]
    by (auto simp: dag_lookup_def genesis_round_def)
  then have "set ?bs = {b. dag_lookup ds (vb_reference b) = Some b \<and> vb_round b = rnd}"
    using ref by (force simp: image_iff)
  moreover have "map vb_reference ?bs = map fst (filter (\<lambda>(r, _). br_round r = rnd) (ds_recent_blocks ds))"
    using ref by auto
  then have "distinct (map vb_reference ?bs)"
    using bm_wf_filter [OF wf, of "\<lambda>(r, _). br_round r = rnd"] unfolding bm_wf_def by argo
  ultimately show ?thesis using eq by blast
qed

end
