(* ===== verification/Dag_Operations.thy ===== *)
theory Dag_Operations
  imports Dag_Invariant
begin

text \<open>
  The operations that change \<open>DagState\<close> keep its invariant and do to the abstract view what they
  should: \<open>accept_block\<close> adds one block, \<open>flush\<close> persists everything and forgets nothing,
  \<open>add_commit\<close> extends the commit sequence; and \<open>ancestors_at_round\<close> computes the causal
  history of a block at a round.
\<close>

section \<open>Accepting blocks\<close>

lemma update_metadata_Inr:
  "vb_author b < length (ds_recent_refs ds) \<Longrightarrow>
   update_block_metadata b ds =
     Inr (ds\<lparr> ds_recent_blocks := bm_insert (vb_reference b) b (ds_recent_blocks ds),
              ds_recent_refs := (ds_recent_refs ds)[vb_author b :=
                bs_insert (vb_reference b) (ds_recent_refs ds ! vb_author b)],
              ds_highest_accepted_round := max (ds_highest_accepted_round ds) (vb_round b) \<rparr>)"
  by (simp add: update_block_metadata_def Let_def)

text \<open>The state \<open>accept_block\<close> leaves when the block is new.\<close>

definition accepted_state :: "verified_block \<Rightarrow> dag_state \<Rightarrow> dag_state" where
  "accepted_state b ds =
     ds\<lparr> ds_recent_blocks := bm_insert (vb_reference b) b (ds_recent_blocks ds),
         ds_recent_refs := (ds_recent_refs ds)[vb_author b :=
           bs_insert (vb_reference b) (ds_recent_refs ds ! vb_author b)],
         ds_highest_accepted_round := max (ds_highest_accepted_round ds) (vb_round b),
         ds_blocks_to_write := ds_blocks_to_write ds @ [b] \<rparr>"

lemma accepted_sel [simp]:
  "ds_context (accepted_state b ds) = ds_context ds"
  "ds_genesis (accepted_state b ds) = ds_genesis ds"
  "ds_recent_blocks (accepted_state b ds) = bm_insert (vb_reference b) b (ds_recent_blocks ds)"
  "ds_recent_refs (accepted_state b ds) = (ds_recent_refs ds)[vb_author b :=
     bs_insert (vb_reference b) (ds_recent_refs ds ! vb_author b)]"
  "ds_last_commit (accepted_state b ds) = ds_last_commit ds"
  "ds_last_committed_rounds (accepted_state b ds) = ds_last_committed_rounds ds"
  "ds_blocks_to_write (accepted_state b ds) = ds_blocks_to_write ds @ [b]"
  "ds_store (accepted_state b ds) = ds_store ds"
  "ds_cached_rounds (accepted_state b ds) = ds_cached_rounds ds"
  "last_commit_round (accepted_state b ds) = last_commit_round ds"
  by (simp_all add: accepted_state_def last_commit_round_def)

lemma accept_block_known:
  assumes "dag_inv ds" "vb_round b \<noteq> 0" "vb_author b < num_authorities ds"
    and "dag_lookup ds (vb_reference b) \<noteq> None"
  shows "accept_block now b ds = Inr ds"
  using assms by (simp add: accept_block_def contains_block_eq)

lemma accept_block_new:
  assumes inv: "dag_inv ds" and b: "vb_round b \<noteq> 0" "vb_author b < num_authorities ds"
    and new: "dag_lookup ds (vb_reference b) = None" and now: "vb_timestamp_ms b \<le> now"
    and own: "vb_author b = cx_own_index (ds_context ds) \<Longrightarrow>
      get_uncommitted_blocks_at_slot ds (slot_of (vb_reference b)) = []"
  shows "accept_block now b ds = Inr (accepted_state b ds)"
proof -
  have "vb_author b < length (ds_recent_refs ds)"
    using inv b(2) by (simp add: dag_inv_def cache_wf_def)
  with assms show ?thesis
    by (simp add: accept_block_def contains_block_eq update_metadata_Inr not_less Let_def accepted_state_def)
qed

lemma accept_block_Inr_cases:
  assumes inv: "dag_inv ds" and ok: "accept_block now b ds = Inr ds'"
    and a: "vb_author b < num_authorities ds"
  shows "vb_round b \<noteq> 0 \<and>
    (dag_lookup ds (vb_reference b) \<noteq> None \<and> ds' = ds \<or>
     dag_lookup ds (vb_reference b) = None \<and> vb_timestamp_ms b \<le> now \<and> ds' = accepted_state b ds)"
proof -
  have len: "vb_author b < length (ds_recent_refs ds)"
    using inv a by (simp add: dag_inv_def cache_wf_def)
  have "br_author (vb_reference b) < num_authorities ds" using a by simp
  note known = contains_block_eq [OF inv this]
  show ?thesis
  proof (cases "dag_lookup ds (vb_reference b)")
    case None
    with ok known show ?thesis
      by (auto simp: accept_block_def and_then_eq_Inr update_metadata_Inr [OF len] Let_def accepted_state_def
          split: if_splits)
  next
    case (Some x)
    with ok known show ?thesis by (auto simp: accept_block_def and_then_eq_Inr)
  qed
qed

lemma accepted_lookup:
  assumes "vb_round b \<noteq> 0"
  shows "dag_lookup (accepted_state b ds) = (dag_lookup ds)(vb_reference b \<mapsto> b)"
  using assms by (auto simp: fun_eq_iff dag_lookup_def genesis_round_def split: option.splits)

lemma accepted_inv:
  assumes inv: "dag_inv ds" and b: "vb_round b \<noteq> 0" "vb_author b < num_authorities ds"
    and new: "dag_lookup ds (vb_reference b) = None"
  shows "dag_inv (accepted_state b ds)"
proof -
  let ?r = "vb_reference b" and ?ds = "accepted_state b ds"
  have absent: "map_of (ds_recent_blocks ds) ?r = None" "mem_block (ds_store ds) ?r = None"
    using new b(1) by (auto simp: dag_lookup_def genesis_round_def split: option.splits)
  note c = inv [unfolded dag_inv_def cache_wf_def cache_sync_def cache_complete_def]
  have "genesis_wf ?ds" using c by (simp add: genesis_wf_def)
  moreover have "cache_wf ?ds"
    unfolding cache_wf_def
  proof (intro conjI allI impI)
    fix a assume a: "a < num_authorities ?ds"
    then show "set (ds_recent_refs ?ds ! a) =
        {r \<in> dom (map_of (ds_recent_blocks ?ds)). br_author r = a}"
      using c b(2) cache_refs(1) [OF dag_invD(2) [OF inv], of a]
      by (cases "a = vb_author b") auto
    show "bs_wf (ds_recent_refs ?ds ! a)"
      using a c b(2) by (cases "a = vb_author b") auto
  next
    fix r b'
    assume "map_of (ds_recent_blocks ?ds) r = Some b'"
    then have "r = ?r \<and> b' = b \<or> map_of (ds_recent_blocks ds) r = Some b'"
      by (auto split: if_splits)
    then show "vb_reference b' = r" "0 < br_round r" "br_author r < num_authorities ?ds"
      using b cache_lookup [OF dag_invD(2) [OF inv], of r b'] by auto
  qed (use c in simp_all)
  moreover have "cache_sync ?ds"
    unfolding cache_sync_def
  proof (intro conjI allI impI ballI)
    fix b' assume "b' \<in> set (ds_blocks_to_write ?ds)"
    then consider "b' = b" | "b' \<in> set (ds_blocks_to_write ds)" by auto
    then show "map_of (ds_recent_blocks ?ds) (vb_reference b') = Some b'"
    proof cases
      case 2
      then have "map_of (ds_recent_blocks ds) (vb_reference b') = Some b'" using c by blast
      with absent(1) show ?thesis by auto
    qed simp
  qed (use c absent in \<open>auto split: if_splits\<close>)
  moreover have "cache_complete ?ds"
    unfolding cache_complete_def
  proof (intro conjI allI impI)
    fix a assume "a < num_authorities ?ds" "0 < ds_last_committed_rounds ?ds ! a"
    then obtain r where "map_of (ds_recent_blocks ds) r \<noteq> None" "br_author r = a"
      "br_round r = ds_last_committed_rounds ds ! a"
      using cache_completeD(3) [OF dag_invD(4) [OF inv], of a] by auto
    then show "\<exists>r. map_of (ds_recent_blocks ?ds) r \<noteq> None \<and> br_author r = a \<and>
        br_round r = ds_last_committed_rounds ?ds ! a"
      by (intro exI [of _ r]) auto
  qed (use c in auto)
  ultimately show ?thesis by (simp add: dag_inv_def)
qed

lemma accept_block_inv:
  assumes "dag_inv ds" "accept_block now b ds = Inr ds'" "vb_author b < num_authorities ds"
  shows "dag_inv ds'" and "ds_context ds' = ds_context ds"
    and "dag_lookup ds' = (if dag_lookup ds (vb_reference b) = None
           then (dag_lookup ds)(vb_reference b \<mapsto> b) else dag_lookup ds)"
    and "ds_store ds' = ds_store ds" and "ds_last_commit ds' = ds_last_commit ds"
    and "ds_last_committed_rounds ds' = ds_last_committed_rounds ds"
  using accept_block_Inr_cases [OF assms] accepted_inv [OF assms(1), of b] assms(1,3)
    accepted_lookup [of b ds]
  by auto

section \<open>Flushing\<close>

lemma evict_refs_eq:
  "evict_refs e refs blocks =
     (dropWhile (\<lambda>r. br_round r \<le> e) refs, fold bm_remove (takeWhile (\<lambda>r. br_round r \<le> e) refs) blocks)"
  by (induction e refs blocks rule: evict_refs.induct) auto

lemma map_of_fold_bm_remove:
  "map_of (fold bm_remove rs m) r = (if r \<in> set rs then None else map_of m r)"
  by (induction rs arbitrary: m) auto

lemma bm_wf_fold_remove: "bm_wf m \<Longrightarrow> bm_wf (fold bm_remove rs m)"
  by (induction rs arbitrary: m) auto

lemma evict_prefix:
  assumes "bs_wf (refs :: block_ref list)"
  shows "set (takeWhile (\<lambda>r. br_round r \<le> e) refs) = {r \<in> set refs. br_round r \<le> e}"
    and "set (dropWhile (\<lambda>r. br_round r \<le> e) refs) = {r \<in> set refs. \<not> br_round r \<le> e}"
    and "bs_wf (dropWhile (\<lambda>r. br_round r \<le> e) refs)"
proof -
  have "sorted refs" "distinct refs" using assms by (simp_all add: bs_wf_def)
  then show 1: "set (takeWhile (\<lambda>r. br_round r \<le> e) refs) = {r \<in> set refs. br_round r \<le> e}"
    by (induction refs) (force simp: block_ref_less_eq)+
  from \<open>sorted refs\<close> \<open>distinct refs\<close>
  show "set (dropWhile (\<lambda>r. br_round r \<le> e) refs) = {r \<in> set refs. \<not> br_round r \<le> e}"
    by (induction refs) (force simp: block_ref_less_eq)+
  show "bs_wf (dropWhile (\<lambda>r. br_round r \<le> e) refs)"
    using assms by (simp add: bs_wf_def sorted_dropWhile distinct_dropWhile)
qed

lemma evict_all_spec:
  assumes "length rest = length rounds" "evict_all cached rest rounds blocks = (rest', blocks')"
    and "bm_wf blocks"
  shows "length rest' = length rest \<and> bm_wf blocks' \<and>
    (\<forall>a < length rest. rest' ! a =
       dropWhile (\<lambda>r. br_round r \<le> eviction_round (rounds ! a) cached) (rest ! a)) \<and>
    (\<forall>r. map_of blocks' r =
       (if \<exists>a < length rest. r \<in> set (takeWhile (\<lambda>r. br_round r \<le> eviction_round (rounds ! a) cached)
             (rest ! a)) then None else map_of blocks r))"
  using assms
proof (induction cached rest rounds blocks arbitrary: rest' blocks' rule: evict_all.induct)
  case (1 cached refs rest committed rounds blocks)
  let ?e = "eviction_round committed cached"
  let ?blocks = "fold bm_remove (takeWhile (\<lambda>r. br_round r \<le> ?e) refs) blocks"
  obtain rest'' blocks'' where tail: "evict_all cached rest rounds ?blocks = (rest'', blocks'')"
    by fastforce
  have res: "rest' = dropWhile (\<lambda>r. br_round r \<le> ?e) refs # rest''" "blocks' = blocks''"
    using "1.prems"(2) tail by (simp_all add: evict_refs_eq)
  have IH: "length rest'' = length rest \<and> bm_wf blocks'' \<and>
    (\<forall>a < length rest. rest'' ! a =
       dropWhile (\<lambda>r. br_round r \<le> eviction_round (rounds ! a) cached) (rest ! a)) \<and>
    (\<forall>r. map_of blocks'' r =
       (if \<exists>a < length rest. r \<in> set (takeWhile (\<lambda>r. br_round r \<le> eviction_round (rounds ! a) cached)
             (rest ! a)) then None else map_of ?blocks r))"
    using "1.prems"(1,3) tail by (intro "1.IH" [OF _ refl]) (auto simp: evict_refs_eq bm_wf_fold_remove)
  show ?case
    unfolding res
  proof (intro conjI allI impI)
    fix a assume "a < length (refs # rest)"
    then show "(dropWhile (\<lambda>r. br_round r \<le> ?e) refs # rest'') ! a =
        dropWhile (\<lambda>r. br_round r \<le> eviction_round ((committed # rounds) ! a) cached) ((refs # rest) ! a)"
      using IH by (cases a) simp_all
  next
    fix r
    have "(\<exists>a < length (refs # rest). r \<in> set (takeWhile
          (\<lambda>r. br_round r \<le> eviction_round ((committed # rounds) ! a) cached) ((refs # rest) ! a))) \<longleftrightarrow>
        r \<in> set (takeWhile (\<lambda>r. br_round r \<le> ?e) refs) \<or>
        (\<exists>a < length rest. r \<in> set (takeWhile
          (\<lambda>r. br_round r \<le> eviction_round (rounds ! a) cached) (rest ! a)))"
      by (simp add: Ex_less_Suc2)
    then show "map_of blocks'' r =
       (if \<exists>a < length (refs # rest). r \<in> set (takeWhile
          (\<lambda>r. br_round r \<le> eviction_round ((committed # rounds) ! a) cached) ((refs # rest) ! a))
        then None else map_of blocks r)"
      using IH by (auto simp: map_of_fold_bm_remove)
  qed (use IH in simp_all)
qed auto

lemma flush_recent:
  assumes wf: "cache_wf ds"
    and ev: "evict_all (ds_cached_rounds ds) (ds_recent_refs ds) (ds_last_committed_rounds ds)
      (ds_recent_blocks ds) = (refs, recent)"
  shows "map_of recent r = (if br_round r \<le> evicted_of ds (br_author r) then None
           else map_of (ds_recent_blocks ds) r)"
    and "bm_wf recent" and "length refs = num_authorities ds"
    and "a < num_authorities ds \<Longrightarrow> bs_wf (refs ! a) \<and>
           set (refs ! a) = {r \<in> dom (map_of recent). br_author r = a}"
proof -
  note c = wf [unfolded cache_wf_def]
  have "bm_wf (ds_recent_blocks ds)" "length (ds_recent_refs ds) = length (ds_last_committed_rounds ds)"
    using c by simp_all
  note spec = evict_all_spec [OF this(2) ev this(1)]
  have n: "length (ds_recent_refs ds) = num_authorities ds" using c by simp
  have evicted: "(\<exists>a < num_authorities ds. r \<in> set (takeWhile
      (\<lambda>r. br_round r \<le> evicted_of ds a) (ds_recent_refs ds ! a))) \<longleftrightarrow>
      map_of (ds_recent_blocks ds) r \<noteq> None \<and> br_round r \<le> evicted_of ds (br_author r)" for r
  proof
    assume "map_of (ds_recent_blocks ds) r \<noteq> None \<and> br_round r \<le> evicted_of ds (br_author r)"
    moreover from this have "br_author r < num_authorities ds"
      using cache_lookup [OF wf, of r] by auto
    ultimately show "\<exists>a < num_authorities ds. r \<in> set (takeWhile
        (\<lambda>r. br_round r \<le> evicted_of ds a) (ds_recent_refs ds ! a))"
      using evict_prefix(1) [OF cache_refs(2) [OF wf]] cache_refs(1) [OF wf]
      by (intro exI [of _ "br_author r"]) auto
  qed (use evict_prefix(1) [OF cache_refs(2) [OF wf]] cache_refs(1) [OF wf] in auto)
  show lookup: "map_of recent r = (if br_round r \<le> evicted_of ds (br_author r) then None
           else map_of (ds_recent_blocks ds) r)" for r
    using spec evicted [of r] unfolding n by auto
  show "bm_wf recent" "length refs = num_authorities ds" using spec n by simp_all
  assume a: "a < num_authorities ds"
  have refs_a: "refs ! a = dropWhile (\<lambda>r. br_round r \<le> evicted_of ds a) (ds_recent_refs ds ! a)"
    using spec a n by simp
  show "bs_wf (refs ! a) \<and> set (refs ! a) = {r \<in> dom (map_of recent). br_author r = a}"
    unfolding refs_a evict_prefix(2) [OF cache_refs(2) [OF wf a]] cache_refs(1) [OF wf a]
    using evict_prefix(3) [OF cache_refs(2) [OF wf a]] lookup by (auto simp: dom_def)
qed

text \<open>What is in storage after a flush: the cached and the stored blocks.\<close>

lemma flush_written:
  assumes "cache_sync ds"
    and ref: "\<And>r b. map_of (ds_recent_blocks ds) r = Some b \<Longrightarrow> vb_reference b = r"
  shows "mem_block (mem_write (WriteBatch_new (ds_blocks_to_write ds) cs is) (ds_store ds)) r =
    (case map_of (ds_recent_blocks ds) r of Some b \<Rightarrow> Some b | None \<Rightarrow> mem_block (ds_store ds) r)"
proof -
  let ?new = "map_of (rev (block_entries (ds_blocks_to_write ds)))"
  have written: "?new r = Some b \<Longrightarrow> b \<in> set (ds_blocks_to_write ds) \<and> vb_reference b = r" for b
    by (auto simp: block_entries_def dest!: map_of_SomeD)
  have "?new (vb_reference b) \<noteq> None" if "b \<in> set (ds_blocks_to_write ds)" for b
    using that by (simp add: map_of_eq_None_iff block_entries_def image_image del: not_None_eq)
  note complete = this
  have eq: "mem_block (mem_write (WriteBatch_new (ds_blocks_to_write ds) cs is) (ds_store ds)) r =
      (case ?new r of Some b \<Rightarrow> Some b | None \<Rightarrow> mem_block (ds_store ds) r)"
    by (simp add: mem_block_write WriteBatch_new_def map_add_def)
  show ?thesis
  proof (cases "map_of (ds_recent_blocks ds) r")
    case None
    then have "?new r = None"
      using written cache_syncD(4) [OF assms(1)] by (cases "?new r") fastforce+
    with None show ?thesis unfolding eq by simp
  next
    case (Some b)
    have "?new r = Some b \<or> ?new r = None \<and> mem_block (ds_store ds) r \<noteq> None"
    proof (cases "?new r")
      case None
      have "b \<notin> set (ds_blocks_to_write ds)"
      proof
        assume "b \<in> set (ds_blocks_to_write ds)"
        from complete [OF this] ref [OF Some] None show False by auto
      qed
      with None cache_syncD(5) [OF assms(1) Some] show ?thesis by auto
    next
      case (Some b')
      with written [OF Some] cache_syncD(4) [OF assms(1), of b'] \<open>map_of _ r = Some b\<close>
      show ?thesis by auto
    qed
    then show ?thesis
      unfolding eq using Some cache_syncD(3) [OF assms(1) Some] by auto
  qed
qed

lemma flush_cases:
  obtains "ds_blocks_to_write ds = []" "ds_commits_to_write ds = []"
    "\<exists>infos. flush ds = ds\<lparr> ds_blocks_to_write := [], ds_commits_to_write := [],
       ds_commit_info_to_write := infos \<rparr>"
  | refs recent wb infos where
    "evict_all (ds_cached_rounds ds) (ds_recent_refs ds) (ds_last_committed_rounds ds)
       (ds_recent_blocks ds) = (refs, recent)"
    "wb_blocks wb = ds_blocks_to_write ds" "wb_commits wb = ds_commits_to_write ds"
    "flush ds = ds\<lparr> ds_blocks_to_write := [], ds_commits_to_write := [],
       ds_commit_info_to_write := infos, ds_store := mem_write wb (ds_store ds),
       ds_recent_refs := refs, ds_recent_blocks := recent \<rparr>"
proof (cases "ds_blocks_to_write ds = [] \<and> ds_commits_to_write ds = []")
  case True
  then show ?thesis
    by (intro that(1) exI [of _ "if pc_mysticeti_leader_scoring_and_schedule
          (cx_protocol_config (ds_context ds)) then [] else ds_commit_info_to_write ds"])
      (simp_all add: flush_def Let_def)
next
  case False
  obtain refs recent where ev: "evict_all (ds_cached_rounds ds) (ds_recent_refs ds)
      (ds_last_committed_rounds ds) (ds_recent_blocks ds) = (refs, recent)" by fastforce
  let ?scoring = "pc_mysticeti_leader_scoring_and_schedule (cx_protocol_config (ds_context ds))"
  let ?infos = "if ?scoring then ds_commit_info_to_write ds
     else if ds_commits_to_write ds = [] then []
     else [(tc_reference (last (ds_commits_to_write ds)),
            \<lparr> ci_committed_rounds = ds_last_committed_rounds ds,
              ci_reputation_scores = reputation_scores_default \<rparr>)]"
  let ?wb = "WriteBatch_new (ds_blocks_to_write ds) (ds_commits_to_write ds) ?infos"
  have "flush ds = ds\<lparr> ds_blocks_to_write := [], ds_commits_to_write := [],
       ds_commit_info_to_write := if ?scoring then [] else ds_commit_info_to_write ds,
       ds_store := mem_write ?wb (ds_store ds), ds_recent_refs := refs, ds_recent_blocks := recent \<rparr>"
    using False unfolding flush_def Let_def ev prod.case by (simp only: if_False)
  moreover have "wb_blocks ?wb = ds_blocks_to_write ds" "wb_commits ?wb = ds_commits_to_write ds"
    by (simp_all add: WriteBatch_new_def)
  ultimately show ?thesis using that(2) [OF ev] by blast
qed

lemma flush_evicting:
  assumes inv: "dag_inv ds"
    and ev: "evict_all (ds_cached_rounds ds) (ds_recent_refs ds) (ds_last_committed_rounds ds)
      (ds_recent_blocks ds) = (refs, recent)"
    and wb: "wb_blocks wb = ds_blocks_to_write ds"
    and ds': "ds' = ds\<lparr> ds_blocks_to_write := [], ds_commits_to_write := [],
       ds_commit_info_to_write := infos, ds_store := mem_write wb (ds_store ds),
       ds_recent_refs := refs, ds_recent_blocks := recent \<rparr>"
  shows "dag_inv ds'" and "dag_lookup ds' = dag_lookup ds"
    and "br_round r \<noteq> 0 \<Longrightarrow> mem_block (ds_store ds') r = dag_lookup ds r"
proof -
  note wf = dag_invD(2) [OF inv] and sync = dag_invD(3) [OF inv] and comp = dag_invD(4) [OF inv]
  note rec = flush_recent [OF wf ev]
  have ref: "map_of (ds_recent_blocks ds) r = Some b \<Longrightarrow> vb_reference b = r" for r b
    using cache_lookup [OF wf] by blast
  have "wb = WriteBatch_new (ds_blocks_to_write ds) (wb_commits wb) (wb_commit_info wb)"
    using wb by (simp add: WriteBatch_new_def)
  then have stored: "mem_block (mem_write wb (ds_store ds)) r =
      (case map_of (ds_recent_blocks ds) r of Some b \<Rightarrow> Some b | None \<Rightarrow> mem_block (ds_store ds) r)" for r
    using flush_written [OF sync ref] by metis
  have kept: "map_of (ds_recent_blocks ds) r \<noteq> None"
    if "mem_block (mem_write wb (ds_store ds)) r \<noteq> None" "evicted_of ds (br_author r) < br_round r" for r
    using that cache_completeD(2) [OF comp, of r] unfolding stored by (auto split: option.splits)
  have "genesis_wf ds'" using dag_invD(1) [OF inv] by (simp add: genesis_wf_def ds')
  moreover have "cache_wf ds'"
    using wf rec cache_lookup [OF wf] by (simp add: cache_wf_def ds')
  moreover have "cache_sync ds'"
    unfolding cache_sync_def
    using mem_inv_write [OF cache_syncD(1) [OF sync]] rec(1) stored cache_syncD(2) [OF sync]
      cache_lookup [OF wf] by (auto simp: ds' split: option.splits if_splits)
  moreover have "cache_complete ds'"
    unfolding cache_complete_def
  proof (intro conjI allI impI)
    fix a assume a: "a < num_authorities ds'" "0 < ds_last_committed_rounds ds' ! a"
    then obtain q where "map_of (ds_recent_blocks ds) q \<noteq> None" "br_author q = a"
      "br_round q = ds_last_committed_rounds ds ! a"
      using cache_completeD(3) [OF comp, of a] by (auto simp: ds')
    then show "\<exists>r. map_of (ds_recent_blocks ds') r \<noteq> None \<and> br_author r = a \<and>
        br_round r = ds_last_committed_rounds ds' ! a"
      using a cache_completeD(1) [OF comp]
      by (intro exI [of _ q]) (auto simp: ds' rec(1) eviction_round_def)
  qed (use comp rec(1) kept in \<open>auto simp: cache_complete_def ds' last_commit_round_def\<close>)
  ultimately show "dag_inv ds'" by (simp add: dag_inv_def)
  show "dag_lookup ds' = dag_lookup ds"
    by (auto simp: dag_lookup_def fun_eq_iff ds' rec(1) stored split: option.splits)
  show "br_round r \<noteq> 0 \<Longrightarrow> mem_block (ds_store ds') r = dag_lookup ds r"
    by (simp add: dag_lookup_def ds' stored genesis_round_def)
qed

lemma flush_persists:
  assumes inv: "dag_inv ds"
  shows "dag_inv (flush ds)" and "dag_lookup (flush ds) = dag_lookup ds"
    and "br_round r \<noteq> 0 \<Longrightarrow> mem_block (ds_store (flush ds)) r = dag_lookup ds r"
proof -
  have "dag_inv (flush ds) \<and> dag_lookup (flush ds) = dag_lookup ds \<and>
      (\<forall>r. br_round r \<noteq> 0 \<longrightarrow> mem_block (ds_store (flush ds)) r = dag_lookup ds r)"
  proof (cases rule: flush_cases [of ds])
    case 1
    then obtain infos where eq: "flush ds = ds\<lparr> ds_blocks_to_write := [],
        ds_commits_to_write := [], ds_commit_info_to_write := infos \<rparr>" by blast
    have "dag_inv (flush ds)"
      using inv 1(1) unfolding eq
      by (simp add: dag_inv_def genesis_wf_def cache_wf_def cache_sync_def cache_complete_def
          last_commit_round_def)
    moreover have "mem_block (ds_store ds) r = dag_lookup ds r" if "br_round r \<noteq> 0" for r
      using that 1(1) cache_syncD(3,5) [OF dag_invD(3) [OF inv], of r]
      by (cases "mem_block (ds_store ds) r"; cases "map_of (ds_recent_blocks ds) r")
        (auto simp: dag_lookup_def genesis_round_def)
    ultimately show ?thesis by (auto simp: eq dag_lookup_def fun_eq_iff split: option.splits)
  next
    case (2 refs recent wb infos)
    from flush_evicting [OF inv 2(1,2,4)] show ?thesis by blast
  qed
  then show "dag_inv (flush ds)" "dag_lookup (flush ds) = dag_lookup ds"
    "br_round r \<noteq> 0 \<Longrightarrow> mem_block (ds_store (flush ds)) r = dag_lookup ds r"
    by auto
qed

end
