(* ===== verification/Dag_History.thy ===== *)
theory Dag_History
  imports Dag_Operations
begin

text \<open>
  Commits recorded in \<open>DagState\<close>, and causal history: \<open>ancestors_at_round\<close> walks the references
  of a block in descending order and returns exactly the blocks of its history at a round. The
  walk always ends, since every step removes the greatest reference for good.
\<close>

section \<open>Recording a commit\<close>

definition rounds_raised :: "block_ref list \<Rightarrow> round list \<Rightarrow> round list \<Rightarrow> bool" where
  "rounds_raised refs old new \<longleftrightarrow>
     length new = length old \<and>
     (\<forall>a < length old. old ! a \<le> new ! a \<and>
        (\<forall>r \<in> set refs. br_author r = a \<longrightarrow> br_round r \<le> new ! a) \<and>
        (new ! a = old ! a \<or> (\<exists>r \<in> set refs. br_author r = a \<and> br_round r = new ! a)))"

lemma rounds_raisedD:
  assumes "rounds_raised refs old new" "a < length old"
  shows "old ! a \<le> new ! a"
    and "new ! a = old ! a \<or> (\<exists>r \<in> set refs. br_author r = a \<and> br_round r = new ! a)"
    and "length new = length old"
  using assms by (simp_all add: rounds_raised_def)

lemma raise_committed_round_Inr:
  "raise_committed_round r rounds = Inr rounds' \<longleftrightarrow>
     br_author r < length rounds \<and>
     rounds' = rounds[br_author r := max (rounds ! br_author r) (br_round r)]"
  by (auto simp: raise_committed_round_def and_then_eq_Inr)

lemma raise_all_total:
  "(\<And>r. r \<in> set refs \<Longrightarrow> br_author r < length rounds) \<Longrightarrow>
     \<exists>rounds'. for_each raise_committed_round refs rounds = Inr rounds'"
proof (induction refs arbitrary: rounds)
  case (Cons r refs)
  let ?rounds = "rounds[br_author r := max (rounds ! br_author r) (br_round r)]"
  have "raise_committed_round r rounds = Inr ?rounds"
    using Cons.prems [of r] by (simp add: raise_committed_round_Inr)
  then show ?case using Cons.IH [of ?rounds] Cons.prems by simp
qed simp

lemma raise_all_spec:
  "for_each raise_committed_round refs rounds = Inr rounds' \<Longrightarrow> rounds_raised refs rounds rounds'"
proof (induction refs arbitrary: rounds)
  case (Cons r refs)
  let ?rounds = "rounds[br_author r := max (rounds ! br_author r) (br_round r)]"
  from Cons.prems have r: "br_author r < length rounds"
    and tail: "for_each raise_committed_round refs ?rounds = Inr rounds'"
    by (auto simp: and_then_eq_Inr raise_committed_round_Inr)
  note IH = Cons.IH [OF tail]
  have "rounds ! a \<le> ?rounds ! a" "br_author r = a \<longrightarrow> br_round r \<le> ?rounds ! a"
    "?rounds ! a = rounds ! a \<or> br_author r = a \<and> br_round r = ?rounds ! a" if "a < length rounds" for a
    using that r by (auto simp: nth_list_update max_def)
  with IH show ?case
    unfolding rounds_raised_def by (simp, smt (verit) le_trans)
qed (simp add: rounds_raised_def)

text \<open>The commits \<open>add_commit\<close> records: the next index, at a time not before the last commit.\<close>

definition commit_follows :: "dag_state \<Rightarrow> trusted_commit \<Rightarrow> bool" where
  "commit_follows ds c \<longleftrightarrow>
     (case ds_last_commit ds of
        Some prev \<Rightarrow> tc_index c = u32_add (tc_index prev) 1 \<and> tc_index prev < tc_index c \<and>
                     tc_timestamp_ms prev \<le> tc_timestamp_ms c
      | None \<Rightarrow> tc_index c = 1)"

lemma add_commit_Inr:
  assumes "add_commit c ds = Inr ds'"
  shows "ds' = ds \<and> tc_index c \<le> last_commit_index ds \<or>
    commit_follows ds c \<and> ds_last_commit ds' = Some c \<and>
    ds_commits_to_write ds' = ds_commits_to_write ds @ [c] \<and>
    ds_pending_commit_votes ds' = ds_pending_commit_votes ds @ [tc_reference c] \<and>
    for_each raise_committed_round (tc_blocks c) (ds_last_committed_rounds ds)
      = Inr (ds_last_committed_rounds ds') \<and>
    ds' = ds\<lparr> ds_last_commit := Some c, ds_last_committed_rounds := ds_last_committed_rounds ds',
              ds_pending_commit_votes := ds_pending_commit_votes ds @ [tc_reference c],
              ds_commits_to_write := ds_commits_to_write ds @ [c] \<rparr>"
  using assms
  by (auto simp: add_commit_def Let_def commit_follows_def last_commit_index_def and_then_eq_Inr
      split: option.splits if_splits)

lemma add_commit_total:
  assumes "commit_follows ds c"
    and "\<And>r. r \<in> set (tc_blocks c) \<Longrightarrow> br_author r < length (ds_last_committed_rounds ds)"
  shows "\<exists>ds'. add_commit c ds = Inr ds' \<and> ds_last_commit ds' = Some c"
  using assms raise_all_total [of "tc_blocks c" "ds_last_committed_rounds ds"]
  by (auto simp: add_commit_def Let_def commit_follows_def split: option.splits)

lemma add_commit_inv:
  assumes inv: "dag_inv ds" and ok: "add_commit c ds = Inr ds'"
    and known: "\<And>r. r \<in> set (tc_blocks c) \<Longrightarrow> dag_lookup ds r \<noteq> None"
    and below: "\<And>r. r \<in> set (tc_blocks c) \<Longrightarrow> br_round r \<le> tc_round c"
    and mono: "last_commit_round ds \<le> tc_round c"
  shows "dag_inv ds'" and "dag_lookup ds' = dag_lookup ds" and "ds_context ds' = ds_context ds"
proof -
  note comp = dag_invD(4) [OF inv] and wf = dag_invD(2) [OF inv]
  consider "ds' = ds" | (new) rounds where
    "for_each raise_committed_round (tc_blocks c) (ds_last_committed_rounds ds) = Inr rounds"
    "ds' = ds\<lparr> ds_last_commit := Some c, ds_last_committed_rounds := rounds,
       ds_pending_commit_votes := ds_pending_commit_votes ds @ [tc_reference c],
       ds_commits_to_write := ds_commits_to_write ds @ [c] \<rparr>"
    using add_commit_Inr [OF ok] by blast
  then have "dag_inv ds' \<and> dag_lookup ds' = dag_lookup ds \<and> ds_context ds' = ds_context ds"
  proof cases
    case new
    note ds' = new(2)
    let ?old = "ds_last_committed_rounds ds"
    have raised: "rounds_raised (tc_blocks c) ?old rounds" by (rule raise_all_spec [OF new(1)])
    have len: "length ?old = num_authorities ds" using wf by (simp add: cache_wf_def)
    have mono_ev: "eviction_round (?old ! a) n \<le> eviction_round (rounds ! a) n"
      if "a < num_authorities ds" for a n
      using that raised by (simp add: rounds_raised_def len eviction_round_def diff_le_mono)
    have "cache_complete ds'"
      unfolding cache_complete_def
    proof (intro conjI allI impI)
      fix r assume r: "mem_block (ds_store ds') r \<noteq> None" "evicted_of ds' (br_author r) < br_round r"
      then have "br_author r < num_authorities ds"
        using cache_syncD(2) [OF dag_invD(3) [OF inv]] by (auto simp: ds')
      from mono_ev [OF this] r show "map_of (ds_recent_blocks ds') r \<noteq> None"
        using cache_completeD(2) [OF comp, of r] by (simp add: ds') (meson le_less_trans)
    next
      fix a assume a: "a < num_authorities ds'" "0 < ds_last_committed_rounds ds' ! a"
      show "\<exists>r. map_of (ds_recent_blocks ds') r \<noteq> None \<and> br_author r = a \<and>
          br_round r = ds_last_committed_rounds ds' ! a"
      proof (cases "rounds ! a = ?old ! a")
        case True
        with a cache_completeD(3) [OF comp, of a] show ?thesis by (simp add: ds')
      next
        case False
        have a': "a < length ?old" using a(1) len by (simp add: ds')
        with False rounds_raisedD(2) [OF raised a'] obtain r where r: "r \<in> set (tc_blocks c)"
          "br_author r = a" "br_round r = rounds ! a" by auto
        have less: "?old ! a < rounds ! a" using False rounds_raisedD(1) [OF raised a'] by simp
        have "map_of (ds_recent_blocks ds) r \<noteq> None"
        proof (rule notI)
          assume none: "map_of (ds_recent_blocks ds) r = None"
          with known [OF r(1)] r less have "mem_block (ds_store ds) r \<noteq> None"
            by (auto simp: dag_lookup_def genesis_round_def)
          with none cache_completeD(2) [OF comp, of r] have "\<not> evicted_of ds (br_author r) < br_round r"
            by blast
          then have "br_round r \<le> ?old ! a" using r(2) by (simp add: eviction_round_def)
          with r less show False by simp
        qed
        with r show ?thesis by (auto simp: ds')
      qed
    next
      fix a assume "a < num_authorities ds'"
      then have a: "a < num_authorities ds" by (simp add: ds')
      then have "rounds ! a \<le> tc_round c"
        using rounds_raisedD(2) [OF raised, of a] below mono cache_completeD(4) [OF comp a] len
        by (metis order_trans)
      then show "ds_last_committed_rounds ds' ! a \<le> last_commit_round ds'"
        by (simp add: ds' last_commit_round_def tc_round_eq)
    qed (use comp in \<open>simp add: cache_complete_def ds'\<close>)
    moreover have "genesis_wf ds'" "cache_wf ds'" "cache_sync ds'"
      using inv raised by (simp_all add: ds' dag_inv_def genesis_wf_def cache_wf_def cache_sync_def
          rounds_raised_def)
    ultimately show ?thesis by (simp add: dag_inv_def) (simp add: ds' dag_lookup_def fun_eq_iff split: option.splits)
  qed (use inv in simp)
  then show "dag_inv ds'" "dag_lookup ds' = dag_lookup ds" "ds_context ds' = ds_context ds" by auto
qed

section \<open>Causal history\<close>

definition dag_edges :: "dag_state \<Rightarrow> (block_ref \<times> block_ref) set" where
  "dag_edges ds = {(r, a). \<exists>b. dag_lookup ds r = Some b \<and> a \<in> set (vb_ancestors b)}"

text \<open>Every ancestor of a block of the DAG is in the DAG, at a lower round.\<close>

definition dag_causal :: "dag_state \<Rightarrow> bool" where
  "dag_causal ds \<longleftrightarrow>
     (\<forall>r b. dag_lookup ds r = Some b \<longrightarrow>
        (\<forall>a \<in> set (vb_ancestors b). dag_lookup ds a \<noteq> None \<and> br_round a < br_round r))"

text \<open>The references reachable from a block through one or more edges.\<close>

definition history :: "dag_state \<Rightarrow> verified_block \<Rightarrow> block_ref set" where
  "history ds b = {r. \<exists>a \<in> set (vb_ancestors b). (a, r) \<in> (dag_edges ds)\<^sup>*}"

lemma finite_dag: "finite (dom (dag_lookup ds))"
proof -
  have "dom (dag_lookup ds) \<subseteq> dom (map_of (ds_genesis ds)) \<union> dom (map_of (ds_recent_blocks ds)) \<union>
      ref_key -` dom (map_of (ms_blocks (ds_store ds)))"
    by (auto simp: dag_lookup_def mem_block_def dom_def split: if_splits option.splits)
  moreover have "finite (ref_key -` dom (map_of (ms_blocks (ds_store ds))))"
    by (intro finite_vimageI finite_dom_map_of) (auto simp: inj_def)
  ultimately show ?thesis by (meson finite_UnI finite_dom_map_of finite_subset)
qed

lemma dag_edge_causal:
  "dag_causal ds \<Longrightarrow> (r, a) \<in> dag_edges ds \<Longrightarrow> dag_lookup ds a \<noteq> None \<and> br_round a < br_round r"
  unfolding dag_causal_def dag_edges_def by blast

lemma dag_path_round:
  assumes "dag_causal ds" "(r, a) \<in> (dag_edges ds)\<^sup>*"
  shows "r = a \<or> br_round a < br_round r \<and> dag_lookup ds a \<noteq> None"
  using assms(2)
proof induction
  case (step y z)
  with dag_edge_causal [OF assms(1) step.hyps(2)] show ?case by auto
qed simp

text \<open>The state of the walk: references of the history that still cover the target round.\<close>

definition walk_inv :: "dag_state \<Rightarrow> verified_block \<Rightarrow> round \<Rightarrow> block_ref list \<Rightarrow> bool" where
  "walk_inv ds b rnd linked \<longleftrightarrow>
     bs_wf linked \<and> set linked \<subseteq> history ds b \<and> set linked \<subseteq> dom (dag_lookup ds) \<and>
     (\<forall>r \<in> history ds b. br_round r = rnd \<longrightarrow> (\<exists>l \<in> set linked. (l, r) \<in> (dag_edges ds)\<^sup>*))"

lemma walk_step:
  assumes causal: "dag_causal ds" and inv: "walk_inv ds b rnd (linked @ [m])"
    and m: "\<not> br_round m \<le> rnd" "dag_lookup ds m = Some x"
  shows "walk_inv ds b rnd (bs_extend (vb_ancestors x) linked)"
    and "\<forall>r \<in> set (bs_extend (vb_ancestors x) linked). r < m"
proof -
  note i = inv [unfolded walk_inv_def]
  have wf: "bs_wf linked" "\<forall>y \<in> set linked. y < m" using i bs_wf_butlast by blast+
  have edge: "(m, a) \<in> dag_edges ds" if "a \<in> set (vb_ancestors x)" for a
    using that m(2) by (auto simp: dag_edges_def)
  have hist: "a \<in> history ds b" if "a \<in> set (vb_ancestors x)" for a
    using edge [OF that] i unfolding history_def by (auto intro: rtrancl_into_rtrancl)
  have cover: "\<exists>l \<in> set (bs_extend (vb_ancestors x) linked). (l, r) \<in> (dag_edges ds)\<^sup>*"
    if "r \<in> history ds b" "br_round r = rnd" for r
  proof -
    from i that obtain l where l: "l \<in> set (linked @ [m])" "(l, r) \<in> (dag_edges ds)\<^sup>*" by blast
    show ?thesis
    proof (cases "l \<in> set linked")
      case False
      with l have "(m, r) \<in> (dag_edges ds)\<^sup>*" "m \<noteq> r" using m(1) that(2) by auto
      then obtain a where "(m, a) \<in> dag_edges ds" "(a, r) \<in> (dag_edges ds)\<^sup>*"
        by (meson converse_rtranclE)
      then show ?thesis using m(2) by (auto simp: dag_edges_def)
    qed (use l in auto)
  qed
  have "set (vb_ancestors x) \<subseteq> dom (dag_lookup ds)"
    using dag_edge_causal [OF causal edge] by auto
  then show "walk_inv ds b rnd (bs_extend (vb_ancestors x) linked)"
    using wf(1) hist cover i by (auto simp: walk_inv_def)
  show "\<forall>r \<in> set (bs_extend (vb_ancestors x) linked). r < m"
    using wf(2) dag_edge_causal [OF causal edge] by (auto simp: block_ref_less)
qed

lemma walk_total:
  assumes causal: "dag_causal ds" and "walk_inv ds b rnd linked"
  shows "\<exists>t. while_res
    (\<lambda>linked. linked \<noteq> [] \<and> \<not> br_round (last linked) \<le> rnd)
    (\<lambda>linked. and_then (expect (get_block ds (last linked)) (DagPanic BlockNotFound))
                (\<lambda>b. Inr (bs_extend (vb_ancestors b) (butlast linked)))) linked = Inr t \<and>
    walk_inv ds b rnd t \<and> \<not> (t \<noteq> [] \<and> \<not> br_round (last t) \<le> rnd)"
proof (rule while_res_total [where P = "walk_inv ds b rnd" and m = "\<lambda>linked.
      card {r \<in> dom (dag_lookup ds). linked \<noteq> [] \<and> r \<le> last linked}"])
  fix s assume s: "walk_inv ds b rnd s" "s \<noteq> [] \<and> \<not> br_round (last s) \<le> rnd"
  then obtain linked m where eq: "s = linked @ [m]" by (metis append_butlast_last_id)
  from s(1) obtain x where x: "dag_lookup ds m = Some x" by (auto simp: eq walk_inv_def)
  let ?s' = "bs_extend (vb_ancestors x) linked"
  have step: "walk_inv ds b rnd ?s'" "\<forall>r \<in> set ?s'. r < m"
    using walk_step [OF causal s(1) [unfolded eq] _ x] s(2) by (simp_all add: eq)
  have top: "last ?s' < m" if "?s' \<noteq> []"
    using step(2) last_in_set [OF that] by blast
  have "{r \<in> dom (dag_lookup ds). ?s' \<noteq> [] \<and> r \<le> last ?s'} \<subset>
      {r \<in> dom (dag_lookup ds). s \<noteq> [] \<and> r \<le> last s}"
  proof (rule psubsetI)
    show "{r \<in> dom (dag_lookup ds). ?s' \<noteq> [] \<and> r \<le> last ?s'} \<subseteq>
        {r \<in> dom (dag_lookup ds). s \<noteq> [] \<and> r \<le> last s}"
      using top by (auto simp: eq intro: order_trans less_imp_le)
    have "m \<notin> {r \<in> dom (dag_lookup ds). ?s' \<noteq> [] \<and> r \<le> last ?s'}"
      using top by (auto simp: not_le)
    then show "{r \<in> dom (dag_lookup ds). ?s' \<noteq> [] \<and> r \<le> last ?s'} \<noteq>
        {r \<in> dom (dag_lookup ds). s \<noteq> [] \<and> r \<le> last s}"
      using x by (auto simp: eq)
  qed
  then have "card {r \<in> dom (dag_lookup ds). ?s' \<noteq> [] \<and> r \<le> last ?s'} <
      card {r \<in> dom (dag_lookup ds). s \<noteq> [] \<and> r \<le> last s}"
    using finite_dag by (intro psubset_card_mono) auto
  then show "\<exists>s'. and_then (expect (get_block ds (last s)) (DagPanic BlockNotFound))
      (\<lambda>b. Inr (bs_extend (vb_ancestors b) (butlast s))) = Inr s' \<and> walk_inv ds b rnd s' \<and>
      card {r \<in> dom (dag_lookup ds). s' \<noteq> [] \<and> r \<le> last s'} <
      card {r \<in> dom (dag_lookup ds). s \<noteq> [] \<and> r \<le> last s}"
    using step(1) x by (intro exI [of _ ?s']) (simp add: eq)
qed (rule assms(2))

lemma walk_init:
  assumes "set (vb_ancestors b) \<subseteq> dom (dag_lookup ds)"
  shows "walk_inv ds b rnd (bs_extend (vb_ancestors b) [])"
  using assms by (auto simp: walk_inv_def history_def)

lemma history_dom:
  assumes "dag_causal ds" "set (vb_ancestors b) \<subseteq> dom (dag_lookup ds)"
  shows "history ds b \<subseteq> dom (dag_lookup ds)"
  using assms dag_path_round [OF assms(1)] by (fastforce simp: history_def)

lemma ancestors_at_round_eq:
  assumes causal: "dag_causal ds" and known: "set (vb_ancestors b) \<subseteq> dom (dag_lookup ds)"
  shows "\<exists>bs. ancestors_at_round ds b rnd = Inr bs \<and>
    set bs = {x. \<exists>r \<in> history ds b. br_round r = rnd \<and> dag_lookup ds r = Some x}"
proof -
  obtain t where loop: "while_res
      (\<lambda>linked. linked \<noteq> [] \<and> \<not> br_round (last linked) \<le> rnd)
      (\<lambda>linked. and_then (expect (get_block ds (last linked)) (DagPanic BlockNotFound))
                  (\<lambda>b. Inr (bs_extend (vb_ancestors b) (butlast linked))))
      (bs_extend (vb_ancestors b) []) = Inr t"
    and inv: "walk_inv ds b rnd t" and stop: "\<not> (t \<noteq> [] \<and> \<not> br_round (last t) \<le> rnd)"
    using walk_total [OF causal walk_init [OF known]] by blast
  note i = inv [unfolded walk_inv_def]
  have top: "br_round l \<le> rnd" if "l \<in> set t" for l
    using bs_wf_last_max [OF _ that] i stop that by (fastforce simp: block_ref_less_eq)
  define refs where "refs = filter (\<lambda>r. BlockRef rnd 0 digest_min \<le> r) t"
  have refs: "set refs = {r \<in> history ds b. br_round r = rnd}"
  proof (intro set_eqI iffI)
    fix r assume "r \<in> set refs"
    with top i show "r \<in> {r \<in> history ds b. br_round r = rnd}"
      by (fastforce simp: refs_def block_ref_less_eq)
  next
    fix r assume r: "r \<in> {r \<in> history ds b. br_round r = rnd}"
    with i obtain l where l: "l \<in> set t" "(l, r) \<in> (dag_edges ds)\<^sup>*" by blast
    with dag_path_round [OF causal l(2)] top [OF l(1)] r have "l = r" by auto
    with l r show "r \<in> set refs"
      by (cases r) (auto simp: refs_def block_ref_less_eq)
  qed
  have "map_res (\<lambda>r. expect (get_block ds r) (DagPanic BlockNotFound)) refs =
      Inr (map (\<lambda>r. the (dag_lookup ds r)) refs)"
    using refs history_dom [OF causal known] by (intro map_res_Inr) fastforce
  then have "ancestors_at_round ds b rnd = Inr (map (\<lambda>r. the (dag_lookup ds r)) refs)"
    unfolding ancestors_at_round_def loop and_then_Inr refs_def by blast
  moreover have "set (map (\<lambda>r. the (dag_lookup ds r)) refs) =
      {x. \<exists>r \<in> history ds b. br_round r = rnd \<and> dag_lookup ds r = Some x}"
    using refs history_dom [OF causal known] by force
  ultimately show ?thesis by blast
qed

end
