(* ===== verification/Threshold_Clock.thy ===== *)
theory Threshold_Clock
  imports Consensus_Types
begin

text \<open>
  The threshold clock (\<^verbatim>\<open>consensus/core/src/threshold_clock.rs\<close>): it advances to round
  \<open>r + 1\<close> once it has seen blocks of a quorum of authorities at its round \<open>r\<close>, and jumps to the
  round of any later block. The instant of the last quorum only feeds a metric and is left out.
\<close>

record threshold_clock =
  tk_aggregator :: stake_aggregator
  tk_round :: round

definition ThresholdClock_new :: "round \<Rightarrow> threshold_clock" where
  "ThresholdClock_new r = \<lparr> tk_aggregator = agg_new, tk_round = r \<rparr>"

definition clock_add_block :: "committee \<Rightarrow> block_ref \<Rightarrow> threshold_clock \<Rightarrow> threshold_clock res" where
  "clock_add_block c b k =
     (if br_round b < tk_round k then Inr k
      else if br_round b > tk_round k then
        and_then (agg_add quorum_is_threshold (br_author b) c (agg_clear (tk_aggregator k)))
          (\<lambda>(_, agg). Inr \<lparr> tk_aggregator = agg, tk_round = br_round b \<rparr>)
      else
        and_then (agg_add quorum_is_threshold (br_author b) c (tk_aggregator k))
          (\<lambda>(reached, agg).
            if reached
            then Inr \<lparr> tk_aggregator = agg_clear agg, tk_round = u32_add (br_round b) 1 \<rparr>
            else Inr (k\<lparr> tk_aggregator := agg \<rparr>)))"

definition clock_add_blocks ::
  "committee \<Rightarrow> block_ref list \<Rightarrow> threshold_clock \<Rightarrow> (round option \<times> threshold_clock) res" where
  "clock_add_blocks c blocks k =
     and_then (for_each (clock_add_block c) blocks k) (\<lambda>k'.
       Inr (if tk_round k' > tk_round k then Some (tk_round k') else None, k'))"

definition clock_get_round :: "threshold_clock \<Rightarrow> round" where
  "clock_get_round k = tk_round k"

section \<open>Invariant and behaviour of one step\<close>

text \<open>
  The aggregator holds a set of authorities that does not reach a quorum, except just after a
  jump: the code does not test the threshold on that path, so a single authority with a
  quorum of stake is kept as a voter and the clock stays at its round.
\<close>

definition clock_inv :: "committee \<Rightarrow> threshold_clock \<Rightarrow> bool" where
  "clock_inv c k \<longleftrightarrow> agg_inv c (tk_aggregator k) \<and>
     (reached_quorum c (sa_stake (tk_aggregator k)) \<longrightarrow>
       (\<exists>v. sa_votes (tk_aggregator k) = [v]))"

lemma clock_inv_new [simp]: "committee_wf c \<Longrightarrow> clock_inv c (ThresholdClock_new r)"
  by (simp add: clock_inv_def ThresholdClock_new_def agg_new_def agg_inv_def reached_quorum_def
      committee_wf_def)

lemma clock_add_block_Inr_members:
  "clock_add_block c b k = Inr k' \<Longrightarrow> agg_inv c (tk_aggregator k) \<Longrightarrow> tk_round k \<le> br_round b
     \<Longrightarrow> br_author b \<in> members c"
  by (auto simp: clock_add_block_def and_then_eq_Inr split: if_splits dest: agg_add_Inr_member
      intro: agg_add_Inr_member [OF _ agg_inv_clear])

lemma clock_add_block_less: "br_round b < tk_round k \<Longrightarrow> clock_add_block c b k = Inr k"
  by (simp add: clock_add_block_def)

lemma clock_add_block_greater:
  assumes "committee_wf c" "br_round b > tk_round k" "br_author b \<in> members c"
  shows "\<exists>agg. clock_add_block c b k = Inr \<lparr> tk_aggregator = agg, tk_round = br_round b \<rparr> \<and>
    agg_inv c agg \<and> set (sa_votes agg) = {br_author b}"
proof -
  let ?agg = "agg_clear (tk_aggregator k)"
  obtain agg' where "agg_add quorum_is_threshold (br_author b) c ?agg
      = Inr (quorum_is_threshold c (sa_stake agg'), agg')" "agg_inv c agg'"
    "set (sa_votes agg') = insert (br_author b) (set (sa_votes ?agg))"
    by (rule agg_add_spec [OF assms(1) agg_inv_clear assms(3)])
  with assms(2) show ?thesis by (auto simp: clock_add_block_def agg_clear_def)
qed

lemma clock_add_block_equal:
  assumes "committee_wf c" "agg_inv c (tk_aggregator k)" "br_round b = tk_round k"
    and "br_author b \<in> members c"
  shows "\<exists>agg. agg_inv c agg \<and>
    set (sa_votes agg) = insert (br_author b) (set (sa_votes (tk_aggregator k))) \<and>
    clock_add_block c b k =
      Inr (if reached_quorum c (stake_of c (set (sa_votes agg)))
           then \<lparr> tk_aggregator = agg_clear agg, tk_round = u32_add (tk_round k) 1 \<rparr>
           else k\<lparr> tk_aggregator := agg \<rparr>)"
proof -
  obtain agg' where "agg_add quorum_is_threshold (br_author b) c (tk_aggregator k)
      = Inr (quorum_is_threshold c (sa_stake agg'), agg')" "agg_inv c agg'"
    "set (sa_votes agg') = insert (br_author b) (set (sa_votes (tk_aggregator k)))"
    by (rule agg_add_spec [OF assms(1,2,4)])
  with assms(3) show ?thesis
    by (intro exI [of _ agg']) (auto simp: clock_add_block_def quorum_is_threshold_def agg_inv_def)
qed

lemma clock_add_block_inv:
  assumes wf: "committee_wf c" and inv: "clock_inv c k" and ok: "clock_add_block c b k = Inr k'"
  shows "clock_inv c k'"
proof (cases "br_round b < tk_round k")
  case True
  with ok inv show ?thesis by (simp add: clock_add_block_less)
next
  case False
  have agg: "agg_inv c (tk_aggregator k)" using inv by (simp add: clock_inv_def)
  have b: "br_author b \<in> members c"
    using clock_add_block_Inr_members [OF ok agg] False by simp
  show ?thesis
  proof (cases "br_round b > tk_round k")
    case True
    from clock_add_block_greater [OF wf True b] ok obtain agg'
      where k': "k' = \<lparr> tk_aggregator = agg', tk_round = br_round b \<rparr>" "agg_inv c agg'"
        "set (sa_votes agg') = {br_author b}" by auto
    have "sa_votes agg' = [br_author b]"
      using k'(2,3) bs_wf_set_eq [of "sa_votes agg'" "[br_author b]"]
      by (simp add: agg_inv_def bs_wf_def)
    with k' show ?thesis by (simp add: clock_inv_def)
  next
    case le: False
    have eq: "br_round b = tk_round k" using False le by simp
    from clock_add_block_equal [OF wf agg eq b] ok show ?thesis
      by (auto simp: clock_inv_def agg_inv_def agg_clear_def reached_quorum_def committee_wf_def
          wf [unfolded committee_wf_def] split: if_splits)
  qed
qed

lemma clock_add_block_round:
  assumes wf: "committee_wf c" and inv: "clock_inv c k" and ok: "clock_add_block c b k = Inr k'"
    and bound: "br_round b + 1 < 2 ^ 32"
  shows "tk_round k \<le> tk_round k' \<and> tk_round k' \<le> max (tk_round k) (br_round b + 1)"
proof (cases "br_round b < tk_round k")
  case True
  with ok show ?thesis by (simp add: clock_add_block_less)
next
  case False
  have agg: "agg_inv c (tk_aggregator k)" using inv by (simp add: clock_inv_def)
  have b: "br_author b \<in> members c"
    using clock_add_block_Inr_members [OF ok agg] False by simp
  show ?thesis
  proof (cases "br_round b > tk_round k")
    case True
    from clock_add_block_greater [OF wf True b] ok True show ?thesis by auto
  next
    case le: False
    have eq: "br_round b = tk_round k" using False le by simp
    have "u32_add (tk_round k) 1 = tk_round k + 1"
      using bound eq by (intro u32_add_exact) simp
    with clock_add_block_equal [OF wf agg eq b] ok eq show ?thesis by (auto split: if_splits)
  qed
qed

section \<open>A run of blocks\<close>

lemma clock_run_inv:
  assumes "committee_wf c" "clock_inv c k" "for_each (clock_add_block c) bs k = Inr k'"
  shows "clock_inv c k'"
  using assms(3,2) by (rule for_each_invariant) (rule clock_add_block_inv [OF assms(1)])

lemma clock_run_mono:
  assumes wf: "committee_wf c" and "clock_inv c k" "for_each (clock_add_block c) bs k = Inr k'"
    and bound: "\<And>b. b \<in> set bs \<Longrightarrow> br_round b + 1 < 2 ^ 32"
  shows "tk_round k \<le> tk_round k'"
proof -
  have "clock_inv c k' \<and> tk_round k \<le> tk_round k'"
  proof (rule for_each_invariant [OF assms(3)])
    show "clock_inv c k \<and> tk_round k \<le> tk_round k" using assms(2) by simp
  next
    fix b s s'
    assume "b \<in> set bs" "clock_inv c s \<and> tk_round k \<le> tk_round s" "clock_add_block c b s = Inr s'"
    then show "clock_inv c s' \<and> tk_round k \<le> tk_round s'"
      using clock_add_block_inv [OF wf, of s b s'] clock_add_block_round [OF wf, of s b s'] bound [of b]
      by auto
  qed
  then show ?thesis ..
qed

text \<open>
  Feeding a quorum of blocks of the clock's round advances it by one round.
\<close>

lemma clock_run_same_round:
  assumes wf: "committee_wf c" and "clock_inv c k"
    and "\<And>b. b \<in> set bs \<Longrightarrow> br_round b = tk_round k \<and> br_author b \<in> members c"
    and bound: "tk_round k + 1 < 2 ^ 32"
    and quorum: "reached_quorum c (stake_of c (br_author ` set bs \<union> set (sa_votes (tk_aggregator k))))"
    and "bs \<noteq> []"
  shows "\<exists>k'. for_each (clock_add_block c) bs k = Inr k' \<and> tk_round k' = tk_round k + 1"
  using assms(2-)
proof (induction bs arbitrary: k)
  case (Cons b bs)
  have agg: "agg_inv c (tk_aggregator k)" using Cons.prems(1) by (simp add: clock_inv_def)
  have b: "br_round b = tk_round k" "br_author b \<in> members c" using Cons.prems(2) by auto
  have add1: "u32_add (tk_round k) 1 = tk_round k + 1"
    using Cons.prems(3) by (intro u32_add_exact) simp
  from clock_add_block_equal [OF wf agg b] obtain agg' where agg': "agg_inv c agg'"
    "set (sa_votes agg') = insert (br_author b) (set (sa_votes (tk_aggregator k)))"
    and step: "clock_add_block c b k =
      Inr (if reached_quorum c (stake_of c (set (sa_votes agg')))
           then \<lparr> tk_aggregator = agg_clear agg', tk_round = u32_add (tk_round k) 1 \<rparr>
           else k\<lparr> tk_aggregator := agg' \<rparr>)" by blast
  show ?case
  proof (cases "reached_quorum c (stake_of c (set (sa_votes agg')))")
    case True
    let ?k = "\<lparr> tk_aggregator = agg_clear agg', tk_round = u32_add (tk_round k) 1 \<rparr>"
    have "clock_add_block c x ?k = Inr ?k" if "x \<in> set bs" for x
      using that Cons.prems(2) [of x] add1 by (intro clock_add_block_less) simp
    then have "for_each (clock_add_block c) bs ?k = Inr ?k"
      by (induction bs) auto
    with True step add1 show ?thesis by simp
  next
    case False
    let ?k = "k\<lparr> tk_aggregator := agg' \<rparr>"
    have eq: "br_author ` set (b # bs) \<union> set (sa_votes (tk_aggregator k)) =
      br_author ` set bs \<union> set (sa_votes (tk_aggregator ?k))"
      using agg'(2) by auto
    with Cons.prems(4) False have ne: "bs \<noteq> []" by auto
    have inv: "clock_inv c ?k" using clock_add_block_inv [OF wf Cons.prems(1)] step False by simp
    have "\<exists>k'. for_each (clock_add_block c) bs ?k = Inr k' \<and> tk_round k' = tk_round ?k + 1"
      using Cons.IH [OF inv _ _ _ ne] Cons.prems(2,3,4) eq by auto
    with step False show ?thesis by simp
  qed
qed simp

end
