(* ===== verification/Dag_Start.thy ===== *)
theory Dag_Start
  imports Dag_History Threshold_Clock
begin

text \<open>
  Starting a validator on an empty store: \<open>DagState::new\<close> gives a state with the invariant whose
  DAG is the genesis blocks. The concrete context is the input
  on which theorems about DAG states are evaluated.
\<close>

section \<open>A fresh state\<close>

lemma bm_insert_greatest:
  "(\<And>k'. k' \<in> fst ` set m \<Longrightarrow> k' < k) \<Longrightarrow> bm_insert k v m = m @ [(k, v)]"
proof (induction k v m rule: bm_insert.induct)
  case (2 k v k' v' m)
  from "2.prems" [of k'] have "k' < k" by simp
  with "2.IH" "2.prems" show ?case by (auto simp: not_less_iff_gr_or_eq)
qed simp

lemma foldl_bm_insert_sorted:
  assumes "sorted_wrt (<) (map fst m @ map vb_reference bs)"
  shows "foldl (\<lambda>m b. bm_insert (vb_reference b) b m) m bs = m @ block_entries bs"
  using assms
proof (induction bs arbitrary: m)
  case (Cons b bs)
  have "bm_insert (vb_reference b) b m = m @ [(vb_reference b, b)]"
    using Cons.prems by (intro bm_insert_greatest) (auto simp: sorted_wrt_append)
  with Cons show ?case by (simp add: block_entries_def)
qed (simp add: block_entries_def)

lemma genesis_sorted:
  assumes "genesis_blocks cry cx = Inr gs"
  shows "sorted_wrt (<) (map vb_reference gs)"
  unfolding sorted_wrt_iff_nth_less
  using genesis_blocks_spec [OF assms]
  by (auto simp: block_ref_less)

text \<open>The state of a validator that has only its genesis blocks.\<close>

definition fresh_state :: "epoch_context \<Rightarrow> verified_block list \<Rightarrow> dag_state" where
  "fresh_state cx gs =
     \<lparr> ds_context = cx, ds_genesis = block_entries gs, ds_recent_blocks = [],
       ds_recent_refs = replicate (committee_size (cx_committee cx)) [],
       ds_highest_accepted_round = 0, ds_last_commit = None,
       ds_last_committed_rounds = replicate (committee_size (cx_committee cx)) 0,
       ds_unscored_committed_subdags = [], ds_pending_commit_votes = [],
       ds_blocks_to_write = [], ds_commits_to_write = [], ds_commit_info_to_write = [],
       ds_store = MemStore_new,
       ds_cached_rounds = pa_dag_state_cached_rounds (cx_parameters cx) \<rparr>"

lemma scan_empty_store: "mem_scan_blocks_by_author MemStore_new a r = Inr []"
  by (simp add: mem_scan_blocks_by_author_def MemStore_new_def mem_read_blocks_def)

lemma for_each_same: "(\<And>x. x \<in> set xs \<Longrightarrow> f x s = Inr s) \<Longrightarrow> for_each f xs s = Inr s"
  by (induction xs) auto

lemma DagState_new_empty:
  assumes gs: "genesis_blocks cry cx = Inr gs"
  shows "DagState_new cry cx MemStore_new = Inr (fresh_state cx gs)"
proof -
  have genesis: "foldl (\<lambda>m b. bm_insert (vb_reference b) b m) [] gs = block_entries gs"
    using foldl_bm_insert_sorted [of "[]" gs] genesis_sorted [OF gs] by simp
  have commit: "mem_read_last_commit MemStore_new = None"
    "mem_read_last_commit_info MemStore_new = None"
    by (simp_all add: mem_read_last_commit_def mem_read_last_commit_info_def MemStore_new_def)
  let ?n = "committee_size (cx_committee cx)"
  let ?c = "pa_dag_state_cached_rounds (cx_parameters cx)"
  have loop: "for_each (\<lambda>(i, r) s.
      and_then (expect (to_authority_index (cx_committee cx) i) IndexOutOfBounds) (\<lambda>a.
      and_then (mem_scan_blocks_by_author MemStore_new a (u32_add (eviction_round r ?c) 1))
        (\<lambda>blocks. for_each update_block_metadata blocks s)))
      (List.enumerate 0 (replicate ?n 0)) s = Inr s" for s
    by (rule for_each_same)
      (auto simp: scan_empty_store to_authority_index_def committee_size_def in_set_enumerate_eq)
  show ?thesis
    unfolding DagState_new_def Let_def gs and_then_Inr genesis commit option.case prod.case loop
    by (simp add: fresh_state_def)
qed

lemma fresh_state_inv:
  assumes gs: "genesis_blocks cry cx = Inr gs" and "cm_authorities (cx_committee cx) \<noteq> []"
    and "0 < pa_dag_state_cached_rounds (cx_parameters cx)"
  shows "dag_inv (fresh_state cx gs)"
proof -
  note spec = genesis_blocks_spec [OF gs]
  have "map (br_author \<circ> fst) (block_entries gs) = [0..<committee_size (cx_committee cx)]"
    using spec by (intro nth_equalityI) (auto simp: block_entries_def)
  moreover have "vb_round b = 0 \<and> vb_ancestors b = [] \<and> vb_timestamp_ms b = 0" if "b \<in> set gs" for b
    using that spec(2) by (auto simp: in_set_conv_nth)
  ultimately have "genesis_wf (fresh_state cx gs)"
    using assms(2) by (auto simp: genesis_wf_def fresh_state_def block_entries_def committee_size_def)
  then show ?thesis
    using assms(3)
    by (simp add: dag_inv_def cache_wf_def cache_sync_def cache_complete_def fresh_state_def
        MemStore_new_def [symmetric] mem_block_def last_commit_round_def)
      (simp add: MemStore_new_def)
qed

lemma fresh_state_lookup:
  "dag_lookup (fresh_state cx gs) r = (if br_round r = 0 then map_of (block_entries gs) r else None)"
  by (simp add: dag_lookup_def fresh_state_def genesis_round_def mem_block_def MemStore_new_def)

lemma fresh_state_causal:
  assumes gs: "genesis_blocks cry cx = Inr gs"
  shows "dag_causal (fresh_state cx gs)"
proof -
  have "vb_ancestors b = []" if "b \<in> set gs" for b
    using that genesis_blocks_spec(2) [OF gs] by (auto simp: in_set_conv_nth)
  then show ?thesis
    by (auto simp: dag_causal_def fresh_state_lookup block_entries_def dest!: map_of_SomeD
        split: if_splits)
qed

section \<open>A concrete context\<close>

text \<open>
  The committee of four. The serialization and the hash of the example are concrete functions
  with distinct digests for the blocks used below; nothing else depends on them.
\<close>

definition ex_context :: epoch_context where
  "ex_context = \<lparr> cx_own_index = 0, cx_committee = ex_committee,
     cx_parameters = \<lparr> pa_leader_timeout_ms = 250, pa_min_round_delay_ms = 0, pa_max_forward_time_drift_ms = 500,
       pa_max_blocks_per_fetch = 10, pa_dag_state_cached_rounds = 2, pa_commit_sync_parallel_fetches = 3,
       pa_commit_sync_batch_size = 5, pa_commit_sync_batches_ahead = 8 \<rparr>,
     cx_protocol_config = \<lparr> pc_mysticeti_leader_scoring_and_schedule = True,
       pc_consensus_bad_nodes_stake_threshold = 20,
       pc_consensus_max_transactions_in_block_bytes = 100,
       pc_consensus_max_transaction_size_bytes = 50 \<rparr> \<rparr>"

fun ex_block_bytes :: "block \<Rightarrow> byte list" where
  "ex_block_bytes (V1 b) = [of_nat (bv_round b), of_nat (bv_author b), of_nat (bv_timestamp_ms b)]"

fun ex_commit_bytes :: "commit \<Rightarrow> byte list" where
  "ex_commit_bytes (Commit_V1 c) = [of_nat (co_index c)]"

definition ex_crypto :: crypto where
  "ex_crypto = \<lparr> cy_bcs_block = \<lambda>b. Some (ex_block_bytes b),
     cy_bcs_signed_block = \<lambda>sb. Some (ex_block_bytes (sb_inner sb)),
     cy_bcs_commit = \<lambda>c. Some (ex_commit_bytes c),
     cy_bcs_intent_message = \<lambda>(_, d). Some [ucast d],
     cy_hash = \<lambda>bytes. foldl (\<lambda>h x. 16 * h + ucast x) 1 bytes,
     cy_sign = \<lambda>_ bytes. bytes,
     cy_signature_from_bytes = \<lambda>bytes. Some bytes,
     cy_verify = \<lambda>_ bytes sig. bytes = sig \<rparr>"

definition ex_genesis :: "verified_block list" where
  "ex_genesis = map (\<lambda>i. VerifiedBlock_new_verified ex_crypto
     (SignedBlock_new_genesis (V1 (genesis_block 0 i))) [0, of_nat i, 0]) [0..<4]"

definition ex_dag :: dag_state where
  "ex_dag = fresh_state ex_context ex_genesis"

text \<open>A block of the example, with the given round, author, timestamp and ancestors.\<close>

definition ex_block :: "round \<Rightarrow> authority_index \<Rightarrow> timestamp_ms \<Rightarrow> block_ref list \<Rightarrow> verified_block" where
  "ex_block r a t ancestors =
     VerifiedBlock_new_verified ex_crypto
       \<lparr> sb_inner = V1 (block_v1_new 0 r a t ancestors [] [] []), sb_signature = [] \<rparr>
       [of_nat r, of_nat a, of_nat t]"

lemma ex_genesis_eq: "genesis_blocks ex_crypto ex_context = Inr ex_genesis"
proof -
  have "committee_authorities (cx_committee ex_context) = map (\<lambda>i. (i, ex_authority)) [0..<4]"
    by (simp add: committee_authorities_def ex_context_def ex_committee_def
        enumerate_replicate_eq)
  moreover have "cm_epoch (cx_committee ex_context) = 0"
    by (simp add: ex_context_def ex_committee_def)
  moreover have "cy_bcs_signed_block ex_crypto (SignedBlock_new_genesis (V1 (genesis_block 0 i))) =
      Some [0, of_nat i, 0]" for i
    by (simp add: ex_crypto_def SignedBlock_new_genesis_def genesis_block_def genesis_round_def)
  ultimately show ?thesis
    unfolding genesis_blocks_def ex_genesis_def
    by (subst map_res_Inr [where g = "\<lambda>(i, _). VerifiedBlock_new_verified ex_crypto
          (SignedBlock_new_genesis (V1 (genesis_block 0 i))) [0, of_nat i, 0]"])
      (auto simp: Let_def)
qed

lemma ex_dag_inv [simp]: "dag_inv ex_dag"
  unfolding ex_dag_def
  by (rule fresh_state_inv [OF ex_genesis_eq]) (simp_all add: ex_context_def ex_committee_def)

lemma ex_dag_causal [simp]: "dag_causal ex_dag"
  unfolding ex_dag_def by (rule fresh_state_causal [OF ex_genesis_eq])

lemma ex_dag_size [simp]: "num_authorities ex_dag = 4"
  by (simp add: ex_dag_def fresh_state_def ex_context_def)

lemma ex_dag_recent [simp]: "ds_recent_blocks ex_dag = []"
  by (simp add: ex_dag_def fresh_state_def)

lemma ex_dag_slot [simp]: "get_uncommitted_blocks_at_slot ex_dag s = []"
  by (simp add: get_uncommitted_blocks_at_slot_def)

lemma ex_genesis_length [simp]: "length ex_genesis = 4"
  by (simp add: ex_genesis_def)

lemma ex_genesis_nth: "i < 4 \<Longrightarrow> vb_author (ex_genesis ! i) = i \<and> vb_round (ex_genesis ! i) = 0"
  using genesis_blocks_spec(2) [OF ex_genesis_eq, of i] by simp

lemma ex_dag_lookup:
  "dag_lookup ex_dag r = (if br_round r = 0 then map_of (block_entries ex_genesis) r else None)"
  by (simp add: ex_dag_def fresh_state_lookup)

lemma ex_block_sel [simp]:
  "vb_round (ex_block r a t as) = r" "vb_author (ex_block r a t as) = a"
  "vb_timestamp_ms (ex_block r a t as) = t" "vb_ancestors (ex_block r a t as) = as"
  by (simp_all add: ex_block_def VerifiedBlock_new_verified_def block_v1_new_def vb_defs)

lemma ex_genesis_known: "b \<in> set ex_genesis \<Longrightarrow> dag_lookup ex_dag (vb_reference b) = Some b"
proof -
  assume b: "b \<in> set ex_genesis"
  have "distinct (map fst (block_entries ex_genesis))"
    using genesis_sorted [OF ex_genesis_eq]
    by (simp add: block_entries_def comp_def strict_sorted_iff)
  then have "map_of (block_entries ex_genesis) (vb_reference b) = Some b"
    using b by (intro map_of_is_SomeI) (auto simp: block_entries_def)
  moreover have "vb_round b = 0"
    using b genesis_blocks_spec(2) [OF ex_genesis_eq] by (auto simp: in_set_conv_nth)
  ultimately show ?thesis by (simp add: ex_dag_lookup)
qed

section \<open>Properties\<close>



text \<open>\<open>DagState::get_blocks\<close>, which answers from genesis and the cache and batches the rest into one
  storage read, returns for every reference what a single lookup of the DAG returns.\<close>

theorem get_blocks_is_pointwise_lookup:
  "get_blocks ds refs = map (dag_lookup ds) refs"
  by (rule get_blocks_eq)

text \<open>C8: \<open>DagState::contains_blocks\<close>, with its shortcut that a reference after the newest cached one of
  its author cannot be in storage, answers exactly whether each block is in the DAG, and does not
  panic, in every state with the cache invariant.\<close>

theorem contains_blocks_exact:
  assumes "dag_inv ds" "\<forall>r \<in> set refs. br_author r < num_authorities ds"
  shows "contains_blocks ds refs = Inr (map (\<lambda>r. dag_lookup ds r \<noteq> None) refs)"
  using assms by (intro contains_blocks_eq) auto

theorem contains_blocks_exact_witness:
  "contains_blocks ex_dag [vb_reference (ex_genesis ! 2), BlockRef 1 2 0] = Inr [True, False]"
proof -
  have "vb_author (ex_genesis ! 2) = 2" using ex_genesis_nth [of 2] by simp
  moreover have "dag_lookup ex_dag (vb_reference (ex_genesis ! 2)) \<noteq> None"
    using ex_genesis_known [of "ex_genesis ! 2"] by simp
  ultimately show ?thesis
    using contains_blocks_exact [of ex_dag "[vb_reference (ex_genesis ! 2), BlockRef 1 2 0]"]
    by (simp add: ex_dag_lookup)
qed

text \<open>C9: \<open>DagState::accept_block\<close> of a block of a committee member after genesis, not from the future
  and not for an own slot already taken in memory, does not panic; it adds the block to the DAG when it is new,
  changes nothing otherwise, and keeps the cache invariant.\<close>

theorem accept_block_adds_exactly_one_block:
  assumes "dag_inv ds" "vb_round b \<noteq> 0" "vb_author b < num_authorities ds" "vb_timestamp_ms b \<le> now"
    and "vb_author b = cx_own_index (ds_context ds) \<longrightarrow>
      get_uncommitted_blocks_at_slot ds (slot_of (vb_reference b)) = []"
  shows "\<exists>ds'. accept_block now b ds = Inr ds' \<and> dag_inv ds' \<and>
    dag_lookup ds' = (if dag_lookup ds (vb_reference b) = None
      then (dag_lookup ds)(vb_reference b \<mapsto> b) else dag_lookup ds)"
proof (cases "dag_lookup ds (vb_reference b) = None")
  case True
  with assms have "accept_block now b ds = Inr (accepted_state b ds)"
    by (intro accept_block_new) auto
  with True assms show ?thesis by (simp add: accepted_inv accepted_lookup)
next
  case False
  with assms show ?thesis by (simp add: accept_block_known del: not_None_eq)
qed

theorem accept_block_adds_exactly_one_block_witness:
  "\<exists>ds'. accept_block 9 (ex_block 1 0 5 []) ex_dag = Inr ds' \<and> dag_inv ds' \<and>
     dag_lookup ds' (vb_reference (ex_block 1 0 5 [])) = Some (ex_block 1 0 5 [])"
  using accept_block_adds_exactly_one_block [of ex_dag "ex_block 1 0 5 []" 9]
  by (auto simp: ex_dag_lookup)

text \<open>C10: \<open>DagState::flush\<close> persists and forgets nothing: afterwards storage holds every block of the DAG
  after genesis, every lookup answers as before although old blocks left the cache, and the cache
  invariant holds.\<close>

theorem flush_loses_no_block:
  assumes "dag_inv ds"
  shows "dag_inv (flush ds) \<and> (\<forall>r. dag_lookup (flush ds) r = dag_lookup ds r) \<and>
    (\<forall>r. br_round r = 0 \<or> mem_block (ds_store (flush ds)) r = dag_lookup ds r)"
  using flush_persists [OF assms] by auto

theorem flush_loses_no_block_witness:
  "\<exists>ds. accept_block 9 (ex_block 1 0 5 []) ex_dag = Inr ds \<and>
     mem_block (ds_store (flush ds)) (vb_reference (ex_block 1 0 5 [])) = Some (ex_block 1 0 5 [])"
proof -
  let ?b = "ex_block 1 0 5 []"
  have new: "accept_block 9 ?b ex_dag = Inr (accepted_state ?b ex_dag)"
    by (rule accept_block_new) (simp_all add: ex_dag_lookup)
  have inv: "dag_inv (accepted_state ?b ex_dag)"
    by (rule accepted_inv) (simp_all add: ex_dag_lookup)
  have "br_round (vb_reference ?b) \<noteq> 0" by simp
  with flush_loses_no_block [OF inv]
  have "mem_block (ds_store (flush (accepted_state ?b ex_dag))) (vb_reference ?b) =
      dag_lookup (accepted_state ?b ex_dag) (vb_reference ?b)" by metis
  with new show ?thesis by (simp add: accepted_lookup)
qed

text \<open>C11: In a causally complete DAG, \<open>DagState::ancestors_at_round\<close> ends without a panic and returns
  exactly the blocks at the given round that are reachable from the block through ancestor
  references.\<close>

theorem ancestors_at_round_is_history:
  assumes "dag_causal ds" "set (vb_ancestors b) \<subseteq> dom (dag_lookup ds)"
  shows "\<exists>bs. ancestors_at_round ds b rnd = Inr bs \<and>
    set bs = {x. \<exists>r. r \<in> history ds b \<and> br_round r = rnd \<and> dag_lookup ds r = Some x}"
  using ancestors_at_round_eq [OF assms, of rnd] by (simp add: Bex_def)

theorem ancestors_at_round_is_history_witness:
  "\<exists>bs. ancestors_at_round ex_dag (ex_block 1 0 5 [vb_reference (ex_genesis ! 1)]) 0 = Inr bs \<and>
     ex_genesis ! 1 \<in> set bs"
proof -
  let ?g = "ex_genesis ! 1" and ?b = "ex_block 1 0 5 [vb_reference (ex_genesis ! 1)]"
  have known: "dag_lookup ex_dag (vb_reference ?g) = Some ?g" by (rule ex_genesis_known) simp
  have "set (vb_ancestors ?b) \<subseteq> dom (dag_lookup ex_dag)" using known by auto
  from ancestors_at_round_is_history [OF ex_dag_causal this, of 0] obtain bs where bs:
    "ancestors_at_round ex_dag ?b 0 = Inr bs"
    "set bs = {x. \<exists>r. r \<in> history ex_dag ?b \<and> br_round r = 0 \<and> dag_lookup ex_dag r = Some x}"
    by blast
  have "vb_reference ?g \<in> history ex_dag ?b" by (auto simp: history_def)
  with bs known ex_genesis_nth [of 1] show ?thesis by auto
qed

text \<open>C12: When \<open>DagState::add_commit\<close> returns, either the commit is not after the last one and the state
  is unchanged, or its index is the next one without wrap-around, its timestamp is not before the
  last commit's, it is queued for writing and voting, and every author's last committed round
  becomes the largest of its old value and the rounds of its blocks in the commit.\<close>

theorem add_commit_extends_the_sequence:
  assumes "add_commit c ds = Inr ds'"
  shows "(ds' = ds \<and> tc_index c \<le> last_commit_index ds) \<or>
    (tc_index c = last_commit_index ds + 1 \<and> last_commit_timestamp_ms ds \<le> tc_timestamp_ms c \<and>
     ds_last_commit ds' = Some c \<and> ds_commits_to_write ds' = ds_commits_to_write ds @ [c] \<and>
     ds_pending_commit_votes ds' = ds_pending_commit_votes ds @ [tc_reference c] \<and>
     rounds_raised (tc_blocks c) (ds_last_committed_rounds ds) (ds_last_committed_rounds ds'))"
proof -
  have "tc_index c = last_commit_index ds + 1 \<and> last_commit_timestamp_ms ds \<le> tc_timestamp_ms c"
    if "commit_follows ds c"
  proof (cases "ds_last_commit ds")
    case (Some prev)
    with that have less: "tc_index prev < tc_index c" "tc_index c = (tc_index prev + 1) mod 2 ^ 32"
      by (simp_all add: commit_follows_def u32_add_def)
    moreover have "(tc_index prev + 1) mod 2 ^ 32 \<le> tc_index prev + 1" by (rule mod_less_eq_dividend)
    ultimately have "tc_index c = tc_index prev + 1" by simp
    with Some that show ?thesis
      by (simp add: commit_follows_def last_commit_index_def last_commit_timestamp_ms_def)
  qed (use that in \<open>simp add: commit_follows_def last_commit_index_def last_commit_timestamp_ms_def\<close>)
  with add_commit_Inr [OF assms] raise_all_spec show ?thesis by blast
qed

definition ex_commit :: trusted_commit where
  "ex_commit = TrustedCommit_new_trusted ex_crypto
     (Commit_new 1 digest_min 5 (BlockRef 1 0 0) [BlockRef 1 0 0]) [1]"

theorem add_commit_extends_the_sequence_witness:
  "\<exists>ds'. add_commit ex_commit ex_dag = Inr ds' \<and> ds_last_commit ds' = Some ex_commit \<and>
     tc_index ex_commit = last_commit_index ex_dag + 1"
proof -
  have follows: "commit_follows ex_dag ex_commit"
    by (simp add: commit_follows_def ex_dag_def fresh_state_def ex_commit_def tc_defs)
  have blocks: "tc_blocks ex_commit = [BlockRef 1 0 0]" by (simp add: ex_commit_def tc_defs)
  have "length (ds_last_committed_rounds ex_dag) = 4"
    by (simp add: ex_dag_def fresh_state_def ex_context_def)
  then obtain ds' where ds': "add_commit ex_commit ex_dag = Inr ds'" "ds_last_commit ds' = Some ex_commit"
    using add_commit_total [OF follows] blocks by fastforce
  moreover have "ds' \<noteq> ex_dag" using ds'(2) by (auto simp: ex_dag_def fresh_state_def)
  ultimately show ?thesis using add_commit_extends_the_sequence [OF ds'(1)] by blast
qed

end
