(* ===== verification/Base_Committer.thy ===== *)
theory Base_Committer
  imports Dag_Start
begin

text \<open>
  The commit rule for one leader per wave (\<^verbatim>\<open>consensus/core/src/base_committer.rs\<close>): votes,
  certificates, the direct rule and the indirect rule. The shared leader schedule is the argument
  \<open>schedule\<close>, the function that elects a leader for a round and an offset.

  \<open>find_supported_block\<close> recurses through ancestors. Rounds drop along every reference of a
  causally complete DAG, so a fuel of one more than the round of the block is always enough
  (\<open>find_supported_total\<close>).
\<close>

section \<open>Options and rounds\<close>

record base_committer_options =
  bo_wave_length :: nat
  bo_leader_offset :: nat
  bo_round_offset :: nat

definition base_committer_options_default :: base_committer_options where
  "base_committer_options_default =
     \<lparr> bo_wave_length = default_wave_length, bo_leader_offset = 0, bo_round_offset = 0 \<rparr>"

record base_committer =
  bc_context :: epoch_context
  bc_options :: base_committer_options

definition BaseCommitter_new :: "epoch_context \<Rightarrow> base_committer_options \<Rightarrow> base_committer res" where
  "BaseCommitter_new cx options =
     and_then (assert_that (bo_wave_length options \<ge> minimum_wave_length) (CommitterPanic WaveTooShort))
       (\<lambda>_. Inr \<lparr> bc_context = cx, bc_options = options \<rparr>)"

definition wave_number :: "base_committer \<Rightarrow> round \<Rightarrow> nat" where
  "wave_number c rnd = (rnd - bo_round_offset (bc_options c)) div bo_wave_length (bc_options c)"

definition leader_round :: "base_committer \<Rightarrow> nat \<Rightarrow> round" where
  "leader_round c wave =
     u32_add (u32_mul wave (bo_wave_length (bc_options c))) (bo_round_offset (bc_options c))"

definition decision_round :: "base_committer \<Rightarrow> nat \<Rightarrow> round" where
  "decision_round c wave =
     (let wave_length = bo_wave_length (bc_options c) in
      u32_add (u32_sub (u32_add (u32_mul wave wave_length) wave_length) 1)
        (bo_round_offset (bc_options c)))"

definition committer_elect_leader ::
  "(round \<Rightarrow> nat \<Rightarrow> authority_index res) \<Rightarrow> base_committer \<Rightarrow> round \<Rightarrow> slot option res" where
  "committer_elect_leader schedule c rnd =
     (if leader_round c (wave_number c rnd) \<noteq> rnd then Inr None
      else and_then (schedule rnd (bo_leader_offset (bc_options c)))
             (\<lambda>a. Inr (Some (Slot rnd a))))"

section \<open>Votes and certificates\<close>

text \<open>The loop over ancestors, with the recursive call \<open>deeper\<close> for those after the leader round.\<close>

fun first_support ::
  "(block_ref \<Rightarrow> block_ref option res) \<Rightarrow> slot \<Rightarrow> block_ref list \<Rightarrow> block_ref option res" where
  "first_support deeper leader_slot [] = Inr None"
| "first_support deeper leader_slot (a # ancestors) =
     (if slot_of a = leader_slot then Inr (Some a)
      else if br_round a \<le> slot_round leader_slot then first_support deeper leader_slot ancestors
      else and_then (deeper a) (\<lambda>support.
        case support of
          Some r \<Rightarrow> Inr (Some r)
        | None \<Rightarrow> first_support deeper leader_slot ancestors))"

primrec find_supported_fuel ::
  "dag_state \<Rightarrow> nat \<Rightarrow> slot \<Rightarrow> verified_block \<Rightarrow> block_ref option res" where
  "find_supported_fuel ds 0 leader_slot from_block = Inl Diverges"
| "find_supported_fuel ds (Suc n) leader_slot from_block =
     (if vb_round from_block < slot_round leader_slot then Inr None
      else first_support
             (\<lambda>a. and_then (expect (get_block ds a) (DagPanic BlockNotFound))
                    (find_supported_fuel ds n leader_slot))
             leader_slot (vb_ancestors from_block))"

definition find_supported_block ::
  "dag_state \<Rightarrow> slot \<Rightarrow> verified_block \<Rightarrow> block_ref option res" where
  "find_supported_block ds leader_slot from_block =
     find_supported_fuel ds (Suc (vb_round from_block)) leader_slot from_block"

definition is_vote :: "dag_state \<Rightarrow> verified_block \<Rightarrow> verified_block \<Rightarrow> bool res" where
  "is_vote ds potential_vote leader_block =
     (let reference = vb_reference leader_block in
      and_then (find_supported_block ds (slot_of reference) potential_vote)
        (\<lambda>support. Inr (support = Some reference)))"

text \<open>\<open>all_votes\<close>, the cache of votes for one leader block, is a map from references.\<close>

definition cached_is_vote ::
  "dag_state \<Rightarrow> verified_block \<Rightarrow> block_ref \<Rightarrow> (block_ref \<rightharpoonup> bool) \<Rightarrow> (bool \<times> (block_ref \<rightharpoonup> bool)) res" where
  "cached_is_vote ds leader_block reference all_votes =
     (case all_votes reference of
        Some v \<Rightarrow> Inr (v, all_votes)
      | None \<Rightarrow>
          and_then (expect (get_block ds reference) (DagPanic BlockNotFound)) (\<lambda>potential_vote.
          and_then (is_vote ds potential_vote leader_block) (\<lambda>v.
            Inr (v, all_votes(reference \<mapsto> v)))))"

fun certificate_loop ::
  "committee \<Rightarrow> dag_state \<Rightarrow> verified_block \<Rightarrow> block_ref list \<Rightarrow> stake_aggregator
     \<Rightarrow> (block_ref \<rightharpoonup> bool) \<Rightarrow> (bool \<times> (block_ref \<rightharpoonup> bool)) res" where
  "certificate_loop cm ds leader_block [] agg all_votes = Inr (False, all_votes)"
| "certificate_loop cm ds leader_block (r # refs) agg all_votes =
     and_then (cached_is_vote ds leader_block r all_votes) (\<lambda>(v, all_votes').
       if v then
         and_then (agg_add quorum_is_threshold (br_author r) cm agg) (\<lambda>(reached, agg').
           if reached then Inr (True, all_votes')
           else certificate_loop cm ds leader_block refs agg' all_votes')
       else certificate_loop cm ds leader_block refs agg all_votes')"

definition is_certificate ::
  "base_committer \<Rightarrow> dag_state \<Rightarrow> verified_block \<Rightarrow> verified_block \<Rightarrow> (block_ref \<rightharpoonup> bool)
     \<Rightarrow> (bool \<times> (block_ref \<rightharpoonup> bool)) res" where
  "is_certificate c ds potential_certificate leader_block all_votes =
     certificate_loop (cx_committee (bc_context c)) ds leader_block
       (vb_ancestors potential_certificate) agg_new all_votes"

section \<open>Direct rule\<close>

definition enough_leader_blame ::
  "base_committer \<Rightarrow> dag_state \<Rightarrow> round \<Rightarrow> authority_index \<Rightarrow> bool res" where
  "enough_leader_blame c ds voting_round leader =
     and_then (get_uncommitted_blocks_at_round ds voting_round) (\<lambda>voting_blocks.
       agg_add_until quorum_is_threshold (cx_committee (bc_context c))
         (map (\<lambda>b. br_author (vb_reference b))
           (filter (\<lambda>b. \<forall>a \<in> set (vb_ancestors b). br_author a \<noteq> leader) voting_blocks))
         agg_new)"

fun support_loop ::
  "base_committer \<Rightarrow> dag_state \<Rightarrow> verified_block \<Rightarrow> verified_block list \<Rightarrow> stake_aggregator
     \<Rightarrow> (block_ref \<rightharpoonup> bool) \<Rightarrow> bool res" where
  "support_loop c ds leader_block [] agg all_votes = Inr False"
| "support_loop c ds leader_block (b # blocks) agg all_votes =
     and_then (is_certificate c ds b leader_block all_votes) (\<lambda>(certificate, all_votes').
       if certificate then
         and_then (agg_add quorum_is_threshold (br_author (vb_reference b))
                     (cx_committee (bc_context c)) agg) (\<lambda>(reached, agg').
           if reached then Inr True else support_loop c ds leader_block blocks agg' all_votes')
       else support_loop c ds leader_block blocks agg all_votes')"

definition enough_leader_support ::
  "base_committer \<Rightarrow> dag_state \<Rightarrow> round \<Rightarrow> verified_block \<Rightarrow> bool res" where
  "enough_leader_support c ds decision_rnd leader_block =
     and_then (get_uncommitted_blocks_at_round ds decision_rnd) (\<lambda>decision_blocks.
     and_then (map_res (\<lambda>b. committee_stake (cx_committee (bc_context c)) (vb_author b)) decision_blocks)
       (\<lambda>stakes.
       if \<not> reached_quorum (cx_committee (bc_context c)) (u64_sum stakes) then Inr False
       else support_loop c ds leader_block decision_blocks agg_new Map.empty))"

definition try_direct_decide :: "base_committer \<Rightarrow> dag_state \<Rightarrow> slot \<Rightarrow> leader_status res" where
  "try_direct_decide c ds leader =
     and_then (enough_leader_blame c ds (u32_add (slot_round leader) 1) (slot_authority leader))
       (\<lambda>blamed.
         if blamed then Inr (Skip leader)
         else
           let decision_rnd = decision_round c (wave_number c (slot_round leader)) in
           and_then (filter_res (enough_leader_support c ds decision_rnd)
                       (get_uncommitted_blocks_at_slot ds leader)) (\<lambda>supported.
             if length supported > 1 then Inl (CommitterPanic MoreThanOneCertifiedLeader)
             else Inr (case last_opt supported of Some b \<Rightarrow> Commit b | None \<Rightarrow> Undecided leader)))"

section \<open>Indirect rule\<close>

fun any_certificate ::
  "base_committer \<Rightarrow> dag_state \<Rightarrow> verified_block \<Rightarrow> verified_block list \<Rightarrow> (block_ref \<rightharpoonup> bool)
     \<Rightarrow> bool res" where
  "any_certificate c ds leader_block [] all_votes = Inr False"
| "any_certificate c ds leader_block (b # blocks) all_votes =
     and_then (is_certificate c ds b leader_block all_votes) (\<lambda>(certificate, all_votes').
       if certificate then Inr True else any_certificate c ds leader_block blocks all_votes')"

definition decide_leader_from_anchor ::
  "base_committer \<Rightarrow> dag_state \<Rightarrow> verified_block \<Rightarrow> slot \<Rightarrow> leader_status res" where
  "decide_leader_from_anchor c ds anchor leader_slot =
     (let leader_blocks = get_uncommitted_blocks_at_slot ds leader_slot;
          decision_rnd = decision_round c (wave_number c (slot_round leader_slot)) in
      and_then (ancestors_at_round ds anchor decision_rnd) (\<lambda>potential_certificates.
      and_then (filter_res (\<lambda>b. any_certificate c ds b potential_certificates Map.empty) leader_blocks)
        (\<lambda>certified.
          if length certified > 1 then Inl (CommitterPanic MoreThanOneCertifiedLeader)
          else Inr (case last_opt certified of Some b \<Rightarrow> Commit b | None \<Rightarrow> Skip leader_slot))))"

fun decide_from_anchors ::
  "base_committer \<Rightarrow> dag_state \<Rightarrow> slot \<Rightarrow> leader_status list \<Rightarrow> leader_status res" where
  "decide_from_anchors c ds leader_slot [] = Inr (Undecided leader_slot)"
| "decide_from_anchors c ds leader_slot (Commit anchor # anchors) =
     decide_leader_from_anchor c ds anchor leader_slot"
| "decide_from_anchors c ds leader_slot (Skip _ # anchors) =
     decide_from_anchors c ds leader_slot anchors"
| "decide_from_anchors c ds leader_slot (Undecided _ # anchors) = Inr (Undecided leader_slot)"

definition try_indirect_decide ::
  "base_committer \<Rightarrow> dag_state \<Rightarrow> slot \<Rightarrow> leader_status list \<Rightarrow> leader_status res" where
  "try_indirect_decide c ds leader_slot leaders =
     decide_from_anchors c ds leader_slot
       (filter (\<lambda>x. u32_add (slot_round leader_slot) (bo_wave_length (bc_options c)) \<le> status_round x)
         leaders)"

section \<open>Wave arithmetic\<close>

lemma elected_round:
  assumes "committer_elect_leader schedule c rnd = Inr (Some s)"
  shows "slot_round s = rnd" and "leader_round c (wave_number c rnd) = rnd"
    and "schedule rnd (bo_leader_offset (bc_options c)) = Inr (slot_authority s)"
  using assms by (auto simp: committer_elect_leader_def and_then_eq_Inr split: if_splits)

text \<open>
  For the round of an elected leader, the decision round is the last of the wave that starts there,
  as long as the rounds of the wave fit 32 bits.
\<close>

definition options_wf :: "base_committer_options \<Rightarrow> bool" where
  "options_wf opts \<longleftrightarrow>
     minimum_wave_length \<le> bo_wave_length opts \<and> bo_round_offset opts < bo_wave_length opts"

lemma decision_round_elected:
  assumes wf: "options_wf (bc_options c)" and lead: "leader_round c (wave_number c rnd) = rnd"
    and bound: "rnd + bo_wave_length (bc_options c) < 2 ^ 32"
  shows "decision_round c (wave_number c rnd) = rnd + bo_wave_length (bc_options c) - 1"
proof -
  let ?w = "bo_wave_length (bc_options c)" and ?o = "bo_round_offset (bc_options c)"
  let ?m = "wave_number c rnd * ?w"
  have w: "3 \<le> ?w" "?o < ?w" using wf by (simp_all add: options_wf_def minimum_wave_length_def)
  have m: "?m \<le> rnd - ?o" by (simp add: wave_number_def)
  have mul: "u32_mul (wave_number c rnd) ?w = ?m" using m bound by (intro u32_mul_exact) simp
  have "u32_add ?m ?o = ?m + ?o" using m w bound by (intro u32_add_exact) linarith
  then have rnd: "?m + ?o = rnd" using lead by (simp add: leader_round_def mul)
  have "u32_add ?m ?w = ?m + ?w" using rnd bound by (intro u32_add_exact) simp
  moreover have "u32_sub (?m + ?w) 1 = ?m + ?w - 1" using rnd bound w by (intro u32_sub_exact) simp_all
  moreover have "u32_add (?m + ?w - 1) ?o = ?m + ?w - 1 + ?o"
    using rnd bound by (intro u32_add_exact) simp
  ultimately show ?thesis using rnd w by (simp add: decision_round_def mul Let_def)
qed

section \<open>Supported blocks\<close>

text \<open>
  A block whose ancestors are known and have lower rounds; every block of a causally complete DAG
  is one.
\<close>

definition block_causal :: "dag_state \<Rightarrow> verified_block \<Rightarrow> bool" where
  "block_causal ds b \<longleftrightarrow>
     (\<forall>a \<in> set (vb_ancestors b). dag_lookup ds a \<noteq> None \<and> br_round a < vb_round b)"

lemma dag_causal_block:
  "dag_inv ds \<Longrightarrow> dag_causal ds \<Longrightarrow> dag_lookup ds r = Some b \<Longrightarrow> block_causal ds b"
  unfolding dag_causal_def block_causal_def using dag_lookup_ref(1) [of ds r b] by fastforce

lemma first_support_cong:
  assumes "\<And>a. a \<in> set as \<Longrightarrow> slot_round s < br_round a \<Longrightarrow> f a = g a"
  shows "first_support f s as = first_support g s as"
  using assms by (induction as) (auto intro!: and_then_cong split: option.split)

lemma first_support_total:
  assumes "\<And>a. a \<in> set as \<Longrightarrow> slot_round s < br_round a \<Longrightarrow>
      \<exists>x. f a = Inr x \<and> (\<forall>r. x = Some r \<longrightarrow> slot_of r = s)"
  shows "\<exists>x. first_support f s as = Inr x \<and> (\<forall>r. x = Some r \<longrightarrow> slot_of r = s)"
  using assms
proof (induction as)
  case (Cons a as)
  from Cons.IH Cons.prems obtain x where x: "first_support f s as = Inr x"
    "\<forall>r. x = Some r \<longrightarrow> slot_of r = s" by auto
  show ?case
  proof (cases "slot_of a = s \<or> br_round a \<le> slot_round s")
    case False
    with Cons.prems [of a] obtain y where "f a = Inr y" "\<forall>r. y = Some r \<longrightarrow> slot_of r = s" by auto
    with False x show ?thesis by (cases y) auto
  qed (use x in auto)
qed simp

lemma find_supported_fuel_total:
  assumes inv: "dag_inv ds" "dag_causal ds"
  shows "block_causal ds b \<Longrightarrow> vb_round b < n \<Longrightarrow>
    \<exists>x. find_supported_fuel ds n s b = Inr x \<and> (\<forall>r. x = Some r \<longrightarrow> slot_of r = s)"
proof (induction n arbitrary: b)
  case (Suc n)
  have "\<exists>x. and_then (expect (get_block ds a) (DagPanic BlockNotFound)) (find_supported_fuel ds n s)
      = Inr x \<and> (\<forall>r. x = Some r \<longrightarrow> slot_of r = s)" if "a \<in> set (vb_ancestors b)" for a
  proof -
    from Suc.prems(1) that obtain x where x: "dag_lookup ds a = Some x" "br_round a < vb_round b"
      by (auto simp: block_causal_def)
    moreover have "vb_round x = br_round a" using dag_lookup_ref(1) [OF inv(1) x(1)] by auto
    ultimately show ?thesis using Suc.IH [OF dag_causal_block [OF inv x(1)]] Suc.prems(2) by simp
  qed
  then show ?case using first_support_total [of "vb_ancestors b" s] by simp
qed simp

lemma find_supported_total:
  assumes "dag_inv ds" "dag_causal ds" "block_causal ds b"
  shows "\<exists>x. find_supported_block ds s b = Inr x \<and> (\<forall>r. x = Some r \<longrightarrow> slot_of r = s)"
  unfolding find_supported_block_def by (rule find_supported_fuel_total [OF assms]) simp

text \<open>The support of a block depends on its causal history only, not on the DAG it is looked up in.\<close>

definition dags_agree :: "dag_state \<Rightarrow> dag_state \<Rightarrow> bool" where
  "dags_agree ds1 ds2 \<longleftrightarrow>
     (\<forall>r b1 b2. dag_lookup ds1 r = Some b1 \<longrightarrow> dag_lookup ds2 r = Some b2 \<longrightarrow> b1 = b2)"

lemma find_supported_fuel_agree:
  assumes inv: "dag_inv ds1" "dag_causal ds1" "dag_inv ds2" "dag_causal ds2" "dags_agree ds1 ds2"
  shows "block_causal ds1 b \<Longrightarrow> block_causal ds2 b \<Longrightarrow> vb_round b < n \<Longrightarrow> vb_round b < m \<Longrightarrow>
    find_supported_fuel ds1 n s b = find_supported_fuel ds2 m s b"
proof (induction n arbitrary: b m)
  case (Suc n)
  from Suc.prems(4) obtain k where m: "m = Suc k" by (cases m) auto
  have "and_then (expect (get_block ds1 a) (DagPanic BlockNotFound)) (find_supported_fuel ds1 n s) =
      and_then (expect (get_block ds2 a) (DagPanic BlockNotFound)) (find_supported_fuel ds2 k s)"
    if "a \<in> set (vb_ancestors b)" for a
  proof -
    from Suc.prems(1,2) that obtain x where x: "dag_lookup ds1 a = Some x" "dag_lookup ds2 a = Some x"
      "br_round a < vb_round b"
      using inv(5) by (fastforce simp: block_causal_def dags_agree_def)
    moreover have "vb_round x = br_round a" using dag_lookup_ref(1) [OF inv(1) x(1)] by auto
    ultimately show ?thesis
      using Suc.IH [OF dag_causal_block [OF inv(1,2) x(1)] dag_causal_block [OF inv(3,4) x(2)], of k]
        Suc.prems(3,4) by (simp add: m)
  qed
  then have "first_support (\<lambda>a. and_then (expect (get_block ds1 a) (DagPanic BlockNotFound))
        (find_supported_fuel ds1 n s)) s (vb_ancestors b) =
      first_support (\<lambda>a. and_then (expect (get_block ds2 a) (DagPanic BlockNotFound))
        (find_supported_fuel ds2 k s)) s (vb_ancestors b)"
    by (intro first_support_cong) blast
  then show ?case unfolding m find_supported_fuel.simps by (rule if_cong [OF refl refl])
qed simp

lemma find_supported_agree:
  assumes "dag_inv ds1" "dag_causal ds1" "dag_inv ds2" "dag_causal ds2" "dags_agree ds1 ds2"
    and "block_causal ds1 b" "block_causal ds2 b"
  shows "find_supported_block ds1 s b = find_supported_block ds2 s b"
  unfolding find_supported_block_def by (rule find_supported_fuel_agree [OF assms]) simp_all

text \<open>In the round after the leader's, the supported block is the first ancestor at the slot.\<close>

lemma first_support_find:
  assumes "\<And>a. a \<in> set as \<Longrightarrow> br_round a \<le> slot_round s"
  shows "first_support f s as = Inr (List.find (\<lambda>a. slot_of a = s) as)"
  using assms by (induction as) auto

lemma find_supported_next_round:
  assumes "block_causal ds b" "vb_round b \<le> slot_round s + 1"
  shows "find_supported_block ds s b =
    Inr (if vb_round b = slot_round s + 1 then List.find (\<lambda>a. slot_of a = s) (vb_ancestors b) else None)"
proof -
  have below: "br_round a < vb_round b" if "a \<in> set (vb_ancestors b)" for a
    using that assms(1) by (simp add: block_causal_def)
  show ?thesis
  proof (cases "vb_round b < slot_round s")
    case False
    have "first_support f s (vb_ancestors b) = Inr (List.find (\<lambda>a. slot_of a = s) (vb_ancestors b))" for f
      using below assms(2) by (intro first_support_find) fastforce
    moreover have "List.find (\<lambda>a. slot_of a = s) (vb_ancestors b) = None" if "vb_round b \<noteq> slot_round s + 1"
      using below that assms(2) by (fastforce simp: find_None_iff slot_of_eq_iff)
    ultimately show ?thesis using False by (auto simp: find_supported_block_def)
  qed (simp add: find_supported_block_def)
qed

end
