(* ===== verification/Commit_Rules.thy ===== *)
theory Commit_Rules
  imports Base_Committer
begin

text \<open>
  What the rules of the base committer decide, in terms of the DAG: the cached certificate check
  equals its definition without a cache, blame and support are quorums of authors, and the
  two rules return exactly what those quorums and certificates say, without a panic.
\<close>

section \<open>Votes and certificates as properties of the DAG\<close>

definition votes_for :: "dag_state \<Rightarrow> block_ref \<Rightarrow> block_ref \<Rightarrow> bool" where
  "votes_for ds r leader \<longleftrightarrow>
     (\<exists>b. dag_lookup ds r = Some b \<and> find_supported_block ds (slot_of leader) b = Inr (Some leader))"

definition voters :: "dag_state \<Rightarrow> verified_block \<Rightarrow> block_ref \<Rightarrow> authority_index set" where
  "voters ds b leader = br_author ` {r \<in> set (vb_ancestors b). votes_for ds r leader}"

definition certifies :: "committee \<Rightarrow> dag_state \<Rightarrow> verified_block \<Rightarrow> block_ref \<Rightarrow> bool" where
  "certifies cm ds b leader \<longleftrightarrow> reached_quorum cm (stake_of cm (voters ds b leader))"

definition dag_blocks_at :: "dag_state \<Rightarrow> round \<Rightarrow> verified_block set" where
  "dag_blocks_at ds rnd = {b. dag_lookup ds (vb_reference b) = Some b \<and> vb_round b = rnd}"

text \<open>A causally complete DAG of a well-formed committee, with its cache invariant.\<close>

definition dag_ok :: "committee \<Rightarrow> dag_state \<Rightarrow> bool" where
  "dag_ok cm ds \<longleftrightarrow>
     committee_wf cm \<and> cx_committee (ds_context ds) = cm \<and> dag_inv ds \<and> dag_causal ds"

lemma dag_okD:
  assumes "dag_ok cm ds"
  shows "committee_wf cm" "cx_committee (ds_context ds) = cm" "dag_inv ds" "dag_causal ds"
  using assms by (simp_all add: dag_ok_def)

lemma dag_ok_member: "dag_ok cm ds \<Longrightarrow> dag_lookup ds r \<noteq> None \<Longrightarrow> br_author r \<in> members cm"
  using dag_lookup_ref(2) [OF dag_okD(3), of cm ds r] dag_okD(2) [of cm ds] by (auto simp: members_eq)

lemma dag_ok_block_member: "dag_ok cm ds \<Longrightarrow> b \<in> dag_blocks_at ds rnd \<Longrightarrow> vb_author b \<in> members cm"
  using dag_ok_member [of cm ds "vb_reference b"] by (auto simp: dag_blocks_at_def)

lemma dag_ok_causal_block: "dag_ok cm ds \<Longrightarrow> dag_lookup ds r = Some b \<Longrightarrow> block_causal ds b"
  using dag_causal_block dag_okD(3,4) by blast

lemma dag_ok_block_causal: "dag_ok cm ds \<Longrightarrow> b \<in> dag_blocks_at ds rnd \<Longrightarrow> block_causal ds b"
  using dag_ok_causal_block by (auto simp: dag_blocks_at_def)

lemma voters_members: "dag_ok cm ds \<Longrightarrow> block_causal ds b \<Longrightarrow> voters ds b leader \<subseteq> members cm"
  using dag_ok_member by (auto simp: voters_def block_causal_def)

section \<open>The cache of votes\<close>

definition cache_ok :: "dag_state \<Rightarrow> block_ref \<Rightarrow> (block_ref \<rightharpoonup> bool) \<Rightarrow> bool" where
  "cache_ok ds leader all_votes \<longleftrightarrow> (\<forall>r v. all_votes r = Some v \<longrightarrow> v = votes_for ds r leader)"

lemma cache_ok_empty [simp]: "cache_ok ds leader Map.empty"
  by (simp add: cache_ok_def)

lemma is_vote_eq:
  assumes "dag_ok cm ds" "dag_lookup ds r = Some b"
  shows "is_vote ds b leader_block = Inr (votes_for ds r (vb_reference leader_block))"
  using find_supported_total [OF dag_okD(3,4) [OF assms(1)] dag_ok_causal_block [OF assms],
      of "slot_of (vb_reference leader_block)"] assms(2)
  by (auto simp: is_vote_def votes_for_def Let_def)

lemma cached_is_vote_eq:
  assumes "dag_ok cm ds" "dag_lookup ds r \<noteq> None" "cache_ok ds (vb_reference l) votes"
  shows "\<exists>votes'. cached_is_vote ds l r votes = Inr (votes_for ds r (vb_reference l), votes') \<and>
    cache_ok ds (vb_reference l) votes'"
proof (cases "votes r")
  case None
  from assms(2) obtain b where b: "dag_lookup ds r = Some b" by blast
  with is_vote_eq [OF assms(1) b, of l] assms(3) None show ?thesis
    by (auto simp: cached_is_vote_def cache_ok_def)
next
  case (Some v)
  with assms(3) show ?thesis by (auto simp: cached_is_vote_def cache_ok_def)
qed

lemma certificate_loop_eq:
  assumes ok: "dag_ok cm ds"
  shows "agg_inv cm agg \<Longrightarrow> \<not> reached_quorum cm (sa_stake agg) \<Longrightarrow>
    (\<And>r. r \<in> set refs \<Longrightarrow> dag_lookup ds r \<noteq> None) \<Longrightarrow> cache_ok ds (vb_reference l) votes \<Longrightarrow>
    \<exists>votes'. certificate_loop cm ds l refs agg votes =
      Inr (reached_quorum cm (stake_of cm (br_author ` {r \<in> set refs. votes_for ds r (vb_reference l)}
             \<union> set (sa_votes agg))), votes') \<and> cache_ok ds (vb_reference l) votes'"
proof (induction refs arbitrary: agg votes)
  case Nil
  then show ?case by (auto simp: agg_inv_def)
next
  case (Cons r refs)
  have r: "dag_lookup ds r \<noteq> None" "br_author r \<in> members cm"
    using Cons.prems(3) dag_ok_member [OF ok] by auto
  obtain votes1 where vote: "cached_is_vote ds l r votes =
      Inr (votes_for ds r (vb_reference l), votes1)" "cache_ok ds (vb_reference l) votes1"
    using cached_is_vote_eq [OF ok r(1) Cons.prems(4)] by blast
  let ?V = "\<lambda>refs. br_author ` {r \<in> set refs. votes_for ds r (vb_reference l)}"
  show ?case
  proof (cases "votes_for ds r (vb_reference l)")
    case False
    with vote Cons.IH [OF Cons.prems(1,2) _ vote(2)] Cons.prems(3) show ?thesis
      by (simp add: image_iff cong: conj_cong) (smt (verit) Collect_cong)
  next
    case True
    obtain agg1 where agg1: "agg_add quorum_is_threshold (br_author r) cm agg =
        Inr (quorum_is_threshold cm (sa_stake agg1), agg1)" "agg_inv cm agg1"
      "set (sa_votes agg1) = insert (br_author r) (set (sa_votes agg))"
      by (rule agg_add_spec [OF dag_okD(1) [OF ok] Cons.prems(1) r(2)])
    have eq: "?V (r # refs) \<union> set (sa_votes agg) = ?V refs \<union> set (sa_votes agg1)"
      using True agg1(3) by auto
    have sub: "?V refs \<union> set (sa_votes agg1) \<subseteq> members cm"
      using dag_ok_member [OF ok] Cons.prems(3) agg1(2) by (auto simp: agg_inv_def)
    show ?thesis
    proof (cases "reached_quorum cm (sa_stake agg1)")
      case reached: True
      then have "reached_quorum cm (stake_of cm (?V refs \<union> set (sa_votes agg1)))"
        using quorum_thr.reached_mono [OF _ sub, of "set (sa_votes agg1)"] agg1(2)
        by (simp add: quorum_is_threshold_def agg_inv_def)
      with True reached vote agg1 eq show ?thesis by (simp add: quorum_is_threshold_def)
    next
      case False
      obtain votes' where "certificate_loop cm ds l refs agg1 votes1 =
          Inr (reached_quorum cm (stake_of cm (?V refs \<union> set (sa_votes agg1))), votes')"
        "cache_ok ds (vb_reference l) votes'"
        using Cons.IH [OF agg1(2) False _ vote(2)] Cons.prems(3) by auto
      with True False vote agg1 show ?thesis unfolding eq by (simp add: quorum_is_threshold_def)
    qed
  qed
qed

lemma agg_new_not_quorum: "committee_wf cm \<Longrightarrow> \<not> reached_quorum cm (sa_stake agg_new)"
  by (simp add: reached_quorum_def agg_new_def committee_wf_def)

lemma is_certificate_eq:
  assumes ok: "dag_ok cm ds" and c: "cx_committee (bc_context c) = cm" and b: "block_causal ds b"
    and votes: "cache_ok ds (vb_reference l) votes"
  shows "\<exists>votes'. is_certificate c ds b l votes = Inr (certifies cm ds b (vb_reference l), votes') \<and>
    cache_ok ds (vb_reference l) votes'"
  unfolding is_certificate_def c certifies_def voters_def
  using certificate_loop_eq [OF ok agg_inv_new agg_new_not_quorum [OF dag_okD(1) [OF ok]] _ votes] b
  by (simp add: block_causal_def agg_new_def)

lemma any_certificate_eq:
  assumes ok: "dag_ok cm ds" and c: "cx_committee (bc_context c) = cm"
  shows "(\<And>b. b \<in> set bs \<Longrightarrow> block_causal ds b) \<Longrightarrow> cache_ok ds (vb_reference l) votes \<Longrightarrow>
    any_certificate c ds l bs votes = Inr (\<exists>b \<in> set bs. certifies cm ds b (vb_reference l))"
proof (induction bs arbitrary: votes)
  case (Cons b bs)
  obtain votes' where "is_certificate c ds b l votes = Inr (certifies cm ds b (vb_reference l), votes')"
    "cache_ok ds (vb_reference l) votes'"
    using is_certificate_eq [OF ok c _ Cons.prems(2), of b] Cons.prems(1) by auto
  with Cons show ?case by auto
qed simp

section \<open>Blame and support are quorums of authors\<close>

definition blamers :: "dag_state \<Rightarrow> round \<Rightarrow> authority_index \<Rightarrow> authority_index set" where
  "blamers ds voting_rnd leader =
     vb_author ` {b \<in> dag_blocks_at ds voting_rnd. \<forall>a \<in> set (vb_ancestors b). br_author a \<noteq> leader}"

definition certifiers :: "committee \<Rightarrow> dag_state \<Rightarrow> round \<Rightarrow> block_ref \<Rightarrow> authority_index set" where
  "certifiers cm ds decision_rnd leader =
     vb_author ` {b \<in> dag_blocks_at ds decision_rnd. certifies cm ds b leader}"

lemma uncommitted_at_round_ok:
  assumes "dag_ok cm ds" "last_commit_round ds < rnd" "rnd + 1 < 2 ^ 32"
  obtains bs where "get_uncommitted_blocks_at_round ds rnd = Inr bs" "set bs = dag_blocks_at ds rnd"
  using uncommitted_at_round_dag [OF dag_okD(3) [OF assms(1)] assms(2,3)] that
  by (auto simp: dag_blocks_at_def)

lemma enough_leader_blame_eq:
  assumes ok: "dag_ok cm ds" and c: "cx_committee (bc_context c) = cm"
    and "last_commit_round ds < rnd" "rnd + 1 < 2 ^ 32"
  shows "enough_leader_blame c ds rnd leader = Inr (reached_quorum cm (stake_of cm (blamers ds rnd leader)))"
proof -
  obtain bs where bs: "get_uncommitted_blocks_at_round ds rnd = Inr bs" "set bs = dag_blocks_at ds rnd"
    by (rule uncommitted_at_round_ok [OF ok assms(3,4)])
  let ?vs = "map (\<lambda>b. br_author (vb_reference b))
    (filter (\<lambda>b. \<forall>a \<in> set (vb_ancestors b). br_author a \<noteq> leader) bs)"
  have vs: "set ?vs = blamers ds rnd leader" using bs(2) by (auto simp: blamers_def)
  moreover have "set ?vs \<subseteq> members cm" using dag_ok_block_member [OF ok] bs(2) by auto
  ultimately show ?thesis
    unfolding enough_leader_blame_def bs(1) and_then_Inr c
    using quorum_thr.add_until_new [OF dag_okD(1) [OF ok], of ?vs] by (simp add: quorum_is_threshold_def)
qed

lemma support_loop_eq:
  assumes ok: "dag_ok cm ds" and c: "cx_committee (bc_context c) = cm"
  shows "agg_inv cm agg \<Longrightarrow> \<not> reached_quorum cm (sa_stake agg) \<Longrightarrow>
    (\<And>b. b \<in> set bs \<Longrightarrow> block_causal ds b \<and> vb_author b \<in> members cm) \<Longrightarrow>
    cache_ok ds (vb_reference l) votes \<Longrightarrow>
    support_loop c ds l bs agg votes =
      Inr (reached_quorum cm (stake_of cm (vb_author ` {b \<in> set bs. certifies cm ds b (vb_reference l)}
             \<union> set (sa_votes agg))))"
proof (induction bs arbitrary: agg votes)
  case Nil
  then show ?case by (auto simp: agg_inv_def)
next
  case (Cons b bs)
  obtain votes' where cert: "is_certificate c ds b l votes =
      Inr (certifies cm ds b (vb_reference l), votes')" "cache_ok ds (vb_reference l) votes'"
    using is_certificate_eq [OF ok c _ Cons.prems(4), of b] Cons.prems(3) by auto
  let ?S = "\<lambda>bs. vb_author ` {b \<in> set bs. certifies cm ds b (vb_reference l)}"
  show ?case
  proof (cases "certifies cm ds b (vb_reference l)")
    case False
    then have "?S (b # bs) = ?S bs" by auto
    with False cert Cons.IH [OF Cons.prems(1,2) _ cert(2)] Cons.prems(3) show ?thesis by simp
  next
    case True
    have b: "vb_author b \<in> members cm" using Cons.prems(3) by simp
    obtain agg1 where agg1: "agg_add quorum_is_threshold (vb_author b) cm agg =
        Inr (quorum_is_threshold cm (sa_stake agg1), agg1)" "agg_inv cm agg1"
      "set (sa_votes agg1) = insert (vb_author b) (set (sa_votes agg))"
      by (rule agg_add_spec [OF dag_okD(1) [OF ok] Cons.prems(1) b])
    have eq: "?S (b # bs) \<union> set (sa_votes agg) = ?S bs \<union> set (sa_votes agg1)"
      using True agg1(3) by auto
    have sub: "?S bs \<union> set (sa_votes agg1) \<subseteq> members cm"
      using Cons.prems(3) agg1(2) by (auto simp: agg_inv_def)
    show ?thesis
    proof (cases "reached_quorum cm (sa_stake agg1)")
      case reached: True
      then have "reached_quorum cm (stake_of cm (?S bs \<union> set (sa_votes agg1)))"
        using quorum_thr.reached_mono [OF _ sub, of "set (sa_votes agg1)"] agg1(2)
        by (simp add: quorum_is_threshold_def agg_inv_def)
      with True reached cert agg1 eq c show ?thesis by (simp add: quorum_is_threshold_def)
    next
      case False
      with Cons.IH [OF agg1(2) False _ cert(2)] Cons.prems(3)
      have "support_loop c ds l bs agg1 votes' =
          Inr (reached_quorum cm (stake_of cm (?S bs \<union> set (sa_votes agg1))))" by auto
      with True False cert agg1 c show ?thesis unfolding eq by (simp add: quorum_is_threshold_def)
    qed
  qed
qed

lemma support_loop_new:
  assumes ok: "dag_ok cm ds" and c: "cx_committee (bc_context c) = cm"
    and blocks: "\<And>b. b \<in> set bs \<Longrightarrow> block_causal ds b \<and> vb_author b \<in> members cm"
  shows "support_loop c ds l bs agg_new Map.empty =
      Inr (reached_quorum cm (stake_of cm (vb_author ` {b \<in> set bs. certifies cm ds b (vb_reference l)})))"
  using support_loop_eq [where agg = agg_new and votes = Map.empty and l = l and bs = bs, OF ok c
      agg_inv_new agg_new_not_quorum [OF dag_okD(1) [OF ok]] blocks cache_ok_empty]
  by (simp add: agg_new_def)

text \<open>
  The quick rejection only rejects when the quorum is missing, unless the sum of the stakes of all
  blocks of the round, equivocations included, wraps around.
\<close>

lemma stake_of_le_sum_list:
  "(\<And>b. b \<in> set bs \<Longrightarrow> vb_author b \<in> members cm) \<Longrightarrow>
     stake_of cm (vb_author ` set bs) \<le> sum_list (map (\<lambda>b. au_stake (cm_authorities cm ! vb_author b)) bs)"
proof (induction bs)
  case (Cons b bs)
  have "stake_of cm (vb_author ` set (b # bs)) \<le>
      stake_of cm (vb_author ` set bs) + au_stake (cm_authorities cm ! vb_author b)"
    by (simp add: stake_of_insert)
  with Cons show ?case by fastforce
qed simp

lemma enough_leader_support_eq:
  assumes ok: "dag_ok cm ds" and c: "cx_committee (bc_context c) = cm"
    and "last_commit_round ds < rnd" "rnd + 1 < 2 ^ 32"
  shows "\<exists>q. enough_leader_support c ds rnd l = Inr q \<and>
    (q \<longrightarrow> reached_quorum cm (stake_of cm (certifiers cm ds rnd (vb_reference l))))"
proof -
  obtain bs where bs: "get_uncommitted_blocks_at_round ds rnd = Inr bs" "set bs = dag_blocks_at ds rnd"
    by (rule uncommitted_at_round_ok [OF ok assms(3,4)])
  have blocks: "block_causal ds b \<and> vb_author b \<in> members cm" if "b \<in> set bs" for b
    using that bs(2) dag_ok_block_causal [OF ok] dag_ok_block_member [OF ok] by blast
  have "map_res (\<lambda>b. committee_stake cm (vb_author b)) bs =
      Inr (map (\<lambda>b. au_stake (cm_authorities cm ! vb_author b)) bs)"
    using blocks by (intro map_res_Inr committee_stake_valid) blast
  moreover have "support_loop c ds l bs agg_new Map.empty =
      Inr (reached_quorum cm (stake_of cm (certifiers cm ds rnd (vb_reference l))))"
    using support_loop_new [where bs = bs and l = l, OF ok c] blocks by (simp add: certifiers_def bs(2))
  ultimately show ?thesis unfolding enough_leader_support_def bs(1) and_then_Inr c
    by (auto intro: exI [of _ False])
qed

lemma enough_leader_support_complete:
  assumes ok: "dag_ok cm ds" and c: "cx_committee (bc_context c) = cm"
    and "last_commit_round ds < rnd" "rnd + 1 < 2 ^ 32"
    and bs: "get_uncommitted_blocks_at_round ds rnd = Inr bs"
    and fits: "sum_list (map (\<lambda>b. au_stake (cm_authorities cm ! vb_author b)) bs) < 2 ^ 64"
    and quorum: "reached_quorum cm (stake_of cm (certifiers cm ds rnd (vb_reference l)))"
  shows "enough_leader_support c ds rnd l = Inr True"
proof -
  have set: "set bs = dag_blocks_at ds rnd"
    using uncommitted_at_round_ok [OF ok assms(3,4)] bs by (metis sum.inject(2))
  have blocks: "block_causal ds b \<and> vb_author b \<in> members cm" if "b \<in> set bs" for b
    using that set dag_ok_block_causal [OF ok] dag_ok_block_member [OF ok] by blast
  let ?stakes = "map (\<lambda>b. au_stake (cm_authorities cm ! vb_author b)) bs"
  have "stake_of cm (certifiers cm ds rnd (vb_reference l)) \<le> stake_of cm (vb_author ` set bs)"
    using blocks by (intro stake_of_mono) (auto simp: certifiers_def set)
  also have "\<dots> \<le> sum_list ?stakes" using blocks by (intro stake_of_le_sum_list) blast
  finally have "reached_quorum cm (u64_sum ?stakes)"
    using quorum fits by (simp add: reached_quorum_def u64_sum_eq)
  moreover have "map_res (\<lambda>b. committee_stake cm (vb_author b)) bs = Inr ?stakes"
    using blocks by (intro map_res_Inr committee_stake_valid) blast
  moreover have "support_loop c ds l bs agg_new Map.empty = Inr True"
    using support_loop_new [where bs = bs and l = l, OF ok c] blocks quorum
    by (simp add: certifiers_def set)
  ultimately show ?thesis unfolding enough_leader_support_def bs and_then_Inr c by simp
qed

section \<open>Outcome of the direct rule\<close>

text \<open>
  The conditions under which the committer looks at a leader slot: it was elected for the round of
  the slot, no block of the round is committed yet, and the rounds of its wave fit 32 bits.
\<close>

definition slot_ok :: "committee \<Rightarrow> base_committer \<Rightarrow> dag_state \<Rightarrow> slot \<Rightarrow> bool" where
  "slot_ok cm c ds s \<longleftrightarrow>
     cx_committee (bc_context c) = cm \<and> options_wf (bc_options c) \<and>
     leader_round c (wave_number c (slot_round s)) = slot_round s \<and>
     last_commit_round ds < slot_round s \<and>
     slot_round s + bo_wave_length (bc_options c) < 2 ^ 32"

abbreviation decision_of :: "base_committer \<Rightarrow> slot \<Rightarrow> round" where
  "decision_of c s \<equiv> slot_round s + bo_wave_length (bc_options c) - 1"

lemma slot_okD:
  assumes "slot_ok cm c ds s"
  shows "cx_committee (bc_context c) = cm" "3 \<le> bo_wave_length (bc_options c)"
    "decision_round c (wave_number c (slot_round s)) = decision_of c s"
    "last_commit_round ds < slot_round s" "slot_round s + bo_wave_length (bc_options c) < 2 ^ 32"
  using assms decision_round_elected [of c "slot_round s"]
  by (simp_all add: slot_ok_def options_wf_def minimum_wave_length_def)

lemma try_direct_decide_outcome:
  assumes ok: "dag_ok cm ds" and slot: "slot_ok cm c ds s" and res: "try_direct_decide c ds s = Inr st"
  shows "(st = Skip s \<and> reached_quorum cm (stake_of cm (blamers ds (slot_round s + 1) (slot_authority s))))
    \<or> (\<exists>l. st = Commit l \<and> dag_lookup ds (vb_reference l) = Some l \<and> slot_of (vb_reference l) = s \<and>
         reached_quorum cm (stake_of cm (certifiers cm ds (decision_of c s) (vb_reference l))))
    \<or> st = Undecided s"
proof -
  note s = slot_okD [OF slot]
  have vote: "u32_add (slot_round s) 1 = slot_round s + 1" using s by (intro u32_add_exact) simp
  have blame: "enough_leader_blame c ds (slot_round s + 1) (slot_authority s) =
      Inr (reached_quorum cm (stake_of cm (blamers ds (slot_round s + 1) (slot_authority s))))"
    using s by (intro enough_leader_blame_eq [OF ok]) simp_all
  show ?thesis
  proof (cases "reached_quorum cm (stake_of cm (blamers ds (slot_round s + 1) (slot_authority s)))")
    case True
    with res show ?thesis unfolding try_direct_decide_def vote blame by simp
  next
    case False
    let ?bs = "get_uncommitted_blocks_at_slot ds s"
    from False res obtain supported where
      filter: "filter_res (enough_leader_support c ds (decision_of c s)) ?bs = Inr supported"
      and st: "st = (case last_opt supported of Some b \<Rightarrow> Commit b | None \<Rightarrow> Undecided s)"
      unfolding try_direct_decide_def vote blame Let_def s(3) and_then_Inr
      by (auto simp: and_then_eq_Inr split: if_splits)
    show ?thesis
    proof (cases supported rule: rev_cases)
      case (snoc xs l)
      have l: "l \<in> set ?bs" "enough_leader_support c ds (decision_of c s) l = Inr True"
        using filter_res_mem [OF filter, of l] snoc by simp_all
      then have "dag_lookup ds (vb_reference l) = Some l \<and> slot_of (vb_reference l) = s"
        using uncommitted_at_slot_dag [OF dag_okD(3) [OF ok] s(4)] by auto
      moreover have "last_commit_round ds < decision_of c s" "decision_of c s + 1 < 2 ^ 32"
        using s by simp_all
      from enough_leader_support_eq [OF ok s(1) this, of l] l(2)
      have "reached_quorum cm (stake_of cm (certifiers cm ds (decision_of c s) (vb_reference l)))" by auto
      ultimately show ?thesis using st snoc by simp
    qed (use st in simp)
  qed
qed

section \<open>Outcome of the indirect rule\<close>

definition certified_in_history ::
  "committee \<Rightarrow> dag_state \<Rightarrow> verified_block \<Rightarrow> round \<Rightarrow> block_ref \<Rightarrow> bool" where
  "certified_in_history cm ds anchor decision_rnd leader \<longleftrightarrow>
     (\<exists>r b. r \<in> history ds anchor \<and> br_round r = decision_rnd \<and> dag_lookup ds r = Some b \<and>
            certifies cm ds b leader)"

lemma decide_from_anchor_certified:
  assumes ok: "dag_ok cm ds" and slot: "slot_ok cm c ds s" and anchor: "block_causal ds a"
  shows "\<exists>certified. set certified = {l. dag_lookup ds (vb_reference l) = Some l \<and>
        slot_of (vb_reference l) = s \<and> certified_in_history cm ds a (decision_of c s) (vb_reference l)} \<and>
    decide_leader_from_anchor c ds a s =
      (if length certified > 1 then Inl (CommitterPanic MoreThanOneCertifiedLeader)
       else Inr (case last_opt certified of Some b \<Rightarrow> Commit b | None \<Rightarrow> Skip s)) \<and>
    certified = filter (\<lambda>l. certified_in_history cm ds a (decision_of c s) (vb_reference l))
      (get_uncommitted_blocks_at_slot ds s)"
proof -
  note s = slot_okD [OF slot]
  have "set (vb_ancestors a) \<subseteq> dom (dag_lookup ds)" using anchor by (auto simp: block_causal_def)
  from ancestors_at_round_eq [OF dag_okD(4) [OF ok] this, of "decision_of c s"] obtain pcs where
    pcs: "ancestors_at_round ds a (decision_of c s) = Inr pcs"
    "set pcs = {x. \<exists>r \<in> history ds a. br_round r = decision_of c s \<and> dag_lookup ds r = Some x}" by blast
  have causal: "block_causal ds b" if "b \<in> set pcs" for b
    using that pcs(2) dag_ok_causal_block [OF ok] by auto
  have any: "any_certificate c ds l pcs Map.empty =
      Inr (certified_in_history cm ds a (decision_of c s) (vb_reference l))" for l
    using any_certificate_eq [where bs = pcs and l = l, OF ok s(1) _ cache_ok_empty] causal pcs(2)
    by (auto simp: certified_in_history_def)
  let ?bs = "get_uncommitted_blocks_at_slot ds s"
  let ?certified = "filter (\<lambda>l. certified_in_history cm ds a (decision_of c s) (vb_reference l)) ?bs"
  have filter: "filter_res (\<lambda>b. any_certificate c ds b pcs Map.empty) ?bs = Inr ?certified"
    unfolding filter_res_eq_Inr any by simp
  have "decide_leader_from_anchor c ds a s =
      (if length ?certified > 1 then Inl (CommitterPanic MoreThanOneCertifiedLeader)
       else Inr (case last_opt ?certified of Some b \<Rightarrow> Commit b | None \<Rightarrow> Skip s))"
    unfolding decide_leader_from_anchor_def Let_def s(3) pcs(1) and_then_Inr filter ..
  moreover have "set ?certified = {l. dag_lookup ds (vb_reference l) = Some l \<and>
        slot_of (vb_reference l) = s \<and> certified_in_history cm ds a (decision_of c s) (vb_reference l)}"
    using uncommitted_at_slot_dag [OF dag_okD(3) [OF ok] s(4)] by auto
  ultimately show ?thesis by blast
qed

lemma decide_from_anchor_outcome:
  assumes ok: "dag_ok cm ds" and slot: "slot_ok cm c ds s" and anchor: "block_causal ds a"
    and res: "decide_leader_from_anchor c ds a s = Inr st"
  shows "(\<exists>l. st = Commit l \<and> dag_lookup ds (vb_reference l) = Some l \<and> slot_of (vb_reference l) = s \<and>
        certified_in_history cm ds a (decision_of c s) (vb_reference l))
    \<or> st = Skip s \<and> (\<forall>l. dag_lookup ds (vb_reference l) = Some l \<longrightarrow> slot_of (vb_reference l) = s \<longrightarrow>
        \<not> certified_in_history cm ds a (decision_of c s) (vb_reference l))"
proof -
  obtain certified where set: "set certified = {l. dag_lookup ds (vb_reference l) = Some l \<and>
        slot_of (vb_reference l) = s \<and> certified_in_history cm ds a (decision_of c s) (vb_reference l)}"
    and eq: "decide_leader_from_anchor c ds a s =
      (if length certified > 1 then Inl (CommitterPanic MoreThanOneCertifiedLeader)
       else Inr (case last_opt certified of Some b \<Rightarrow> Commit b | None \<Rightarrow> Skip s))"
    using decide_from_anchor_certified [OF ok slot anchor] by blast
  have st: "st = (case last_opt certified of Some b \<Rightarrow> Commit b | None \<Rightarrow> Skip s)"
    using eq res by (cases "length certified > 1") auto
  show ?thesis
  proof (cases certified rule: rev_cases)
    case Nil
    with set st show ?thesis by auto
  next
    case (snoc xs l)
    then have "l \<in> set certified" by simp
    with set st snoc show ?thesis by auto
  qed
qed

end
