(* ===== verification/Commit_Safety.thy ===== *)
theory Commit_Safety
  imports Commit_Rules
begin

text \<open>
  Safety of the commit rule with waves of three rounds, the length the committer is built with. A
  network is a set of DAG states, the states of any validators at any times: they are causally
  complete, a reference names the same block in all of them, every block after genesis refers to
  a quorum of the round before, and an authority outside \<open>byz\<close> has one block per round.
\<close>

section \<open>The network\<close>

definition quorum_parents :: "committee \<Rightarrow> dag_state \<Rightarrow> bool" where
  "quorum_parents cm ds \<longleftrightarrow>
     (\<forall>r b. dag_lookup ds r = Some b \<longrightarrow> 0 < br_round r \<longrightarrow>
        reached_quorum cm (stake_of cm
          (br_author ` {a \<in> set (vb_ancestors b). br_round a + 1 = br_round r})))"

definition no_equivocation :: "authority_index set \<Rightarrow> dag_state \<Rightarrow> dag_state \<Rightarrow> bool" where
  "no_equivocation byz ds1 ds2 \<longleftrightarrow>
     (\<forall>b1 b2. dag_lookup ds1 (vb_reference b1) = Some b1 \<longrightarrow>
        dag_lookup ds2 (vb_reference b2) = Some b2 \<longrightarrow>
        vb_author b1 = vb_author b2 \<longrightarrow> vb_round b1 = vb_round b2 \<longrightarrow> vb_author b1 \<notin> byz \<longrightarrow> b1 = b2)"

definition network :: "committee \<Rightarrow> authority_index set \<Rightarrow> dag_state set \<Rightarrow> bool" where
  "network cm byz DS \<longleftrightarrow>
     byz \<subseteq> members cm \<and> \<not> reached_validity cm (stake_of cm byz) \<and>
     (\<forall>ds \<in> DS. dag_ok cm ds \<and> quorum_parents cm ds) \<and>
     (\<forall>ds1 \<in> DS. \<forall>ds2 \<in> DS. dags_agree ds1 ds2 \<and> no_equivocation byz ds1 ds2)"

lemma networkD:
  assumes "network cm byz DS" "ds1 \<in> DS" "ds2 \<in> DS"
  shows "dag_ok cm ds1" "quorum_parents cm ds1" "dags_agree ds1 ds2" "no_equivocation byz ds1 ds2"
  using assms by (auto simp: network_def)

lemma no_equivocationD:
  "no_equivocation byz ds1 ds2 \<Longrightarrow> dag_lookup ds1 (vb_reference b1) = Some b1 \<Longrightarrow>
     dag_lookup ds2 (vb_reference b2) = Some b2 \<Longrightarrow> vb_author b1 = vb_author b2 \<Longrightarrow>
     vb_round b1 = vb_round b2 \<Longrightarrow> vb_author b1 \<notin> byz \<Longrightarrow> b1 = b2"
  unfolding no_equivocation_def by blast

lemma quorum_nonempty: "committee_wf cm \<Longrightarrow> reached_quorum cm (stake_of cm A) \<Longrightarrow> A \<noteq> {}"
  by (cases "A = {}") (simp_all add: reached_quorum_def committee_wf_def)

text \<open>Two quorums share an authority outside \<open>byz\<close>.\<close>

lemma network_overlap:
  assumes "network cm byz DS" "ds \<in> DS" "A \<subseteq> members cm" "B \<subseteq> members cm"
    and "reached_quorum cm (stake_of cm A)" "reached_quorum cm (stake_of cm B)"
  obtains h where "h \<in> A" "h \<in> B" "h \<notin> byz"
  using quorum_overlap_honest [OF dag_okD(1) [OF networkD(1) [OF assms(1,2,2)]] assms(3-6)] assms(1)
  by (auto simp: network_def)

section \<open>Votes and certificates in a wave of three rounds\<close>

lemma vote_in_wave:
  assumes ok: "dag_ok cm ds" and b: "b \<in> dag_blocks_at ds (slot_round (slot_of leader) + 2)"
    and r: "r \<in> set (vb_ancestors b)" "votes_for ds r leader"
  obtains v where "dag_lookup ds r = Some v" "vb_reference v = r" "br_round r = br_round leader + 1"
    "List.find (\<lambda>a. slot_of a = slot_of leader) (vb_ancestors v) = Some leader"
proof -
  from r(2) obtain v where v: "dag_lookup ds r = Some v"
    "find_supported_block ds (slot_of leader) v = Inr (Some leader)" by (auto simp: votes_for_def)
  have ref: "vb_reference v = r" using dag_lookup_ref(1) [OF dag_okD(3) [OF ok] v(1)] .
  have "br_round r < vb_round b" using dag_ok_block_causal [OF ok b] r(1) by (simp add: block_causal_def)
  then have "vb_round v \<le> slot_round (slot_of leader) + 1"
    using b ref by (auto simp: dag_blocks_at_def)
  from find_supported_next_round [OF dag_ok_causal_block [OF ok v(1)] this] v(2) ref
  show thesis using that [OF v(1) ref] by (auto split: if_splits)
qed

lemma certifies_agree:
  assumes ok: "dag_ok cm ds1" "dag_ok cm ds2" "dags_agree ds1 ds2"
    and b: "block_causal ds1 b" "block_causal ds2 b"
  shows "certifies cm ds1 b leader \<longleftrightarrow> certifies cm ds2 b leader"
proof -
  have "votes_for ds1 r leader \<longleftrightarrow> votes_for ds2 r leader" if "r \<in> set (vb_ancestors b)" for r
  proof -
    from b that obtain v where v: "dag_lookup ds1 r = Some v" "dag_lookup ds2 r = Some v"
      using ok(3) by (fastforce simp: block_causal_def dags_agree_def)
    with find_supported_agree [OF dag_okD(3,4) [OF ok(1)] dag_okD(3,4) [OF ok(2)] ok(3)
        dag_ok_causal_block [OF ok(1) v(1)] dag_ok_causal_block [OF ok(2) v(2)]]
    show ?thesis by (simp add: votes_for_def)
  qed
  then show ?thesis by (simp add: certifies_def voters_def cong: conj_cong)
qed

text \<open>Two leader blocks of one slot are not both certified anywhere in the network.\<close>

lemma unique_certified_leader:
  assumes net: "network cm byz DS" "ds1 \<in> DS" "ds2 \<in> DS"
    and slot: "slot_of l1 = slot_of l2"
    and b1: "b1 \<in> dag_blocks_at ds1 (br_round l1 + 2)" "certifies cm ds1 b1 l1"
    and b2: "b2 \<in> dag_blocks_at ds2 (br_round l2 + 2)" "certifies cm ds2 b2 l2"
  shows "l1 = l2"
proof -
  note ok1 = networkD(1) [OF net(1,2,3)] and ok2 = networkD(1) [OF net(1,3,2)]
  obtain h where h: "h \<in> voters ds1 b1 l1" "h \<in> voters ds2 b2 l2" "h \<notin> byz"
    using network_overlap [OF net(1,2) voters_members [OF ok1 dag_ok_block_causal [OF ok1 b1(1)]]
        voters_members [OF ok2 dag_ok_block_causal [OF ok2 b2(1)]]] b1(2) b2(2)
    unfolding certifies_def by metis
  from h(1) obtain r1 where r1: "r1 \<in> set (vb_ancestors b1)" "votes_for ds1 r1 l1" "br_author r1 = h"
    by (auto simp: voters_def)
  from h(2) obtain r2 where r2: "r2 \<in> set (vb_ancestors b2)" "votes_for ds2 r2 l2" "br_author r2 = h"
    by (auto simp: voters_def)
  have b1': "b1 \<in> dag_blocks_at ds1 (slot_round (slot_of l1) + 2)"
    and b2': "b2 \<in> dag_blocks_at ds2 (slot_round (slot_of l2) + 2)" using b1(1) b2(1) by simp_all
  obtain v1 where v1: "dag_lookup ds1 r1 = Some v1" "vb_reference v1 = r1" "br_round r1 = br_round l1 + 1"
    "List.find (\<lambda>a. slot_of a = slot_of l1) (vb_ancestors v1) = Some l1"
    by (rule vote_in_wave [OF ok1 b1' r1(1,2)])
  obtain v2 where v2: "dag_lookup ds2 r2 = Some v2" "vb_reference v2 = r2" "br_round r2 = br_round l2 + 1"
    "List.find (\<lambda>a. slot_of a = slot_of l2) (vb_ancestors v2) = Some l2"
    by (rule vote_in_wave [OF ok2 b2' r2(1,2)])
  have "br_round l1 = br_round l2" using slot by (simp add: slot_of_def)
  then have same: "vb_author v1 = vb_author v2" "vb_round v1 = vb_round v2" "vb_author v1 \<notin> byz"
    using v1(2,3) v2(2,3) r1(3) r2(3) h(3) by auto
  have "dag_lookup ds1 (vb_reference v1) = Some v1" "dag_lookup ds2 (vb_reference v2) = Some v2"
    using v1(1,2) v2(1,2) by simp_all
  from no_equivocationD [OF networkD(4) [OF net] this same] have eq: "v1 = v2" .
  have "Some l1 = Some l2" using v1(4) v2(4) unfolding slot eq by (rule trans [OF sym])
  then show ?thesis by simp
qed

text \<open>A quorum of blame for a leader excludes a certificate for any of its blocks of that round.\<close>

lemma blame_excludes_certificate:
  assumes net: "network cm byz DS" "ds1 \<in> DS" "ds2 \<in> DS"
    and blame: "reached_quorum cm (stake_of cm (blamers ds1 (br_round leader + 1) (br_author leader)))"
    and b: "b \<in> dag_blocks_at ds2 (br_round leader + 2)" "certifies cm ds2 b leader"
  shows False
proof -
  note ok1 = networkD(1) [OF net(1,2,3)] and ok2 = networkD(1) [OF net(1,3,2)]
  have sub: "blamers ds1 (br_round leader + 1) (br_author leader) \<subseteq> members cm"
    using dag_ok_block_member [OF ok1] by (auto simp: blamers_def)
  obtain h where h: "h \<in> blamers ds1 (br_round leader + 1) (br_author leader)"
    "h \<in> voters ds2 b leader" "h \<notin> byz"
    using network_overlap [OF net(1,2) sub voters_members [OF ok2 dag_ok_block_causal [OF ok2 b(1)]] blame]
      b(2) unfolding certifies_def by metis
  from h(1) obtain v1 where v1: "v1 \<in> dag_blocks_at ds1 (br_round leader + 1)" "vb_author v1 = h"
    "\<forall>a \<in> set (vb_ancestors v1). br_author a \<noteq> br_author leader" by (auto simp: blamers_def)
  from h(2) obtain r where r: "r \<in> set (vb_ancestors b)" "votes_for ds2 r leader" "br_author r = h"
    by (auto simp: voters_def)
  have b': "b \<in> dag_blocks_at ds2 (slot_round (slot_of leader) + 2)" using b(1) by simp
  obtain v2 where v2: "dag_lookup ds2 r = Some v2" "vb_reference v2 = r" "br_round r = br_round leader + 1"
    "List.find (\<lambda>a. slot_of a = slot_of leader) (vb_ancestors v2) = Some leader"
    by (rule vote_in_wave [OF ok2 b' r(1,2)])
  have "vb_author v2 = h" "vb_round v2 = br_round leader + 1"
    using v2(2,3) r(3) by auto
  then have "v1 = v2"
    using v1 v2(1,2) h(3) by (intro no_equivocationD [OF networkD(4) [OF net]]) (auto simp: dag_blocks_at_def)
  moreover have "leader \<in> set (vb_ancestors v2)" using v2(4) by (auto simp: find_Some_iff)
  ultimately show False using v1(3) by blast
qed

section \<open>Quorums in a causal history\<close>

lemma history_trans:
  assumes "a \<in> set (vb_ancestors b)" "dag_lookup ds a = Some p" "r \<in> history ds p"
  shows "r \<in> history ds b"
proof -
  from assms(3) obtain x where x: "x \<in> set (vb_ancestors p)" "(x, r) \<in> (dag_edges ds)\<^sup>*"
    by (auto simp: history_def)
  have "(a, x) \<in> dag_edges ds" using assms(2) x(1) by (auto simp: dag_edges_def)
  from converse_rtrancl_into_rtrancl [OF this x(2)] have "(a, r) \<in> (dag_edges ds)\<^sup>*" .
  with assms(1) show ?thesis by (auto simp: history_def)
qed

lemma history_in_dag:
  assumes "dag_ok cm ds" "block_causal ds b" "r \<in> history ds b"
  shows "dag_lookup ds r \<noteq> None"
  using history_dom [OF dag_okD(4) [OF assms(1)], of b] assms(2,3) by (auto simp: block_causal_def)

lemma history_quorum:
  assumes ok: "dag_ok cm ds" "quorum_parents cm ds"
  shows "dag_lookup ds r = Some b \<Longrightarrow> rnd < br_round r \<Longrightarrow>
    reached_quorum cm (stake_of cm (br_author ` {q \<in> history ds b. br_round q = rnd}))"
proof (induction "br_round r" arbitrary: r b rule: less_induct)
  case less
  let ?P = "br_author ` {a \<in> set (vb_ancestors b). br_round a + 1 = br_round r}"
  have causal: "block_causal ds b" using dag_ok_causal_block [OF ok(1) less.prems(1)] .
  have parents: "reached_quorum cm (stake_of cm ?P)"
    using ok(2) less.prems by (simp add: quorum_parents_def)
  have members: "br_author ` {q \<in> history ds b. br_round q = n} \<subseteq> members cm" for n
    using dag_ok_member [OF ok(1)] history_in_dag [OF ok(1) causal] by auto
  show ?case
  proof (cases "br_round r = rnd + 1")
    case True
    have "?P \<subseteq> br_author ` {q \<in> history ds b. br_round q = rnd}"
      using True by (auto simp: history_def)
    from quorum_thr.reached_mono [OF this members] parents show ?thesis
      by (simp add: quorum_is_threshold_def)
  next
    case False
    have "?P \<noteq> {}" by (rule quorum_nonempty [OF dag_okD(1) [OF ok(1)] parents])
    then obtain a where a: "a \<in> set (vb_ancestors b)" "br_round a + 1 = br_round r" by auto
    with causal obtain p where p: "dag_lookup ds a = Some p" by (auto simp: block_causal_def)
    have "reached_quorum cm (stake_of cm (br_author ` {q \<in> history ds p. br_round q = rnd}))"
      using less.hyps [OF _ p] a(2) False less.prems(2) by simp
    moreover have "br_author ` {q \<in> history ds p. br_round q = rnd} \<subseteq>
        br_author ` {q \<in> history ds b. br_round q = rnd}"
      using history_trans [OF a(1) p] by auto
    ultimately show ?thesis
      using quorum_thr.reached_mono [OF _ members] by (simp add: quorum_is_threshold_def)
  qed
qed

text \<open>
  A leader with a quorum of certificates is certified in the history of every later block, in every
  state of the network.
\<close>

lemma direct_commit_in_history:
  assumes net: "network cm byz DS" "ds1 \<in> DS" "ds2 \<in> DS"
    and quorum: "reached_quorum cm (stake_of cm (certifiers cm ds1 rnd leader))"
    and anchor: "dag_lookup ds2 r = Some a" "rnd < br_round r"
  shows "certified_in_history cm ds2 a rnd leader"
proof -
  note ok1 = networkD(1) [OF net(1,2,3)] and ok2 = networkD(1) [OF net(1,3,2)]
  have causal: "block_causal ds2 a" by (rule dag_ok_causal_block [OF ok2 anchor(1)])
  have sub1: "certifiers cm ds1 rnd leader \<subseteq> members cm"
    using dag_ok_block_member [OF ok1] by (auto simp: certifiers_def)
  have sub2: "br_author ` {q \<in> history ds2 a. br_round q = rnd} \<subseteq> members cm"
    using dag_ok_member [OF ok2] history_in_dag [OF ok2 causal] by auto
  obtain h where h: "h \<in> certifiers cm ds1 rnd leader"
    "h \<in> br_author ` {q \<in> history ds2 a. br_round q = rnd}" "h \<notin> byz"
    using network_overlap [OF net(1,2) sub1 sub2 quorum
        history_quorum [OF ok2 networkD(2) [OF net(1,3,2)] anchor]] by metis
  from h(1) obtain b where b: "b \<in> dag_blocks_at ds1 rnd" "certifies cm ds1 b leader" "vb_author b = h"
    by (auto simp: certifiers_def)
  from h(2) obtain q where q: "q \<in> history ds2 a" "br_round q = rnd" "br_author q = h" by auto
  with history_in_dag [OF ok2 causal] obtain b' where b': "dag_lookup ds2 q = Some b'" by blast
  have ref: "vb_reference b' = q" using dag_lookup_ref(1) [OF dag_okD(3) [OF ok2] b'] .
  then have "vb_author b' = h" "vb_round b' = rnd" using q(2,3) by auto
  then have "b = b'"
    using b b' ref h(3) by (intro no_equivocationD [OF networkD(4) [OF net]]) (auto simp: dag_blocks_at_def)
  moreover have "certifies cm ds2 b leader"
    using certifies_agree [OF ok1 ok2 networkD(3) [OF net] dag_ok_block_causal [OF ok1 b(1)], of leader]
      dag_ok_causal_block [OF ok2 b'] b(2) \<open>b = b'\<close> by simp
  ultimately show ?thesis using q(1,2) b' by (auto simp: certified_in_history_def)
qed

text \<open>A certified leader is in every DAG that has the certificate.\<close>

lemma certified_leader_known:
  assumes ok: "dag_ok cm ds" and b: "b \<in> dag_blocks_at ds (br_round leader + 2)" "certifies cm ds b leader"
  shows "\<exists>l. dag_lookup ds leader = Some l \<and> vb_reference l = leader"
proof -
  have "voters ds b leader \<noteq> {}"
    using b(2) quorum_nonempty [OF dag_okD(1) [OF ok]] by (simp add: certifies_def)
  then obtain r where r: "r \<in> set (vb_ancestors b)" "votes_for ds r leader" by (auto simp: voters_def)
  have "b \<in> dag_blocks_at ds (slot_round (slot_of leader) + 2)" using b(1) by simp
  then obtain v where v: "dag_lookup ds r = Some v"
    "List.find (\<lambda>a. slot_of a = slot_of leader) (vb_ancestors v) = Some leader"
    using vote_in_wave [OF ok _ r] by metis
  then have "leader \<in> set (vb_ancestors v)" by (auto simp: find_Some_iff)
  with dag_ok_causal_block [OF ok v(1)] obtain l where "dag_lookup ds leader = Some l"
    by (auto simp: block_causal_def)
  with dag_lookup_ref(1) [OF dag_okD(3) [OF ok]] show ?thesis by blast
qed

text \<open>The history of a block, and what is certified in it, is the same in every state that has it.\<close>

lemma history_same:
  assumes ok: "dag_ok cm ds1" "dag_ok cm ds2" "dags_agree ds1 ds2"
    and b: "block_causal ds1 b" "block_causal ds2 b" and r: "r \<in> history ds1 b"
  shows "r \<in> history ds2 b"
proof -
  from r obtain a where a: "a \<in> set (vb_ancestors b)" "(a, r) \<in> (dag_edges ds1)\<^sup>*"
    by (auto simp: history_def)
  have "dag_lookup ds2 a \<noteq> None" using a(1) b(2) by (simp add: block_causal_def)
  from a(2) this have "(a, r) \<in> (dag_edges ds2)\<^sup>* \<and> dag_lookup ds2 r \<noteq> None"
  proof (induction rule: rtrancl_induct)
    case (step y z)
    then obtain x1 x2 where x: "dag_lookup ds1 y = Some x1" "z \<in> set (vb_ancestors x1)"
      "dag_lookup ds2 y = Some x2" by (auto simp: dag_edges_def)
    with ok(3) have "x1 = x2" by (auto simp: dags_agree_def)
    with x have edge: "(y, z) \<in> dag_edges ds2" by (auto simp: dag_edges_def)
    with step dag_edge_causal [OF dag_okD(4) [OF ok(2)] edge] show ?case
      by (auto intro: rtrancl_into_rtrancl)
  qed simp
  with a(1) show ?thesis by (auto simp: history_def)
qed

lemma history_transfer:
  assumes ok: "dag_ok cm ds1" "dag_ok cm ds2" "dags_agree ds1 ds2"
    and a: "dag_lookup ds1 (vb_reference a) = Some a" "dag_lookup ds2 (vb_reference a) = Some a"
    and cert: "certified_in_history cm ds1 a rnd leader"
  shows "certified_in_history cm ds2 a rnd leader"
proof -
  note causal = dag_ok_causal_block [OF ok(1) a(1)] dag_ok_causal_block [OF ok(2) a(2)]
  from cert obtain r b where r: "r \<in> history ds1 a" "br_round r = rnd" "dag_lookup ds1 r = Some b"
    "certifies cm ds1 b leader" by (auto simp: certified_in_history_def)
  have r2: "r \<in> history ds2 a" by (rule history_same [OF ok causal r(1)])
  with history_in_dag [OF ok(2) causal(2)] obtain b' where b': "dag_lookup ds2 r = Some b'" by blast
  with r(3) ok(3) have "b' = b" by (auto simp: dags_agree_def)
  with b' certifies_agree [OF ok dag_ok_causal_block [OF ok(1) r(3)], of leader] r(4)
    dag_ok_causal_block [OF ok(2) b']
  have "certifies cm ds2 b leader" by simp
  with r2 r(2) b' \<open>b' = b\<close> show ?thesis by (auto simp: certified_in_history_def)
qed

end
