(* ===== verification/Universal_Committer.thy ===== *)
theory Universal_Committer
  imports Commit_Safety "HOL-Library.Sublist"
begin

text \<open>
  The universal committer (\<^verbatim>\<open>consensus/core/src/universal_committer.rs\<close>) runs one base committer
  per pipeline stage and leader offset over the rounds after the last decided leader, from the
  highest down, and returns the decided prefix. The lemmas show that it does not panic and
  that the prefixes any two states of a network decide from the same leader on agree.
\<close>

section \<open>Deciding leaders\<close>

record universal_committer =
  uc_context :: epoch_context
  uc_committers :: "base_committer list"

text \<open>
  The body of the loop over committers for one round, stopping at the last decided leader, and
  the loop over rounds. The leaders decided so far are in ascending order, newest first.
\<close>

fun decide_committers ::
  "(round \<Rightarrow> nat \<Rightarrow> authority_index res) \<Rightarrow> dag_state \<Rightarrow> slot \<Rightarrow> round \<Rightarrow> base_committer list
     \<Rightarrow> (leader_status \<times> decision) list \<Rightarrow> (bool \<times> (leader_status \<times> decision) list) res" where
  "decide_committers schedule ds last_decided rnd [] leaders = Inr (False, leaders)"
| "decide_committers schedule ds last_decided rnd (c # cs) leaders =
     and_then (committer_elect_leader schedule c rnd) (\<lambda>elected.
       case elected of
         None \<Rightarrow> decide_committers schedule ds last_decided rnd cs leaders
       | Some s \<Rightarrow>
           if s = last_decided then Inr (True, leaders)
           else and_then (try_direct_decide c ds s) (\<lambda>status.
             if is_decided status
             then decide_committers schedule ds last_decided rnd cs ((status, Direct) # leaders)
             else and_then (try_indirect_decide c ds s (map fst leaders)) (\<lambda>status'.
               decide_committers schedule ds last_decided rnd cs ((status', Indirect) # leaders))))"

fun decide_rounds ::
  "(round \<Rightarrow> nat \<Rightarrow> authority_index res) \<Rightarrow> base_committer list \<Rightarrow> dag_state \<Rightarrow> slot \<Rightarrow> round list
     \<Rightarrow> (leader_status \<times> decision) list \<Rightarrow> (leader_status \<times> decision) list res" where
  "decide_rounds schedule cs ds last_decided [] leaders = Inr leaders"
| "decide_rounds schedule cs ds last_decided (rnd # rounds) leaders =
     and_then (decide_committers schedule ds last_decided rnd (rev cs) leaders) (\<lambda>(stop, leaders').
       if stop then Inr leaders'
       else decide_rounds schedule cs ds last_decided rounds leaders')"

text \<open>The longest prefix of decided leaders, genesis leaders left out.\<close>

fun decided_prefix :: "(leader_status \<times> decision) list \<Rightarrow> decided_leader list" where
  "decided_prefix [] = []"
| "decided_prefix ((leader, decision) # leaders) =
     (if status_round leader = genesis_round then decided_prefix leaders
      else case into_decided_leader leader of
             None \<Rightarrow> []
           | Some l \<Rightarrow> l # decided_prefix leaders)"

definition try_decide ::
  "(round \<Rightarrow> nat \<Rightarrow> authority_index res) \<Rightarrow> universal_committer \<Rightarrow> dag_state \<Rightarrow> slot
     \<Rightarrow> decided_leader list res" where
  "try_decide schedule uc ds last_decided =
     and_then (decide_rounds schedule (uc_committers uc) ds last_decided
                 (rev [slot_round last_decided..<ds_highest_accepted_round ds - 2 + 1]) [])
       (\<lambda>leaders. Inr (decided_prefix leaders))"

definition get_leaders ::
  "(round \<Rightarrow> nat \<Rightarrow> authority_index res) \<Rightarrow> universal_committer \<Rightarrow> round \<Rightarrow> authority_index list res" where
  "get_leaders schedule uc rnd =
     and_then (map_res (\<lambda>c. committer_elect_leader schedule c rnd) (uc_committers uc)) (\<lambda>slots.
       Inr (map slot_authority (List.map_filter id slots)))"

record universal_committer_builder =
  ub_context :: epoch_context
  ub_wave_length :: round
  ub_number_of_leaders :: nat
  ub_pipeline :: bool

definition UniversalCommitterBuilder_new :: "epoch_context \<Rightarrow> universal_committer_builder" where
  "UniversalCommitterBuilder_new cx =
     \<lparr> ub_context = cx, ub_wave_length = default_wave_length, ub_number_of_leaders = 1,
       ub_pipeline = False \<rparr>"

definition with_wave_length :: "round \<Rightarrow> universal_committer_builder \<Rightarrow> universal_committer_builder" where
  "with_wave_length wave_length b = b\<lparr> ub_wave_length := wave_length \<rparr>"

definition with_number_of_leaders ::
  "nat \<Rightarrow> universal_committer_builder \<Rightarrow> universal_committer_builder" where
  "with_number_of_leaders n b = b\<lparr> ub_number_of_leaders := n \<rparr>"

definition with_pipeline :: "bool \<Rightarrow> universal_committer_builder \<Rightarrow> universal_committer_builder" where
  "with_pipeline pipeline b = b\<lparr> ub_pipeline := pipeline \<rparr>"

definition universal_committer_build :: "universal_committer_builder \<Rightarrow> universal_committer res" where
  "universal_committer_build b =
     (let pipeline_stages = (if ub_pipeline b then ub_wave_length b else 1);
          offsets = concat (map (\<lambda>round_offset.
            map (\<lambda>leader_offset. (round_offset, leader_offset)) [0..<ub_number_of_leaders b])
            [0..<pipeline_stages])
      in and_then (map_res (\<lambda>(round_offset, leader_offset).
           BaseCommitter_new (ub_context b)
             \<lparr> bo_wave_length = ub_wave_length b, bo_leader_offset = leader_offset,
               bo_round_offset = round_offset \<rparr>) offsets)
         (\<lambda>cs. Inr \<lparr> uc_context = ub_context b, uc_committers = cs \<rparr>))"

section \<open>One slot\<close>

definition decide_slot ::
  "base_committer \<Rightarrow> dag_state \<Rightarrow> slot \<Rightarrow> leader_status list \<Rightarrow> (leader_status \<times> decision) res" where
  "decide_slot c ds s leaders =
     and_then (try_direct_decide c ds s) (\<lambda>status.
       if is_decided status then Inr (status, Direct)
       else and_then (try_indirect_decide c ds s leaders) (\<lambda>status'. Inr (status', Indirect)))"

lemma distinct_uncommitted_at_slot:
  assumes "cache_wf ds"
  shows "distinct (get_uncommitted_blocks_at_slot ds s)"
proof -
  let ?xs = "filter (\<lambda>(r, _). BlockRef (slot_round s) (slot_authority s) digest_min \<le> r \<and>
    r \<le> BlockRef (slot_round s) (slot_authority s) digest_max) (ds_recent_blocks ds)"
  have wf: "bm_wf (ds_recent_blocks ds)" using assms by (simp add: cache_wf_def)
  have "(r, b) \<in> set (ds_recent_blocks ds) \<Longrightarrow> vb_reference b = r" for r b
    using cache_lookup [OF assms] bm_wf_mem [OF wf] by blast
  then have "map vb_reference (map snd ?xs) = map fst ?xs" by auto
  moreover have "distinct (map fst ?xs)" using bm_wf_filter [OF wf] by (simp add: bm_wf_def)
  ultimately have "distinct (map vb_reference (map snd ?xs))" by argo
  then have "distinct (map snd ?xs)" by (rule conjunct1 [OF iffD1 [OF distinct_map]])
  then show ?thesis unfolding get_uncommitted_blocks_at_slot_def .
qed

lemma at_most_one:
  "distinct xs \<Longrightarrow> (\<And>x y. x \<in> set xs \<Longrightarrow> y \<in> set xs \<Longrightarrow> x = y) \<Longrightarrow> \<not> 1 < length xs"
proof (cases xs)
  case (Cons x ys)
  assume xs: "distinct xs" "\<And>x y. x \<in> set xs \<Longrightarrow> y \<in> set xs \<Longrightarrow> x = y"
  have "set xs \<subseteq> {x}" using xs(2) Cons by auto
  then have "card (set xs) \<le> 1" using card_mono [of "{x}" "set xs"] by simp
  then show ?thesis using distinct_card [OF xs(1)] by simp
qed simp

text \<open>A leader block certified in a state.\<close>

definition certified_leader :: "committee \<Rightarrow> dag_state \<Rightarrow> verified_block \<Rightarrow> bool" where
  "certified_leader cm ds l \<longleftrightarrow>
     dag_lookup ds (vb_reference l) = Some l \<and>
     (\<exists>b \<in> dag_blocks_at ds (vb_round l + 2). certifies cm ds b (vb_reference l))"

lemma certified_leader_unique:
  assumes net: "network cm byz DS" "ds1 \<in> DS" "ds2 \<in> DS"
    and l: "certified_leader cm ds1 l1" "certified_leader cm ds2 l2"
    and slot: "slot_of (vb_reference l1) = slot_of (vb_reference l2)"
  shows "l1 = l2"
proof -
  from l obtain b1 b2 where "b1 \<in> dag_blocks_at ds1 (vb_round l1 + 2)" "certifies cm ds1 b1 (vb_reference l1)"
    "b2 \<in> dag_blocks_at ds2 (vb_round l2 + 2)" "certifies cm ds2 b2 (vb_reference l2)"
    by (auto simp: certified_leader_def)
  then have "vb_reference l1 = vb_reference l2"
    using unique_certified_leader [OF net slot, of b1 b2] by simp
  with networkD(3) [OF net] l show ?thesis by (auto simp: certified_leader_def dags_agree_def)
qed

lemma certifiers_leader:
  assumes "dag_ok cm ds" "dag_lookup ds (vb_reference l) = Some l"
    and "reached_quorum cm (stake_of cm (certifiers cm ds (vb_round l + 2) (vb_reference l)))"
  shows "certified_leader cm ds l"
  using quorum_nonempty [OF dag_okD(1) [OF assms(1)] assms(3)] assms(2)
  by (auto simp: certified_leader_def certifiers_def)

lemma in_history_leader:
  assumes "dag_ok cm ds" "dag_lookup ds (vb_reference l) = Some l"
    and "certified_in_history cm ds a (vb_round l + 2) (vb_reference l)"
  shows "certified_leader cm ds l"
proof -
  from assms(3) obtain r b where b: "br_round r = vb_round l + 2" "dag_lookup ds r = Some b"
    "certifies cm ds b (vb_reference l)" by (auto simp: certified_in_history_def)
  moreover have "vb_reference b = r" by (rule dag_lookup_ref(1) [OF dag_okD(3) [OF assms(1)] b(2)])
  ultimately have "b \<in> dag_blocks_at ds (vb_round l + 2)" by (auto simp: dag_blocks_at_def)
  with b(3) assms(2) show ?thesis by (auto simp: certified_leader_def)
qed

lemma decision_of_leader:
  assumes "bo_wave_length (bc_options c) = 3" "slot_of (vb_reference l) = s"
  shows "decision_of c s = vb_round l + 2"
  using assms by (auto simp: slot_of_eq_iff)

text \<open>Within a network no slot has two supported or two certified leader blocks: no panic.\<close>

lemma try_direct_decide_total:
  assumes net: "network cm byz DS" "ds \<in> DS" and slot: "slot_ok cm c ds s"
    and w: "bo_wave_length (bc_options c) = 3"
  shows "\<exists>st. try_direct_decide c ds s = Inr st"
proof -
  note ok = networkD(1) [OF net net(2)] and s = slot_okD [OF slot]
  have vote: "u32_add (slot_round s) 1 = slot_round s + 1" using s by (intro u32_add_exact) simp
  have blame: "\<exists>q. enough_leader_blame c ds (slot_round s + 1) (slot_authority s) = Inr q"
    using s enough_leader_blame_eq [OF ok s(1), of "slot_round s + 1"] by simp
  let ?D = "decision_of c s"
  have D: "last_commit_round ds < ?D" "?D + 1 < 2 ^ 32" using s by simp_all
  let ?bs = "get_uncommitted_blocks_at_slot ds s"
  let ?f = "enough_leader_support c ds ?D"
  have f: "\<exists>q. ?f l = Inr q \<and>
      (q \<longrightarrow> reached_quorum cm (stake_of cm (certifiers cm ds ?D (vb_reference l))))" for l
    by (rule enough_leader_support_eq [OF ok s(1) D])
  then have filter: "filter_res ?f ?bs = Inr (filter (\<lambda>l. ?f l = Inr True) ?bs)"
    by (auto simp: filter_res_eq_Inr)
  have "\<not> 1 < length (filter (\<lambda>l. ?f l = Inr True) ?bs)"
  proof (rule at_most_one)
    show "distinct (filter (\<lambda>l. ?f l = Inr True) ?bs)"
      using distinct_uncommitted_at_slot dag_invD(2) [OF dag_okD(3) [OF ok]] by simp
  next
    fix x y assume xy: "x \<in> set (filter (\<lambda>l. ?f l = Inr True) ?bs)" "y \<in> set (filter (\<lambda>l. ?f l = Inr True) ?bs)"
    have "certified_leader cm ds l \<and> slot_of (vb_reference l) = s"
      if "l \<in> set (filter (\<lambda>l. ?f l = Inr True) ?bs)" for l
    proof -
      have l: "dag_lookup ds (vb_reference l) = Some l" "slot_of (vb_reference l) = s"
        using that uncommitted_at_slot_dag [OF dag_okD(3) [OF ok] s(4)] by auto
      moreover have "reached_quorum cm (stake_of cm (certifiers cm ds ?D (vb_reference l)))"
        using f [of l] that by auto
      ultimately show ?thesis
        using certifiers_leader [OF ok l(1)] decision_of_leader [OF w l(2)] by simp
    qed
    with xy certified_leader_unique [OF net net(2), of x y] show "x = y" by simp
  qed
  with blame filter show ?thesis
    unfolding try_direct_decide_def vote Let_def s(3) by auto
qed

lemma decide_from_anchor_total:
  assumes net: "network cm byz DS" "ds \<in> DS" and slot: "slot_ok cm c ds s"
    and w: "bo_wave_length (bc_options c) = 3" and a: "dag_lookup ds (vb_reference a) = Some a"
  shows "\<exists>st. decide_leader_from_anchor c ds a s = Inr st"
proof -
  note ok = networkD(1) [OF net net(2)]
  note causal = dag_ok_causal_block [OF ok a]
  obtain certified where set: "set certified = {l. dag_lookup ds (vb_reference l) = Some l \<and>
        slot_of (vb_reference l) = s \<and> certified_in_history cm ds a (decision_of c s) (vb_reference l)}"
    and eq: "decide_leader_from_anchor c ds a s =
      (if length certified > 1 then Inl (CommitterPanic MoreThanOneCertifiedLeader)
       else Inr (case last_opt certified of Some b \<Rightarrow> Commit b | None \<Rightarrow> Skip s))"
    and filter: "certified = filter (\<lambda>l. certified_in_history cm ds a (decision_of c s) (vb_reference l))
      (get_uncommitted_blocks_at_slot ds s)"
    using decide_from_anchor_certified [OF ok slot causal] by blast
  have "\<not> 1 < length certified"
  proof (rule at_most_one)
    show "distinct certified"
      unfolding filter using distinct_uncommitted_at_slot dag_invD(2) [OF dag_okD(3) [OF ok]] by simp
  next
    fix x y assume xy: "x \<in> set certified" "y \<in> set certified"
    have "certified_leader cm ds l \<and> slot_of (vb_reference l) = s" if "l \<in> set certified" for l
      using that set in_history_leader [OF ok, of l a] decision_of_leader [OF w, of l s] by auto
    with xy certified_leader_unique [OF net net(2), of x y] show "x = y" by simp
  qed
  with eq show ?thesis by simp
qed

section \<open>How a slot is decided\<close>

text \<open>
  A slot is decided directly, or from an anchor: the committed leader of a later wave that comes
  first among the leaders not skipped.
\<close>

definition decided_via ::
  "base_committer \<Rightarrow> dag_state \<Rightarrow> slot \<Rightarrow> leader_status \<Rightarrow> verified_block option \<Rightarrow> bool" where
  "decided_via c ds s st anchor \<longleftrightarrow>
     is_decided st \<and>
     (case anchor of
        None \<Rightarrow> try_direct_decide c ds s = Inr st
      | Some a \<Rightarrow> dag_lookup ds (vb_reference a) = Some a \<and> decision_of c s < vb_round a \<and>
                  decide_leader_from_anchor c ds a s = Inr st)"

lemma decided_via_certified:
  assumes ok: "dag_ok cm ds" and slot: "slot_ok cm c ds s" and w: "bo_wave_length (bc_options c) = 3"
    and via: "decided_via c ds s (Commit l) anchor"
  shows "certified_leader cm ds l \<and> slot_of (vb_reference l) = s"
proof (cases anchor)
  case None
  then have l: "dag_lookup ds (vb_reference l) = Some l" "slot_of (vb_reference l) = s"
    "reached_quorum cm (stake_of cm (certifiers cm ds (decision_of c s) (vb_reference l)))"
    using try_direct_decide_outcome [OF ok slot, of "Commit l"] via by (auto simp: decided_via_def)
  from certifiers_leader [OF ok l(1)] l(3) l(2) show ?thesis
    unfolding decision_of_leader [OF w l(2)] by blast
next
  case (Some a)
  then have a: "dag_lookup ds (vb_reference a) = Some a"
    "decide_leader_from_anchor c ds a s = Inr (Commit l)"
    using via by (auto simp: decided_via_def)
  from decide_from_anchor_outcome [OF ok slot dag_ok_causal_block [OF ok a(1)] a(2)]
  have l: "dag_lookup ds (vb_reference l) = Some l" "slot_of (vb_reference l) = s"
    "certified_in_history cm ds a (decision_of c s) (vb_reference l)" by auto
  from in_history_leader [OF ok l(1)] l(3) l(2) show ?thesis
    unfolding decision_of_leader [OF w l(2)] by blast
qed

text \<open>A leader committed in one state is not skipped in another one of the network.\<close>

lemma commit_skip_exclusive:
  assumes net: "network cm byz DS" "ds1 \<in> DS" "ds2 \<in> DS" and w: "bo_wave_length (bc_options c) = 3"
    and slot: "slot_ok cm c ds1 s" "slot_ok cm c ds2 s"
    and via: "decided_via c ds1 s (Commit l) a1" "decided_via c ds2 s (Skip s') a2"
    and anchor: "a1 \<noteq> None \<longrightarrow> a2 \<noteq> None \<longrightarrow> a1 = a2"
  shows False
proof -
  note ok1 = networkD(1) [OF net(1,2,3)] and ok2 = networkD(1) [OF net(1,3,2)]
  have l: "certified_leader cm ds1 l" "slot_of (vb_reference l) = s"
    using decided_via_certified [OF ok1 slot(1) w via(1)] by auto
  then have s: "slot_round s = vb_round l" "slot_authority s = vb_author l" by auto
  note D = decision_of_leader [OF w l(2)]
  from l(1) obtain b where b: "b \<in> dag_blocks_at ds1 (vb_round l + 2)" "certifies cm ds1 b (vb_reference l)"
    by (auto simp: certified_leader_def)
  show False
  proof (cases a2)
    case None
    with via(2) have "try_direct_decide c ds2 s = Inr (Skip s')" by (simp add: decided_via_def)
    from try_direct_decide_outcome [OF ok2 slot(2) this] s
    have "reached_quorum cm (stake_of cm (blamers ds2 (vb_round l + 1) (vb_author l)))" by auto
    with blame_excludes_certificate [OF net(1,3,2) _ _ b(2)] b(1) show False by simp
  next
    case (Some a)
    with via(2) have a: "dag_lookup ds2 (vb_reference a) = Some a" "decision_of c s < vb_round a"
      "decide_leader_from_anchor c ds2 a s = Inr (Skip s')" by (auto simp: decided_via_def)
    have none: "\<not> certified_in_history cm ds2 a (decision_of c s) (vb_reference l')"
      if "dag_lookup ds2 (vb_reference l') = Some l'" "slot_of (vb_reference l') = s" for l'
      using decide_from_anchor_outcome [OF ok2 slot(2) dag_ok_causal_block [OF ok2 a(1)] a(3)] that by auto
    have hist: "certified_in_history cm ds2 a (decision_of c s) (vb_reference l)"
    proof (cases a1)
      case None
      with via(1) have "try_direct_decide c ds1 s = Inr (Commit l)" by (simp add: decided_via_def)
      from try_direct_decide_outcome [OF ok1 slot(1) this]
      have "reached_quorum cm (stake_of cm (certifiers cm ds1 (decision_of c s) (vb_reference l)))" by auto
      from direct_commit_in_history [OF net this a(1)] a(2) show ?thesis by simp
    next
      case (Some a')
      with anchor \<open>a2 = Some a\<close> via(1) have a': "dag_lookup ds1 (vb_reference a) = Some a"
        "decide_leader_from_anchor c ds1 a s = Inr (Commit l)" by (auto simp: decided_via_def)
      from decide_from_anchor_outcome [OF ok1 slot(1) dag_ok_causal_block [OF ok1 a'(1)] a'(2)]
      have "certified_in_history cm ds1 a (decision_of c s) (vb_reference l)" by auto
      from history_transfer [OF ok1 ok2 networkD(3) [OF net] a'(1) a(1) this] show ?thesis .
    qed
    from hist obtain r x where x: "br_round r = vb_round l + 2" "dag_lookup ds2 r = Some x"
      "certifies cm ds2 x (vb_reference l)" unfolding certified_in_history_def D by blast
    have "vb_reference x = r" by (rule dag_lookup_ref(1) [OF dag_okD(3) [OF ok2] x(2)])
    with x have "x \<in> dag_blocks_at ds2 (br_round (vb_reference l) + 2)" by (auto simp: dag_blocks_at_def)
    from certified_leader_known [OF ok2 this x(3)] obtain l' where
      "dag_lookup ds2 (vb_reference l) = Some l'" "vb_reference l' = vb_reference l" by blast
    with none [of l'] hist l(2) show False by simp
  qed
qed

end
