(* ===== verification/Layered_Dag.thy ===== *)
theory Layered_Dag
  imports Commit_Safety
begin

text \<open>
  A concrete network: four authorities that each propose one block per round, with all four blocks
  of the round before as ancestors. Its DAG states, one per round reached, are what the theorems on
  the committers are evaluated on.
\<close>

section \<open>Accepting several new blocks\<close>

definition accept_all :: "verified_block list \<Rightarrow> dag_state \<Rightarrow> dag_state" where
  "accept_all bs ds = foldl (\<lambda>ds b. accepted_state b ds) ds bs"

lemma accept_all_simps [simp]:
  "accept_all [] ds = ds" "accept_all (b # bs) ds = accept_all bs (accepted_state b ds)"
  by (simp_all add: accept_all_def)

lemma accept_all_sel [simp]:
  "ds_context (accept_all bs ds) = ds_context ds" "ds_last_commit (accept_all bs ds) = ds_last_commit ds"
  by (induction bs arbitrary: ds) simp_all

lemma accept_all_highest:
  "\<forall>b \<in> set bs. vb_round b = r \<Longrightarrow> bs \<noteq> [] \<Longrightarrow>
     ds_highest_accepted_round (accept_all bs ds) = max (ds_highest_accepted_round ds) r"
proof (induction bs arbitrary: ds)
  case (Cons b bs)
  then show ?case by (cases "bs = []") (simp_all add: accepted_state_def max.assoc)
qed simp

lemma accept_all_lookup:
  "\<forall>b \<in> set bs. vb_round b \<noteq> 0 \<Longrightarrow> distinct (map vb_reference bs) \<Longrightarrow>
     dag_lookup (accept_all bs ds) = dag_lookup ds ++ map_of (block_entries bs)"
proof (induction bs arbitrary: ds)
  case (Cons b bs)
  have "map_of (block_entries bs) (vb_reference b) = None"
    using Cons.prems(2) by (force simp: map_of_eq_None_iff block_entries_def)
  with Cons show ?case
    by (auto simp: accepted_lookup block_entries_def fun_eq_iff map_add_def split: option.splits)
qed (simp add: block_entries_def)

lemma accept_all_inv:
  "dag_inv ds \<Longrightarrow> \<forall>b \<in> set bs. vb_round b \<noteq> 0 \<and> vb_author b < num_authorities ds \<and>
       dag_lookup ds (vb_reference b) = None \<Longrightarrow> distinct (map vb_reference bs) \<Longrightarrow>
     dag_inv (accept_all bs ds)"
proof (induction bs arbitrary: ds)
  case (Cons b bs)
  have "dag_inv (accepted_state b ds)" using Cons.prems by (intro accepted_inv) auto
  moreover have "dag_lookup (accepted_state b ds) (vb_reference x) = None" if "x \<in> set bs" for x
  proof -
    have "vb_reference x \<noteq> vb_reference b" using that Cons.prems(3) by (metis distinct.simps(2) image_eqI list.set_map list.simps(9))
    with that Cons.prems(2) show ?thesis by (simp add: accepted_lookup)
  qed
  ultimately show ?case using Cons.prems by (auto intro!: Cons.IH)
qed simp

section \<open>Layers\<close>

fun ex_layer :: "round \<Rightarrow> verified_block list" where
  "ex_layer 0 = ex_genesis"
| "ex_layer (Suc r) = map (\<lambda>a. ex_block (Suc r) a (Suc r) (map vb_reference (ex_layer r))) [0..<4]"

fun layered :: "round \<Rightarrow> dag_state" where
  "layered 0 = ex_dag"
| "layered (Suc r) = accept_all (ex_layer (Suc r)) (layered r)"

lemma ex_layer_length [simp]: "length (ex_layer r) = 4"
  by (cases r) auto

lemma ex_layer_ne [simp]: "ex_layer r \<noteq> []"
  using ex_layer_length [of r] by (cases "ex_layer r") auto

lemma ex_layer_nth [simp]:
  "a < 4 \<Longrightarrow> vb_round (ex_layer r ! a) = r \<and> vb_author (ex_layer r ! a) = a \<and>
     vb_ancestors (ex_layer r ! a) = (if r = 0 then [] else map vb_reference (ex_layer (r - 1)))"
  using genesis_blocks_spec(2) [OF ex_genesis_eq, of a] by (cases r) auto

declare ex_layer.simps(2) [simp del]

lemma ex_layer_mem: "b \<in> set (ex_layer r) \<longleftrightarrow> (\<exists>a < 4. b = ex_layer r ! a)"
  by (auto simp: in_set_conv_nth)

lemma ex_layer_sorted: "sorted_wrt (<) (map vb_reference (ex_layer r))"
  by (auto simp: sorted_wrt_iff_nth_less block_ref_less)

lemma ex_layer_distinct: "distinct (map vb_reference (ex_layer r))"
  using ex_layer_sorted [of r] by (simp add: strict_sorted_iff)

lemma layered_sel [simp]:
  "ds_context (layered n) = ex_context" "ds_last_commit (layered n) = None"
  by (induction n) (simp_all add: ex_dag_def fresh_state_def)

lemma layered_highest [simp]: "ds_highest_accepted_round (layered n) = n"
proof (induction n)
  case (Suc n)
  have "\<forall>b \<in> set (ex_layer (Suc n)). vb_round b = Suc n" by (auto simp: ex_layer_mem)
  from accept_all_highest [OF this] Suc show ?case by simp
qed (simp add: ex_dag_def fresh_state_def)

lemma layer_entries:
  "map_of (block_entries (ex_layer n)) r =
     (if br_round r = n \<and> br_author r < 4 \<and> vb_reference (ex_layer n ! br_author r) = r
      then Some (ex_layer n ! br_author r) else None)"
proof -
  have keys: "map fst (block_entries (ex_layer n)) = map vb_reference (ex_layer n)"
    by (simp add: block_entries_def)
  show ?thesis
  proof (cases "br_round r = n \<and> br_author r < 4 \<and> vb_reference (ex_layer n ! br_author r) = r")
    case True
    then have "(r, ex_layer n ! br_author r) \<in> set (block_entries (ex_layer n))"
      by (auto simp: block_entries_def intro!: image_eqI [of _ _ "ex_layer n ! br_author r"])
    with True keys ex_layer_distinct show ?thesis by (simp add: map_of_eq_Some_iff)
  next
    case False
    have "r \<notin> vb_reference ` set (ex_layer n)"
    proof
      assume "r \<in> vb_reference ` set (ex_layer n)"
      then obtain a where "a < 4" "r = vb_reference (ex_layer n ! a)" by (auto simp: ex_layer_mem)
      with False show False by simp
    qed
    with keys have "map_of (block_entries (ex_layer n)) r = None"
      by (simp add: map_of_eq_None_iff flip: set_map)
    with False show ?thesis by argo
  qed
qed

lemma layered_lookup:
  "dag_lookup (layered n) r =
     (if br_round r \<le> n \<and> br_author r < 4 \<and> vb_reference (ex_layer (br_round r) ! br_author r) = r
      then Some (ex_layer (br_round r) ! br_author r) else None)"
proof (induction n)
  case 0
  show ?case using layer_entries [of 0 r] by (simp add: ex_dag_lookup)
next
  case (Suc n)
  have "dag_lookup (layered (Suc n)) = dag_lookup (layered n) ++ map_of (block_entries (ex_layer (Suc n)))"
    unfolding layered.simps by (rule accept_all_lookup)
      (auto simp: ex_layer_mem ex_layer_distinct)
  with Suc show ?case
    by (auto simp: layer_entries map_add_def le_Suc_eq)
qed

lemma layered_mem:
  "dag_lookup (layered n) r = Some b \<Longrightarrow>
     br_round r \<le> n \<and> br_author r < 4 \<and> b = ex_layer (br_round r) ! br_author r \<and> vb_reference b = r"
  by (auto simp: layered_lookup split: if_splits)

lemma layered_in_layer:
  assumes "dag_lookup (layered n) (vb_reference b) = Some b"
  shows "b \<in> set (ex_layer (vb_round b))"
proof -
  note b = layered_mem [OF assms]
  then have "ex_layer (vb_round b) ! vb_author b \<in> set (ex_layer (vb_round b))" by (intro nth_mem) simp
  moreover have "ex_layer (vb_round b) ! vb_author b = b" using b by simp
  ultimately show ?thesis by (rule back_subst [where P = "\<lambda>x. x \<in> set (ex_layer (vb_round b))"])
qed

lemma layered_known: "r \<le> n \<Longrightarrow> a < 4 \<Longrightarrow> dag_lookup (layered n) (vb_reference (ex_layer r ! a)) = Some (ex_layer r ! a)"
  by (simp add: layered_lookup)

lemma layered_inv: "dag_inv (layered n)"
proof (induction n)
  case (Suc n)
  have "num_authorities (layered n) = 4" by (simp add: ex_context_def)
  with Suc show ?case
    unfolding layered.simps by (intro accept_all_inv)
      (auto simp: ex_layer_mem ex_layer_distinct layered_lookup)
qed simp

lemma layered_causal: "dag_causal (layered n)"
  unfolding dag_causal_def
proof (intro allI impI ballI)
  fix r b a assume "dag_lookup (layered n) r = Some b" and a: "a \<in> set (vb_ancestors b)"
  from layered_mem [OF this(1)] have b: "br_round r \<le> n" "br_author r < 4" "b = ex_layer (br_round r) ! br_author r"
    by auto
  with a have "br_round r \<noteq> 0" "a \<in> vb_reference ` set (ex_layer (br_round r - 1))" by (auto split: if_splits)
  then obtain i where "i < 4" "a = vb_reference (ex_layer (br_round r - 1) ! i)" by (auto simp: ex_layer_mem)
  with layered_known [of "br_round r - 1" n i] b \<open>br_round r \<noteq> 0\<close>
  show "dag_lookup (layered n) a \<noteq> None \<and> br_round a < br_round r" by simp
qed

lemma layered_quorum_parents: "quorum_parents ex_committee (layered n)"
  unfolding quorum_parents_def
proof (intro allI impI)
  fix r b assume "dag_lookup (layered n) r = Some b" and r: "0 < br_round r"
  from layered_mem [OF this(1)] r have anc: "vb_ancestors b = map vb_reference (ex_layer (br_round r - 1))" by auto
  have "br_author ` {a \<in> set (vb_ancestors b). br_round a + 1 = br_round r} = {0, 1, 2, 3}" (is "?L = _")
  proof
    show "?L \<subseteq> {0, 1, 2, 3}" unfolding anc by (force simp: ex_layer_mem)
    show "{0, 1, 2, 3} \<subseteq> ?L"
    proof
      fix i :: nat assume "i \<in> {0, 1, 2, 3}"
      then have "i < 4" by auto
      with r show "i \<in> ?L" unfolding anc
        by (intro image_eqI [of _ _ "vb_reference (ex_layer (br_round r - 1) ! i)"]) auto
    qed
  qed
  then show "reached_quorum ex_committee (stake_of ex_committee
      (br_author ` {a \<in> set (vb_ancestors b). br_round a + 1 = br_round r}))"
    by (simp add: ex_stake_of ex_thresholds card_insert_if)
qed

lemma layered_network: "network ex_committee {} (range layered)"
proof -
  have "dag_ok ex_committee (layered n)" for n
    by (simp add: dag_ok_def ex_committee_wf layered_inv layered_causal) (simp add: ex_context_def)
  moreover have "dags_agree (layered n) (layered m)" for n m
    by (auto simp: dags_agree_def dest!: layered_mem)
  moreover have "no_equivocation {} (layered n) (layered m)" for n m
    by (auto simp: no_equivocation_def dest!: layered_mem)
  ultimately show ?thesis
    by (auto simp: network_def layered_quorum_parents ex_stake_of ex_thresholds)
qed

section \<open>Votes and certificates of the layers\<close>

lemma layer_find:
  assumes "i < 4"
  shows "List.find (\<lambda>a. slot_of a = Slot r i) (map vb_reference (ex_layer r)) = Some (vb_reference (ex_layer r ! i))"
  unfolding find_Some_iff using assms by (intro exI [of _ i]) (auto simp: slot_of_eq_iff)

lemma layered_causal_block: "r \<le> n \<Longrightarrow> a < 4 \<Longrightarrow> block_causal (layered n) (ex_layer r ! a)"
  using dag_causal_block [OF layered_inv layered_causal layered_known] by blast

lemma layered_votes:
  assumes "r < n" "a < 4" "i < 4"
  shows "votes_for (layered n) (vb_reference (ex_layer (r + 1) ! a)) (vb_reference (ex_layer r ! i))"
proof -
  have "slot_of (vb_reference (ex_layer r ! i)) = Slot r i" using assms by (simp add: slot_of_eq_iff)
  moreover have "find_supported_block (layered n) (Slot r i) (ex_layer (r + 1) ! a) =
      Inr (Some (vb_reference (ex_layer r ! i)))"
    using find_supported_next_round [OF layered_causal_block, of "r + 1" n a "Slot r i"] layer_find assms by simp
  moreover have "dag_lookup (layered n) (vb_reference (ex_layer (r + 1) ! a)) = Some (ex_layer (r + 1) ! a)"
    using assms by (intro layered_known) simp_all
  ultimately show ?thesis unfolding votes_for_def by metis
qed

lemma layer_authors: "br_author ` vb_reference ` set (ex_layer r) = {0, 1, 2, 3}"
proof -
  have "br_author ` vb_reference ` set (ex_layer r) = (\<lambda>i. i) ` {..<4}"
    by (force simp: ex_layer_mem image_iff)
  then show ?thesis by auto
qed

lemma layered_certifies:
  assumes "r + 1 < n" "a < 4" "i < 4"
  shows "certifies ex_committee (layered n) (ex_layer (r + 2) ! a) (vb_reference (ex_layer r ! i))"
proof -
  have anc: "set (vb_ancestors (ex_layer (r + 2) ! a)) = vb_reference ` set (ex_layer (r + 1))"
    using assms by simp
  have "votes_for (layered n) q (vb_reference (ex_layer r ! i))" if "q \<in> vb_reference ` set (ex_layer (r + 1))" for q
  proof -
    from that obtain k where "k < 4" "q = vb_reference (ex_layer (r + 1) ! k)" by (auto simp: ex_layer_mem)
    with layered_votes [of r n k i] assms show ?thesis by simp
  qed
  then have "{q \<in> vb_reference ` set (ex_layer (r + 1)). votes_for (layered n) q (vb_reference (ex_layer r ! i))} =
      vb_reference ` set (ex_layer (r + 1))" by blast
  then have "voters (layered n) (ex_layer (r + 2) ! a) (vb_reference (ex_layer r ! i)) = {0, 1, 2, 3}"
    unfolding voters_def anc using layer_authors [of "r + 1"] by (rule ssubst)
  then show ?thesis by (simp add: certifies_def ex_stake_of ex_thresholds card_insert_if)
qed

lemma layered_certifiers:
  assumes "r + 1 < n" "i < 4"
  shows "certifiers ex_committee (layered n) (r + 2) (vb_reference (ex_layer r ! i)) = {0, 1, 2, 3}"
proof -
  have "{b \<in> dag_blocks_at (layered n) (r + 2).
      certifies ex_committee (layered n) b (vb_reference (ex_layer r ! i))} = set (ex_layer (r + 2))"
    (is "?C = _")
  proof (rule set_eqI)
    fix b
    show "b \<in> ?C \<longleftrightarrow> b \<in> set (ex_layer (r + 2))"
    proof
      assume "b \<in> ?C"
      then have "dag_lookup (layered n) (vb_reference b) = Some b" "vb_round b = r + 2" by (auto simp: dag_blocks_at_def)
      with layered_in_layer [OF this(1)] show "b \<in> set (ex_layer (r + 2))" by simp
    next
      assume "b \<in> set (ex_layer (r + 2))"
      then obtain a where "a < 4" "b = ex_layer (r + 2) ! a" by (auto simp: ex_layer_mem)
      with layered_certifies [of r n a i] layered_known [of "r + 2" n a] assms show "b \<in> ?C"
        by (simp add: dag_blocks_at_def)
    qed
  qed
  then show ?thesis unfolding certifiers_def using layer_authors [of "r + 2"] by (simp add: image_image)
qed

end
