(* ===== verification/Committer_Agreement.thy ===== *)
theory Committer_Agreement
  imports Universal_Committer Layered_Dag
begin

text \<open>
  Agreement of committed sequences: two states of a network that start from the same last decided
  leader, with the same leader schedule, decide sequences of which one is a prefix of the other.
  The proof follows the committer from the highest round down. Two anchors that two states use for
  the same slot are the same block, since the states agree on every later slot both decided.
\<close>

section \<open>One slot\<close>

lemma skip_slot:
  assumes "dag_ok cm ds" "slot_ok cm c ds s" "decided_via c ds s (Skip s') anchor"
  shows "s' = s"
proof (cases anchor)
  case None
  with assms(3) try_direct_decide_outcome [OF assms(1,2), of "Skip s'"] show ?thesis
    by (auto simp: decided_via_def)
next
  case (Some a)
  with assms(3) have a: "dag_lookup ds (vb_reference a) = Some a"
    "decide_leader_from_anchor c ds a s = Inr (Skip s')" by (auto simp: decided_via_def)
  from decide_from_anchor_outcome [OF assms(1,2) dag_ok_causal_block [OF assms(1) a(1)] a(2)]
  show ?thesis by auto
qed

lemma slot_agreement:
  assumes net: "network cm byz DS" "ds1 \<in> DS" "ds2 \<in> DS" and w: "bo_wave_length (bc_options c) = 3"
    and slot: "slot_ok cm c ds1 s" "slot_ok cm c ds2 s"
    and via: "decided_via c ds1 s st1 a1" "decided_via c ds2 s st2 a2"
    and anchor: "a1 \<noteq> None \<longrightarrow> a2 \<noteq> None \<longrightarrow> a1 = a2"
  shows "st1 = st2"
proof -
  note ok1 = networkD(1) [OF net(1,2,3)] and ok2 = networkD(1) [OF net(1,3,2)]
  have anchor': "a2 \<noteq> None \<longrightarrow> a1 \<noteq> None \<longrightarrow> a2 = a1" using anchor by auto
  show ?thesis
  proof (cases st1)
    case (Commit l1)
    show ?thesis
    proof (cases st2)
      case (Commit l2)
      with \<open>st1 = Commit l1\<close> via decided_via_certified [OF ok1 slot(1) w] decided_via_certified [OF ok2 slot(2) w]
        certified_leader_unique [OF net, of l1 l2] show ?thesis by auto
    qed (use Commit via commit_skip_exclusive [OF net w slot _ _ anchor] in \<open>auto simp: decided_via_def\<close>)
  next
    case (Skip s1)
    show ?thesis
    proof (cases st2)
      case (Commit l2)
      with Skip via commit_skip_exclusive [OF net(1,3,2) w slot(2,1) _ _ anchor'] show ?thesis by auto
    qed (use Skip via skip_slot [OF ok1 slot(1)] skip_slot [OF ok2 slot(2)] in \<open>auto simp: decided_via_def\<close>)
  qed (use via in \<open>simp add: decided_via_def\<close>)
qed

lemma decide_from_anchors_decided:
  assumes "decide_from_anchors c ds s anchors = Inr st" "is_decided st"
  shows "\<exists>pre a post. anchors = pre @ Commit a # post \<and> (\<forall>x \<in> set pre. \<exists>s'. x = Skip s') \<and>
    decide_leader_from_anchor c ds a s = Inr st"
  using assms
proof (induction c ds s anchors rule: decide_from_anchors.induct)
  case (2 c ds s anchor anchors)
  then show ?case by (intro exI [of _ "[]"]) auto
next
  case (3 c ds s s' anchors)
  then obtain pre a post where "anchors = pre @ Commit a # post" "\<forall>x \<in> set pre. \<exists>s'. x = Skip s'"
    "decide_leader_from_anchor c ds a s = Inr st" by auto
  then show ?case by (intro exI [of _ "Skip s' # pre"]) auto
qed auto

text \<open>The round of a status is the round of its slot.\<close>

lemma blocks_at_slot_round:
  "cache_wf ds \<Longrightarrow> b \<in> set (get_uncommitted_blocks_at_slot ds s) \<Longrightarrow> vb_round b = slot_round s"
  by (auto simp: set_uncommitted_at_slot slot_of_eq_iff)

lemma picked_round:
  assumes "cache_wf ds" "filter_res f (get_uncommitted_blocks_at_slot ds s) = Inr ys"
    and "status_round x = slot_round s"
  shows "status_round (case last_opt ys of Some b \<Rightarrow> Commit b | None \<Rightarrow> x) = slot_round s"
proof (cases ys rule: rev_cases)
  case (snoc zs b)
  then have "b \<in> set (get_uncommitted_blocks_at_slot ds s)" using filter_res_mem [OF assms(2), of b] by simp
  with snoc blocks_at_slot_round [OF assms(1)] show ?thesis by simp
qed (simp add: assms(3))

lemma direct_round:
  assumes "cache_wf ds" "try_direct_decide c ds s = Inr st"
  shows "status_round st = slot_round s"
  using assms(2)
  by (auto simp: try_direct_decide_def Let_def and_then_eq_Inr split: if_splits
      intro!: picked_round [OF assms(1)])

lemma from_anchor_round:
  assumes "cache_wf ds" "decide_leader_from_anchor c ds a s = Inr st"
  shows "status_round st = slot_round s"
  using assms(2)
  by (auto simp: decide_leader_from_anchor_def Let_def and_then_eq_Inr split: if_splits
      intro!: picked_round [OF assms(1)])

lemma indirect_round:
  "decide_from_anchors c ds s anchors = Inr st \<Longrightarrow> cache_wf ds \<Longrightarrow> status_round st = slot_round s"
  by (induction c ds s anchors rule: decide_from_anchors.induct) (auto intro: from_anchor_round)

lemma decide_slot_round:
  "decide_slot c ds s leaders = Inr (st, d) \<Longrightarrow> cache_wf ds \<Longrightarrow> status_round st = slot_round s"
  by (auto simp: decide_slot_def try_indirect_decide_def and_then_eq_Inr split: if_splits
      intro: direct_round indirect_round)

text \<open>The committed leaders among those decided so far are blocks of the DAG.\<close>

definition leaders_ok :: "dag_state \<Rightarrow> leader_status list \<Rightarrow> bool" where
  "leaders_ok ds leaders \<longleftrightarrow> (\<forall>b. Commit b \<in> set leaders \<longrightarrow> dag_lookup ds (vb_reference b) = Some b)"

lemma decide_slot_via:
  assumes slot: "slot_ok cm c ds s" and w: "bo_wave_length (bc_options c) = 3"
    and leaders: "leaders_ok ds leaders"
    and res: "decide_slot c ds s leaders = Inr (st, d)" and dec: "is_decided st"
  shows "decided_via c ds s st None \<or>
    (\<exists>pre a post. filter (\<lambda>x. slot_round s + 3 \<le> status_round x) leaders = pre @ Commit a # post \<and>
       (\<forall>x \<in> set pre. \<exists>s'. x = Skip s') \<and> decided_via c ds s st (Some a))"
proof (cases "try_direct_decide c ds s = Inr st")
  case True
  with dec show ?thesis by (simp add: decided_via_def)
next
  case False
  let ?anchors = "filter (\<lambda>x. slot_round s + 3 \<le> status_round x) leaders"
  have "u32_add (slot_round s) 3 = slot_round s + 3"
    using slot w by (intro u32_add_exact) (simp add: slot_ok_def)
  with False res w have "decide_from_anchors c ds s ?anchors = Inr st"
    by (auto simp: decide_slot_def try_indirect_decide_def and_then_eq_Inr split: if_splits)
  from decide_from_anchors_decided [OF this dec] obtain pre a post where
    split: "?anchors = pre @ Commit a # post" "\<forall>x \<in> set pre. \<exists>s'. x = Skip s'"
    and a: "decide_leader_from_anchor c ds a s = Inr st" by blast
  have "Commit a \<in> set ?anchors" unfolding split(1) by simp
  then have "dag_lookup ds (vb_reference a) = Some a" "slot_round s + 3 \<le> vb_round a"
    using leaders by (auto simp: leaders_ok_def)
  with a dec w have "decided_via c ds s st (Some a)" by (simp add: decided_via_def)
  with split show ?thesis by blast
qed

lemma decide_slot_leaders_ok:
  assumes ok: "dag_ok cm ds" and slot: "slot_ok cm c ds s" and w: "bo_wave_length (bc_options c) = 3"
    and leaders: "leaders_ok ds leaders" and res: "decide_slot c ds s leaders = Inr (st, d)"
  shows "leaders_ok ds (st # leaders)"
proof -
  have "dag_lookup ds (vb_reference b) = Some b" if st: "st = Commit b" for b
  proof -
    from decide_slot_via [OF slot w leaders res] st obtain a where "decided_via c ds s (Commit b) a" by auto
    from decided_via_certified [OF ok slot w this] show ?thesis by (simp add: certified_leader_def)
  qed
  with leaders show ?thesis by (auto simp: leaders_ok_def)
qed

section \<open>Sequences of slots\<close>

text \<open>
  Two lists of leaders of which the second has leaders of later rounds at its end: the others have
  the same rounds, and are equal wherever both are decided.
\<close>

definition same_decision :: "leader_status \<Rightarrow> leader_status \<Rightarrow> bool" where
  "same_decision x y \<longleftrightarrow>
     status_round x = status_round y \<and> (is_decided x \<longrightarrow> is_decided y \<longrightarrow> x = y)"

definition leaders_related :: "leader_status list \<Rightarrow> leader_status list \<Rightarrow> bool" where
  "leaders_related xs ys \<longleftrightarrow> (\<exists>us vs. ys = us @ vs \<and> list_all2 same_decision xs us)"

lemma leaders_related_Nil [simp]: "leaders_related [] ys"
  by (auto simp: leaders_related_def)

lemma leaders_related_Cons:
  "leaders_related (x # xs) zs \<longleftrightarrow> (\<exists>y ys. zs = y # ys \<and> same_decision x y \<and> leaders_related xs ys)"
  by (auto simp: leaders_related_def list_all2_Cons1) (metis append_Cons)+

lemma leaders_related_filter:
  "leaders_related xs ys \<Longrightarrow>
     leaders_related (filter (\<lambda>x. n \<le> status_round x) xs) (filter (\<lambda>x. n \<le> status_round x) ys)"
proof (induction xs arbitrary: ys)
  case (Cons x xs)
  then obtain y zs where "ys = y # zs" "same_decision x y" "leaders_related xs zs"
    by (auto simp: leaders_related_Cons)
  with Cons.IH [of zs] show ?case by (auto simp: leaders_related_Cons same_decision_def)
qed simp

lemma leaders_related_anchor:
  "leaders_related (pre1 @ Commit a1 # post1) (pre2 @ Commit a2 # post2) \<Longrightarrow>
     \<forall>x \<in> set pre1. \<exists>s. x = Skip s \<Longrightarrow> \<forall>x \<in> set pre2. \<exists>s. x = Skip s \<Longrightarrow> a1 = a2"
proof (induction pre1 arbitrary: pre2)
  case Nil
  then show ?case by (cases pre2) (auto simp: leaders_related_Cons same_decision_def)
next
  case (Cons x pre1)
  show ?case
  proof (cases pre2)
    case Nil
    with Cons.prems show ?thesis by (auto simp: leaders_related_Cons same_decision_def)
  next
    case (Cons y ys)
    with Cons.prems Cons.IH [of ys] show ?thesis by (auto simp: leaders_related_Cons)
  qed
qed

fun decide_slots ::
  "dag_state \<Rightarrow> (base_committer \<times> slot) list \<Rightarrow> (leader_status \<times> decision) list
     \<Rightarrow> (leader_status \<times> decision) list res" where
  "decide_slots ds [] leaders = Inr leaders"
| "decide_slots ds ((c, s) # xs) leaders =
     and_then (decide_slot c ds s (map fst leaders)) (\<lambda>l. decide_slots ds xs (l # leaders))"

lemma decide_slots_append:
  "decide_slots ds (xs @ ys) leaders = and_then (decide_slots ds xs leaders) (decide_slots ds ys)"
proof (induction xs arbitrary: leaders)
  case (Cons x xs)
  then show ?case by (cases x) (simp add: and_then_assoc)
qed simp

definition slots_ok :: "committee \<Rightarrow> dag_state \<Rightarrow> (base_committer \<times> slot) list \<Rightarrow> bool" where
  "slots_ok cm ds xs \<longleftrightarrow>
     (\<forall>(c, s) \<in> set xs. slot_ok cm c ds s \<and> bo_wave_length (bc_options c) = 3)"

lemma decide_slots_leaders_ok:
  "dag_ok cm ds \<Longrightarrow> slots_ok cm ds xs \<Longrightarrow> leaders_ok ds (map fst leaders) \<Longrightarrow>
     decide_slots ds xs leaders = Inr res \<Longrightarrow> leaders_ok ds (map fst res)"
proof (induction xs arbitrary: leaders)
  case (Cons x xs)
  obtain c s where x: "x = (c, s)" by fastforce
  from Cons.prems(4) obtain st d where step: "decide_slot c ds s (map fst leaders) = Inr (st, d)"
    "decide_slots ds xs ((st, d) # leaders) = Inr res" by (auto simp: x and_then_eq_Inr)
  have "slot_ok cm c ds s" "bo_wave_length (bc_options c) = 3"
    using Cons.prems(2) by (auto simp: slots_ok_def x)
  from decide_slot_leaders_ok [OF Cons.prems(1) this Cons.prems(3) step(1)]
  show ?case using Cons.IH [OF Cons.prems(1) _ _ step(2)] Cons.prems(2) by (simp add: slots_ok_def)
qed simp

lemma decide_slots_related:
  assumes net: "network cm byz DS" "ds1 \<in> DS" "ds2 \<in> DS"
  shows "slots_ok cm ds1 xs \<Longrightarrow> slots_ok cm ds2 xs \<Longrightarrow>
    leaders_ok ds1 (map fst l1) \<Longrightarrow> leaders_ok ds2 (map fst l2) \<Longrightarrow>
    leaders_related (map fst l1) (map fst l2) \<Longrightarrow>
    decide_slots ds1 xs l1 = Inr r1 \<Longrightarrow> decide_slots ds2 xs l2 = Inr r2 \<Longrightarrow>
    leaders_related (map fst r1) (map fst r2)"
proof (induction xs arbitrary: l1 l2)
  case (Cons x xs)
  obtain c s where x: "x = (c, s)" by fastforce
  note ok1 = networkD(1) [OF net(1,2,3)] and ok2 = networkD(1) [OF net(1,3,2)]
  have slot: "slot_ok cm c ds1 s" "slot_ok cm c ds2 s" and w: "bo_wave_length (bc_options c) = 3"
    using Cons.prems(1,2) by (auto simp: slots_ok_def x)
  from Cons.prems(6) obtain st1 d1 where s1: "decide_slot c ds1 s (map fst l1) = Inr (st1, d1)"
    "decide_slots ds1 xs ((st1, d1) # l1) = Inr r1" by (auto simp: x and_then_eq_Inr)
  from Cons.prems(7) obtain st2 d2 where s2: "decide_slot c ds2 s (map fst l2) = Inr (st2, d2)"
    "decide_slots ds2 xs ((st2, d2) # l2) = Inr r2" by (auto simp: x and_then_eq_Inr)
  let ?f = "filter (\<lambda>x. slot_round s + 3 \<le> status_round x)"
  have "st1 = st2" if dec: "is_decided st1" "is_decided st2"
  proof -
    have rel: "leaders_related (?f (map fst l1)) (?f (map fst l2))"
      by (rule leaders_related_filter [OF Cons.prems(5)])
    obtain a1 a2 where via: "decided_via c ds1 s st1 a1" "decided_via c ds2 s st2 a2"
      and anchor: "a1 \<noteq> None \<longrightarrow> a2 \<noteq> None \<longrightarrow> a1 = a2"
      using decide_slot_via [OF slot(1) w Cons.prems(3) s1(1) dec(1)]
        decide_slot_via [OF slot(2) w Cons.prems(4) s2(1) dec(2)] rel leaders_related_anchor
      by metis
    show ?thesis by (rule slot_agreement [OF net w slot via anchor])
  qed
  moreover have "status_round st1 = status_round st2"
    using decide_slot_round [OF s1(1)] decide_slot_round [OF s2(1)]
      dag_invD(2) [OF dag_okD(3) [OF ok1]] dag_invD(2) [OF dag_okD(3) [OF ok2]] by simp
  ultimately have "leaders_related (map fst ((st1, d1) # l1)) (map fst ((st2, d2) # l2))"
    using Cons.prems(5) by (auto simp: leaders_related_Cons same_decision_def)
  with Cons.IH [OF _ _ _ _ _ s1(2) s2(2)] Cons.prems(1,2)
    decide_slot_leaders_ok [OF ok1 slot(1) w Cons.prems(3) s1(1)]
    decide_slot_leaders_ok [OF ok2 slot(2) w Cons.prems(4) s2(1)]
  show ?case by (simp add: slots_ok_def)
qed simp

text \<open>Related leaders have comparable decided prefixes.\<close>

lemma decided_prefix_related:
  "leaders_related (map fst l1) (map fst l2) \<Longrightarrow>
     prefix (decided_prefix l1) (decided_prefix l2) \<or> prefix (decided_prefix l2) (decided_prefix l1)"
proof (induction l1 arbitrary: l2)
  case (Cons x l1)
  obtain st1 d1 where x: "x = (st1, d1)" by fastforce
  with Cons.prems obtain st2 d2 l2' where l2: "l2 = (st2, d2) # l2'" "same_decision st1 st2"
    "leaders_related (map fst l1) (map fst l2')" by (cases l2) (auto simp: leaders_related_Cons)
  show ?case
  proof (cases "is_decided st1 \<and> is_decided st2")
    case True
    with l2(2) have "st1 = st2" by (simp add: same_decision_def)
    with x l2 Cons.IH [OF l2(3)] True show ?thesis by (cases st2) auto
  next
    case False
    with x l2 Cons.IH [OF l2(3)] show ?thesis
      by (cases st1; cases st2) (auto simp: same_decision_def)
  qed
qed simp

section \<open>The slots of a call\<close>

text \<open>The slots the committer visits in a round and in a list of rounds, in its order.\<close>

fun round_slots ::
  "(round \<Rightarrow> nat \<Rightarrow> authority_index res) \<Rightarrow> slot \<Rightarrow> round \<Rightarrow> base_committer list
     \<Rightarrow> (bool \<times> (base_committer \<times> slot) list) res" where
  "round_slots schedule last_decided rnd [] = Inr (False, [])"
| "round_slots schedule last_decided rnd (c # cs) =
     and_then (committer_elect_leader schedule c rnd) (\<lambda>elected.
       case elected of
         None \<Rightarrow> round_slots schedule last_decided rnd cs
       | Some s \<Rightarrow>
           if s = last_decided then Inr (True, [])
           else and_then (round_slots schedule last_decided rnd cs)
                  (\<lambda>(stop, xs). Inr (stop, (c, s) # xs)))"

fun rounds_slots ::
  "(round \<Rightarrow> nat \<Rightarrow> authority_index res) \<Rightarrow> slot \<Rightarrow> base_committer list \<Rightarrow> round list
     \<Rightarrow> (base_committer \<times> slot) list res" where
  "rounds_slots schedule last_decided cs [] = Inr []"
| "rounds_slots schedule last_decided cs (rnd # rounds) =
     and_then (round_slots schedule last_decided rnd (rev cs)) (\<lambda>(_, xs).
     and_then (rounds_slots schedule last_decided cs rounds) (\<lambda>ys. Inr (xs @ ys)))"

lemma round_slots_ConsE:
  assumes "round_slots schedule last_decided rnd (c # cs) = Inr (stop, xs)"
  obtains (none) "committer_elect_leader schedule c rnd = Inr None"
      "round_slots schedule last_decided rnd cs = Inr (stop, xs)"
  | (reached) "committer_elect_leader schedule c rnd = Inr (Some last_decided)" "stop" "xs = []"
  | (slot) s ys where "committer_elect_leader schedule c rnd = Inr (Some s)" "s \<noteq> last_decided"
      "round_slots schedule last_decided rnd cs = Inr (stop, ys)" "xs = (c, s) # ys"
proof -
  from assms obtain elected where elect: "committer_elect_leader schedule c rnd = Inr elected"
    by (auto simp: and_then_eq_Inr)
  show thesis
  proof (cases elected)
    case None
    with elect assms show ?thesis by (auto intro: that)
  next
    case (Some s)
    with elect assms show ?thesis
      by (cases "s = last_decided") (auto simp: and_then_eq_Inr intro: that)
  qed
qed

lemma round_slots_elected:
  "round_slots schedule last_decided rnd cs = Inr (stop, xs) \<Longrightarrow> (c, s) \<in> set xs \<Longrightarrow>
     c \<in> set cs \<and> committer_elect_leader schedule c rnd = Inr (Some s)"
proof (induction cs arbitrary: xs)
  case (Cons c' cs)
  from Cons.prems(1) show ?case by (rule round_slots_ConsE) (use Cons in auto)
qed simp

lemma round_slots_later:
  "slot_round last_decided < rnd \<Longrightarrow> round_slots schedule last_decided rnd cs = Inr (stop, xs) \<Longrightarrow> \<not> stop"
proof (induction cs arbitrary: xs)
  case (Cons c cs)
  from Cons.prems(2) show ?case
    by (rule round_slots_ConsE) (use Cons in \<open>auto dest: elected_round(1)\<close>)
qed simp

lemma decide_committers_Cons:
  "decide_committers schedule ds last_decided rnd (c # cs) leaders =
     and_then (committer_elect_leader schedule c rnd) (\<lambda>elected.
       case elected of
         None \<Rightarrow> decide_committers schedule ds last_decided rnd cs leaders
       | Some s \<Rightarrow>
           if s = last_decided then Inr (True, leaders)
           else and_then (decide_slot c ds s (map fst leaders)) (\<lambda>l.
                  decide_committers schedule ds last_decided rnd cs (l # leaders)))"
  unfolding decide_committers.simps
  by (rule arg_cong2 [where f = and_then])
    (auto simp: decide_slot_def and_then_assoc fun_eq_iff if_distrib [where f = "\<lambda>x. and_then x f" for f]
      split: option.splits intro!: arg_cong2 [where f = and_then])

lemma decide_committers_slots:
  "decide_committers schedule ds last_decided rnd cs leaders = Inr (stop, res) \<Longrightarrow>
     \<exists>xs. round_slots schedule last_decided rnd cs = Inr (stop, xs) \<and> decide_slots ds xs leaders = Inr res"
proof (induction cs arbitrary: leaders)
  case (Cons c cs)
  from Cons.prems obtain elected where elect: "committer_elect_leader schedule c rnd = Inr elected"
    by (auto simp: and_then_eq_Inr)
  show ?case
  proof (cases elected)
    case None
    with elect Cons show ?thesis by simp
  next
    case (Some s)
    show ?thesis
    proof (cases "s = last_decided")
      case True
      with elect Some Cons.prems show ?thesis unfolding decide_committers_Cons by simp
    next
      case False
      with elect Some Cons.prems obtain l where step: "decide_slot c ds s (map fst leaders) = Inr l"
        "decide_committers schedule ds last_decided rnd cs (l # leaders) = Inr (stop, res)"
        unfolding decide_committers_Cons by (auto simp: and_then_eq_Inr)
      from Cons.IH [OF step(2)] step(1) elect Some False show ?thesis by auto
    qed
  qed
qed simp

lemma decide_rounds_slots:
  "\<forall>r \<in> set rounds. slot_round last_decided < r \<Longrightarrow>
     decide_rounds schedule cs ds last_decided (rounds @ rest) leaders = Inr res \<Longrightarrow>
     \<exists>xs mid. rounds_slots schedule last_decided cs rounds = Inr xs \<and> decide_slots ds xs leaders = Inr mid \<and>
       decide_rounds schedule cs ds last_decided rest mid = Inr res"
proof (induction rounds arbitrary: leaders)
  case (Cons r rounds)
  from Cons.prems(2) obtain stop l where l: "decide_committers schedule ds last_decided r (rev cs) leaders = Inr (stop, l)"
    "(if stop then Inr l else decide_rounds schedule cs ds last_decided (rounds @ rest) l) = Inr res"
    by (auto simp: and_then_eq_Inr)
  from decide_committers_slots [OF l(1)] obtain xs where
    xs: "round_slots schedule last_decided r (rev cs) = Inr (stop, xs)" "decide_slots ds xs leaders = Inr l" by blast
  have "\<not> stop" using round_slots_later [OF _ xs(1)] Cons.prems(1) by simp
  with l(2) Cons.IH [of l] Cons.prems(1) obtain ys mid where
    "rounds_slots schedule last_decided cs rounds = Inr ys" "decide_slots ds ys l = Inr mid"
    "decide_rounds schedule cs ds last_decided rest mid = Inr res" by auto
  with xs show ?case by (auto simp: decide_slots_append)
qed simp

lemma rounds_slots_append:
  "rounds_slots schedule last_decided cs (rs @ rs') =
     and_then (rounds_slots schedule last_decided cs rs) (\<lambda>xs.
     and_then (rounds_slots schedule last_decided cs rs') (\<lambda>ys. Inr (xs @ ys)))"
  by (induction rs) (auto simp: and_then_assoc split_def intro!: arg_cong2 [where f = and_then])

lemma rounds_slots_elected:
  "rounds_slots schedule last_decided cs rs = Inr xs \<Longrightarrow> (c, s) \<in> set xs \<Longrightarrow>
     c \<in> set cs \<and> slot_round s \<in> set rs \<and> leader_round c (wave_number c (slot_round s)) = slot_round s"
proof (induction rs arbitrary: xs)
  case (Cons r rs)
  then show ?case
    by (auto simp: and_then_eq_Inr dest!: round_slots_elected dest: elected_round)
qed simp

definition committers_ok :: "committee \<Rightarrow> universal_committer \<Rightarrow> bool" where
  "committers_ok cm uc \<longleftrightarrow>
     (\<forall>c \<in> set (uc_committers uc). cx_committee (bc_context c) = cm \<and> options_wf (bc_options c) \<and>
        bo_wave_length (bc_options c) = 3)"

lemma rounds_slots_ok:
  assumes "rounds_slots schedule last_decided (uc_committers uc) rs = Inr xs" "committers_ok cm uc"
    and "\<forall>r \<in> set rs. last_commit_round ds < r \<and> r + 3 < 2 ^ 32"
  shows "slots_ok cm ds xs"
  using rounds_slots_elected [OF assms(1)] assms(2,3)
  by (fastforce simp: slots_ok_def slot_ok_def committers_ok_def)

text \<open>
  The leader of the round of the last decided slot is that slot, so that the loop stops there;
  before the first commit that round is the genesis round, whose leaders are left out.
\<close>

definition stops_at :: "(round \<Rightarrow> nat \<Rightarrow> authority_index res) \<Rightarrow> universal_committer \<Rightarrow> slot \<Rightarrow> bool" where
  "stops_at schedule uc last_decided \<longleftrightarrow>
     slot_round last_decided = genesis_round \<or>
     round_slots schedule last_decided (slot_round last_decided) (rev (uc_committers uc)) = Inr (True, [])"

lemma decide_slots_genesis:
  "decide_slots ds xs leaders = Inr res \<Longrightarrow> cache_wf ds \<Longrightarrow> \<forall>(c, s) \<in> set xs. slot_round s = genesis_round \<Longrightarrow>
     decided_prefix res = decided_prefix leaders"
proof (induction xs arbitrary: leaders)
  case (Cons x xs)
  obtain c s where x: "x = (c, s)" by fastforce
  with Cons.prems(1) obtain st d where step: "decide_slot c ds s (map fst leaders) = Inr (st, d)"
    "decide_slots ds xs ((st, d) # leaders) = Inr res" by (auto simp: and_then_eq_Inr)
  have "status_round st = genesis_round"
    using decide_slot_round [OF step(1) Cons.prems(2)] Cons.prems(3) x by simp
  with Cons.IH [OF step(2) Cons.prems(2)] Cons.prems(3) show ?case by simp
qed simp

lemma decide_last_round:
  assumes res: "decide_rounds schedule (uc_committers uc) ds last_decided [slot_round last_decided] leaders = Inr res"
    and "stops_at schedule uc last_decided" "cache_wf ds"
  shows "decided_prefix res = decided_prefix leaders"
proof -
  from res obtain stop where
    res': "decide_committers schedule ds last_decided (slot_round last_decided) (rev (uc_committers uc)) leaders =
      Inr (stop, res)" by (auto simp: and_then_eq_Inr split: if_splits)
  from decide_committers_slots [OF this] obtain xs where
    xs: "round_slots schedule last_decided (slot_round last_decided) (rev (uc_committers uc)) = Inr (stop, xs)"
    "decide_slots ds xs leaders = Inr res" by blast
  have "xs = [] \<or> (\<forall>(c, s) \<in> set xs. slot_round s = genesis_round)"
    using assms(2) xs(1) round_slots_elected [OF xs(1)] elected_round(1)
    by (fastforce simp: stops_at_def)
  with decide_slots_genesis [OF xs(2) assms(3)] xs(2) show ?thesis by auto
qed

text \<open>The rounds of a call above the last decided one, from the highest down to \<open>n\<close>.\<close>

definition open_rounds :: "dag_state \<Rightarrow> slot \<Rightarrow> round list" where
  "open_rounds ds last_decided =
     rev [Suc (slot_round last_decided)..<ds_highest_accepted_round ds - 2 + 1]"

lemma try_decide_slots:
  assumes "try_decide schedule uc ds last_decided = Inr decided" "stops_at schedule uc last_decided"
    and "cache_wf ds"
  shows "\<exists>xs leaders. rounds_slots schedule last_decided (uc_committers uc) (open_rounds ds last_decided) = Inr xs \<and>
    decide_slots ds xs [] = Inr leaders \<and> decided = decided_prefix leaders"
proof (cases "slot_round last_decided < ds_highest_accepted_round ds - 2 + 1")
  case False
  with assms(1) show ?thesis by (auto simp: try_decide_def open_rounds_def)
next
  case True
  then have rounds: "rev [slot_round last_decided..<ds_highest_accepted_round ds - 2 + 1] =
      open_rounds ds last_decided @ [slot_round last_decided]"
    unfolding open_rounds_def by (subst upt_conv_Cons) simp_all
  from assms(1) obtain res where
    res: "decide_rounds schedule (uc_committers uc) ds last_decided
        (open_rounds ds last_decided @ [slot_round last_decided]) [] = Inr res" "decided = decided_prefix res"
    unfolding try_decide_def rounds and_then_eq_Inr by auto
  have "\<forall>r \<in> set (open_rounds ds last_decided). slot_round last_decided < r" by (auto simp: open_rounds_def)
  from decide_rounds_slots [OF this res(1)] obtain xs mid where
    "rounds_slots schedule last_decided (uc_committers uc) (open_rounds ds last_decided) = Inr xs"
    "decide_slots ds xs [] = Inr mid"
    "decide_rounds schedule (uc_committers uc) ds last_decided [slot_round last_decided] mid = Inr res" by blast
  with decide_last_round [OF _ assms(2,3)] res(2) show ?thesis by auto
qed

definition round_bounds :: "dag_state \<Rightarrow> slot \<Rightarrow> bool" where
  "round_bounds ds last_decided \<longleftrightarrow>
     last_commit_round ds \<le> slot_round last_decided \<and> ds_highest_accepted_round ds + 2 < 2 ^ 32"

lemma open_rounds_bounds:
  "round_bounds ds last_decided \<Longrightarrow> r \<in> set (open_rounds ds last_decided) \<Longrightarrow>
     last_commit_round ds < r \<and> r + 3 < 2 ^ 32"
  by (auto simp: round_bounds_def open_rounds_def)

lemma upt_split: "a \<le> b \<Longrightarrow> b \<le> c \<Longrightarrow> [a..<c] = [a..<b] @ [b..<c]"
  by (metis le_iff_add upt_add_eq_append)

lemma open_rounds_mono:
  assumes "ds_highest_accepted_round ds1 \<le> ds_highest_accepted_round ds2"
  shows "\<exists>rs. open_rounds ds2 last_decided = rs @ open_rounds ds1 last_decided"
proof (cases "slot_round last_decided < ds_highest_accepted_round ds1 - 2 + 1")
  case True
  let ?n = "ds_highest_accepted_round ds1 - 2 + 1" and ?m = "ds_highest_accepted_round ds2 - 2 + 1"
  have "[Suc (slot_round last_decided)..<?m] = [Suc (slot_round last_decided)..<?n] @ [?n..<?m]"
    using assms True by (intro upt_split) simp_all
  then show ?thesis unfolding open_rounds_def by (metis rev_append)
qed (simp add: open_rounds_def)

lemma agreement_ordered:
  assumes net: "network cm byz DS" "ds1 \<in> DS" "ds2 \<in> DS"
    and uc: "committers_ok cm uc" "stops_at schedule uc last_decided"
    and bounds: "round_bounds ds1 last_decided" "round_bounds ds2 last_decided"
    and res: "try_decide schedule uc ds1 last_decided = Inr d1" "try_decide schedule uc ds2 last_decided = Inr d2"
    and le: "ds_highest_accepted_round ds1 \<le> ds_highest_accepted_round ds2"
  shows "prefix d1 d2 \<or> prefix d2 d1"
proof -
  note ok1 = networkD(1) [OF net(1,2,3)] and ok2 = networkD(1) [OF net(1,3,2)]
  note wf1 = dag_invD(2) [OF dag_okD(3) [OF ok1]] and wf2 = dag_invD(2) [OF dag_okD(3) [OF ok2]]
  let ?slots = "rounds_slots schedule last_decided (uc_committers uc)"
  obtain xs l1 where xs: "?slots (open_rounds ds1 last_decided) = Inr xs" "decide_slots ds1 xs [] = Inr l1"
    "d1 = decided_prefix l1" using try_decide_slots [OF res(1) uc(2) wf1] by blast
  obtain zs l2 where zs: "?slots (open_rounds ds2 last_decided) = Inr zs" "decide_slots ds2 zs [] = Inr l2"
    "d2 = decided_prefix l2" using try_decide_slots [OF res(2) uc(2) wf2] by blast
  from open_rounds_mono [OF le] obtain rs where rs: "open_rounds ds2 last_decided = rs @ open_rounds ds1 last_decided"
    by blast
  with zs(1) xs(1) obtain ys where ys: "?slots rs = Inr ys" "zs = ys @ xs"
    by (auto simp: rounds_slots_append and_then_eq_Inr)
  have ok: "slots_ok cm ds1 xs" "slots_ok cm ds2 ys" "slots_ok cm ds2 xs"
    using rounds_slots_ok [OF xs(1) uc(1)] rounds_slots_ok [OF ys(1) uc(1)] open_rounds_bounds [OF bounds(1)]
      open_rounds_bounds [OF bounds(2)] rs by simp_all
  from zs(2) ys(2) obtain mid where mid: "decide_slots ds2 ys [] = Inr mid" "decide_slots ds2 xs mid = Inr l2"
    by (auto simp: decide_slots_append and_then_eq_Inr)
  have "leaders_ok ds2 (map fst mid)"
    using decide_slots_leaders_ok [OF ok2 ok(2) _ mid(1)] by (simp add: leaders_ok_def)
  then have "leaders_related (map fst l1) (map fst l2)"
    using decide_slots_related [OF net ok(1,3) _ _ _ xs(2) mid(2)] by (simp add: leaders_ok_def)
  from decided_prefix_related [OF this] show ?thesis by (simp add: xs(3) zs(3))
qed

section \<open>No panic\<close>

lemma decide_from_anchors_total:
  "(\<And>a. Commit a \<in> set anchors \<Longrightarrow> \<exists>st. decide_leader_from_anchor c ds a s = Inr st) \<Longrightarrow>
     \<exists>st. decide_from_anchors c ds s anchors = Inr st"
  by (induction c ds s anchors rule: decide_from_anchors.induct) auto

lemma decide_slot_total:
  assumes "\<exists>st. try_direct_decide c ds s = Inr st"
    and "\<And>a. Commit a \<in> set leaders \<Longrightarrow> \<exists>st. decide_leader_from_anchor c ds a s = Inr st"
  shows "\<exists>l. decide_slot c ds s leaders = Inr l"
proof -
  from assms(1) obtain st where st: "try_direct_decide c ds s = Inr st" by blast
  obtain st' where "try_indirect_decide c ds s leaders = Inr st'"
    unfolding try_indirect_decide_def using decide_from_anchors_total assms(2)
    by (metis (no_types, lifting) filter_is_subset subsetD)
  with st show ?thesis by (auto simp: decide_slot_def)
qed

lemma decide_slots_total:
  assumes net: "network cm byz DS" "ds \<in> DS"
  shows "slots_ok cm ds xs \<Longrightarrow> leaders_ok ds (map fst leaders) \<Longrightarrow> \<exists>res. decide_slots ds xs leaders = Inr res"
proof (induction xs arbitrary: leaders)
  case (Cons x xs)
  obtain c s where x: "x = (c, s)" by fastforce
  have slot: "slot_ok cm c ds s" and w: "bo_wave_length (bc_options c) = 3"
    using Cons.prems(1) by (auto simp: slots_ok_def x)
  have "\<exists>l. decide_slot c ds s (map fst leaders) = Inr l"
    using Cons.prems(2) try_direct_decide_total [OF net slot w] decide_from_anchor_total [OF net slot w]
    by (intro decide_slot_total) (auto simp: leaders_ok_def)
  then obtain st d where l: "decide_slot c ds s (map fst leaders) = Inr (st, d)" by fastforce
  from decide_slot_leaders_ok [OF networkD(1) [OF net net(2)] slot w Cons.prems(2) l]
  show ?case using Cons.IH [of "(st, d) # leaders"] Cons.prems(1) l by (simp add: x slots_ok_def)
qed simp

text \<open>No block of the genesis round is in the cache, so a genesis slot has no leader block.\<close>

lemma genesis_slot_empty:
  assumes "dag_ok cm ds" "slot_round s = genesis_round"
  shows "get_uncommitted_blocks_at_slot ds s = []"
proof -
  note wf = dag_invD(2) [OF dag_okD(3) [OF assms(1)]]
  have "b \<notin> set (get_uncommitted_blocks_at_slot ds s)" for b
    using set_uncommitted_at_slot [OF wf, of s] cache_lookup [OF wf, of "vb_reference b" b] assms(2)
    by (auto simp: genesis_round_def slot_of_eq_iff)
  then show ?thesis by (cases "get_uncommitted_blocks_at_slot ds s") auto
qed

lemma empty_slot_anchors:
  "decide_from_anchors c ds s anchors = Inr st \<Longrightarrow> get_uncommitted_blocks_at_slot ds s = [] \<Longrightarrow> st \<noteq> Commit b"
  by (induction c ds s anchors rule: decide_from_anchors.induct)
    (auto simp: decide_leader_from_anchor_def Let_def and_then_eq_Inr)

lemma empty_slot_not_committed:
  "decide_slot c ds s leaders = Inr (st, d) \<Longrightarrow> get_uncommitted_blocks_at_slot ds s = [] \<Longrightarrow> st \<noteq> Commit b"
  by (auto simp: decide_slot_def try_direct_decide_def try_indirect_decide_def Let_def and_then_eq_Inr
      split: if_splits dest: empty_slot_anchors)

lemma genesis_slot_total:
  assumes ok: "dag_ok cm ds" and c: "cx_committee (bc_context c) = cm"
    and s: "slot_round s = genesis_round" and lc: "last_commit_round ds = 0"
    and leaders: "leaders_ok ds leaders"
  shows "\<exists>l. decide_slot c ds s leaders = Inr l"
proof -
  note none = genesis_slot_empty [OF ok s]
  have blame: "\<exists>q. enough_leader_blame c ds (u32_add (slot_round s) 1) (slot_authority s) = Inr q"
    using enough_leader_blame_eq [OF ok c, of 1] s lc by (simp add: genesis_round_def u32_add_exact)
  show ?thesis
  proof (rule decide_slot_total)
    show "\<exists>st. try_direct_decide c ds s = Inr st"
      using blame by (auto simp: try_direct_decide_def none Let_def)
  next
    fix a assume "Commit a \<in> set leaders"
    with leaders have "dag_lookup ds (vb_reference a) = Some a" by (simp add: leaders_ok_def)
    from dag_ok_causal_block [OF ok this] have "set (vb_ancestors a) \<subseteq> dom (dag_lookup ds)"
      by (auto simp: block_causal_def)
    from ancestors_at_round_eq [OF dag_okD(4) [OF ok] this] obtain bs where
      "ancestors_at_round ds a (decision_round c (wave_number c (slot_round s))) = Inr bs" by blast
    then show "\<exists>st. decide_leader_from_anchor c ds a s = Inr st"
      by (simp add: decide_leader_from_anchor_def none Let_def)
  qed
qed

lemma round_slots_total:
  "\<forall>r i. \<exists>a. schedule r i = Inr a \<Longrightarrow> \<exists>p. round_slots schedule last_decided rnd cs = Inr p"
proof (induction cs)
  case (Cons c cs)
  then obtain stop xs where p: "round_slots schedule last_decided rnd cs = Inr (stop, xs)" by fastforce
  obtain a where "schedule rnd (bo_leader_offset (bc_options c)) = Inr a" using Cons.prems by blast
  then have "\<exists>elected. committer_elect_leader schedule c rnd = Inr elected"
    by (simp add: committer_elect_leader_def)
  then obtain elected where "committer_elect_leader schedule c rnd = Inr elected" ..
  with p show ?case by (cases elected) auto
qed auto

lemma decide_committers_of_slots:
  "round_slots schedule last_decided rnd cs = Inr (stop, xs) \<Longrightarrow> decide_slots ds xs leaders = Inr res \<Longrightarrow>
     decide_committers schedule ds last_decided rnd cs leaders = Inr (stop, res)"
proof (induction cs arbitrary: xs leaders)
  case (Cons c cs)
  from Cons.prems(1) show ?case
  proof (cases rule: round_slots_ConsE)
    case (slot s ys)
    with Cons.prems(2) Cons.IH [OF slot(3)] show ?thesis
      unfolding decide_committers_Cons by (auto simp: and_then_eq_Inr)
  qed (use Cons in auto)
qed simp

text \<open>The rounds after the last decided one, visited from the highest down.\<close>

lemma decide_rounds_total:
  assumes net: "network cm byz DS" "ds \<in> DS" and uc: "committers_ok cm uc"
    and schedule: "\<forall>r i. \<exists>a. schedule r i = Inr a"
  shows "\<forall>r \<in> set rs. slot_round last_decided < r \<and> last_commit_round ds < r \<and> r + 3 < 2 ^ 32 \<Longrightarrow>
    leaders_ok ds (map fst leaders) \<Longrightarrow>
    \<exists>mid. leaders_ok ds (map fst mid) \<and>
      decide_rounds schedule (uc_committers uc) ds last_decided (rs @ rest) leaders =
      decide_rounds schedule (uc_committers uc) ds last_decided rest mid"
proof (induction rs arbitrary: leaders)
  case (Cons r rs)
  obtain stop xs where xs: "round_slots schedule last_decided r (rev (uc_committers uc)) = Inr (stop, xs)"
    using round_slots_total [OF schedule] by fastforce
  then have "rounds_slots schedule last_decided (uc_committers uc) [r] = Inr xs" by simp
  from rounds_slots_ok [OF this uc] Cons.prems(1) have ok: "slots_ok cm ds xs" by simp
  from decide_slots_total [OF net ok Cons.prems(2)] obtain l where l: "decide_slots ds xs leaders = Inr l" by blast
  have "leaders_ok ds (map fst l)"
    by (rule decide_slots_leaders_ok [OF networkD(1) [OF net net(2)] ok Cons.prems(2) l])
  moreover have "\<not> stop" using round_slots_later [OF _ xs] Cons.prems(1) by simp
  ultimately show ?case
    using Cons.IH [of l] Cons.prems(1) decide_committers_of_slots [OF xs l] by simp
qed auto

lemma genesis_slots_total:
  assumes ok: "dag_ok cm ds" and lc: "last_commit_round ds = 0"
  shows "\<forall>(c, s) \<in> set xs. cx_committee (bc_context c) = cm \<and> slot_round s = genesis_round \<Longrightarrow>
    leaders_ok ds (map fst leaders) \<Longrightarrow> \<exists>res. decide_slots ds xs leaders = Inr res"
proof (induction xs arbitrary: leaders)
  case (Cons x xs)
  obtain c s where x: "x = (c, s)" by fastforce
  have s: "cx_committee (bc_context c) = cm" "slot_round s = genesis_round" using Cons.prems(1) x by auto
  from genesis_slot_total [OF ok s lc Cons.prems(2)] obtain st d where
    l: "decide_slot c ds s (map fst leaders) = Inr (st, d)" by fastforce
  have none: "st \<noteq> Commit b" for b
    by (rule empty_slot_not_committed [OF l genesis_slot_empty [OF ok s(2)]])
  have "leaders_ok ds (map fst ((st, d) # leaders))" using none Cons.prems(2) by (auto simp: leaders_ok_def)
  with Cons.IH [of "(st, d) # leaders"] Cons.prems(1) l x show ?case by simp
qed simp

lemma try_decide_total:
  assumes net: "network cm byz DS" "ds \<in> DS" and uc: "committers_ok cm uc" "stops_at schedule uc last_decided"
    and schedule: "\<forall>r i. \<exists>a. schedule r i = Inr a" and bounds: "round_bounds ds last_decided"
  shows "\<exists>decided. try_decide schedule uc ds last_decided = Inr decided"
proof (cases "slot_round last_decided < ds_highest_accepted_round ds - 2 + 1")
  case False
  then show ?thesis by (simp add: try_decide_def)
next
  case True
  let ?L = "slot_round last_decided"
  note ok = networkD(1) [OF net net(2)]
  have rounds: "rev [?L..<ds_highest_accepted_round ds - 2 + 1] = open_rounds ds last_decided @ [?L]"
    using True unfolding open_rounds_def by (subst upt_conv_Cons) simp_all
  have "\<forall>r \<in> set (open_rounds ds last_decided). ?L < r \<and> last_commit_round ds < r \<and> r + 3 < 2 ^ 32"
    using open_rounds_bounds [OF bounds] by (auto simp: open_rounds_def)
  from decide_rounds_total [OF net uc(1) schedule this, of "[]" "[?L]"] obtain mid where
    mid: "leaders_ok ds (map fst mid)"
    "decide_rounds schedule (uc_committers uc) ds last_decided (open_rounds ds last_decided @ [?L]) [] =
      decide_rounds schedule (uc_committers uc) ds last_decided [?L] mid" by (auto simp: leaders_ok_def)
  obtain stop xs where xs: "round_slots schedule last_decided ?L (rev (uc_committers uc)) = Inr (stop, xs)"
    using round_slots_total [OF schedule] by fastforce
  have "\<exists>res. decide_slots ds xs mid = Inr res"
  proof (cases "?L = genesis_round")
    case True
    have "\<forall>(c, s) \<in> set xs. cx_committee (bc_context c) = cm \<and> slot_round s = genesis_round"
      using round_slots_elected [OF xs] elected_round(1) uc(1) True by (fastforce simp: committers_ok_def)
    with genesis_slots_total [OF ok _ _ mid(1)] bounds True show ?thesis
      by (simp add: round_bounds_def genesis_round_def)
  qed (use uc(2) xs in \<open>simp add: stops_at_def\<close>)
  then obtain res where "decide_slots ds xs mid = Inr res" by blast
  from decide_committers_of_slots [OF xs this] show ?thesis
    unfolding try_decide_def rounds mid(2) by simp
qed

section \<open>Properties\<close>

text \<open>The committer of the builder with pipelining and one leader per round, and a rotating schedule.\<close>

definition ex_universal :: universal_committer where
  "ex_universal = \<lparr> uc_context = ex_context, uc_committers = map (\<lambda>i. \<lparr> bc_context = ex_context,
     bc_options = \<lparr> bo_wave_length = 3, bo_leader_offset = 0, bo_round_offset = i \<rparr> \<rparr>) [0..<3] \<rparr>"

definition ex_schedule :: "round \<Rightarrow> nat \<Rightarrow> authority_index res" where
  "ex_schedule rnd offset = Inr ((rnd + offset) mod 4)"

lemma ex_universal_built:
  "universal_committer_build (with_pipeline True (UniversalCommitterBuilder_new ex_context)) = Inr ex_universal"
  by (simp add: universal_committer_build_def with_pipeline_def UniversalCommitterBuilder_new_def
      ex_universal_def default_wave_length_def BaseCommitter_new_def minimum_wave_length_def upt_rec)

lemma ex_committers_ok: "committers_ok ex_committee ex_universal"
  by (auto simp: committers_ok_def ex_universal_def options_wf_def minimum_wave_length_def ex_context_def)

lemma ex_stops_at: "stops_at ex_schedule ex_universal (Slot 0 0)" "stops_at ex_schedule ex_universal (Slot 1 1)"
  by (simp_all add: stops_at_def genesis_round_def ex_universal_def ex_schedule_def upt_rec
      committer_elect_leader_def leader_round_def wave_number_def u32_add_def u32_mul_def)

lemma layered_bounds: "n + 2 < 2 ^ 32 \<Longrightarrow> round_bounds (layered n) s"
  by (simp add: round_bounds_def last_commit_round_def)

text \<open>C1: Agreement. In a network whose misbehaving authorities hold less stake than the validity
  threshold, whose honest authorities do not equivocate and whose blocks have a quorum of parents,
  two validators that run \<open>UniversalCommitter::try_decide\<close> from the same last decided leader with the
  same leader schedule decide sequences of commits and skips of which one is a prefix of the other,
  with any number of leaders and pipelined committers of wave length three.\<close>

theorem committed_sequences_agree:
  assumes "network cm byz DS" "ds1 \<in> DS" "ds2 \<in> DS" "committers_ok cm uc" "stops_at schedule uc last_decided"
    and "round_bounds ds1 last_decided" "round_bounds ds2 last_decided"
    and "try_decide schedule uc ds1 last_decided = Inr d1" "try_decide schedule uc ds2 last_decided = Inr d2"
  shows "prefix d1 d2 \<or> prefix d2 d1"
proof (cases "ds_highest_accepted_round ds1 \<le> ds_highest_accepted_round ds2")
  case True
  with agreement_ordered [OF assms] show ?thesis .
next
  case False
  with agreement_ordered [OF assms(1,3,2,4,5,7,6,9,8)] show ?thesis by auto
qed

theorem committed_sequences_agree_witness:
  "\<exists>d1 d2. try_decide ex_schedule ex_universal (layered 5) (Slot 1 1) = Inr d1 \<and>
     try_decide ex_schedule ex_universal (layered 8) (Slot 1 1) = Inr d2 \<and> (prefix d1 d2 \<or> prefix d2 d1)"
proof -
  have mem: "layered 5 \<in> range layered" "layered 8 \<in> range layered" by simp_all
  have bounds: "round_bounds (layered 5) (Slot 1 1)" "round_bounds (layered 8) (Slot 1 1)"
    by (simp_all add: layered_bounds)
  have sch: "\<forall>r i. \<exists>a. ex_schedule r i = Inr a" by (simp add: ex_schedule_def)
  note total = try_decide_total [OF layered_network _ ex_committers_ok ex_stops_at(2) sch]
  from total [OF mem(1) bounds(1)] total [OF mem(2) bounds(2)] obtain d1 d2 where
    d: "try_decide ex_schedule ex_universal (layered 5) (Slot 1 1) = Inr d1"
    "try_decide ex_schedule ex_universal (layered 8) (Slot 1 1) = Inr d2" by blast
  with committed_sequences_agree [OF layered_network mem ex_committers_ok ex_stops_at(2) bounds d]
  show ?thesis by blast
qed



end
