(* ===== verification/Committer_Properties.thy ===== *)
theory Committer_Properties
  imports Committer_Agreement
begin

text \<open>
  Further properties of the committers: the memo table of votes, what a quorum of certificates
  means for the validator that sees it and for every other one, and the leaders that a committer
  made by the builder elects.
\<close>

section \<open>Direct commits\<close>

lemma supported_unique:
  assumes net: "network cm byz DS" "ds \<in> DS" and slot: "slot_ok cm c ds s"
    and w: "bo_wave_length (bc_options c) = 3"
    and l: "dag_lookup ds (vb_reference l) = Some l" "slot_of (vb_reference l) = s"
    and yes: "enough_leader_support c ds (decision_of c s) l = Inr True"
    and blame: "enough_leader_blame c ds (slot_round s + 1) (slot_authority s) = Inr False"
  shows "try_direct_decide c ds s = Inr (Commit l)"
proof -
  note ok = networkD(1) [OF net net(2)] and s = slot_okD [OF slot]
  have vote: "u32_add (slot_round s) 1 = slot_round s + 1" using s by (intro u32_add_exact) simp
  obtain st where st: "try_direct_decide c ds s = Inr st" using try_direct_decide_total [OF net slot w] by blast
  let ?bs = "get_uncommitted_blocks_at_slot ds s"
  from st blame obtain ys where ys: "filter_res (enough_leader_support c ds (decision_of c s)) ?bs = Inr ys"
    "\<not> 1 < length ys" "st = (case last_opt ys of Some b \<Rightarrow> Commit b | None \<Rightarrow> Undecided s)"
    unfolding try_direct_decide_def vote s(3) Let_def by (auto simp: and_then_eq_Inr split: if_splits)
  have "l \<in> set ?bs" using uncommitted_at_slot_dag [OF dag_okD(3) [OF ok] s(4)] l by auto
  with filter_res_mem [OF ys(1)] yes have "l \<in> set ys" by simp
  with ys(2) have "ys = [l]" by (cases ys) (auto simp: Suc_lessI)
  with ys(3) st show ?thesis by simp
qed

lemma direct_commit_complete:
  assumes net: "network cm byz DS" "ds \<in> DS" and slot: "slot_ok cm c ds s"
    and w: "bo_wave_length (bc_options c) = 3"
    and l: "dag_lookup ds (vb_reference l) = Some l" "slot_of (vb_reference l) = s"
    and quorum: "reached_quorum cm (stake_of cm (certifiers cm ds (slot_round s + 2) (vb_reference l)))"
    and bs: "get_uncommitted_blocks_at_round ds (slot_round s + 2) = Inr bs"
    and fits: "sum_list (map (\<lambda>b. au_stake (cm_authorities cm ! vb_author b)) bs) < 2 ^ 64"
  shows "try_direct_decide c ds s = Inr (Commit l)"
proof (rule supported_unique [OF net slot w l])
  note ok = networkD(1) [OF net net(2)] and s = slot_okD [OF slot]
  have D: "decision_of c s = slot_round s + 2" using w by simp
  show "enough_leader_support c ds (decision_of c s) l = Inr True"
    unfolding D using s w by (intro enough_leader_support_complete [OF ok s(1) _ _ bs fits quorum]) simp_all
  have sl: "slot_round s = vb_round l" "slot_authority s = vb_author l" using l(2) by auto
  from quorum_nonempty [OF dag_okD(1) [OF ok] quorum] obtain b where
    b: "b \<in> dag_blocks_at ds (slot_round s + 2)" "certifies cm ds b (vb_reference l)"
    by (auto simp: certifiers_def)
  have "\<not> reached_quorum cm (stake_of cm (blamers ds (slot_round s + 1) (slot_authority s)))"
    using blame_excludes_certificate [OF net net(2), of "vb_reference l" b] b sl by auto
  then show "enough_leader_blame c ds (slot_round s + 1) (slot_authority s) = Inr False"
    using s by (subst enough_leader_blame_eq [OF ok s(1)]) simp_all
qed

section \<open>Pipelined leaders\<close>

lemma map_res_append: "map_res f (xs @ ys) = and_then (map_res f xs) (\<lambda>us. and_then (map_res f ys) (\<lambda>vs. Inr (us @ vs)))"
  by (induction xs) (simp_all add: and_then_assoc)

lemma elects_own_stage:
  assumes "i < w" "rnd + w < 2 ^ 32"
    and c: "bc_options c = \<lparr> bo_wave_length = w, bo_leader_offset = j, bo_round_offset = i \<rparr>"
  shows "committer_elect_leader schedule c rnd =
    (if i = rnd mod w then and_then (schedule rnd j) (\<lambda>a. Inr (Some (Slot rnd a))) else Inr None)"
proof -
  have le: "(rnd - i) div w * w \<le> rnd - i" by simp
  have "(rnd - i) div w * w < 2 ^ 32" using le assms(2) by linarith
  then have "u32_mul ((rnd - i) div w) w = (rnd - i) div w * w" by (rule u32_mul_exact)
  moreover have "u32_add ((rnd - i) div w * w) i = (rnd - i) div w * w + i"
    using le assms(1,2) by (intro u32_add_exact) linarith
  ultimately have lead: "leader_round c (wave_number c rnd) = (rnd - i) div w * w + i"
    by (simp add: leader_round_def wave_number_def c)
  have "(rnd - i) div w * w + i = rnd \<longleftrightarrow> i = rnd mod w"
  proof
    assume "(rnd - i) div w * w + i = rnd"
    then show "i = rnd mod w" using assms(1) by (metis mod_less mod_mult_self3)
  next
    assume i: "i = rnd mod w"
    then have "rnd - i = rnd div w * w" by (simp add: minus_mod_eq_div_mult)
    with i assms(1) show "(rnd - i) div w * w + i = rnd" by simp
  qed
  then show ?thesis by (simp add: committer_elect_leader_def lead c)
qed

lemma stage_leaders:
  assumes "i < w" "rnd + w < 2 ^ 32"
  shows "map_res (\<lambda>c. committer_elect_leader schedule c rnd)
      (map (\<lambda>j. \<lparr> bc_context = cx, bc_options =
        \<lparr> bo_wave_length = w, bo_leader_offset = j, bo_round_offset = i \<rparr> \<rparr>) js) =
    (if i = rnd mod w then and_then (map_res (schedule rnd) js) (\<lambda>as. Inr (map (\<lambda>a. Some (Slot rnd a)) as))
     else Inr (replicate (length js) None))"
  by (induction js) (simp_all add: elects_own_stage [OF assms] and_then_assoc)

lemma other_stages:
  assumes "\<forall>i \<in> set is. i < w \<and> i \<noteq> rnd mod w" "rnd + w < 2 ^ 32"
  shows "\<exists>k. map_res (\<lambda>c. committer_elect_leader schedule c rnd)
      (concat (map (\<lambda>i. map (\<lambda>j. \<lparr> bc_context = cx, bc_options =
        \<lparr> bo_wave_length = w, bo_leader_offset = j, bo_round_offset = i \<rparr> \<rparr>) js) is)) = Inr (replicate k None)"
  using assms(1)
proof (induction "is")
  case (Cons i "is")
  then obtain k where "map_res (\<lambda>c. committer_elect_leader schedule c rnd)
      (concat (map (\<lambda>i. map (\<lambda>j. \<lparr> bc_context = cx, bc_options =
        \<lparr> bo_wave_length = w, bo_leader_offset = j, bo_round_offset = i \<rparr> \<rparr>) js) is)) = Inr (replicate k None)" by auto
  with Cons.prems assms(2) show ?case
    by (intro exI [of _ "length js + k"]) (simp add: map_res_append stage_leaders replicate_add)
qed (auto intro: exI [of _ 0])

lemma map_filter_None: "List.map_filter id (replicate k None) = []"
  by (induction k) (simp_all add: List.map_filter_simps)

lemma map_filter_Some: "List.map_filter id (map (\<lambda>x. Some (f x)) xs) = map f xs"
  by (induction xs) (simp_all add: List.map_filter_simps)

lemma map_filter_append: "List.map_filter f (xs @ ys) = List.map_filter f xs @ List.map_filter f ys"
  by (simp add: List.map_filter_def)

lemma concat_split: "xs = ys @ i # zs \<Longrightarrow> concat (map f xs) = concat (map f ys) @ f i @ concat (map f zs)"
  by simp

lemma pipelined_leaders:
  assumes built: "universal_committer_build b = Inr uc" and "ub_pipeline b" "rnd + ub_wave_length b < 2 ^ 32"
    and w: "minimum_wave_length \<le> ub_wave_length b"
  shows "get_leaders schedule uc rnd = map_res (schedule rnd) [0..<ub_number_of_leaders b]"
proof -
  let ?w = "ub_wave_length b" and ?js = "[0..<ub_number_of_leaders b]" and ?i = "rnd mod ub_wave_length b"
  let ?stage = "\<lambda>i. map (\<lambda>j. \<lparr> bc_context = ub_context b, bc_options =
        \<lparr> bo_wave_length = ?w, bo_leader_offset = j, bo_round_offset = i \<rparr> \<rparr>) ?js"
  have w0: "?i < ?w" using w by (simp add: minimum_wave_length_def)
  have cs: "uc_committers uc = concat (map ?stage [0..<?w])"
  proof -
    have "map_res (\<lambda>(i, j). BaseCommitter_new (ub_context b)
          \<lparr> bo_wave_length = ?w, bo_leader_offset = j, bo_round_offset = i \<rparr>) xs =
        Inr (map (\<lambda>(i, j). \<lparr> bc_context = ub_context b, bc_options =
          \<lparr> bo_wave_length = ?w, bo_leader_offset = j, bo_round_offset = i \<rparr> \<rparr>) xs)" for xs
      using w by (intro map_res_Inr) (auto simp: BaseCommitter_new_def)
    with built assms(2) show ?thesis
      by (auto simp: universal_committer_build_def Let_def map_concat comp_def)
  qed
  have "[0..<?w] = [0..<?i] @ ?i # [Suc ?i..<?w]"
    using w0 by (metis less_imp_le upt_conv_Cons upt_split zero_le)
  from concat_split [OF this, of ?stage]
  have split: "uc_committers uc = concat (map ?stage [0..<?i]) @ ?stage ?i @ concat (map ?stage [Suc ?i..<?w])"
    unfolding cs .
  obtain k m where
    "map_res (\<lambda>c. committer_elect_leader schedule c rnd) (concat (map ?stage [0..<?i])) = Inr (replicate k None)"
    "map_res (\<lambda>c. committer_elect_leader schedule c rnd) (concat (map ?stage [Suc ?i..<?w])) = Inr (replicate m None)"
    using other_stages [of "[0..<?i]" ?w rnd] other_stages [of "[Suc ?i..<?w]" ?w rnd] w0 assms(3) by fastforce
  then show ?thesis
    unfolding get_leaders_def split map_res_append stage_leaders [OF w0 assms(3)]
    by (cases "map_res (schedule rnd) ?js")
      (simp_all add: map_filter_append map_filter_None map_filter_Some comp_def)
qed

section \<open>Properties\<close>

text \<open>C13: \<open>BaseCommitter::is_certificate\<close> with its memo table of votes answers as without one: it does
  not panic on a block whose history is known, and says yes exactly when the ancestors that vote for
  the leader block hold a quorum of stake, whatever correct entries the table has; the table stays
  correct.\<close>

theorem certificate_memo_is_transparent:
  assumes "dag_ok cm ds" "cx_committee (bc_context c) = cm" "block_causal ds b"
    and "cache_ok ds (vb_reference l) votes"
  shows "\<exists>votes'. is_certificate c ds b l votes = Inr (certifies cm ds b (vb_reference l), votes') \<and>
    cache_ok ds (vb_reference l) votes'"
  by (rule is_certificate_eq [OF assms])

definition ex_base :: base_committer where
  "ex_base = \<lparr> bc_context = ex_context, bc_options = base_committer_options_default \<rparr>"

lemma ex_base_sel [simp]:
  "cx_committee (bc_context ex_base) = ex_committee" "bo_wave_length (bc_options ex_base) = 3"
  "bo_round_offset (bc_options ex_base) = 0" "options_wf (bc_options ex_base)"
  by (simp_all add: ex_base_def ex_context_def base_committer_options_default_def default_wave_length_def
      options_wf_def minimum_wave_length_def)

lemma layered_ok: "dag_ok ex_committee (layered n)"
  by (rule networkD(1) [OF layered_network, of _ "layered n"]) simp_all

theorem certificate_memo_is_transparent_witness:
  "\<exists>votes'. is_certificate ex_base (layered 6) (ex_layer 5 ! 1) (ex_layer 3 ! 2) Map.empty = Inr (True, votes')"
  using certificate_memo_is_transparent [OF layered_ok, of ex_base 6 "ex_layer 5 ! 1" "ex_layer 3 ! 2" Map.empty]
    layered_certifies [of 3 6 1 2] layered_causal_block [of 5 6 1]
  by auto

text \<open>C14: Direct commits are final. When a validator of the network directly commits a leader block, the
  block is certified in the causal history of every block after the decision round that any
  validator knows, so whoever decides the slot from an anchor finds the certificate.\<close>

theorem direct_commit_is_final:
  assumes "network cm byz DS" "ds1 \<in> DS" "ds2 \<in> DS" "slot_ok cm c ds1 s"
    and "try_direct_decide c ds1 s = Inr (Commit l)"
    and "dag_lookup ds2 r = Some a" "decision_of c s < br_round r"
  shows "certified_in_history cm ds2 a (decision_of c s) (vb_reference l)"
proof -
  have "reached_quorum cm (stake_of cm (certifiers cm ds1 (decision_of c s) (vb_reference l)))"
    using try_direct_decide_outcome [OF networkD(1) [OF assms(1,2,3)] assms(4,5)] by auto
  with assms show ?thesis by (intro direct_commit_in_history)
qed

lemma layered_round_blocks:
  assumes "0 < rnd" "rnd \<le> n" "rnd + 1 < 2 ^ 32"
  obtains bs where "get_uncommitted_blocks_at_round (layered n) rnd = Inr bs" "length bs \<le> 4"
    "\<forall>b \<in> set bs. vb_author b < 4"
proof -
  have "last_commit_round (layered n) < rnd" using assms by (simp add: last_commit_round_def)
  from uncommitted_at_round_dag [OF layered_inv this assms(3)] obtain bs where
    bs: "get_uncommitted_blocks_at_round (layered n) rnd = Inr bs"
    "set bs = {b. dag_lookup (layered n) (vb_reference b) = Some b \<and> vb_round b = rnd}"
    "distinct (map vb_reference bs)" by blast
  have sub: "set bs \<subseteq> set (ex_layer rnd)"
  proof
    fix b assume "b \<in> set bs"
    with bs(2) have "dag_lookup (layered n) (vb_reference b) = Some b" "vb_round b = rnd" by auto
    with layered_in_layer [OF this(1)] show "b \<in> set (ex_layer rnd)" by simp
  qed
  have "length bs = card (set bs)" using bs(3) by (simp add: distinct_map distinct_card)
  also have "\<dots> \<le> card (set (ex_layer rnd))" using sub by (rule card_mono [OF finite_set])
  also have "\<dots> \<le> 4" using card_length [of "ex_layer rnd"] by simp
  finally have "length bs \<le> 4" .
  moreover have "\<forall>b \<in> set (ex_layer rnd). vb_author b < 4" by (auto simp: ex_layer_mem)
  ultimately show thesis using sub by (intro that [OF bs(1)]) auto
qed

lemma ex_slot_ok: "slot_ok ex_committee ex_base (layered 6) (Slot 3 2)"
  by (simp add: slot_ok_def last_commit_round_def leader_round_def wave_number_def u32_add_def u32_mul_def)

lemma layered_quorum:
  "reached_quorum ex_committee (stake_of ex_committee
     (certifiers ex_committee (layered 6) (slot_round (Slot 3 2) + 2) (vb_reference (ex_layer 3 ! 2))))"
  using layered_certifiers [of 3 6 2] by (simp add: ex_stake_of ex_thresholds card_insert_if)

lemma layered_fits:
  obtains bs where "get_uncommitted_blocks_at_round (layered 6) (slot_round (Slot 3 2) + 2) = Inr bs"
    "sum_list (map (\<lambda>b. au_stake (cm_authorities ex_committee ! vb_author b)) bs) < 2 ^ 64"
proof -
  obtain bs where bs: "get_uncommitted_blocks_at_round (layered 6) 5 = Inr bs" "length bs \<le> 4"
    "\<forall>b \<in> set bs. vb_author b < 4" by (rule layered_round_blocks [of 5 6]) simp_all
  have "map (\<lambda>b. au_stake (cm_authorities ex_committee ! vb_author b)) bs = map (\<lambda>b. 1) bs"
    using bs(3) by (simp add: ex_committee_def ex_authority_def)
  then have "sum_list (map (\<lambda>b. au_stake (cm_authorities ex_committee ! vb_author b)) bs) = length bs"
    by (simp only: sum_list_triv) simp
  with bs that show ?thesis by simp
qed

lemma layered_leader:
  "dag_lookup (layered 6) (vb_reference (ex_layer 3 ! 2)) = Some (ex_layer 3 ! 2)"
  "slot_of (vb_reference (ex_layer 3 ! 2)) = Slot 3 2"
  by (simp_all add: layered_known slot_of_eq_iff)

theorem direct_commit_is_final_witness:
  "certified_in_history ex_committee (layered 9) (ex_layer 8 ! 0) (decision_of ex_base (Slot 3 2))
     (vb_reference (ex_layer 3 ! 2))"
proof -
  obtain bs where bs: "get_uncommitted_blocks_at_round (layered 6) (slot_round (Slot 3 2) + 2) = Inr bs"
    "sum_list (map (\<lambda>b. au_stake (cm_authorities ex_committee ! vb_author b)) bs) < 2 ^ 64" by (rule layered_fits)
  have "try_direct_decide ex_base (layered 6) (Slot 3 2) = Inr (Commit (ex_layer 3 ! 2))"
    by (rule direct_commit_complete [OF layered_network _ ex_slot_ok _ layered_leader layered_quorum bs]) simp_all
  from direct_commit_is_final [OF layered_network _ _ ex_slot_ok this layered_known [of 8 9 0]]
  show ?thesis by simp
qed

text \<open>C15: Liveness of the direct rule. In the network, a leader block with certificates of a quorum of
  authorities at its decision round is committed by \<open>BaseCommitter::try_direct_decide\<close>, as long as the
  stake summed over the blocks of that round fits 64 bits.\<close>

theorem certificates_commit_the_leader:
  assumes "network cm byz DS" "ds \<in> DS" "slot_ok cm c ds s" "bo_wave_length (bc_options c) = 3"
    and "dag_lookup ds (vb_reference l) = Some l" "slot_of (vb_reference l) = s"
    and "reached_quorum cm (stake_of cm (certifiers cm ds (slot_round s + 2) (vb_reference l)))"
    and "get_uncommitted_blocks_at_round ds (slot_round s + 2) = Inr bs"
    and "sum_list (map (\<lambda>b. au_stake (cm_authorities cm ! vb_author b)) bs) < 2 ^ 64"
  shows "try_direct_decide c ds s = Inr (Commit l)"
  by (rule direct_commit_complete [OF assms])

theorem certificates_commit_the_leader_witness:
  "try_direct_decide ex_base (layered 6) (Slot 3 2) = Inr (Commit (ex_layer 3 ! 2))"
proof -
  obtain bs where bs: "get_uncommitted_blocks_at_round (layered 6) (slot_round (Slot 3 2) + 2) = Inr bs"
    "sum_list (map (\<lambda>b. au_stake (cm_authorities ex_committee ! vb_author b)) bs) < 2 ^ 64" by (rule layered_fits)
  show ?thesis
    by (rule certificates_commit_the_leader [OF layered_network _ ex_slot_ok _ layered_leader layered_quorum bs])
      simp_all
qed

text \<open>A pipelined committer made by \<open>UniversalCommitterBuilder\<close> elects in every round exactly the
  leaders the schedule gives for the configured number of offsets, in that order: of the committers
  of all stages, exactly those of one stage have a leader in the round.\<close>

theorem pipeline_elects_every_round:
  assumes "universal_committer_build b = Inr uc" "ub_pipeline b" "rnd + ub_wave_length b < 2 ^ 32"
    and "minimum_wave_length \<le> ub_wave_length b"
  shows "get_leaders schedule uc rnd = map_res (schedule rnd) [0..<ub_number_of_leaders b]"
  by (rule pipelined_leaders [OF assms])

theorem pipeline_elects_every_round_witness:
  "get_leaders ex_schedule ex_universal 10 = Inr [2]"
  using pipeline_elects_every_round [OF ex_universal_built, of 10 ex_schedule]
  by (simp add: with_pipeline_def UniversalCommitterBuilder_new_def default_wave_length_def
      minimum_wave_length_def ex_schedule_def)

end
