(* ===== verification/Linearizer.thy ===== *)
theory Linearizer
  imports Layered_Dag "HOL-Library.Product_Lexorder"
begin

text \<open>
  The linearizer (\<^verbatim>\<open>consensus/core/src/linearizer.rs\<close>): a committed leader is expanded into the
  sub-dag of the blocks of its history that no earlier commit holds, with the commit that records
  them. The lemmas show that the traversal ends without a panic and collects exactly those blocks,
  and that the sub-dags of a sequence of leaders form a chain of commits without repetition.
\<close>

section \<open>Collecting a sub-dag\<close>

text \<open>
  The loop state: the blocks to commit, the references collected (a \<open>HashSet\<close>), and the buffer,
  used as a stack.
\<close>

type_synonym collect_state = "verified_block list \<times> block_ref set \<times> verified_block list"

definition push_ancestor ::
  "verified_block \<Rightarrow> verified_block list \<times> block_ref set \<Rightarrow> (verified_block list \<times> block_ref set) res" where
  "push_ancestor a = (\<lambda>(buffer, committed).
     and_then (assert_that (vb_reference a \<notin> committed) (CommitPanic BlockCommittedTwice))
       (\<lambda>_. Inr (buffer @ [a], insert (vb_reference a) committed)))"

definition collect_step :: "dag_state \<Rightarrow> collect_state \<Rightarrow> collect_state res" where
  "collect_step ds = (\<lambda>(to_commit, committed, buffer).
     (let x = last buffer in
      and_then (filter_res (\<lambda>a.
          if a \<in> committed then Inr False
          else and_then (vec_get (ds_last_committed_rounds ds) (br_author a)) (\<lambda>r. Inr (r < br_round a)))
        (vb_ancestors x)) (\<lambda>wanted.
      and_then (map_res (\<lambda>b. expect b (DagPanic BlockNotFound)) (get_blocks ds wanted)) (\<lambda>ancestors.
      and_then (for_each push_ancestor ancestors (butlast buffer, committed)) (\<lambda>(buffer', committed').
        Inr (to_commit @ [x], committed', buffer'))))))"

definition collect_blocks :: "dag_state \<Rightarrow> verified_block \<Rightarrow> verified_block list res" where
  "collect_blocks ds leader =
     and_then (while_res (\<lambda>(_, _, buffer). buffer \<noteq> []) (collect_step ds)
                 ([], {vb_reference leader}, [leader]))
       (\<lambda>(to_commit, _, _). Inr to_commit)"

definition collect_sub_dag_and_commit ::
  "crypto \<Rightarrow> dag_state \<Rightarrow> verified_block \<Rightarrow> (committed_sub_dag \<times> trusted_commit) res" where
  "collect_sub_dag_and_commit cry ds leader =
     (let timestamp_ms = max (vb_timestamp_ms leader) (last_commit_timestamp_ms ds) in
      and_then (collect_blocks ds leader) (\<lambda>collected.
      let to_commit = sort_sub_dag_blocks collected;
          commit = Commit_new (u32_add (last_commit_index ds) 1) (last_commit_digest ds) timestamp_ms
            (vb_reference leader) (map vb_reference to_commit)
      in and_then (expect (cy_bcs_commit cry commit) (CommitPanic CommitSerializationFailed)) (\<lambda>serialized.
         let trusted = TrustedCommit_new_trusted cry commit serialized in
         Inr (CommittedSubDag_new (vb_reference leader) to_commit timestamp_ms (tc_reference trusted),
              trusted))))"

text \<open>The loop over leaders of \<open>handle_commit\<close>, and the flush after it.\<close>

fun commit_leaders ::
  "crypto \<Rightarrow> verified_block list \<Rightarrow> dag_state \<Rightarrow> (committed_sub_dag list \<times> dag_state) res" where
  "commit_leaders cry [] ds = Inr ([], ds)"
| "commit_leaders cry (leader # leaders) ds =
     and_then (collect_sub_dag_and_commit cry ds leader) (\<lambda>(sub_dag, commit).
     and_then (add_commit commit ds) (\<lambda>ds'.
     and_then (commit_leaders cry leaders ds') (\<lambda>(sub_dags, ds'').
       Inr (sub_dag # sub_dags, ds''))))"

definition linearizer_handle_commit ::
  "crypto \<Rightarrow> verified_block list \<Rightarrow> dag_state \<Rightarrow> (committed_sub_dag list \<times> dag_state) res" where
  "linearizer_handle_commit cry committed_leaders ds =
     and_then (commit_leaders cry committed_leaders ds) (\<lambda>(sub_dags, ds').
       Inr (sub_dags, if sub_dags \<noteq> [] then flush ds' else ds'))"

section \<open>The uncommitted history\<close>

text \<open>
  References above the last committed round of their author, and the references reached from a
  leader through such references only.
\<close>

definition uncommitted :: "dag_state \<Rightarrow> block_ref \<Rightarrow> bool" where
  "uncommitted ds r \<longleftrightarrow> ds_last_committed_rounds ds ! br_author r < br_round r"

definition sub_dag_of :: "dag_state \<Rightarrow> block_ref \<Rightarrow> block_ref set" where
  "sub_dag_of ds leader = {r. (leader, r) \<in> {(q, a) \<in> dag_edges ds. uncommitted ds a}\<^sup>*}"

text \<open>No block names an ancestor twice: the block verifier allows one ancestor per author.\<close>

definition ancestors_distinct :: "dag_state \<Rightarrow> bool" where
  "ancestors_distinct ds \<longleftrightarrow> (\<forall>r b. dag_lookup ds r = Some b \<longrightarrow> distinct (vb_ancestors b))"

definition collect_inv :: "dag_state \<Rightarrow> block_ref \<Rightarrow> collect_state \<Rightarrow> bool" where
  "collect_inv ds leader = (\<lambda>(to_commit, committed, buffer).
     committed = vb_reference ` set (to_commit @ buffer) \<and>
     distinct (map vb_reference (to_commit @ buffer)) \<and>
     (\<forall>b \<in> set (to_commit @ buffer). dag_lookup ds (vb_reference b) = Some b) \<and>
     leader \<in> committed \<and> committed \<subseteq> sub_dag_of ds leader \<and>
     (\<forall>b \<in> set to_commit. \<forall>a \<in> set (vb_ancestors b). uncommitted ds a \<longrightarrow> a \<in> committed))"

lemma push_ancestors:
  "distinct (map vb_reference as) \<Longrightarrow> vb_reference ` set as \<inter> committed = {} \<Longrightarrow>
     for_each push_ancestor as (buffer, committed) = Inr (buffer @ as, committed \<union> vb_reference ` set as)"
proof (induction as arbitrary: buffer committed)
  case (Cons a as)
  then have "vb_reference a \<notin> committed" "distinct (map vb_reference as)"
    "vb_reference ` set as \<inter> insert (vb_reference a) committed = {}" by auto
  with Cons.IH [of "insert (vb_reference a) committed" "buffer @ [a]"] show ?case
    by (simp add: push_ancestor_def Un_insert_right insert_commute)
qed simp

text \<open>One round of the loop, on a state with the invariant.\<close>

lemma collect_step_eq:
  assumes ok: "dag_inv ds" "dag_causal ds" "ancestors_distinct ds"
    and inv: "collect_inv ds leader (to_commit, committed, buffer @ [x])"
  shows "\<exists>as. collect_step ds (to_commit, committed, buffer @ [x]) =
      Inr (to_commit @ [x], committed \<union> vb_reference ` set as, buffer @ as) \<and>
    distinct (map vb_reference as) \<and> (\<forall>a \<in> set as. dag_lookup ds (vb_reference a) = Some a) \<and>
    vb_reference ` set as = {a \<in> set (vb_ancestors x). a \<notin> committed \<and> uncommitted ds a}"
proof -
  have x: "dag_lookup ds (vb_reference x) = Some x" using inv by (simp add: collect_inv_def)
  have known: "dag_lookup ds a \<noteq> None" if "a \<in> set (vb_ancestors x)" for a
    using that x ok(2) by (auto simp: dag_causal_def)
  have author: "br_author a < length (ds_last_committed_rounds ds)" if "a \<in> set (vb_ancestors x)" for a
    using known [OF that] dag_lookup_ref(2) [OF ok(1)] dag_invD(2) [OF ok(1)] by (auto simp: cache_wf_def)
  let ?wanted = "filter (\<lambda>a. a \<notin> committed \<and> uncommitted ds a) (vb_ancestors x)"
  let ?as = "map (\<lambda>r. the (dag_lookup ds r)) ?wanted"
  have ref: "dag_lookup ds a = Some (the (dag_lookup ds a))" "vb_reference (the (dag_lookup ds a)) = a"
    if "a \<in> set ?wanted" for a
    using known that dag_lookup_ref(1) [OF ok(1)] by force+
  then have refs: "map vb_reference ?as = ?wanted" unfolding map_map by (intro map_idI) (simp add: comp_def)
  have filter: "filter_res (\<lambda>a. if a \<in> committed then Inr False
      else and_then (vec_get (ds_last_committed_rounds ds) (br_author a)) (\<lambda>r. Inr (r < br_round a)))
      (vb_ancestors x) = Inr ?wanted"
    using author by (intro filter_res_Inr) (auto simp: uncommitted_def)
  have blocks: "map_res (\<lambda>b. expect b (DagPanic BlockNotFound)) (get_blocks ds ?wanted) = Inr ?as"
    unfolding map_res_expect get_blocks_eq using ref(1) by simp
  have dist: "distinct (map vb_reference ?as)"
    unfolding refs using x ok(3) by (auto simp: ancestors_distinct_def)
  have set: "vb_reference ` set ?as = set ?wanted" using refs by (metis list.set_map)
  have "for_each push_ancestor ?as (buffer, committed) = Inr (buffer @ ?as, committed \<union> vb_reference ` set ?as)"
    using dist set by (intro push_ancestors) auto
  then have "collect_step ds (to_commit, committed, buffer @ [x]) =
      Inr (to_commit @ [x], committed \<union> vb_reference ` set ?as, buffer @ ?as)"
    by (simp only: collect_step_def Let_def prod.case last_snoc butlast_snoc filter blocks and_then_Inr)
  moreover have "\<forall>a \<in> set ?as. dag_lookup ds (vb_reference a) = Some a" using ref by force
  moreover have "vb_reference ` set ?as = {a \<in> set (vb_ancestors x). a \<notin> committed \<and> uncommitted ds a}"
    using set by simp
  ultimately show ?thesis using dist by blast
qed

lemma collect_step_inv:
  assumes ok: "dag_inv ds" "dag_causal ds" "ancestors_distinct ds"
    and inv: "collect_inv ds leader (to_commit, committed, buffer @ [x])"
  shows "\<exists>as. collect_step ds (to_commit, committed, buffer @ [x]) =
      Inr (to_commit @ [x], committed \<union> vb_reference ` set as, buffer @ as) \<and>
    collect_inv ds leader (to_commit @ [x], committed \<union> vb_reference ` set as, buffer @ as) \<and>
    card (vb_reference ` set as) = length as \<and> vb_reference ` set as \<inter> committed = {}"
proof -
  from collect_step_eq [OF assms] obtain as where step:
    "collect_step ds (to_commit, committed, buffer @ [x]) =
      Inr (to_commit @ [x], committed \<union> vb_reference ` set as, buffer @ as)"
    and as: "distinct (map vb_reference as)" "\<forall>a \<in> set as. dag_lookup ds (vb_reference a) = Some a"
    "vb_reference ` set as = {a \<in> set (vb_ancestors x). a \<notin> committed \<and> uncommitted ds a}" by blast
  have i: "committed = vb_reference ` set (to_commit @ buffer @ [x])"
    "distinct (map vb_reference (to_commit @ buffer @ [x]))"
    "\<forall>b \<in> set (to_commit @ buffer @ [x]). dag_lookup ds (vb_reference b) = Some b"
    "leader \<in> committed" "committed \<subseteq> sub_dag_of ds leader"
    "\<forall>b \<in> set to_commit. \<forall>a \<in> set (vb_ancestors b). uncommitted ds a \<longrightarrow> a \<in> committed"
    using inv by (auto simp: collect_inv_def)
  have x: "dag_lookup ds (vb_reference x) = Some x" "vb_reference x \<in> sub_dag_of ds leader" using i by auto
  have reach: "vb_reference ` set as \<subseteq> sub_dag_of ds leader"
  proof
    fix a assume "a \<in> vb_reference ` set as"
    then have "(vb_reference x, a) \<in> {(q, a) \<in> dag_edges ds. uncommitted ds a}"
      unfolding as(3) using x(1) by (auto simp: dag_edges_def)
    with x(2) show "a \<in> sub_dag_of ds leader" unfolding sub_dag_of_def by (auto intro: rtrancl_into_rtrancl)
  qed
  have disj: "vb_reference ` set as \<inter> committed = {}" using as(3) by auto
  have "distinct (map vb_reference ((to_commit @ [x]) @ buffer @ as))" using i(1,2) as(1) disj by auto
  moreover have "\<forall>b \<in> set (to_commit @ [x]). \<forall>a \<in> set (vb_ancestors b). uncommitted ds a \<longrightarrow>
      a \<in> committed \<union> vb_reference ` set as" using i(6) as(3) by auto
  moreover have "committed \<union> vb_reference ` set as = vb_reference ` set ((to_commit @ [x]) @ buffer @ as)"
    using i(1) by auto
  moreover have "committed \<union> vb_reference ` set as \<subseteq> sub_dag_of ds leader" "leader \<in> committed \<union> vb_reference ` set as"
    using i(4,5) reach by auto
  moreover have "\<forall>b \<in> set ((to_commit @ [x]) @ buffer @ as). dag_lookup ds (vb_reference b) = Some b"
    using i(3) as(2) by auto
  ultimately have "collect_inv ds leader (to_commit @ [x], committed \<union> vb_reference ` set as, buffer @ as)"
    unfolding collect_inv_def prod.case by (intro conjI)
  moreover have "card (vb_reference ` set as) = length as"
    using as(1) by (metis distinct_card length_map list.set_map)
  ultimately show ?thesis using step disj by blast
qed

lemma sub_dag_known:
  assumes "dag_causal ds" "dag_lookup ds leader \<noteq> None"
  shows "sub_dag_of ds leader \<subseteq> dom (dag_lookup ds)"
proof
  fix r assume "r \<in> sub_dag_of ds leader"
  then have "(leader, r) \<in> (dag_edges ds)\<^sup>*"
    unfolding sub_dag_of_def by (auto elim: rtrancl_mono [THEN subsetD, rotated])
  with dag_path_round [OF assms(1)] assms(2) show "r \<in> dom (dag_lookup ds)" by blast
qed

lemma collect_loop_total:
  assumes ok: "dag_inv ds" "dag_causal ds" "ancestors_distinct ds"
    and leader: "dag_lookup ds (vb_reference l) = Some l"
  shows "\<exists>t. while_res (\<lambda>(_, _, buffer). buffer \<noteq> []) (collect_step ds) ([], {vb_reference l}, [l]) = Inr t \<and>
    collect_inv ds (vb_reference l) t \<and> \<not> (case t of (_, _, buffer) \<Rightarrow> buffer \<noteq> [])"
proof (rule while_res_total [where m = "\<lambda>(_, committed, buffer).
      2 * card (dom (dag_lookup ds) - committed) + length buffer"])
  show "collect_inv ds (vb_reference l) ([], {vb_reference l}, [l])"
    using leader by (auto simp: collect_inv_def sub_dag_of_def)
next
  fix s assume inv: "collect_inv ds (vb_reference l) s" and "case s of (_, _, buffer) \<Rightarrow> buffer \<noteq> []"
  then obtain to_commit committed buffer x where s: "s = (to_commit, committed, buffer @ [x])"
    by (cases s) (auto, metis append_butlast_last_id)
  from collect_step_inv [OF ok inv [unfolded s]] obtain as where step:
    "collect_step ds s = Inr (to_commit @ [x], committed \<union> vb_reference ` set as, buffer @ as)"
    and inv': "collect_inv ds (vb_reference l) (to_commit @ [x], committed \<union> vb_reference ` set as, buffer @ as)"
    and as: "card (vb_reference ` set as) = length as" "vb_reference ` set as \<inter> committed = {}"
    unfolding s by blast
  let ?D = "dom (dag_lookup ds)"
  have "vb_reference ` set as \<subseteq> ?D"
    using inv' by (auto simp: collect_inv_def)
  then have "card (?D - (committed \<union> vb_reference ` set as)) = card (?D - committed) - length as"
    "length as \<le> card (?D - committed)"
    using as finite_dag [of ds] card_Diff_subset [of "vb_reference ` set as" "?D - committed"]
      card_mono [of "?D - committed" "vb_reference ` set as"]
    by (auto simp: Diff_Un Diff_Int_distrib set_diff_eq Int_def conj_assoc)
  with step inv' show "\<exists>s'. collect_step ds s = Inr s' \<and> collect_inv ds (vb_reference l) s' \<and>
      (case s' of (_, committed, buffer) \<Rightarrow> 2 * card (?D - committed) + length buffer)
      < (case s of (_, committed, buffer) \<Rightarrow> 2 * card (?D - committed) + length buffer)"
    by (auto simp: s)
qed

lemma collect_blocks_eq:
  assumes ok: "dag_inv ds" "dag_causal ds" "ancestors_distinct ds"
    and leader: "dag_lookup ds (vb_reference l) = Some l"
  shows "\<exists>bs. collect_blocks ds l = Inr bs \<and> distinct (map vb_reference bs) \<and>
    (\<forall>b \<in> set bs. dag_lookup ds (vb_reference b) = Some b) \<and>
    vb_reference ` set bs = sub_dag_of ds (vb_reference l)"
proof -
  from collect_loop_total [OF assms] obtain bs committed where
    loop: "while_res (\<lambda>(_, _, buffer). buffer \<noteq> []) (collect_step ds) ([], {vb_reference l}, [l]) =
      Inr (bs, committed, [])" and inv: "collect_inv ds (vb_reference l) (bs, committed, [])" by auto
  have i: "committed = vb_reference ` set bs" "distinct (map vb_reference bs)"
    "\<forall>b \<in> set bs. dag_lookup ds (vb_reference b) = Some b"
    "vb_reference l \<in> committed" "committed \<subseteq> sub_dag_of ds (vb_reference l)"
    "\<forall>b \<in> set bs. \<forall>a \<in> set (vb_ancestors b). uncommitted ds a \<longrightarrow> a \<in> committed"
    using inv by (auto simp: collect_inv_def)
  have "r \<in> committed" if "(vb_reference l, r) \<in> {(q, a) \<in> dag_edges ds. uncommitted ds a}\<^sup>*" for r
    using that
  proof induction
    case (step q a)
    then obtain b where b: "b \<in> set bs" "vb_reference b = q" using i(1) by auto
    with step.hyps(2) i(3) have "a \<in> set (vb_ancestors b)" "uncommitted ds a" by (auto simp: dag_edges_def)
    with i(6) b(1) show ?case by blast
  qed (rule i(4))
  then have "sub_dag_of ds (vb_reference l) \<subseteq> committed" by (auto simp: sub_dag_of_def)
  with i loop show ?thesis by (auto simp: collect_blocks_def)
qed

lemma sub_dag_leader: "leader \<in> sub_dag_of ds leader"
  by (simp add: sub_dag_of_def)

lemma sub_dag_uncommitted: "r \<in> sub_dag_of ds leader \<Longrightarrow> r = leader \<or> uncommitted ds r"
  unfolding sub_dag_of_def by (auto elim: rtranclE)

lemma sub_dag_round:
  assumes "dag_causal ds" "r \<in> sub_dag_of ds leader"
  shows "r = leader \<or> br_round r < br_round leader"
proof -
  have "(leader, r) \<in> (dag_edges ds)\<^sup>*"
    using assms(2) unfolding sub_dag_of_def by (auto elim: rtrancl_mono [THEN subsetD, rotated])
  with dag_path_round [OF assms(1)] show ?thesis by blast
qed

section \<open>One commit\<close>

text \<open>What the sub-dag and the commit of a leader are, given the state.\<close>

definition extends_by :: "crypto \<Rightarrow> dag_state \<Rightarrow> verified_block \<Rightarrow> committed_sub_dag \<Rightarrow> trusted_commit \<Rightarrow> bool" where
  "extends_by cry ds l sd c \<longleftrightarrow>
     sd_leader sd = vb_reference l \<and> sd_commit_ref sd = tc_reference c \<and>
     sd_timestamp_ms sd = max (vb_timestamp_ms l) (last_commit_timestamp_ms ds) \<and>
     sorted (map (\<lambda>b. (vb_round b, vb_author b)) (sd_blocks sd)) \<and>
     distinct (map vb_reference (sd_blocks sd)) \<and>
     (\<forall>b \<in> set (sd_blocks sd). dag_lookup ds (vb_reference b) = Some b) \<and>
     vb_reference ` set (sd_blocks sd) = sub_dag_of ds (vb_reference l) \<and>
     tc_index c = u32_add (last_commit_index ds) 1 \<and>
     commit_previous_digest (tc_inner c) = last_commit_digest ds \<and>
     tc_timestamp_ms c = sd_timestamp_ms sd \<and> tc_leader c = vb_reference l \<and>
     tc_blocks c = map vb_reference (sd_blocks sd)"

lemma collect_sub_dag_extends:
  assumes ok: "dag_inv ds" "dag_causal ds" "ancestors_distinct ds"
    and leader: "dag_lookup ds (vb_reference l) = Some l"
    and ser: "\<And>c. cy_bcs_commit cry c \<noteq> None"
  shows "\<exists>sd c. collect_sub_dag_and_commit cry ds l = Inr (sd, c) \<and> extends_by cry ds l sd c"
proof -
  from collect_blocks_eq [OF ok leader] obtain bs where bs: "collect_blocks ds l = Inr bs"
    "distinct (map vb_reference bs)" "\<forall>b \<in> set bs. dag_lookup ds (vb_reference b) = Some b"
    "vb_reference ` set bs = sub_dag_of ds (vb_reference l)" by blast
  let ?bs = "sort_sub_dag_blocks bs"
  have set: "set ?bs = set bs" by (simp add: sort_sub_dag_blocks_def)
  have "mset (map vb_reference ?bs) = mset (map vb_reference bs)" by (simp add: sort_sub_dag_blocks_def)
  then have dist: "distinct (map vb_reference ?bs)" using bs(2) mset_eq_imp_distinct_iff by blast
  obtain ser' where "cy_bcs_commit cry (Commit_new (u32_add (last_commit_index ds) 1) (last_commit_digest ds)
      (max (vb_timestamp_ms l) (last_commit_timestamp_ms ds)) (vb_reference l) (map vb_reference ?bs)) = Some ser'"
    using ser by blast
  then show ?thesis
    using bs dist set
    by (auto simp: collect_sub_dag_and_commit_def Let_def extends_by_def CommittedSubDag_new_def tc_defs
        sort_sub_dag_blocks_def)
qed

end
