(* ===== verification/Commit_Sequence.thy ===== *)
theory Commit_Sequence
  imports Linearizer
begin

text \<open>
  The commits the linearizer makes for a sequence of leaders: they are numbered consecutively, each
  holds the digest of the one before, their timestamps do not decrease, no block is in two of them,
  and no block comes before one of its ancestors.
\<close>

section \<open>One leader\<close>

definition linear_ok :: "dag_state \<Rightarrow> bool" where
  "linear_ok ds \<longleftrightarrow> dag_inv ds \<and> dag_causal ds \<and> ancestors_distinct ds"

definition commits_serialize :: "crypto \<Rightarrow> bool" where
  "commits_serialize cry \<longleftrightarrow> (\<forall>c. cy_bcs_commit cry c \<noteq> None)"

text \<open>What recording a commit does to the state.\<close>

definition recorded :: "trusted_commit \<Rightarrow> dag_state \<Rightarrow> dag_state \<Rightarrow> bool" where
  "recorded c ds ds' \<longleftrightarrow>
     linear_ok ds' \<and> dag_lookup ds' = dag_lookup ds \<and> ds_context ds' = ds_context ds \<and>
     ds_last_commit ds' = Some c \<and> ds_commits_to_write ds' = ds_commits_to_write ds @ [c] \<and>
     rounds_raised (tc_blocks c) (ds_last_committed_rounds ds) (ds_last_committed_rounds ds')"

lemma extends_follows:
  assumes "extends_by cry ds l sd c" "last_commit_index ds + 1 < 2 ^ 32"
  shows "commit_follows ds c" "tc_index c = last_commit_index ds + 1"
proof -
  have "u32_add (last_commit_index ds) 1 = last_commit_index ds + 1" using assms(2) by (intro u32_add_exact)
  with assms(1) show idx: "tc_index c = last_commit_index ds + 1" by (simp add: extends_by_def)
  show "commit_follows ds c"
    using assms idx by (auto simp: commit_follows_def extends_by_def last_commit_index_def
        last_commit_timestamp_ms_def split: option.splits)
qed

lemma extends_blocks:
  assumes ok: "linear_ok ds" and ext: "extends_by cry ds l sd c" and r: "r \<in> set (tc_blocks c)"
    and known: "dag_lookup ds (vb_reference l) = Some l"
  shows "dag_lookup ds r \<noteq> None" "br_round r \<le> vb_round l" "br_author r < length (ds_last_committed_rounds ds)"
proof -
  have sub: "r \<in> sub_dag_of ds (vb_reference l)" using ext r by (auto simp: extends_by_def)
  then show lookup: "dag_lookup ds r \<noteq> None"
    using sub_dag_known [of ds "vb_reference l"] ok known by (auto simp: linear_ok_def)
  show "br_round r \<le> vb_round l" using sub_dag_round [OF _ sub] ok by (auto simp: linear_ok_def)
  show "br_author r < length (ds_last_committed_rounds ds)"
    using lookup dag_lookup_ref(2) [of ds r] dag_invD(2) [of ds] ok by (auto simp: linear_ok_def cache_wf_def)
qed

lemma commit_leader_step:
  assumes ok: "linear_ok ds" and ser: "commits_serialize cry"
    and known: "dag_lookup ds (vb_reference l) = Some l"
    and later: "last_commit_round ds < vb_round l" and idx: "last_commit_index ds + 1 < 2 ^ 32"
  obtains sd c ds' where "collect_sub_dag_and_commit cry ds l = Inr (sd, c)" "extends_by cry ds l sd c"
    "add_commit c ds = Inr ds'" "recorded c ds ds'"
proof -
  from collect_sub_dag_extends [of ds l cry] ok known ser obtain sd c where
    c: "collect_sub_dag_and_commit cry ds l = Inr (sd, c)" "extends_by cry ds l sd c"
    by (auto simp: linear_ok_def commits_serialize_def)
  note blocks = extends_blocks [OF ok c(2) _ known] and follows = extends_follows [OF c(2) idx]
  from add_commit_total [OF follows(1) blocks(3)] obtain ds' where
    ds': "add_commit c ds = Inr ds'" "ds_last_commit ds' = Some c" by blast
  have round: "tc_round c = vb_round l" using c(2) by (simp add: tc_round_eq extends_by_def)
  have inv: "dag_inv ds'" "dag_lookup ds' = dag_lookup ds" "ds_context ds' = ds_context ds"
    using add_commit_inv [OF _ ds'(1) blocks(1)] blocks(2) later ok round by (auto simp: linear_ok_def)
  have new: "\<not> tc_index c \<le> last_commit_index ds" using follows(2) by simp
  with add_commit_Inr [OF ds'(1)] raise_all_spec
  have "ds_commits_to_write ds' = ds_commits_to_write ds @ [c]"
    "rounds_raised (tc_blocks c) (ds_last_committed_rounds ds) (ds_last_committed_rounds ds')" by blast+
  with inv ok ds' have "recorded c ds ds'"
    by (auto simp: recorded_def linear_ok_def dag_causal_def ancestors_distinct_def)
  with c ds' show thesis by (intro that)
qed

text \<open>After the commit its blocks count as committed, and nothing committed before is open again.\<close>

lemma recorded_uncommitted:
  assumes rec: "recorded c ds ds'" and r: "uncommitted ds' r" "br_author r < length (ds_last_committed_rounds ds)"
  shows "uncommitted ds r" "r \<notin> set (tc_blocks c)"
proof -
  have "ds_last_committed_rounds ds ! br_author r \<le> ds_last_committed_rounds ds' ! br_author r"
    "r \<in> set (tc_blocks c) \<longrightarrow> br_round r \<le> ds_last_committed_rounds ds' ! br_author r"
    using rec r(2) by (auto simp: recorded_def rounds_raised_def)
  with r(1) show "uncommitted ds r" "r \<notin> set (tc_blocks c)" by (auto simp: uncommitted_def)
qed

lemma leader_uncommitted:
  assumes "dag_inv ds" "last_commit_round ds < vb_round l" "dag_lookup ds (vb_reference l) = Some l"
  shows "uncommitted ds (vb_reference l)"
proof -
  have "vb_author l < num_authorities ds" using dag_lookup_ref(2) [OF assms(1,3)] by simp
  with cache_completeD(4) [OF dag_invD(4) [OF assms(1)]] assms(2) show ?thesis
    by (auto simp: uncommitted_def intro: le_less_trans)
qed

section \<open>A sequence of leaders\<close>

fun digest_chain :: "digest \<Rightarrow> trusted_commit list \<Rightarrow> bool" where
  "digest_chain d [] \<longleftrightarrow> True"
| "digest_chain d (c # cs) \<longleftrightarrow> commit_previous_digest (tc_inner c) = d \<and> digest_chain (tc_digest c) cs"

text \<open>The blocks of sub-dags in the order they are sent on.\<close>

definition committed_blocks :: "committed_sub_dag list \<Rightarrow> verified_block list" where
  "committed_blocks sds = concat (map sd_blocks sds)"

lemma committed_blocks_simps [simp]:
  "committed_blocks [] = []" "committed_blocks (sd # sds) = sd_blocks sd @ committed_blocks sds"
  by (simp_all add: committed_blocks_def)

definition causal_order :: "verified_block list \<Rightarrow> bool" where
  "causal_order bs \<longleftrightarrow> sorted_wrt (\<lambda>b c. vb_reference c \<notin> set (vb_ancestors b)) bs"

definition leaders_ascend :: "dag_state \<Rightarrow> verified_block list \<Rightarrow> bool" where
  "leaders_ascend ds leaders \<longleftrightarrow>
     sorted_wrt (<) (last_commit_round ds # map vb_round leaders) \<and>
     (\<forall>l \<in> set leaders. dag_lookup ds (vb_reference l) = Some l)"

definition sequence_of ::
  "dag_state \<Rightarrow> verified_block list \<Rightarrow> committed_sub_dag list \<Rightarrow> trusted_commit list \<Rightarrow> bool" where
  "sequence_of ds leaders sds cs \<longleftrightarrow>
     map sd_leader sds = map vb_reference leaders \<and> map sd_commit_ref sds = map tc_reference cs \<and>
     map tc_blocks cs = map (map vb_reference \<circ> sd_blocks) sds \<and>
     map tc_index cs = [last_commit_index ds + 1..<last_commit_index ds + 1 + length leaders] \<and>
     digest_chain (last_commit_digest ds) cs \<and>
     map tc_timestamp_ms cs = map sd_timestamp_ms sds \<and>
     sorted (last_commit_timestamp_ms ds # map sd_timestamp_ms sds) \<and>
     distinct (map vb_reference (committed_blocks sds)) \<and>
     (\<forall>b \<in> set (committed_blocks sds). dag_lookup ds (vb_reference b) = Some b \<and> uncommitted ds (vb_reference b)) \<and>
     causal_order (committed_blocks sds)"

text \<open>The sub-dag of one leader is in causal order: ancestors have lower rounds.\<close>

lemma sub_dag_causal_order:
  assumes "dag_causal ds" "extends_by cry ds l sd c"
  shows "causal_order (sd_blocks sd)"
proof -
  have sorted: "sorted_wrt (\<lambda>b c. vb_round b \<le> vb_round c) (sd_blocks sd)"
    using assms(2) unfolding extends_by_def sorted_map
    by (elim conjE) (erule sorted_wrt_mono_rel [rotated], auto simp: less_eq_prod_def)
  have no: "vb_reference y \<notin> set (vb_ancestors x)"
    if "x \<in> set (sd_blocks sd)" "vb_round x \<le> vb_round y" for x y
  proof
    assume "vb_reference y \<in> set (vb_ancestors x)"
    moreover have "dag_lookup ds (vb_reference x) = Some x" using that(1) assms(2) by (simp add: extends_by_def)
    ultimately have "br_round (vb_reference y) < br_round (vb_reference x)" using assms(1) unfolding dag_causal_def by blast
    with that(2) show False by simp
  qed
  show ?thesis unfolding causal_order_def by (rule sorted_wrt_mono_rel [OF _ sorted]) (rule no)
qed

lemma recorded_last:
  assumes "recorded c ds ds'" "extends_by cry ds l sd c"
  shows "last_commit_index ds' = tc_index c" "last_commit_round ds' = vb_round l"
    "last_commit_digest ds' = tc_digest c" "last_commit_timestamp_ms ds' = sd_timestamp_ms sd"
  using assms by (simp_all add: recorded_def extends_by_def last_commit_index_def last_commit_round_def
      last_commit_digest_def last_commit_timestamp_ms_def)

text \<open>Blocks of later sub-dags are not in the first one, and are no ancestors of its blocks.\<close>

lemma later_blocks_apart:
  assumes ok: "linear_ok ds" and ext: "extends_by cry ds l sd c" and rec: "recorded c ds ds'"
    and y: "dag_lookup ds (vb_reference y) = Some y" "uncommitted ds' (vb_reference y)"
  shows "uncommitted ds (vb_reference y)" "vb_reference y \<notin> vb_reference ` set (sd_blocks sd)"
    and "x \<in> set (sd_blocks sd) \<Longrightarrow> vb_reference y \<notin> set (vb_ancestors x)"
proof -
  have "br_author (vb_reference y) < length (ds_last_committed_rounds ds)"
    using dag_lookup_ref(2) [of ds "vb_reference y" y] y(1) ok dag_invD(2) [of ds]
    by (auto simp: linear_ok_def cache_wf_def)
  note unc = recorded_uncommitted [OF rec y(2) this]
  show un: "uncommitted ds (vb_reference y)" by (rule unc(1))
  have sub: "vb_reference ` set (sd_blocks sd) = sub_dag_of ds (vb_reference l)"
    "set (tc_blocks c) = vb_reference ` set (sd_blocks sd)" using ext by (simp_all add: extends_by_def)
  with unc(2) show out: "vb_reference y \<notin> vb_reference ` set (sd_blocks sd)" by simp
  assume x: "x \<in> set (sd_blocks sd)"
  show "vb_reference y \<notin> set (vb_ancestors x)"
  proof
    assume "vb_reference y \<in> set (vb_ancestors x)"
    moreover have "dag_lookup ds (vb_reference x) = Some x" using x ext by (simp add: extends_by_def)
    ultimately have "(vb_reference x, vb_reference y) \<in> {(q, a) \<in> dag_edges ds. uncommitted ds a}"
      using un by (auto simp: dag_edges_def)
    moreover have "vb_reference x \<in> sub_dag_of ds (vb_reference l)" using x sub by auto
    ultimately have "vb_reference y \<in> sub_dag_of ds (vb_reference l)"
      unfolding sub_dag_of_def by (auto intro: rtrancl_into_rtrancl)
    with out sub show False by simp
  qed
qed

lemma sequence_Cons:
  assumes ok: "linear_ok ds" and ext: "extends_by cry ds l sd c" and rec: "recorded c ds ds'"
    and l: "dag_lookup ds (vb_reference l) = Some l" "last_commit_round ds < vb_round l"
    and idx: "last_commit_index ds + 1 < 2 ^ 32" and rest: "sequence_of ds' leaders sds cs"
  shows "sequence_of ds (l # leaders) (sd # sds) (c # cs)"
proof -
  note last = recorded_last [OF rec ext]
  have lookup: "dag_lookup ds' = dag_lookup ds" using rec by (simp add: recorded_def)
  have later: "dag_lookup ds (vb_reference y) = Some y" "uncommitted ds' (vb_reference y)"
    if "y \<in> set (committed_blocks sds)" for y using that rest lookup by (auto simp: sequence_of_def)
  note apart = later_blocks_apart [OF ok ext rec later]
  have un: "uncommitted ds r" if "r \<in> sub_dag_of ds (vb_reference l)" for r
    using sub_dag_uncommitted [OF that] leader_uncommitted [OF _ l(2,1)] ok by (auto simp: linear_ok_def)
  have "distinct (map vb_reference (committed_blocks (sd # sds)))"
    using rest ext apart(2) by (auto simp: sequence_of_def extends_by_def)
  moreover have "\<forall>b \<in> set (committed_blocks (sd # sds)).
      dag_lookup ds (vb_reference b) = Some b \<and> uncommitted ds (vb_reference b)"
  proof -
    have "dag_lookup ds (vb_reference b) = Some b \<and> vb_reference b \<in> sub_dag_of ds (vb_reference l)"
      if "b \<in> set (sd_blocks sd)" for b using that ext by (auto simp: extends_by_def)
    with un apart(1) later(1) show ?thesis by auto
  qed
  moreover have "causal_order (committed_blocks (sd # sds))"
    using sub_dag_causal_order [OF _ ext] ok apart(3) rest
    by (auto simp: causal_order_def sequence_of_def sorted_wrt_append linear_ok_def)
  moreover have "map tc_index (c # cs) =
      [last_commit_index ds + 1..<last_commit_index ds + 1 + length (l # leaders)]"
    using rest last(1) extends_follows(2) [OF ext idx] upt_conv_Cons [of "last_commit_index ds + 1"]
    by (simp add: sequence_of_def del: upt_Suc)
  moreover have "sorted (last_commit_timestamp_ms ds # map sd_timestamp_ms (sd # sds))"
    using rest ext last(4) by (auto simp: sequence_of_def extends_by_def)
  ultimately show ?thesis
    using rest ext last(3) unfolding sequence_of_def by (simp add: extends_by_def comp_def)
qed

lemma commit_leaders_spec:
  assumes ser: "commits_serialize cry"
  shows "linear_ok ds \<Longrightarrow> leaders_ascend ds leaders \<Longrightarrow> last_commit_index ds + length leaders < 2 ^ 32 \<Longrightarrow>
    \<exists>sds cs ds'. commit_leaders cry leaders ds = Inr (sds, ds') \<and> sequence_of ds leaders sds cs \<and>
      linear_ok ds' \<and> dag_lookup ds' = dag_lookup ds \<and> ds_context ds' = ds_context ds \<and>
      ds_commits_to_write ds' = ds_commits_to_write ds @ cs"
proof (induction leaders arbitrary: ds)
  case Nil
  then show ?case by (intro exI [of _ "[]"]) (simp add: sequence_of_def causal_order_def)
next
  case (Cons l leaders)
  have l: "dag_lookup ds (vb_reference l) = Some l" "last_commit_round ds < vb_round l"
    using Cons.prems(2) by (auto simp: leaders_ascend_def)
  have idx: "last_commit_index ds + 1 < 2 ^ 32" using Cons.prems(3) by simp
  obtain sd c ds1 where step: "collect_sub_dag_and_commit cry ds l = Inr (sd, c)" "extends_by cry ds l sd c"
    "add_commit c ds = Inr ds1" "recorded c ds ds1"
    using commit_leader_step [OF Cons.prems(1) ser l idx] by blast
  have ok1: "linear_ok ds1" "dag_lookup ds1 = dag_lookup ds" "ds_context ds1 = ds_context ds"
    "ds_commits_to_write ds1 = ds_commits_to_write ds @ [c]"
    using step(4) by (simp_all add: recorded_def)
  have "leaders_ascend ds1 leaders" "last_commit_index ds1 + length leaders < 2 ^ 32"
    using Cons.prems(2,3) ok1(2) recorded_last [OF step(4,2)] extends_follows(2) [OF step(2) idx]
    by (auto simp: leaders_ascend_def)
  from Cons.IH [OF ok1(1) this] obtain sds cs ds' where IH: "commit_leaders cry leaders ds1 = Inr (sds, ds')"
    "sequence_of ds1 leaders sds cs" "linear_ok ds'" "dag_lookup ds' = dag_lookup ds1"
    "ds_context ds' = ds_context ds1" "ds_commits_to_write ds' = ds_commits_to_write ds1 @ cs" by blast
  have "commit_leaders cry (l # leaders) ds = Inr (sd # sds, ds')" using step IH(1) by simp
  moreover have "sequence_of ds (l # leaders) (sd # sds) (c # cs)"
    by (rule sequence_Cons [OF Cons.prems(1) step(2,4) l idx IH(2)])
  ultimately show ?case using IH ok1 by (intro exI conjI) simp_all
qed

lemma handle_commit_spec:
  assumes "commits_serialize cry" "linear_ok ds" "leaders_ascend ds leaders"
    and "last_commit_index ds + length leaders < 2 ^ 32"
  shows "\<exists>sds cs ds'. linearizer_handle_commit cry leaders ds = Inr (sds, ds') \<and> sequence_of ds leaders sds cs \<and>
    linear_ok ds' \<and> dag_lookup ds' = dag_lookup ds"
proof -
  from commit_leaders_spec [OF assms] obtain sds cs ds1 where
    ds1: "commit_leaders cry leaders ds = Inr (sds, ds1)" "sequence_of ds leaders sds cs" "linear_ok ds1"
    "dag_lookup ds1 = dag_lookup ds" by blast
  have "linear_ok (flush ds1)" "dag_lookup (flush ds1) = dag_lookup ds"
    using flush_persists(1,2) [of ds1] ds1(3,4) by (simp_all add: linear_ok_def dag_causal_def ancestors_distinct_def)
  with ds1 show ?thesis by (auto simp: linearizer_handle_commit_def)
qed

section \<open>Properties\<close>

lemma layered_linear_ok: "linear_ok (layered n)"
proof -
  have "distinct (vb_ancestors b)" if "dag_lookup (layered n) r = Some b" for r b
    using layered_mem [OF that] ex_layer_distinct by simp
  then show ?thesis by (simp add: linear_ok_def layered_inv layered_causal ancestors_distinct_def)
qed

lemma ex_commits_serialize: "commits_serialize ex_crypto"
  by (simp add: commits_serialize_def ex_crypto_def)




lemma ex_leaders_ascend: "leaders_ascend (layered 6) [ex_layer 1 ! 1, ex_layer 4 ! 0]"
  using layered_known [of 1 6 1] layered_known [of 4 6 0]
  by (simp add: leaders_ascend_def last_commit_round_def)

lemma ex_leaders_index: "last_commit_index (layered 6) + length [ex_layer 1 ! 1, ex_layer 4 ! 0] < 2 ^ 32"
  by (simp add: last_commit_index_def)


text \<open>C18: The blocks of the sub-dags, taken in order, are a linear extension of the causal order: no block
  occurs twice in all of the commits, every one was above the last committed round of its author, and
  no block comes before one of its ancestors.\<close>

theorem committed_blocks_are_in_causal_order:
  assumes "commits_serialize cry" "linear_ok ds" "leaders_ascend ds leaders"
    and "last_commit_index ds + length leaders < 2 ^ 32"
  shows "\<exists>sds ds'. linearizer_handle_commit cry leaders ds = Inr (sds, ds') \<and>
    distinct (map vb_reference (committed_blocks sds)) \<and> causal_order (committed_blocks sds) \<and>
    (\<forall>b \<in> set (committed_blocks sds). dag_lookup ds (vb_reference b) = Some b \<and> uncommitted ds (vb_reference b))"
  using handle_commit_spec [OF assms] unfolding sequence_of_def by blast

theorem committed_blocks_are_in_causal_order_witness:
  "\<exists>sds ds'. linearizer_handle_commit ex_crypto [ex_layer 1 ! 1, ex_layer 4 ! 0] (layered 6) = Inr (sds, ds') \<and>
     causal_order (committed_blocks sds)"
  using committed_blocks_are_in_causal_order
    [OF ex_commits_serialize layered_linear_ok ex_leaders_ascend ex_leaders_index] by blast

end
