(* ===== verification/Block_Verifier.thy ===== *)
theory Block_Verifier
  imports Commit_Sequence
begin

text \<open>
  Verification of blocks before they enter the DAG (\<^verbatim>\<open>consensus/core/src/block_verifier.rs\<close>): the
  checks on a signed block alone, and the check against its ancestors. The trait \<open>BlockVerifier\<close> is
  the locale \<open>ancestor_checker\<close>, with what the block manager relies on, interpreted for both
  implementations. The lemmas show that the accepted blocks are exactly the well-formed ones, and
  that a DAG of accepted blocks has the structure the committers and the linearizer rely on.
\<close>

section \<open>Signed blocks\<close>

text \<open>
  The transaction verifier is an object given by the embedding node: the function
  \<open>verify_batch\<close> from the bytes of the transactions to acceptance.
\<close>

type_synonym transaction_verifier = "protocol_config \<Rightarrow> byte list list \<Rightarrow> bool"

record signed_block_verifier =
  sv_context :: epoch_context
  sv_genesis :: "block_ref list"
  sv_transaction_verifier :: transaction_verifier

definition SignedBlockVerifier_new ::
  "crypto \<Rightarrow> epoch_context \<Rightarrow> transaction_verifier \<Rightarrow> signed_block_verifier res" where
  "SignedBlockVerifier_new cry cx tv =
     and_then (genesis_blocks cry cx) (\<lambda>gs.
       Inr \<lparr> sv_context = cx, sv_genesis = bs_extend (map vb_reference gs) [], sv_transaction_verifier = tv \<rparr>)"

definition NoopTransactionVerifier :: transaction_verifier where
  "NoopTransactionVerifier = (\<lambda>_ _. True)"

text \<open>The body of the loop over ancestors; the state is \<open>seen_ancestors\<close> and \<open>parent_stakes\<close>.\<close>

definition verify_ancestor ::
  "committee \<Rightarrow> block_ref list \<Rightarrow> block \<Rightarrow> nat \<times> block_ref \<Rightarrow> bool list \<times> stake
     \<Rightarrow> (bool list \<times> stake) consensus_result" where
  "verify_ancestor c genesis b = (\<lambda>(i, a) (seen, stakes).
     if \<not> is_valid_index c (br_author a) then Inl (InvalidAuthorityIndex (br_author a) (committee_size c - 1))
     else if (i = 0 \<and> br_author a \<noteq> block_author b) \<or> (i > 0 \<and> br_author a = block_author b) then
       Inl (InvalidAncestorPosition (block_author b) (br_author a) i)
     else if br_round a \<ge> block_round b then Inl (InvalidAncestorRound (br_round a) (block_round b))
     else if br_round a = genesis_round \<and> a \<notin> set genesis then Inl (InvalidGenesisAncestor a)
     else if seen ! br_author a then Inl (DuplicatedAncestorsAuthority (br_author a))
     else Inr (seen[br_author a := True],
               if br_round a = block_round b - 1
               then u64_add stakes (au_stake (cm_authorities c ! br_author a)) else stakes))"

definition verify :: "crypto \<Rightarrow> signed_block_verifier \<Rightarrow> signed_block \<Rightarrow> unit consensus_result" where
  "verify cry sv sb =
     (let c = cx_committee (sv_context sv); b = sb_inner sb in
      if block_epoch b \<noteq> cm_epoch c then Inl (WrongEpoch (cm_epoch c) (block_epoch b))
      else if block_round b = 0 then Inl UnexpectedGenesisBlock
      else if \<not> is_valid_index c (block_author b) then
        Inl (InvalidAuthorityIndex (block_author b) (committee_size c - 1))
      else and_then (verify_signature cry c sb) (\<lambda>_.
        if length (block_ancestors b) > committee_size c then
          Inl (TooManyAncestors (length (block_ancestors b)) (committee_size c))
        else if block_ancestors b = [] then Inl (InsufficientParentStakes 0 (cm_quorum_threshold c))
        else and_then (for_each (verify_ancestor c (sv_genesis sv) b)
                         (List.enumerate 0 (block_ancestors b)) (replicate (committee_size c) False, 0))
          (\<lambda>(_, parent_stakes).
            if \<not> reached_quorum c parent_stakes then
              Inl (InsufficientParentStakes parent_stakes (cm_quorum_threshold c))
            else if sv_transaction_verifier sv (cx_protocol_config (sv_context sv))
                      (map tx_data (block_transactions b))
            then Inr () else Inl InvalidTransaction)))"

section \<open>Ancestors\<close>

text \<open>The loop checks that the blocks given are the ancestors, and takes their largest timestamp.\<close>

fun max_ancestor_timestamp :: "block_ref list \<Rightarrow> verified_block list \<Rightarrow> timestamp_ms \<Rightarrow> timestamp_ms res" where
  "max_ancestor_timestamp (r # refs) (a # ancestors) t =
     (if r \<noteq> vb_reference a then Inl (ManagerPanic AncestorRefMismatch)
      else max_ancestor_timestamp refs ancestors (max t (vb_timestamp_ms a)))"
| "max_ancestor_timestamp _ _ t = Inr t"

definition check_ancestors :: "verified_block \<Rightarrow> verified_block list \<Rightarrow> unit consensus_result res" where
  "check_ancestors b ancestors =
     and_then (assert_that (length (vb_ancestors b) = length ancestors) (ManagerPanic AncestorCountMismatch))
       (\<lambda>_. and_then (max_ancestor_timestamp (vb_ancestors b) ancestors 0) (\<lambda>max_timestamp_ms.
         Inr (if max_timestamp_ms > vb_timestamp_ms b
              then Inl (InvalidBlockTimestamp max_timestamp_ms (vb_timestamp_ms b)) else Inr ())))"

definition noop_verify :: "signed_block \<Rightarrow> unit consensus_result" where
  "noop_verify _ = Inr ()"

definition noop_check_ancestors :: "verified_block \<Rightarrow> verified_block list \<Rightarrow> unit consensus_result res" where
  "noop_check_ancestors _ _ = Inr (Inr ())"

lemma max_ancestor_timestamp_eq:
  "map vb_reference as = refs \<Longrightarrow>
     max_ancestor_timestamp refs as t = Inr (foldl max t (map vb_timestamp_ms as))"
  by (induction refs as t rule: max_ancestor_timestamp.induct) auto

lemma foldl_max_le: "foldl max t xs \<le> (u :: nat) \<longleftrightarrow> t \<le> u \<and> (\<forall>x \<in> set xs. x \<le> u)"
  by (induction xs arbitrary: t) auto

lemma check_ancestors_eq:
  assumes "map vb_reference as = vb_ancestors b"
  shows "check_ancestors b as =
    Inr (if \<forall>a \<in> set as. vb_timestamp_ms a \<le> vb_timestamp_ms b then Inr ()
         else Inl (InvalidBlockTimestamp (foldl max 0 (map vb_timestamp_ms as)) (vb_timestamp_ms b)))"
proof -
  have "length (vb_ancestors b) = length as" using assms by (metis length_map)
  then show ?thesis
    using foldl_max_le [of 0 "map vb_timestamp_ms as" "vb_timestamp_ms b"]
    by (auto simp: check_ancestors_def max_ancestor_timestamp_eq [OF assms] assert_that_def not_le)
qed

text \<open>
  What the callers of a block verifier rely on: given the ancestors of a block, one to one and in the
  same order, the check answers without a panic.
\<close>

locale ancestor_checker =
  fixes check :: "verified_block \<Rightarrow> verified_block list \<Rightarrow> unit consensus_result res"
  assumes answers: "map vb_reference as = vb_ancestors b \<Longrightarrow> \<exists>r. check b as = Inr r"

interpretation signed: ancestor_checker check_ancestors
  by unfold_locales (simp add: check_ancestors_eq)

interpretation noop: ancestor_checker noop_check_ancestors
  by unfold_locales (simp add: noop_check_ancestors_def)

section \<open>What is accepted\<close>

definition ancestor_fits :: "committee \<Rightarrow> block_ref list \<Rightarrow> block \<Rightarrow> nat \<times> block_ref \<Rightarrow> bool" where
  "ancestor_fits c genesis b = (\<lambda>(i, a).
     is_valid_index c (br_author a) \<and> (i = 0 \<longleftrightarrow> br_author a = block_author b) \<and>
     br_round a < block_round b \<and> (br_round a = genesis_round \<longrightarrow> a \<in> set genesis))"

lemma verify_ancestor_Inr:
  "verify_ancestor c genesis b (i, a) (seen, stakes) = Inr r \<longleftrightarrow>
     ancestor_fits c genesis b (i, a) \<and> \<not> seen ! br_author a \<and>
     r = (seen[br_author a := True], if br_round a = block_round b - 1
          then u64_add stakes (au_stake (cm_authorities c ! br_author a)) else stakes)"
  by (auto simp: verify_ancestor_def ancestor_fits_def not_le)

lemma verify_ancestors_loop:
  "length seen = committee_size c \<Longrightarrow> s < 2 ^ 64 \<Longrightarrow>
   (\<exists>seen'. for_each (verify_ancestor c genesis b) (List.enumerate k as) (seen, s) = Inr (seen', s')) \<longleftrightarrow>
     (\<forall>x \<in> set (List.enumerate k as). ancestor_fits c genesis b x) \<and>
     distinct (map br_author as) \<and> (\<forall>a \<in> set as. \<not> seen ! br_author a) \<and>
     s' = (s + sum_list (map (\<lambda>a. au_stake (cm_authorities c ! br_author a))
            (filter (\<lambda>a. br_round a = block_round b - 1) as))) mod 2 ^ 64"
proof (induction as arbitrary: k seen s)
  case (Cons a as)
  let ?seen = "seen[br_author a := True]"
  let ?s = "if br_round a = block_round b - 1 then u64_add s (au_stake (cm_authorities c ! br_author a)) else s"
  have head: "(\<exists>seen'. for_each (verify_ancestor c genesis b) (List.enumerate k (a # as)) (seen, s) = Inr (seen', s'))
      \<longleftrightarrow> ancestor_fits c genesis b (k, a) \<and> \<not> seen ! br_author a \<and>
        (\<exists>seen'. for_each (verify_ancestor c genesis b) (List.enumerate (Suc k) as) (?seen, ?s) = Inr (seen', s'))"
    by (auto simp: and_then_eq_Inr verify_ancestor_Inr)
  have fits: "br_author a < length seen" if "ancestor_fits c genesis b (k, a)"
    using that Cons.prems(1) by (simp add: ancestor_fits_def is_valid_index_def)
  have others: "(\<forall>x \<in> set as. \<not> ?seen ! br_author x) \<longleftrightarrow>
      br_author a \<notin> br_author ` set as \<and> (\<forall>x \<in> set as. \<not> seen ! br_author x)"
    if "ancestor_fits c genesis b (k, a)"
    using fits [OF that] by (auto simp: nth_list_update)
  have sum: "(?s + x) mod 2 ^ 64 = (s + (if br_round a = block_round b - 1
      then au_stake (cm_authorities c ! br_author a) + x else x)) mod 2 ^ 64" for x
    by (simp add: u64_add_def mod_simps add.assoc)
  have "length ?seen = committee_size c" "?s < 2 ^ 64" using Cons.prems by simp_all
  from Cons.IH [OF this, of "Suc k"] show ?case
    unfolding head sum using others by auto
qed auto

text \<open>
  The parents of a block are its ancestors of the round before. A block is well formed for a
  committee when its first ancestor, and no other, is by its own author, its ancestors are by
  different members, of earlier rounds and genesis blocks where of the genesis round, and its
  parents are by a quorum.
\<close>

definition parents :: "block \<Rightarrow> block_ref set" where
  "parents b = {a \<in> set (block_ancestors b). br_round a + 1 = block_round b}"

definition block_well_formed :: "committee \<Rightarrow> block_ref set \<Rightarrow> block \<Rightarrow> bool" where
  "block_well_formed c genesis b \<longleftrightarrow>
     block_epoch b = cm_epoch c \<and> 0 < block_round b \<and> block_author b \<in> members c \<and>
     (\<exists>own others. block_ancestors b = own # others \<and> br_author own = block_author b) \<and>
     distinct (map br_author (block_ancestors b)) \<and>
     (\<forall>a \<in> set (block_ancestors b). br_author a \<in> members c \<and> br_round a < block_round b \<and>
        (br_round a = genesis_round \<longrightarrow> a \<in> genesis)) \<and>
     reached_quorum c (stake_of c (br_author ` parents b))"

lemma enumerate_mem: "x \<in> set xs \<Longrightarrow> \<exists>i \<ge> k. (i, x) \<in> set (List.enumerate k xs)"
proof -
  assume "x \<in> set xs"
  then obtain i where "i < length xs" "xs ! i = x" by (auto simp: in_set_conv_nth)
  then have "(k + i, x) \<in> set (List.enumerate k xs)" by (simp add: in_set_enumerate_eq)
  then show ?thesis using le_add1 by blast
qed

lemma ancestors_fit_iff:
  assumes "as \<noteq> []" "distinct (map br_author as)"
  shows "(\<forall>x \<in> set (List.enumerate 0 as). ancestor_fits c genesis b x) \<longleftrightarrow>
    (\<exists>own others. as = own # others \<and> br_author own = block_author b) \<and>
    (\<forall>a \<in> set as. br_author a \<in> members c \<and> br_round a < block_round b \<and>
        (br_round a = genesis_round \<longrightarrow> a \<in> set genesis))"
proof -
  obtain own others where as: "as = own # others" using assms(1) by (cases as) auto
  have later: "0 < i \<and> x \<in> set others" if "(i, x) \<in> set (List.enumerate (Suc 0) others)" for i x
    using that by (auto simp: in_set_enumerate_eq)
  have other: "\<exists>i \<ge> Suc 0. (i, x) \<in> set (List.enumerate (Suc 0) others)" if "x \<in> set others" for x
    using that by (rule enumerate_mem)
  have ne: "br_author x \<noteq> br_author own" if "x \<in> set others" for x
    using assms(2) imageI [OF that, of br_author] by (auto simp: as)
  have "(\<forall>x \<in> set (List.enumerate (Suc 0) others). ancestor_fits c genesis b x) \<longleftrightarrow>
      (\<forall>a \<in> set others. br_author a \<in> members c \<and> br_round a < block_round b \<and>
        (br_round a = genesis_round \<longrightarrow> a \<in> set genesis))"
    if "br_author own = block_author b"
    using that ne later other by (fastforce simp: ancestor_fits_def is_valid_index_def members_eq)
  then show ?thesis
    unfolding as by (auto simp: ancestor_fits_def is_valid_index_def members_eq)
qed

lemma distinct_stakes:
  assumes "distinct (map br_author as)"
  shows "sum_list (map (\<lambda>a. au_stake (cm_authorities c ! br_author a)) (filter P as)) =
    stake_of c (br_author ` {a \<in> set as. P a})"
proof -
  have "distinct (map br_author (filter P as))" using assms by (rule distinct_map_filter)
  then have "sum_list (map (\<lambda>v. au_stake (cm_authorities c ! v)) (map br_author (filter P as))) =
      stake_of c (set (map br_author (filter P as)))"
    unfolding stake_of_def by (rule sum_list_distinct_conv_sum_set)
  then show ?thesis by (simp add: comp_def)
qed

lemma verify_eq:
  assumes wf: "committee_wf c" and c: "c = cx_committee (sv_context sv)"
  shows "verify cry sv sb = Inr () \<longleftrightarrow>
    block_well_formed c (set (sv_genesis sv)) (sb_inner sb) \<and> verify_signature cry c sb = Inr () \<and>
    sv_transaction_verifier sv (cx_protocol_config (sv_context sv)) (map tx_data (block_transactions (sb_inner sb)))"
proof -
  let ?b = "sb_inner sb"
  let ?as = "block_ancestors ?b"
  let ?loop = "for_each (verify_ancestor c (sv_genesis sv) ?b) (List.enumerate 0 ?as) (replicate (committee_size c) False, 0)"
  let ?fit = "\<forall>x \<in> set (List.enumerate 0 ?as). ancestor_fits c (sv_genesis sv) ?b x"
  have members: "br_author ` set ?as \<subseteq> members c" if ?fit
  proof
    fix v assume "v \<in> br_author ` set ?as"
    then obtain i a where "(i, a) \<in> set (List.enumerate 0 ?as)" "v = br_author a"
      using enumerate_mem [of _ ?as 0] by blast
    with that show "v \<in> members c" by (auto simp: ancestor_fits_def is_valid_index_def members_eq)
  qed
  have parents: "{a \<in> set ?as. br_round a = block_round ?b - 1} = parents ?b" if "0 < block_round ?b"
    using that by (auto simp: parents_def)
  have loop: "(\<exists>seen. ?loop = Inr (seen, s)) \<longleftrightarrow>
      ?fit \<and> distinct (map br_author ?as) \<and> s = stake_of c (br_author ` parents ?b)"
    if r: "0 < block_round ?b" for s
  proof -
    have "(\<exists>seen. ?loop = Inr (seen, s)) \<longleftrightarrow> ?fit \<and> distinct (map br_author ?as) \<and>
        s = (0 + sum_list (map (\<lambda>a. au_stake (cm_authorities c ! br_author a))
          (filter (\<lambda>a. br_round a = block_round ?b - 1) ?as))) mod 2 ^ 64"
      using verify_ancestors_loop [of "replicate (committee_size c) False" c 0 "sv_genesis sv" ?b 0 ?as s] members
      by (auto simp: members_eq image_subset_iff)
    moreover have "stake_of c (br_author ` parents ?b) < 2 ^ 64" if ?fit
      using stake_of_le_total [OF wf, of "br_author ` parents ?b"] members [OF that] wf
      by (force simp: parents_def committee_wf_def)
    ultimately show ?thesis using distinct_stakes [of ?as c] parents [OF r] by auto
  qed
  have len: "length ?as \<le> committee_size c" if ?fit "distinct (map br_author ?as)"
    using distinct_card [OF that(2)] card_mono [OF finite_members members [OF that(1)]]
    by (simp add: members_eq)
  have ne: "?as \<noteq> []" if "reached_quorum c (stake_of c (br_author ` parents ?b))"
    using that wf by (auto simp: parents_def reached_quorum_def committee_wf_def)
  let ?tx = "sv_transaction_verifier sv (cx_protocol_config (sv_context sv)) (map tx_data (block_transactions ?b))"
  show ?thesis
  proof (cases "block_epoch ?b = cm_epoch c \<and> 0 < block_round ?b \<and> block_author ?b \<in> members c")
    case False
    then show ?thesis
      by (auto simp: verify_def Let_def block_well_formed_def is_valid_index_def members_eq c)
  next
    case True
    then have "verify cry sv sb = Inr () \<longleftrightarrow> verify_signature cry c sb = Inr () \<and>
        length ?as \<le> committee_size c \<and> ?as \<noteq> [] \<and> (\<exists>s. (\<exists>seen. ?loop = Inr (seen, s)) \<and> reached_quorum c s) \<and> ?tx"
      by (auto simp: verify_def Let_def is_valid_index_def members_eq and_then_eq_Inr simp flip: c split: if_splits)
    also have "\<dots> \<longleftrightarrow> verify_signature cry c sb = Inr () \<and> ?as \<noteq> [] \<and> ?fit \<and> distinct (map br_author ?as) \<and>
        reached_quorum c (stake_of c (br_author ` parents ?b)) \<and> ?tx"
      unfolding loop [OF conjunct1 [OF conjunct2 [OF True]]] using len by auto
    also have "\<dots> \<longleftrightarrow> block_well_formed c (set (sv_genesis sv)) ?b \<and> verify_signature cry c sb = Inr () \<and> ?tx"
      using True ne ancestors_fit_iff [of ?as c "sv_genesis sv" ?b] unfolding block_well_formed_def by blast
    finally show ?thesis .
  qed
qed

section \<open>Properties\<close>

text \<open>C19: \<open>SignedBlockVerifier::verify\<close> accepts a block exactly when it is well formed for the committee
  (its epoch, a round after genesis, a member as author, its own previous block as first ancestor,
  ancestors by different members and of earlier rounds, parents by a quorum of stake), its
  signature verifies, and the transaction verifier accepts its transactions. The stake of the parents
  does not wrap around.\<close>

theorem verify_accepts_exactly_well_formed_blocks:
  assumes "committee_wf (cx_committee (sv_context sv))"
  shows "verify cry sv sb = Inr () \<longleftrightarrow>
    block_well_formed (cx_committee (sv_context sv)) (set (sv_genesis sv)) (sb_inner sb) \<and>
    verify_signature cry (cx_committee (sv_context sv)) sb = Inr () \<and>
    sv_transaction_verifier sv (cx_protocol_config (sv_context sv)) (map tx_data (block_transactions (sb_inner sb)))"
  by (rule verify_eq [OF assms refl])

definition ex_verifier :: signed_block_verifier where
  "ex_verifier = \<lparr> sv_context = ex_context, sv_genesis = map vb_reference ex_genesis,
     sv_transaction_verifier = NoopTransactionVerifier \<rparr>"

definition ex_proposal :: block where
  "ex_proposal = V1 (block_v1_new 0 1 2 5 (map (\<lambda>i. vb_reference (ex_genesis ! i)) [2, 0, 3]) [] [] [])"

definition ex_signed :: signed_block where
  "ex_signed = \<lparr> sb_inner = ex_proposal, sb_signature = [ucast (cy_hash ex_crypto (ex_block_bytes ex_proposal))] \<rparr>"

lemma ex_verifier_new: "SignedBlockVerifier_new ex_crypto ex_context NoopTransactionVerifier = Inr ex_verifier"
proof -
  have "bs_wf (map vb_reference ex_genesis)"
    unfolding bs_wf_def using genesis_sorted [OF ex_genesis_eq] strict_sorted_iff by blast
  moreover have "bs_wf (bs_extend (map vb_reference ex_genesis) [])" by (rule bs_wf_extend) (simp add: bs_wf_def)
  ultimately have "bs_extend (map vb_reference ex_genesis) [] = map vb_reference ex_genesis"
    unfolding bs_wf_def by (intro sorted_distinct_set_unique) simp_all
  then show ?thesis by (simp add: SignedBlockVerifier_new_def ex_genesis_eq ex_verifier_def)
qed

lemma ex_proposal_well_formed: "block_well_formed ex_committee (set (map vb_reference ex_genesis)) ex_proposal"
proof -
  have g: "br_author (vb_reference (ex_genesis ! i)) = i" "br_round (vb_reference (ex_genesis ! i)) = 0"
    "vb_reference (ex_genesis ! i) \<in> vb_reference ` set ex_genesis" if "i < 4" for i
    using ex_genesis_nth [OF that] that by auto
  have "parents ex_proposal =
      {vb_reference (ex_genesis ! 2), vb_reference (ex_genesis ! 0), vb_reference (ex_genesis ! 3)}"
    using g [of 0] g [of 2] g [of 3] by (auto simp: parents_def ex_proposal_def block_v1_new_def)
  then have "br_author ` parents ex_proposal = {2, 0, 3}" using g [of 0] g [of 2] g [of 3] by simp
  then show ?thesis
    using g [of 0] g [of 2] g [of 3]
    by (simp add: block_well_formed_def ex_proposal_def block_v1_new_def ex_members ex_stake_of ex_thresholds
        card_insert_if) (simp add: ex_committee_def)
qed

lemma ex_signature:
  "verify_block_signature ex_crypto b [ucast (cy_hash ex_crypto (ex_block_bytes b))] pk = Inr ()"
proof -
  have "cy_bcs_block ex_crypto b = Some (ex_block_bytes b)" "cy_bcs_intent_message ex_crypto (i, d) = Some [ucast d]"
    "cy_signature_from_bytes ex_crypto s = Some s" "cy_verify ex_crypto k m s \<longleftrightarrow> m = s" for i d s k m
    by (simp_all add: ex_crypto_def)
  then show ?thesis
    by (simp add: verify_block_signature_def compute_inner_block_digest_def ok_or_def to_consensus_block_intent_def)
qed

theorem verify_accepts_exactly_well_formed_blocks_witness:
  "verify ex_crypto ex_verifier ex_signed = Inr ()"
proof -
  have ctx: "cx_committee (sv_context ex_verifier) = ex_committee" by (simp add: ex_verifier_def ex_context_def)
  have "verify_signature ex_crypto ex_committee ex_signed = Inr ()"
    using ex_signature [of ex_proposal]
    by (simp add: verify_signature_def Let_def ex_signed_def is_valid_index_def)
      (simp add: ex_proposal_def block_v1_new_def)
  then show ?thesis
    using verify_accepts_exactly_well_formed_blocks [of ex_verifier ex_crypto ex_signed] ex_proposal_well_formed
    unfolding ctx by (simp add: ex_verifier_def ex_signed_def NoopTransactionVerifier_def)
qed

text \<open>C20: When every block of the DAG after genesis passed \<open>SignedBlockVerifier::verify\<close>, the DAG has the
  structure that agreement and linearization assume: every such block has parents by a quorum, and no
  block names two ancestors of one author.\<close>

theorem verified_blocks_give_the_dag_structure:
  assumes "committee_wf (cx_committee (sv_context sv))" "dag_inv ds"
    and "\<forall>r b. dag_lookup ds r = Some b \<longrightarrow> 0 < br_round r \<longrightarrow> verify cry sv (vb_signed b) = Inr ()"
  shows "quorum_parents (cx_committee (sv_context sv)) ds \<and> ancestors_distinct ds"
proof -
  let ?c = "cx_committee (sv_context sv)"
  have wf: "block_well_formed ?c (set (sv_genesis sv)) (vb_inner b)" if "dag_lookup ds r = Some b" "0 < br_round r" for r b
    using assms(3) that verify_eq [OF assms(1) refl, of cry "vb_signed b"] by (auto simp: vb_inner_def)
  have quorum: "reached_quorum ?c (stake_of ?c (br_author ` {a \<in> set (vb_ancestors b). br_round a + 1 = br_round r}))"
    if "dag_lookup ds r = Some b" "0 < br_round r" for r b
  proof -
    have "block_round (vb_inner b) = br_round r"
      using dag_lookup_ref(1) [OF assms(2) that(1)] by (auto simp: vb_defs)
    with wf [OF that] show ?thesis by (simp add: block_well_formed_def parents_def vb_ancestors_def)
  qed
  have "distinct (vb_ancestors b)" if "dag_lookup ds r = Some b" for r b
  proof (cases "br_round r = 0")
    case True
    with that genesis_lookup [OF dag_invD(1) [OF assms(2)], of r b] show ?thesis
      by (simp add: dag_lookup_def genesis_round_def)
  next
    case False
    with wf [OF that] show ?thesis by (simp add: block_well_formed_def vb_ancestors_def distinct_map)
  qed
  with quorum show ?thesis by (simp add: quorum_parents_def ancestors_distinct_def)
qed

definition ex_verified :: verified_block where
  "ex_verified = VerifiedBlock_new_verified ex_crypto ex_signed []"

lemma ex_verified_sel: "vb_signed ex_verified = ex_signed" "vb_round ex_verified = 1" "vb_author ex_verified = 2"
  by (simp_all add: ex_verified_def VerifiedBlock_new_verified_def vb_defs ex_signed_def ex_proposal_def
      block_v1_new_def)

lemma ex_signed_verifies: "verify ex_crypto ex_verifier ex_signed = Inr ()"
proof -
  have ctx: "cx_committee (sv_context ex_verifier) = ex_committee" by (simp add: ex_verifier_def ex_context_def)
  have "verify_signature ex_crypto ex_committee ex_signed = Inr ()"
    using ex_signature [of ex_proposal]
    by (simp add: verify_signature_def Let_def ex_signed_def is_valid_index_def)
      (simp add: ex_proposal_def block_v1_new_def)
  then show ?thesis
    using verify_eq [OF ex_committee_wf ctx [symmetric], of ex_crypto ex_signed] ex_proposal_well_formed
    by (simp add: ex_verifier_def ex_signed_def NoopTransactionVerifier_def)
qed

theorem verified_blocks_give_the_dag_structure_witness:
  "quorum_parents ex_committee (accepted_state ex_verified ex_dag) \<and>
     ancestors_distinct (accepted_state ex_verified ex_dag) \<and>
     dag_lookup (accepted_state ex_verified ex_dag) (vb_reference ex_verified) = Some ex_verified"
proof -
  have ctx: "cx_committee (sv_context ex_verifier) = ex_committee" by (simp add: ex_verifier_def ex_context_def)
  have inv: "dag_inv (accepted_state ex_verified ex_dag)"
    by (rule accepted_inv) (simp_all add: ex_verified_sel ex_dag_lookup)
  have lookup: "dag_lookup (accepted_state ex_verified ex_dag) = (dag_lookup ex_dag)(vb_reference ex_verified \<mapsto> ex_verified)"
    by (rule accepted_lookup) (simp add: ex_verified_sel)
  have "\<forall>r b. dag_lookup (accepted_state ex_verified ex_dag) r = Some b \<longrightarrow> 0 < br_round r \<longrightarrow>
      verify ex_crypto ex_verifier (vb_signed b) = Inr ()"
    by (auto simp: lookup ex_dag_lookup ex_verified_sel ex_signed_verifies split: if_splits)
  with verified_blocks_give_the_dag_structure [OF _ inv, of ex_verifier ex_crypto] lookup show ?thesis
    unfolding ctx by simp
qed

text \<open>Signing and verifying a block fit together: when serialization succeeds and the signature
  scheme verifies what it signs, a block made by \<open>SignedBlock::new\<close> with the key of its author passes
  \<open>SignedBlock::verify_signature\<close>.\<close>

theorem signed_blocks_verify:
  assumes "SignedBlock_new cry b key = Inr sb" "block_author b \<in> members c"
    and "\<forall>m. cy_signature_from_bytes cry (cy_sign cry key m) = Some (cy_sign cry key m)"
    and "\<forall>m. cy_verify cry (au_protocol_key (cm_authorities c ! block_author b)) m (cy_sign cry key m)"
  shows "sb_inner sb = b \<and> verify_signature cry c sb = Inr ()"
  using assms
  by (auto simp: SignedBlock_new_def compute_block_signature_def verify_signature_def verify_block_signature_def
      and_then_eq_Inr is_valid_index_def members_eq ok_or_def)

theorem signed_blocks_verify_witness:
  "\<exists>sb. SignedBlock_new ex_crypto ex_proposal [] = Inr sb \<and> verify_signature ex_crypto ex_committee sb = Inr ()"
proof -
  have "\<exists>sb. SignedBlock_new ex_crypto ex_proposal [] = Inr sb"
    by (simp add: SignedBlock_new_def compute_block_signature_def compute_inner_block_digest_def ok_or_def
        to_consensus_block_intent_def ex_crypto_def)
  then obtain sb where sb: "SignedBlock_new ex_crypto ex_proposal [] = Inr sb" ..
  have "block_author ex_proposal \<in> members ex_committee"
    by (simp add: ex_members) (simp add: ex_proposal_def block_v1_new_def)
  with sb signed_blocks_verify [OF sb, of ex_committee] show ?thesis by (simp add: ex_crypto_def)
qed

end
