(* ===== verification/Block_Manager.thy ===== *)
theory Block_Manager
  imports Block_Verifier
begin

text \<open>
  The block manager (\<^verbatim>\<open>consensus/core/src/block_manager.rs\<close>): incoming blocks are suspended until
  their ancestors are in the DAG, and accepted with everything that waited for them. The state of the
  manager and the DAG are passed together; \<open>check\<close> is \<open>check_ancestors\<close> of the block verifier and
  \<open>now\<close> the clock. Metrics and the time a block was suspended at are left out.
\<close>

section \<open>State\<close>

record suspended_block =
  su_block :: verified_block
  su_missing_ancestors :: "block_ref list"

record block_manager =
  mg_suspended_blocks :: "(block_ref \<times> suspended_block) list"
  mg_missing_ancestors :: "(block_ref \<times> block_ref list) list"
  mg_missing_blocks :: "block_ref list"

definition BlockManager_new :: block_manager where
  "BlockManager_new = \<lparr> mg_suspended_blocks = [], mg_missing_ancestors = [], mg_missing_blocks = [] \<rparr>"

datatype try_accept_result = Accepted verified_block | Suspended "block_ref list" | Processed

section \<open>Suspending\<close>

text \<open>The loop body for one ancestor that is not in the DAG.\<close>

definition note_missing ::
  "block_ref \<Rightarrow> bool \<times> block_ref \<Rightarrow> block_manager \<times> block_ref list \<times> block_ref list
     \<Rightarrow> block_manager \<times> block_ref list \<times> block_ref list" where
  "note_missing r = (\<lambda>(found, a) (mgr, missing, to_fetch).
     if found then (mgr, missing, to_fetch)
     else
       let waiting = (case map_of (mg_missing_ancestors mgr) a of Some rs \<Rightarrow> rs | None \<Rightarrow> []);
           mgr' = mgr\<lparr> mg_missing_ancestors := bm_insert a (bs_insert r waiting) (mg_missing_ancestors mgr) \<rparr>
       in if map_of (mg_suspended_blocks mgr) a = None
          then (mgr'\<lparr> mg_missing_blocks := bs_insert a (mg_missing_blocks mgr') \<rparr>,
                bs_insert a missing, bs_insert a to_fetch)
          else (mgr', bs_insert a missing, to_fetch))"

definition try_accept_one_block ::
  "dag_state \<Rightarrow> verified_block \<Rightarrow> block_manager \<Rightarrow> (try_accept_result \<times> block_manager) res" where
  "try_accept_one_block ds b mgr =
     (let r = vb_reference b in
      and_then (if map_of (mg_suspended_blocks mgr) r \<noteq> None then Inr True else contains_block ds r) (\<lambda>known.
        if known then Inr (Processed, mgr)
        else and_then (contains_blocks ds (vb_ancestors b)) (\<lambda>found.
          let (mgr1, missing, to_fetch) =
                foldl (\<lambda>s x. note_missing r x s) (mgr, [], []) (zip found (vb_ancestors b));
              mgr2 = mgr1\<lparr> mg_missing_blocks := bs_remove r (mg_missing_blocks mgr1) \<rparr>
          in if missing \<noteq> []
             then Inr (Suspended to_fetch, mgr2\<lparr> mg_suspended_blocks := bm_insert r
                    \<lparr> su_block = b, su_missing_ancestors = missing \<rparr> (mg_suspended_blocks mgr2) \<rparr>)
             else Inr (Accepted b, mgr2))))"

section \<open>Unsuspending\<close>

definition try_unsuspend_block ::
  "block_ref \<Rightarrow> block_ref \<Rightarrow> block_manager \<Rightarrow> (suspended_block option \<times> block_manager) res" where
  "try_unsuspend_block r dependency mgr =
     and_then (expect (map_of (mg_suspended_blocks mgr) r) (ManagerPanic SuspendedBlockNotFound)) (\<lambda>sb.
     and_then (assert_that (dependency \<in> set (su_missing_ancestors sb)) (ManagerPanic DependencyNotMissing)) (\<lambda>_.
       let sb' = sb\<lparr> su_missing_ancestors := bs_remove dependency (su_missing_ancestors sb) \<rparr>
       in if su_missing_ancestors sb' = []
          then Inr (Some sb', mgr\<lparr> mg_suspended_blocks := bm_remove r (mg_suspended_blocks mgr) \<rparr>)
          else Inr (None, mgr\<lparr> mg_suspended_blocks := bm_insert r sb' (mg_suspended_blocks mgr) \<rparr>)))"

definition unsuspend_waiting ::
  "block_ref \<Rightarrow> block_ref \<Rightarrow> verified_block list \<times> verified_block list \<times> block_manager
     \<Rightarrow> (verified_block list \<times> verified_block list \<times> block_manager) res" where
  "unsuspend_waiting dependency r = (\<lambda>(to_process, unsuspended, mgr).
     and_then (try_unsuspend_block r dependency mgr) (\<lambda>(result, mgr').
       case result of
         Some sb \<Rightarrow> Inr (to_process @ [su_block sb], unsuspended @ [su_block sb], mgr')
       | None \<Rightarrow> Inr (to_process, unsuspended, mgr')))"

definition unsuspend_step ::
  "verified_block list \<times> verified_block list \<times> block_manager
     \<Rightarrow> (verified_block list \<times> verified_block list \<times> block_manager) res" where
  "unsuspend_step = (\<lambda>(to_process, unsuspended, mgr).
     let r = vb_reference (last to_process) in
     case map_of (mg_missing_ancestors mgr) r of
       None \<Rightarrow> Inr (butlast to_process, unsuspended, mgr)
     | Some waiting \<Rightarrow>
         for_each (unsuspend_waiting r) waiting (butlast to_process, unsuspended,
           mgr\<lparr> mg_missing_ancestors := bm_remove r (mg_missing_ancestors mgr) \<rparr>))"

definition try_unsuspend_children_blocks ::
  "verified_block \<Rightarrow> block_manager \<Rightarrow> (verified_block list \<times> block_manager) res" where
  "try_unsuspend_children_blocks accepted mgr =
     and_then (while_res (\<lambda>(to_process, _, _). to_process \<noteq> []) unsuspend_step ([accepted], [], mgr))
       (\<lambda>(_, unsuspended, mgr'). Inr (unsuspended, mgr'))"

section \<open>Accepting\<close>

type_synonym block_map = "(block_ref \<times> verified_block) list"

text \<open>
  The blocks named by the ancestors of a block, from the DAG or among those about to be accepted;
  \<open>None\<close> when one of them is about to be rejected.
\<close>

fun find_ancestors ::
  "block_map \<Rightarrow> block_map \<Rightarrow> (block_ref \<times> verified_block option) list \<Rightarrow> verified_block list option res" where
  "find_ancestors accept reject [] = Inr (Some [])"
| "find_ancestors accept reject ((r, found) # rest) =
     (case found of
        Some b \<Rightarrow>
          if r \<noteq> vb_reference b then Inl (ManagerPanic AncestorRefMismatch)
          else and_then (find_ancestors accept reject rest) (\<lambda>bs. Inr (map_option ((#) b) bs))
      | None \<Rightarrow>
          (case map_of accept r of
             Some b \<Rightarrow> and_then (find_ancestors accept reject rest) (\<lambda>bs. Inr (map_option ((#) b) bs))
           | None \<Rightarrow>
               if map_of reject r \<noteq> None then Inr None
               else Inl (ManagerPanic UnsuspendedMissingAncestor)))"

definition verify_against_ancestors ::
  "(verified_block \<Rightarrow> verified_block list \<Rightarrow> unit consensus_result res) \<Rightarrow> dag_state \<Rightarrow> verified_block
     \<Rightarrow> block_map \<times> block_map \<Rightarrow> (block_map \<times> block_map) res" where
  "verify_against_ancestors check ds b = (\<lambda>(accept, reject).
     let found = get_blocks ds (vb_ancestors b) in
     and_then (assert_that (length (vb_ancestors b) = length found) (ManagerPanic AncestorCountMismatch)) (\<lambda>_.
     and_then (find_ancestors accept reject (zip (vb_ancestors b) found)) (\<lambda>ancestors.
       case ancestors of
         None \<Rightarrow> Inr (accept, bm_insert (vb_reference b) b reject)
       | Some bs \<Rightarrow>
           and_then (check b bs) (\<lambda>result.
             case result of
               Inl e \<Rightarrow> Inr (accept, bm_insert (vb_reference b) b reject)
             | Inr _ \<Rightarrow> Inr (bm_insert (vb_reference b) b accept, reject)))))"

type_synonym accept_state = "verified_block list \<times> block_ref list \<times> block_manager \<times> dag_state"

text \<open>One block of the input: the body of the loop of \<open>try_accept_blocks\<close>.\<close>

definition try_accept_step ::
  "(verified_block \<Rightarrow> verified_block list \<Rightarrow> unit consensus_result res) \<Rightarrow> timestamp_ms \<Rightarrow> verified_block
     \<Rightarrow> accept_state \<Rightarrow> accept_state res" where
  "try_accept_step check now b = (\<lambda>(accepted, missing, mgr, ds).
     and_then (try_accept_one_block ds b mgr) (\<lambda>(result, mgr1).
       case result of
         Processed \<Rightarrow> Inr (accepted, missing, mgr1, ds)
       | Suspended to_fetch \<Rightarrow> Inr (accepted, bs_extend to_fetch missing, mgr1, ds)
       | Accepted b' \<Rightarrow>
           and_then (try_unsuspend_children_blocks b' mgr1) (\<lambda>(unsuspended, mgr2).
           and_then (for_each (verify_against_ancestors check ds) (b' # unsuspended) ([], [])) (\<lambda>(accept, reject).
           let blocks = map snd accept in
           and_then (accept_blocks now blocks ds) (\<lambda>ds'.
             Inr (accepted @ blocks, missing, mgr2, ds'))))))"

definition try_accept_blocks ::
  "(verified_block \<Rightarrow> verified_block list \<Rightarrow> unit consensus_result res) \<Rightarrow> timestamp_ms \<Rightarrow> verified_block list
     \<Rightarrow> block_manager \<times> dag_state
     \<Rightarrow> ((verified_block list \<times> block_ref list) \<times> block_manager \<times> dag_state) res" where
  "try_accept_blocks check now blocks = (\<lambda>(mgr, ds).
     and_then (for_each (try_accept_step check now) (sort_key vb_round blocks) ([], [], mgr, ds))
       (\<lambda>(accepted, missing, mgr', ds'). Inr ((accepted, missing), (mgr', ds'))))"

definition missing_blocks :: "block_manager \<Rightarrow> block_ref list" where
  "missing_blocks mgr = mg_missing_blocks mgr"

end
