(* ===== verification/Manager_Invariant.thy ===== *)
theory Manager_Invariant
  imports Block_Manager
begin

text \<open>
  The invariant of the block manager. \<open>R\<close> are the references whose blocks are in the DAG or accepted
  and propagated to those that wait for them; \<open>Q\<close> those accepted and not yet propagated; \<open>K\<close> the
  blocks there are. A suspended block waits for exactly its ancestors outside \<open>R\<close>, the map of missing
  ancestors is the inverse of that relation, and the missing blocks are those waited for that are
  neither suspended nor accepted.
\<close>

section \<open>The invariant\<close>

abbreviation suspended_at :: "block_manager \<Rightarrow> block_ref \<Rightarrow> suspended_block option" where
  "suspended_at mgr \<equiv> map_of (mg_suspended_blocks mgr)"

definition waiting_for :: "block_manager \<Rightarrow> block_ref \<Rightarrow> block_ref set" where
  "waiting_for mgr a = (case map_of (mg_missing_ancestors mgr) a of Some rs \<Rightarrow> set rs | None \<Rightarrow> {})"

definition waits_for :: "block_manager \<Rightarrow> block_ref \<Rightarrow> block_ref set" where
  "waits_for mgr a = {r. \<exists>sb. suspended_at mgr r = Some sb \<and> a \<in> set (su_missing_ancestors sb)}"

definition suspended_ok :: "verified_block set \<Rightarrow> block_ref set \<Rightarrow> block_ref \<Rightarrow> suspended_block \<Rightarrow> bool" where
  "suspended_ok K R r sb \<longleftrightarrow>
     su_block sb \<in> K \<and> vb_reference (su_block sb) = r \<and> su_missing_ancestors sb \<noteq> [] \<and>
     set (su_missing_ancestors sb) = {a \<in> set (vb_ancestors (su_block sb)). a \<notin> R}"

definition lists_ok :: "(block_ref \<times> block_ref list) list \<Rightarrow> bool" where
  "lists_ok m \<longleftrightarrow> (\<forall>a rs. map_of m a = Some rs \<longrightarrow> rs \<noteq> [] \<and> distinct rs)"

lemma lists_okD: "lists_ok m \<Longrightarrow> map_of m a = Some rs \<Longrightarrow> rs \<noteq> [] \<and> distinct rs"
  unfolding lists_ok_def by blast

lemma lists_ok_insert: "lists_ok m \<Longrightarrow> rs \<noteq> [] \<Longrightarrow> distinct rs \<Longrightarrow> lists_ok (bm_insert a rs m)"
  unfolding lists_ok_def map_of_bm_insert fun_upd_def by (metis option.inject)

lemma lists_ok_remove: "lists_ok m \<Longrightarrow> lists_ok (bm_remove a m)"
  unfolding lists_ok_def map_of_bm_remove fun_upd_def by (metis option.distinct(1))

definition manager_inv ::
  "verified_block set \<Rightarrow> block_ref set \<Rightarrow> block_ref set \<Rightarrow> block_manager \<Rightarrow> bool" where
  "manager_inv K R Q mgr \<longleftrightarrow>
     (\<forall>r sb. suspended_at mgr r = Some sb \<longrightarrow> suspended_ok K R r sb \<and> r \<notin> R \<union> Q) \<and>
     lists_ok (mg_missing_ancestors mgr) \<and>
     (\<forall>a. waiting_for mgr a = waits_for mgr a) \<and>
     set (mg_missing_blocks mgr) = dom (map_of (mg_missing_ancestors mgr)) - dom (suspended_at mgr) - Q"

lemma manager_invD:
  assumes "manager_inv K R Q mgr"
  shows "suspended_at mgr r = Some sb \<Longrightarrow> suspended_ok K R r sb"
    and "suspended_at mgr r = Some sb \<Longrightarrow> r \<notin> R \<union> Q"
    and "lists_ok (mg_missing_ancestors mgr)"
    and "waiting_for mgr a = waits_for mgr a"
    and "set (mg_missing_blocks mgr) = dom (map_of (mg_missing_ancestors mgr)) - dom (suspended_at mgr) - Q"
  using assms unfolding manager_inv_def by blast+

lemma manager_inv_new: "manager_inv K R {} BlockManager_new"
  by (simp add: manager_inv_def lists_ok_def BlockManager_new_def waiting_for_def waits_for_def)

section \<open>Suspending\<close>

lemma distinct_bs_insert: "distinct rs \<Longrightarrow> distinct (bs_insert r rs)"
  by (simp add: bs_insert_def distinct_insort)

definition missing_noted :: "block_ref \<Rightarrow> block_ref set \<Rightarrow> block_manager \<Rightarrow> block_manager \<Rightarrow> bool" where
  "missing_noted r as mgr mgr' \<longleftrightarrow>
     mg_suspended_blocks mgr' = mg_suspended_blocks mgr \<and>
     dom (map_of (mg_missing_ancestors mgr')) = dom (map_of (mg_missing_ancestors mgr)) \<union> as \<and>
     (\<forall>a. waiting_for mgr' a = waiting_for mgr a \<union> (if a \<in> as then {r} else {})) \<and>
     lists_ok (mg_missing_ancestors mgr') \<and>
     set (mg_missing_blocks mgr') = set (mg_missing_blocks mgr) \<union> (as - dom (suspended_at mgr))"

lemma note_missing_one:
  assumes "lists_ok (mg_missing_ancestors mgr)"
  obtains mgr' fetch where "note_missing r (False, a) (mgr, missing, fetch0) = (mgr', bs_insert a missing, fetch)"
    "missing_noted r {a} mgr mgr'"
    "set fetch = set fetch0 \<union> ({a} - dom (suspended_at mgr))"
proof -
  let ?w = "case map_of (mg_missing_ancestors mgr) a of Some rs \<Rightarrow> rs | None \<Rightarrow> []"
  let ?mgr = "mgr\<lparr> mg_missing_ancestors := bm_insert a (bs_insert r ?w) (mg_missing_ancestors mgr) \<rparr>"
  have dist: "distinct (bs_insert r ?w)"
  proof (cases "map_of (mg_missing_ancestors mgr) a")
    case (Some rs)
    with lists_okD [OF assms Some] show ?thesis by (simp add: distinct_bs_insert)
  qed (simp add: distinct_bs_insert)
  have vals: "lists_ok (mg_missing_ancestors ?mgr)"
    using lists_ok_insert [OF assms _ dist] by simp
  have wait: "waiting_for ?mgr x = waiting_for mgr x \<union> (if x \<in> {a} then {r} else {})" for x
    by (simp add: waiting_for_def split: option.splits)
  show thesis
  proof (cases "suspended_at mgr a = None")
    case True
    let ?mgr' = "?mgr\<lparr> mg_missing_blocks := bs_insert a (mg_missing_blocks ?mgr) \<rparr>"
    have "missing_noted r {a} mgr ?mgr'"
      unfolding missing_noted_def using vals wait True by (auto simp: waiting_for_def)
    moreover have "a \<notin> dom (suspended_at mgr)" using True by blast
    ultimately show thesis
      using True by (intro that [of ?mgr' "bs_insert a fetch0"]) (simp_all add: note_missing_def Let_def insert_Diff_if)
  next
    case False
    have "missing_noted r {a} mgr ?mgr" unfolding missing_noted_def using vals wait False by auto
    moreover have "a \<in> dom (suspended_at mgr)" using False by blast
    ultimately show thesis
      using False by (intro that [of ?mgr fetch0]) (simp_all add: note_missing_def Let_def del: not_None_eq)
  qed
qed

lemma missing_noted_trans:
  assumes "missing_noted r as mgr mgr'" "missing_noted r bs mgr' mgr''"
  shows "missing_noted r (as \<union> bs) mgr mgr''"
  unfolding missing_noted_def
proof (intro conjI)
  note m = assms [unfolded missing_noted_def]
  show "mg_suspended_blocks mgr'' = mg_suspended_blocks mgr" using m by simp
  show "dom (map_of (mg_missing_ancestors mgr'')) = dom (map_of (mg_missing_ancestors mgr)) \<union> (as \<union> bs)"
    using m by (simp add: Un_assoc)
  show "lists_ok (mg_missing_ancestors mgr'')" using m by simp
  show "set (mg_missing_blocks mgr'') = set (mg_missing_blocks mgr) \<union> (as \<union> bs - dom (suspended_at mgr))"
    using m by (simp add: Un_Diff Un_assoc)
  show "\<forall>a. waiting_for mgr'' a = waiting_for mgr a \<union> (if a \<in> as \<union> bs then {r} else {})"
  proof
    fix a
    have "waiting_for mgr'' a = waiting_for mgr' a \<union> (if a \<in> bs then {r} else {})"
      "waiting_for mgr' a = waiting_for mgr a \<union> (if a \<in> as then {r} else {})" using m by blast+
    then show "waiting_for mgr'' a = waiting_for mgr a \<union> (if a \<in> as \<union> bs then {r} else {})" by simp
  qed
qed

lemma note_missing_all:
  assumes "lists_ok (mg_missing_ancestors mgr)"
  shows "\<exists>mgr' missing' fetch'. foldl (\<lambda>s x. note_missing r x s) (mgr, missing, fetch) (zip (map p as) as) =
      (mgr', missing', fetch') \<and> missing_noted r {a \<in> set as. \<not> p a} mgr mgr' \<and>
    set missing' = set missing \<union> {a \<in> set as. \<not> p a} \<and>
    set fetch' = set fetch \<union> ({a \<in> set as. \<not> p a} - dom (suspended_at mgr))"
  using assms
proof (induction as arbitrary: mgr missing fetch)
  case Nil
  then show ?case by (simp add: missing_noted_def)
next
  case (Cons a as)
  show ?case
  proof (cases "p a")
    case True
    then have "note_missing r (p a, a) (mgr, missing, fetch) = (mgr, missing, fetch)" by (simp add: note_missing_def)
    moreover have "{x \<in> set (a # as). \<not> p x} = {x \<in> set as. \<not> p x}" using True by auto
    ultimately show ?thesis using Cons.IH [OF Cons.prems, of missing fetch] by simp
  next
    case False
    obtain mgr1 fetch1 where one: "note_missing r (False, a) (mgr, missing, fetch) = (mgr1, bs_insert a missing, fetch1)"
      "missing_noted r {a} mgr mgr1" "set fetch1 = set fetch \<union> ({a} - dom (suspended_at mgr))"
      by (rule note_missing_one [OF Cons.prems])
    have "lists_ok (mg_missing_ancestors mgr1)"
      using one(2) by (simp add: missing_noted_def)
    from Cons.IH [OF this, of "bs_insert a missing" fetch1] obtain mgr' missing' fetch' where
      rest: "foldl (\<lambda>s x. note_missing r x s) (mgr1, bs_insert a missing, fetch1) (zip (map p as) as) =
        (mgr', missing', fetch')" "missing_noted r {a \<in> set as. \<not> p a} mgr1 mgr'"
      "set missing' = set (bs_insert a missing) \<union> {a \<in> set as. \<not> p a}"
      "set fetch' = set fetch1 \<union> ({a \<in> set as. \<not> p a} - dom (suspended_at mgr1))" by blast
    have "mg_suspended_blocks mgr1 = mg_suspended_blocks mgr" using one(2) by (simp add: missing_noted_def)
    moreover have "{x \<in> set (a # as). \<not> p x} = {a} \<union> {x \<in> set as. \<not> p x}" using False by auto
    ultimately show ?thesis
      using one rest missing_noted_trans [OF one(2) rest(2)] False by auto
  qed
qed

lemma accepted_inv_step:
  assumes mgr: "manager_inv K (dom (dag_lookup ds)) {} mgr"
    and new: "suspended_at mgr r = None" "dag_lookup ds r = None"
    and noted: "missing_noted r as mgr mgr1" and none: "as = {}"
  shows "manager_inv K (dom (dag_lookup ds)) {r} (mgr1\<lparr> mg_missing_blocks := bs_remove r (mg_missing_blocks mgr1) \<rparr>)"
    (is "manager_inv K ?R {r} ?m")
proof -
  note n = noted [unfolded missing_noted_def none]
  have same: "mg_suspended_blocks ?m = mg_suspended_blocks mgr" "waits_for ?m = waits_for mgr"
    "waiting_for ?m = waiting_for mgr" using n by (auto simp: waits_for_def waiting_for_def fun_eq_iff)
  show ?thesis
    unfolding manager_inv_def same
  proof (intro conjI allI impI)
    fix q sb assume q: "suspended_at mgr q = Some sb"
    show "suspended_ok K ?R q sb" by (rule manager_invD(1) [OF mgr q])
    show "q \<notin> ?R \<union> {r}" using manager_invD(2) [OF mgr q] q new by auto
  next
    show "lists_ok (mg_missing_ancestors ?m)" using n by simp
    show "waiting_for mgr a = waits_for mgr a" for a by (rule manager_invD(4) [OF mgr])
    show "set (mg_missing_blocks ?m) = dom (map_of (mg_missing_ancestors ?m)) - dom (suspended_at mgr) - {r}"
      using n manager_invD(5) [OF mgr] by auto
  qed
qed

lemma suspended_inv_step:
  assumes mgr: "manager_inv K (dom (dag_lookup ds)) {} mgr"
    and new: "suspended_at mgr (vb_reference b) = None" "dag_lookup ds (vb_reference b) = None" and b: "b \<in> K"
    and noted: "missing_noted (vb_reference b) {a \<in> set (vb_ancestors b). \<not> dag_lookup ds a \<noteq> None} mgr mgr1"
    and missing: "set missing = {a \<in> set (vb_ancestors b). \<not> dag_lookup ds a \<noteq> None}" "missing \<noteq> []"
  shows "manager_inv K (dom (dag_lookup ds)) {}
    (mgr1\<lparr> mg_missing_blocks := bs_remove (vb_reference b) (mg_missing_blocks mgr1),
           mg_suspended_blocks := bm_insert (vb_reference b)
             \<lparr> su_block = b, su_missing_ancestors = missing \<rparr> (mg_suspended_blocks mgr1) \<rparr>)"
    (is "manager_inv K ?R {} ?m")
proof -
  let ?r = "vb_reference b" and ?sb = "\<lparr> su_block = b, su_missing_ancestors = missing \<rparr>"
  note n = noted [unfolded missing_noted_def]
  have sus: "suspended_at ?m = (suspended_at mgr)(?r \<mapsto> ?sb)" using n by simp
  have waiting: "waiting_for ?m a = waiting_for mgr a \<union> (if a \<in> set missing then {?r} else {})" for a
    using n missing(1) by (simp add: waiting_for_def)
  have waits: "waits_for ?m a = waits_for mgr a \<union> (if a \<in> set missing then {?r} else {})" for a
    using new(1) unfolding waits_for_def sus by auto
  show ?thesis
    unfolding manager_inv_def
  proof (intro conjI allI impI)
    fix q sb assume q: "suspended_at ?m q = Some sb"
    show "suspended_ok K ?R q sb"
    proof (cases "q = ?r")
      case True
      with q show ?thesis unfolding sus using b missing by (auto simp: suspended_ok_def)
    next
      case False
      with q have "suspended_at mgr q = Some sb" unfolding sus by simp
      then show ?thesis by (rule manager_invD(1) [OF mgr])
    qed
    show "q \<notin> ?R \<union> {}"
      using q new(2) manager_invD(2) [OF mgr] unfolding sus by (auto split: if_splits)
  next
    show "lists_ok (mg_missing_ancestors ?m)" using n by simp
    show "waiting_for ?m a = waits_for ?m a" for a
      unfolding waiting waits using manager_invD(4) [OF mgr] by simp
    show "set (mg_missing_blocks ?m) = dom (map_of (mg_missing_ancestors ?m)) - dom (suspended_at ?m) - {}"
      unfolding sus using n manager_invD(5) [OF mgr] by auto
  qed
qed

lemma try_accept_one_cases:
  assumes inv: "dag_inv ds" and mgr: "manager_inv K (dom (dag_lookup ds)) {} mgr"
    and b: "b \<in> K" "vb_author b < num_authorities ds"
    and anc: "\<forall>a \<in> set (vb_ancestors b). br_author a < num_authorities ds"
  obtains (processed) "try_accept_one_block ds b mgr = Inr (Processed, mgr)"
      "suspended_at mgr (vb_reference b) \<noteq> None \<or> dag_lookup ds (vb_reference b) \<noteq> None"
  | (suspended) fetch mgr' where "try_accept_one_block ds b mgr = Inr (Suspended fetch, mgr')"
      "dag_lookup ds (vb_reference b) = None" "manager_inv K (dom (dag_lookup ds)) {} mgr'"
      "dom (suspended_at mgr') = insert (vb_reference b) (dom (suspended_at mgr))"
  | (accepted) mgr' where "try_accept_one_block ds b mgr = Inr (Accepted b, mgr')"
      "dag_lookup ds (vb_reference b) = None" "suspended_at mgr (vb_reference b) = None"
      "set (vb_ancestors b) \<subseteq> dom (dag_lookup ds)"
      "mg_suspended_blocks mgr' = mg_suspended_blocks mgr"
      "manager_inv K (dom (dag_lookup ds)) {vb_reference b} mgr'"
proof -
  let ?r = "vb_reference b" and ?R = "dom (dag_lookup ds)"
  let ?ms = "{a \<in> set (vb_ancestors b). \<not> dag_lookup ds a \<noteq> None}"
  have known: "contains_block ds ?r = Inr (dag_lookup ds ?r \<noteq> None)"
    using b(2) by (intro contains_block_eq [OF inv]) simp
  have found: "contains_blocks ds (vb_ancestors b) = Inr (map (\<lambda>a. dag_lookup ds a \<noteq> None) (vb_ancestors b))"
    using anc by (intro contains_blocks_eq [OF inv]) simp
  show thesis
  proof (cases "suspended_at mgr ?r \<noteq> None \<or> dag_lookup ds ?r \<noteq> None")
    case True
    then show thesis
      using known by (intro processed) (auto simp: try_accept_one_block_def Let_def)
  next
    case False
    then have new: "suspended_at mgr ?r = None" "dag_lookup ds ?r = None" by simp_all
    obtain mgr1 missing fetch where fold:
      "foldl (\<lambda>s x. note_missing ?r x s) (mgr, [], [])
        (zip (map (\<lambda>a. dag_lookup ds a \<noteq> None) (vb_ancestors b)) (vb_ancestors b)) = (mgr1, missing, fetch)"
      and noted: "missing_noted ?r ?ms mgr mgr1" and missing: "set missing = ?ms"
      using note_missing_all [OF manager_invD(3) [OF mgr], of ?r "[]" "[]" "\<lambda>a. dag_lookup ds a \<noteq> None" "vb_ancestors b"]
      by auto
    let ?mgr2 = "mgr1\<lparr> mg_missing_blocks := bs_remove ?r (mg_missing_blocks mgr1) \<rparr>"
    let ?mgr3 = "?mgr2\<lparr> mg_suspended_blocks := bm_insert ?r
      \<lparr> su_block = b, su_missing_ancestors = missing \<rparr> (mg_suspended_blocks ?mgr2) \<rparr>"
    have eq: "try_accept_one_block ds b mgr =
        (if missing \<noteq> [] then Inr (Suspended fetch, ?mgr3) else Inr (Accepted b, ?mgr2))"
      using new known found fold by (simp add: try_accept_one_block_def Let_def)
    show thesis
    proof (cases "missing = []")
      case True
      have "manager_inv K ?R {?r} ?mgr2"
        by (rule accepted_inv_step [OF mgr new noted]) (use True missing in auto)
      moreover have "set (vb_ancestors b) \<subseteq> ?R" using True missing by auto
      ultimately show thesis
        using accepted new eq True noted by (simp add: missing_noted_def)
    next
      case False
      have "manager_inv K ?R {} ?mgr3"
        using suspended_inv_step [OF mgr new b(1) noted missing False] by simp
      then show thesis
        using suspended [of fetch ?mgr3] new eq False noted by (simp add: missing_noted_def)
    qed
  qed
qed

section \<open>Unsuspending\<close>

text \<open>The suspended blocks after \<open>dep\<close> became available to those in \<open>rs\<close>, and those thereby freed.\<close>

definition released :: "block_ref \<Rightarrow> block_ref set \<Rightarrow> (block_ref \<rightharpoonup> suspended_block) \<Rightarrow> block_ref \<rightharpoonup> suspended_block" where
  "released dep rs S r =
     (if r \<in> rs then
        case S r of
          Some sb \<Rightarrow> if set (su_missing_ancestors sb) = {dep} then None
                     else Some (sb\<lparr> su_missing_ancestors := bs_remove dep (su_missing_ancestors sb) \<rparr>)
        | None \<Rightarrow> None
      else S r)"

definition freed :: "block_ref \<Rightarrow> (block_ref \<rightharpoonup> suspended_block) \<Rightarrow> block_ref list \<Rightarrow> verified_block list" where
  "freed dep S rs = map (\<lambda>r. su_block (the (S r))) (filter (\<lambda>r. set (su_missing_ancestors (the (S r))) = {dep}) rs)"

lemma bs_remove_empty: "dep \<in> set xs \<Longrightarrow> bs_remove dep xs = [] \<longleftrightarrow> set xs = {dep}"
  by (auto simp: bs_remove_def filter_empty_conv)

lemma try_unsuspend_block_eq:
  assumes "suspended_at mgr r = Some sb" "dep \<in> set (su_missing_ancestors sb)"
  shows "\<exists>S. try_unsuspend_block r dep mgr =
      Inr (if set (su_missing_ancestors sb) = {dep} then Some (sb\<lparr> su_missing_ancestors := [] \<rparr>) else None,
           mgr\<lparr> mg_suspended_blocks := S \<rparr>) \<and>
    map_of S = released dep {r} (suspended_at mgr)"
proof (cases "set (su_missing_ancestors sb) = {dep}")
  case True
  with assms bs_remove_empty [OF assms(2)] show ?thesis
    by (intro exI [of _ "bm_remove r (mg_suspended_blocks mgr)"])
      (auto simp: try_unsuspend_block_def Let_def released_def fun_eq_iff)
next
  case False
  with assms bs_remove_empty [OF assms(2)] show ?thesis
    by (intro exI [of _ "bm_insert r (sb\<lparr> su_missing_ancestors := bs_remove dep (su_missing_ancestors sb) \<rparr>)
          (mg_suspended_blocks mgr)"])
      (auto simp: try_unsuspend_block_def Let_def released_def fun_eq_iff)
qed

lemma released_insert: "r \<notin> rs \<Longrightarrow> released dep rs (released dep {r} S) = released dep (insert r rs) S"
  by (auto simp: released_def fun_eq_iff)

lemma freed_released: "r \<notin> set rs \<Longrightarrow> freed dep (released dep {r} S) rs = freed dep S rs"
  unfolding freed_def by (intro map_cong filter_cong) (auto simp: released_def)

lemma unsuspend_waiting_all:
  assumes "distinct rs" "\<forall>r \<in> set rs. \<exists>sb. suspended_at mgr r = Some sb \<and> dep \<in> set (su_missing_ancestors sb)"
  shows "\<exists>S. for_each (unsuspend_waiting dep) rs (to_process, unsuspended, mgr) =
      Inr (to_process @ freed dep (suspended_at mgr) rs, unsuspended @ freed dep (suspended_at mgr) rs,
           mgr\<lparr> mg_suspended_blocks := S \<rparr>) \<and>
    map_of S = released dep (set rs) (suspended_at mgr)"
  using assms
proof (induction rs arbitrary: to_process unsuspended mgr)
  case Nil
  then show ?case by (intro exI [of _ "mg_suspended_blocks mgr"]) (simp add: freed_def released_def fun_eq_iff)
next
  case (Cons r rs)
  then obtain sb where sb: "suspended_at mgr r = Some sb" "dep \<in> set (su_missing_ancestors sb)" by auto
  from try_unsuspend_block_eq [OF this] obtain S where S: "try_unsuspend_block r dep mgr =
      Inr (if set (su_missing_ancestors sb) = {dep} then Some (sb\<lparr> su_missing_ancestors := [] \<rparr>) else None,
           mgr\<lparr> mg_suspended_blocks := S \<rparr>)" "map_of S = released dep {r} (suspended_at mgr)" by blast
  let ?new = "if set (su_missing_ancestors sb) = {dep} then [su_block sb] else []"
  have step: "unsuspend_waiting dep r (to_process, unsuspended, mgr) =
      Inr (to_process @ ?new, unsuspended @ ?new, mgr\<lparr> mg_suspended_blocks := S \<rparr>)"
    by (simp add: unsuspend_waiting_def S(1))
  have "\<forall>q \<in> set rs. \<exists>sb. suspended_at (mgr\<lparr> mg_suspended_blocks := S \<rparr>) q = Some sb \<and> dep \<in> set (su_missing_ancestors sb)"
    using Cons.prems by (auto simp: S(2) released_def)
  from Cons.IH [OF _ this, of "to_process @ ?new" "unsuspended @ ?new"] Cons.prems(1) obtain S' where
    S': "for_each (unsuspend_waiting dep) rs (to_process @ ?new, unsuspended @ ?new, mgr\<lparr> mg_suspended_blocks := S \<rparr>) =
      Inr ((to_process @ ?new) @ freed dep (map_of S) rs, (unsuspended @ ?new) @ freed dep (map_of S) rs,
           mgr\<lparr> mg_suspended_blocks := S' \<rparr>)" "map_of S' = released dep (set rs) (map_of S)" by auto
  have "freed dep (suspended_at mgr) (r # rs) = ?new @ freed dep (map_of S) rs"
    using Cons.prems(1) sb(1) by (simp add: S(2) freed_released) (simp add: freed_def)
  moreover have "map_of S' = released dep (set (r # rs)) (suspended_at mgr)"
    using Cons.prems(1) by (simp add: S' S(2) released_insert)
  ultimately show ?case using step S'(1) by auto
qed

section \<open>The loop over freed blocks\<close>

text \<open>Each block comes after those of its ancestors that are not in \<open>P\<close>.\<close>

fun causal_from :: "block_ref set \<Rightarrow> verified_block list \<Rightarrow> bool" where
  "causal_from P [] \<longleftrightarrow> True"
| "causal_from P (b # bs) \<longleftrightarrow> set (vb_ancestors b) \<subseteq> P \<and> causal_from (insert (vb_reference b) P) bs"

lemma causal_from_append:
  "causal_from P (xs @ ys) \<longleftrightarrow> causal_from P xs \<and> causal_from (P \<union> vb_reference ` set xs) ys"
  by (induction xs arbitrary: P) (auto simp: Un_insert_left)

lemma causal_from_all: "(\<And>b. b \<in> set bs \<Longrightarrow> set (vb_ancestors b) \<subseteq> P) \<Longrightarrow> causal_from P bs"
proof (induction bs arbitrary: P)
  case (Cons b bs)
  have "causal_from (insert (vb_reference b) P) bs" by (rule Cons.IH) (use Cons.prems in auto)
  with Cons.prems show ?case by simp
qed simp

definition unsuspend_inv ::
  "verified_block set \<Rightarrow> block_ref set \<Rightarrow> verified_block \<Rightarrow> block_ref set
     \<Rightarrow> verified_block list \<times> verified_block list \<times> block_manager \<Rightarrow> bool" where
  "unsuspend_inv K P b0 S0 = (\<lambda>(to_process, unsuspended, mgr).
     let all = b0 # unsuspended; Q = vb_reference ` set to_process in
     set to_process \<subseteq> set all \<and> set all \<subseteq> K \<and> distinct (map vb_reference all) \<and>
     distinct (map vb_reference to_process) \<and> vb_reference ` set all \<inter> P = {} \<and> causal_from P all \<and>
     manager_inv K (P \<union> (vb_reference ` set all - Q)) Q mgr \<and>
     S0 = dom (suspended_at mgr) \<union> vb_reference ` set unsuspended)"

text \<open>No block waits for the processed one: only the sets move.\<close>

lemma manager_inv_unwaited:
  assumes mgr: "manager_inv K R (insert r Q) mgr" and none: "map_of (mg_missing_ancestors mgr) r = None"
    and "r \<notin> Q"
  shows "manager_inv K (insert r R) Q mgr"
proof -
  have "waits_for mgr r = {}" using none manager_invD(4) [OF mgr, of r] by (simp add: waiting_for_def)
  then have unwaited: "r \<notin> set (su_missing_ancestors sb)" if "suspended_at mgr q = Some sb" for q sb
    using that by (auto simp: waits_for_def)
  have "suspended_ok K (insert r R) q sb \<and> q \<notin> insert r R \<union> Q" if q: "suspended_at mgr q = Some sb" for q sb
    using manager_invD(1,2) [OF mgr q] unwaited [OF q] by (auto simp: suspended_ok_def)
  moreover have "r \<notin> dom (map_of (mg_missing_ancestors mgr))" using none by auto
  ultimately show ?thesis
    using manager_invD(3,4,5) [OF mgr] unfolding manager_inv_def by auto
qed

text \<open>The blocks that waited are released, and those freed take the place of the processed one.\<close>

lemma manager_inv_released:
  assumes mgr: "manager_inv K R (insert r Q) mgr" and rs: "map_of (mg_missing_ancestors mgr) r = Some rs"
    and r: "r \<notin> Q" "r \<notin> R"
    and S: "map_of S = released r (set rs) (suspended_at mgr)"
  shows "manager_inv K (insert r R) (Q \<union> vb_reference ` set (freed r (suspended_at mgr) rs))
    (mgr\<lparr> mg_missing_ancestors := bm_remove r (mg_missing_ancestors mgr), mg_suspended_blocks := S \<rparr>)"
    (is "manager_inv K ?R ?Q ?m")
proof -
  have waits: "waits_for mgr r = set rs" using rs manager_invD(4) [OF mgr, of r] by (simp add: waiting_for_def)
  have sus: "\<exists>sb. suspended_at mgr q = Some sb \<and> r \<in> set (su_missing_ancestors sb) \<and> vb_reference (su_block sb) = q"
    if "q \<in> set rs" for q using that waits manager_invD(1) [OF mgr] by (fastforce simp: waits_for_def suspended_ok_def)
  have out: "r \<notin> set (su_missing_ancestors sb)" if "suspended_at mgr q = Some sb" "q \<notin> set rs" for q sb
    using that waits by (auto simp: waits_for_def)
  let ?N = "vb_reference ` set (freed r (suspended_at mgr) rs)"
  have N: "?N = {q \<in> set rs. \<exists>sb. suspended_at mgr q = Some sb \<and> set (su_missing_ancestors sb) = {r}}"
    using sus by (force simp: freed_def)
  have dom: "dom (map_of S) = dom (suspended_at mgr) - ?N"
    unfolding S N by (auto simp: released_def split: if_splits option.splits)
  have old: "\<exists>sb'. suspended_at mgr q = Some sb' \<and> su_block sb = su_block sb' \<and>
      set (su_missing_ancestors sb) = set (su_missing_ancestors sb') - {r} \<and> set (su_missing_ancestors sb) \<noteq> {}"
    if q: "map_of S q = Some sb" for q sb
  proof (cases "q \<in> set rs")
    case True
    with sus obtain sb' where sb': "suspended_at mgr q = Some sb'" "r \<in> set (su_missing_ancestors sb')" by blast
    with True q have "set (su_missing_ancestors sb') \<noteq> {r}"
      "sb = sb'\<lparr> su_missing_ancestors := bs_remove r (su_missing_ancestors sb') \<rparr>"
      by (auto simp: S released_def split: if_splits)
    with sb' show ?thesis by auto
  next
    case False
    with q have sb: "suspended_at mgr q = Some sb" by (simp add: S released_def)
    moreover have "su_missing_ancestors sb \<noteq> []" using manager_invD(1) [OF mgr sb] by (simp add: suspended_ok_def)
    ultimately show ?thesis using out [OF sb False] by simp
  qed
  show ?thesis
    unfolding manager_inv_def
  proof (intro conjI allI impI)
    fix q sb assume "suspended_at ?m q = Some sb"
    then have q: "map_of S q = Some sb" by simp
    from old [OF q] obtain sb' where sb': "suspended_at mgr q = Some sb'" "su_block sb = su_block sb'"
      "set (su_missing_ancestors sb) = set (su_missing_ancestors sb') - {r}" "set (su_missing_ancestors sb) \<noteq> {}" by blast
    with manager_invD(1) [OF mgr sb'(1)] show "suspended_ok K ?R q sb" by (auto simp: suspended_ok_def)
    have "q \<notin> ?N" using q dom by blast
    with manager_invD(2) [OF mgr sb'(1)] show "q \<notin> ?R \<union> ?Q" by auto
  next
    show "lists_ok (mg_missing_ancestors ?m)" using manager_invD(3) [OF mgr] by (simp add: lists_ok_remove)
    show "waiting_for ?m a = waits_for ?m a" for a
    proof (cases "a = r")
      case True
      have "waits_for ?m r = {}" using old by (auto simp: waits_for_def)
      with True show ?thesis by (simp add: waiting_for_def)
    next
      case False
      have "q \<in> waits_for ?m a \<longleftrightarrow> q \<in> waits_for mgr a" for q
      proof
        assume "q \<in> waits_for ?m a"
        then show "q \<in> waits_for mgr a" using old by (fastforce simp: waits_for_def)
      next
        assume "q \<in> waits_for mgr a"
        then obtain sb where sb: "suspended_at mgr q = Some sb" "a \<in> set (su_missing_ancestors sb)"
          by (auto simp: waits_for_def)
        with False have "q \<notin> ?N" unfolding N by auto
        with sb(1) dom obtain sb' where sb': "map_of S q = Some sb'" by blast
        with old [OF sb'] sb False show "q \<in> waits_for ?m a" by (auto simp: waits_for_def)
      qed
      then have "waits_for ?m a = waits_for mgr a" by blast
      with False manager_invD(4) [OF mgr, of a] show ?thesis by (simp add: waiting_for_def)
    qed
    have "r \<notin> dom (suspended_at mgr)" using manager_invD(2) [OF mgr] by auto
    then show "set (mg_missing_blocks ?m) = dom (map_of (mg_missing_ancestors ?m)) - dom (suspended_at ?m) - ?Q"
      using manager_invD(5) [OF mgr] dom N r by auto
  qed
qed

end
