(* ===== verification/Manager_Accept.thy ===== *)
theory Manager_Accept
  imports Manager_Invariant
begin

text \<open>
  Accepting blocks through the block manager: the loop over freed blocks ends and returns them in
  causal order, the check against ancestors never meets an unknown one, and \<open>try_accept_blocks\<close> keeps
  the invariant of the manager and of the DAG as long as the verifier rejects no block.
\<close>

section \<open>Freed blocks\<close>

lemma freed_facts:
  assumes mgr: "manager_inv K R Q mgr" and rs: "map_of (mg_missing_ancestors mgr) r = Some rs"
  shows "\<forall>q \<in> set rs. \<exists>sb. suspended_at mgr q = Some sb \<and> r \<in> set (su_missing_ancestors sb)"
    and "set (freed r (suspended_at mgr) rs) \<subseteq> K"
    and "distinct (map vb_reference (freed r (suspended_at mgr) rs))"
    and "vb_reference ` set (freed r (suspended_at mgr) rs) \<subseteq> dom (suspended_at mgr)"
    and "\<forall>b \<in> set (freed r (suspended_at mgr) rs). set (vb_ancestors b) \<subseteq> insert r R"
    and "dom (released r (set rs) (suspended_at mgr)) =
      dom (suspended_at mgr) - vb_reference ` set (freed r (suspended_at mgr) rs)"
proof -
  let ?F = "freed r (suspended_at mgr) rs"
  have waits: "waits_for mgr r = set rs" using rs manager_invD(4) [OF mgr, of r] by (simp add: waiting_for_def)
  then show sus: "\<forall>q \<in> set rs. \<exists>sb. suspended_at mgr q = Some sb \<and> r \<in> set (su_missing_ancestors sb)"
    by (auto simp: waits_for_def)
  have ok: "suspended_at mgr q = Some (the (suspended_at mgr q))"
    "suspended_ok K R q (the (suspended_at mgr q))" if "q \<in> set rs" for q
    using that sus manager_invD(1) [OF mgr] by force+
  show "set ?F \<subseteq> K" using ok(2) by (auto simp: freed_def suspended_ok_def)
  have refs: "map vb_reference ?F = filter (\<lambda>q. set (su_missing_ancestors (the (suspended_at mgr q))) = {r}) rs"
    unfolding freed_def map_map using ok(2) by (intro map_idI) (simp add: suspended_ok_def)
  moreover have "distinct rs" using lists_okD [OF manager_invD(3) [OF mgr] rs] by simp
  ultimately show "distinct (map vb_reference ?F)" by simp
  have N: "vb_reference ` set ?F = {q \<in> set rs. set (su_missing_ancestors (the (suspended_at mgr q))) = {r}}"
    using refs by (metis list.set_map set_filter)
  show "vb_reference ` set ?F \<subseteq> dom (suspended_at mgr)" unfolding N using sus by blast
  show "\<forall>b \<in> set ?F. set (vb_ancestors b) \<subseteq> insert r R"
    using ok(2) by (auto simp: freed_def suspended_ok_def)
  show "dom (released r (set rs) (suspended_at mgr)) = dom (suspended_at mgr) - vb_reference ` set ?F"
    unfolding N by (auto simp: released_def split: if_splits option.splits)
qed

lemma unsuspend_step_inv:
  assumes inv: "unsuspend_inv K P b0 S0 (tp @ [b], un, mgr)"
  shows "\<exists>new mgr'. unsuspend_step (tp @ [b], un, mgr) = Inr (tp @ new, un @ new, mgr') \<and>
    unsuspend_inv K P b0 S0 (tp @ new, un @ new, mgr') \<and>
    vb_reference ` set new \<subseteq> dom (suspended_at mgr) \<and> card (vb_reference ` set new) = length new \<and>
    dom (suspended_at mgr') = dom (suspended_at mgr) - vb_reference ` set new"
proof -
  let ?r = "vb_reference b" and ?Q = "vb_reference ` set tp" and ?all = "vb_reference ` set (b0 # un)"
  let ?R = "P \<union> (?all - insert ?r ?Q)"
  have i: "set (tp @ [b]) \<subseteq> set (b0 # un)" "set (b0 # un) \<subseteq> K" "distinct (map vb_reference (b0 # un))"
    "distinct (map vb_reference (tp @ [b]))" "?all \<inter> P = {}" "causal_from P (b0 # un)"
    "S0 = dom (suspended_at mgr) \<union> vb_reference ` set un"
    using inv by (auto simp: unsuspend_inv_def Let_def)
  have mgr: "manager_inv K ?R (insert ?r ?Q) mgr"
    using inv by (simp add: unsuspend_inv_def Let_def insert_commute)
  have r: "?r \<notin> ?Q" "?r \<notin> ?R" "?r \<in> ?all" using i(1,4,5) by auto
  have R: "insert ?r ?R = P \<union> (?all - ?Q)" using r by auto
  have next_inv: "unsuspend_inv K P b0 S0 (tp @ new, un @ new, mgr')"
    if "manager_inv K (insert ?r ?R) (?Q \<union> vb_reference ` set new) mgr'" "set new \<subseteq> K"
      "distinct (map vb_reference new)" "vb_reference ` set new \<subseteq> dom (suspended_at mgr)"
      "\<forall>x \<in> set new. set (vb_ancestors x) \<subseteq> insert ?r ?R"
      "dom (suspended_at mgr') = dom (suspended_at mgr) - vb_reference ` set new" for new mgr'
  proof -
    have apart: "vb_reference ` set new \<inter> (P \<union> ?all) = {}"
      using that(4) manager_invD(2) [OF mgr] r(3) by blast
    have images: "vb_reference ` set (b0 # un @ new) = ?all \<union> vb_reference ` set new"
      "vb_reference ` set (tp @ new) = ?Q \<union> vb_reference ` set new" by auto
    have "P \<union> (vb_reference ` set (b0 # un @ new) - vb_reference ` set (tp @ new)) = insert ?r ?R"
      unfolding R images using apart by blast
    moreover have "causal_from P (b0 # un @ new)"
    proof -
      have "insert ?r ?R \<subseteq> P \<union> ?all" unfolding R by blast
      with that(5) have "causal_from (P \<union> ?all) new" by (intro causal_from_all) blast
      with i(6) show ?thesis using causal_from_append [of P "b0 # un" new] by (simp only: append_Cons simp_thms)
    qed
    moreover have "?Q \<union> vb_reference ` set new = vb_reference ` set (tp @ new)" by auto
    moreover have "distinct (map vb_reference (b0 # un @ new))" "distinct (map vb_reference (tp @ new))"
    proof -
      have "?Q \<subseteq> ?all" using i(1) by (intro image_mono) simp
      then have "?Q \<inter> vb_reference ` set new = {}" "?all \<inter> vb_reference ` set new = {}" using apart by blast+
      then show "distinct (map vb_reference (b0 # un @ new))" "distinct (map vb_reference (tp @ new))"
        using i(3,4) that(3) by auto
    qed
    moreover have "vb_reference ` set (b0 # un @ new) \<inter> P = {}" using i(5) apart by auto
    moreover have "S0 = dom (suspended_at mgr') \<union> vb_reference ` set (un @ new)" using i(7) that(4,6) by auto
    moreover have "set (tp @ new) \<subseteq> set (b0 # un @ new)" "set (b0 # un @ new) \<subseteq> K" using i(1,2) that(2) by auto
    ultimately show ?thesis using that(1) unfolding unsuspend_inv_def Let_def prod.case by metis
  qed
  show ?thesis
  proof (cases "map_of (mg_missing_ancestors mgr) ?r")
    case None
    have "unsuspend_step (tp @ [b], un, mgr) = Inr (tp @ [], un @ [], mgr)"
      using None by (simp add: unsuspend_step_def)
    with next_inv [of "[]" mgr] manager_inv_unwaited [OF mgr None r(1)] show ?thesis by fastforce
  next
    case (Some rs)
    note f = freed_facts [OF mgr Some]
    let ?new = "freed ?r (suspended_at mgr) rs"
    let ?m = "mgr\<lparr> mg_missing_ancestors := bm_remove ?r (mg_missing_ancestors mgr) \<rparr>"
    have "distinct rs" using lists_okD [OF manager_invD(3) [OF mgr] Some] by simp
    from unsuspend_waiting_all [OF this, of ?m ?r tp un] f(1) obtain S where
      S: "for_each (unsuspend_waiting ?r) rs (tp, un, ?m) = Inr (tp @ ?new, un @ ?new, ?m\<lparr> mg_suspended_blocks := S \<rparr>)"
      "map_of S = released ?r (set rs) (suspended_at mgr)" by auto
    have step: "unsuspend_step (tp @ [b], un, mgr) = Inr (tp @ ?new, un @ ?new, ?m\<lparr> mg_suspended_blocks := S \<rparr>)"
      using Some S(1) by (simp add: unsuspend_step_def Let_def)
    have dom: "dom (suspended_at (?m\<lparr> mg_suspended_blocks := S \<rparr>)) = dom (suspended_at mgr) - vb_reference ` set ?new"
      using S(2) f(6) by simp
    have "unsuspend_inv K P b0 S0 (tp @ ?new, un @ ?new, ?m\<lparr> mg_suspended_blocks := S \<rparr>)"
      using manager_inv_released [OF mgr Some r(1,2) S(2)] by (intro next_inv [OF _ f(2-5) dom]) simp
    moreover have "card (vb_reference ` set ?new) = length ?new"
      using f(3) by (metis distinct_card length_map list.set_map)
    ultimately show ?thesis using step f(4) dom by (intro exI conjI)
  qed
qed

lemma unsuspend_loop_total:
  assumes "unsuspend_inv K P b0 S0 s"
  shows "\<exists>t. while_res (\<lambda>(tp, _, _). tp \<noteq> []) unsuspend_step s = Inr t \<and>
    unsuspend_inv K P b0 S0 t \<and> \<not> (case t of (tp, _, _) \<Rightarrow> tp \<noteq> [])"
proof (rule while_res_total [where m = "\<lambda>(tp, _, mgr). 2 * card (dom (suspended_at mgr)) + length tp"])
  fix s assume inv: "unsuspend_inv K P b0 S0 s" and "case s of (tp, _, _) \<Rightarrow> tp \<noteq> []"
  then obtain tp b un mgr where s: "s = (tp @ [b], un, mgr)"
    by (cases s) (auto, metis append_butlast_last_id)
  from unsuspend_step_inv [OF inv [unfolded s]] obtain new mgr' where
    step: "unsuspend_step s = Inr (tp @ new, un @ new, mgr')" "unsuspend_inv K P b0 S0 (tp @ new, un @ new, mgr')"
    and new: "vb_reference ` set new \<subseteq> dom (suspended_at mgr)" "card (vb_reference ` set new) = length new"
    "dom (suspended_at mgr') = dom (suspended_at mgr) - vb_reference ` set new" unfolding s by blast
  have "card (dom (suspended_at mgr')) = card (dom (suspended_at mgr)) - length new"
    "length new \<le> card (dom (suspended_at mgr))"
    using new card_Diff_subset [OF _ new(1)] card_mono [OF _ new(1)] by (simp_all add: finite_dom_map_of)
  with step show "\<exists>s'. unsuspend_step s = Inr s' \<and> unsuspend_inv K P b0 S0 s' \<and>
      (case s' of (tp, _, mgr) \<Rightarrow> 2 * card (dom (suspended_at mgr)) + length tp)
      < (case s of (tp, _, mgr) \<Rightarrow> 2 * card (dom (suspended_at mgr)) + length tp)"
    by (auto simp: s)
qed (rule assms)

text \<open>The freed blocks, after the accepted one, are in causal order, and nothing they could free waits.\<close>

lemma unsuspend_children_spec:
  assumes mgr: "manager_inv K P {vb_reference b} mgr" and b: "b \<in> K" "vb_reference b \<notin> P"
    and anc: "set (vb_ancestors b) \<subseteq> P"
  shows "\<exists>un mgr'. try_unsuspend_children_blocks b mgr = Inr (un, mgr') \<and>
    set (b # un) \<subseteq> K \<and> distinct (map vb_reference (b # un)) \<and> vb_reference ` set (b # un) \<inter> P = {} \<and>
    causal_from P (b # un) \<and> manager_inv K (P \<union> vb_reference ` set (b # un)) {} mgr' \<and>
    dom (suspended_at mgr) = dom (suspended_at mgr') \<union> vb_reference ` set un"
proof -
  have "unsuspend_inv K P b (dom (suspended_at mgr)) ([b], [], mgr)"
    using assms by (auto simp: unsuspend_inv_def Let_def)
  from unsuspend_loop_total [OF this] obtain un mgr' where
    loop: "while_res (\<lambda>(tp, _, _). tp \<noteq> []) unsuspend_step ([b], [], mgr) = Inr ([], un, mgr')"
    and inv: "unsuspend_inv K P b (dom (suspended_at mgr)) ([], un, mgr')" by auto
  have "try_unsuspend_children_blocks b mgr = Inr (un, mgr')"
    by (simp add: try_unsuspend_children_blocks_def loop)
  with inv show ?thesis by (auto simp: unsuspend_inv_def Let_def)
qed

section \<open>The check against ancestors\<close>

text \<open>What is found for the ancestors of a block: the blocks they name.\<close>

lemma find_ancestors_known:
  assumes "\<forall>r \<in> set refs. dag_lookup ds r \<noteq> None \<or> map_of accept r \<noteq> None \<or> map_of reject r \<noteq> None"
    and "\<And>r b. dag_lookup ds r = Some b \<or> map_of accept r = Some b \<Longrightarrow> vb_reference b = r"
  shows "\<exists>found. find_ancestors accept reject (zip refs (map (dag_lookup ds) refs)) = Inr found \<and>
    (case found of
       Some bs \<Rightarrow> map vb_reference bs = refs \<and>
         (\<forall>b \<in> set bs. dag_lookup ds (vb_reference b) = Some b \<or> map_of accept (vb_reference b) = Some b)
     | None \<Rightarrow> \<exists>r \<in> set refs. dag_lookup ds r = None \<and> map_of accept r = None)"
  using assms
proof (induction refs)
  case (Cons r refs)
  then obtain found where found: "find_ancestors accept reject (zip refs (map (dag_lookup ds) refs)) = Inr found"
    "case found of Some bs \<Rightarrow> map vb_reference bs = refs \<and>
         (\<forall>b \<in> set bs. dag_lookup ds (vb_reference b) = Some b \<or> map_of accept (vb_reference b) = Some b)
     | None \<Rightarrow> \<exists>r \<in> set refs. dag_lookup ds r = None \<and> map_of accept r = None" by auto
  show ?case
  proof (cases "dag_lookup ds r")
    case (Some b)
    moreover have "vb_reference b = r" using Cons.prems(2) Some by blast
    ultimately show ?thesis using found by (cases found) auto
  next
    case none: None
    show ?thesis
    proof (cases "map_of accept r")
      case (Some b)
      moreover have "vb_reference b = r" using Cons.prems(2) Some by blast
      ultimately show ?thesis using found none by (cases found) auto
    next
      case None
      with none Cons.prems(1) show ?thesis by auto
    qed
  qed
qed simp

text \<open>
  Blocks in causal order are checked without a panic, whatever the verifier answers, and an accepted
  one has all its ancestors in the DAG or among the accepted ones.
\<close>

definition batch_ok :: "dag_state \<Rightarrow> block_map \<times> block_map \<Rightarrow> bool" where
  "batch_ok ds = (\<lambda>(accept, reject).
     (\<forall>r b. map_of accept r = Some b \<longrightarrow>
        vb_reference b = r \<and> set (vb_ancestors b) \<subseteq> dom (dag_lookup ds) \<union> dom (map_of accept)))"

context ancestor_checker
begin

lemma verify_one:
  assumes inv: "dag_inv ds" and ok: "batch_ok ds (accept, reject)"
    and anc: "set (vb_ancestors b) \<subseteq> dom (dag_lookup ds) \<union> dom (map_of accept) \<union> dom (map_of reject)"
  shows "\<exists>accept' reject'. verify_against_ancestors check ds b (accept, reject) = Inr (accept', reject') \<and>
    batch_ok ds (accept', reject') \<and>
    dom (map_of accept') \<union> dom (map_of reject') =
      insert (vb_reference b) (dom (map_of accept) \<union> dom (map_of reject))"
proof -
  have ref: "vb_reference x = r" if "dag_lookup ds r = Some x \<or> map_of accept r = Some x" for r x
    using that ok dag_lookup_ref(1) [OF inv] by (auto simp: batch_ok_def)
  obtain found where found:
    "find_ancestors accept reject (zip (vb_ancestors b) (map (dag_lookup ds) (vb_ancestors b))) = Inr found"
    "case found of
       Some bs \<Rightarrow> map vb_reference bs = vb_ancestors b \<and>
         (\<forall>b \<in> set bs. dag_lookup ds (vb_reference b) = Some b \<or> map_of accept (vb_reference b) = Some b)
     | None \<Rightarrow> \<exists>r \<in> set (vb_ancestors b). dag_lookup ds r = None \<and> map_of accept r = None"
    using find_ancestors_known [of "vb_ancestors b" ds accept reject] ref anc by blast
  let ?reject = "(accept, bm_insert (vb_reference b) b reject)"
  let ?accept = "(bm_insert (vb_reference b) b accept, reject)"
  have reject: "batch_ok ds ?reject" using ok by (simp add: batch_ok_def)
  show ?thesis
  proof (cases found)
    case None
    with found reject show ?thesis by (auto simp: verify_against_ancestors_def get_blocks_eq)
  next
    case (Some bs)
    with found(2) have bs: "map vb_reference bs = vb_ancestors b"
      "\<forall>x \<in> set bs. dag_lookup ds (vb_reference x) = Some x \<or> map_of accept (vb_reference x) = Some x" by auto
    have "vb_reference ` set bs = set (vb_ancestors b)" using bs(1) by (metis list.set_map)
    moreover have "vb_reference ` set bs \<subseteq> dom (dag_lookup ds) \<union> dom (map_of accept)"
      using bs(2) by (auto simp: dom_def)
    ultimately have sub: "set (vb_ancestors b) \<subseteq> dom (dag_lookup ds) \<union> dom (map_of accept)" by simp
    have accept: "batch_ok ds ?accept"
      using ok sub unfolding batch_ok_def by (auto split: if_splits)
    obtain result where "check b bs = Inr result" using answers [OF bs(1)] by blast
    with Some found(1) reject accept show ?thesis
      by (cases result) (auto simp: verify_against_ancestors_def get_blocks_eq)
  qed
qed

lemma verify_batch_total:
  "dag_inv ds \<Longrightarrow> batch_ok ds (accept, reject) \<Longrightarrow>
     causal_from (dom (dag_lookup ds) \<union> dom (map_of accept) \<union> dom (map_of reject)) bs \<Longrightarrow>
     \<exists>accept' reject'. for_each (verify_against_ancestors check ds) bs (accept, reject) = Inr (accept', reject') \<and>
       batch_ok ds (accept', reject') \<and>
       dom (map_of accept') \<union> dom (map_of reject') =
         vb_reference ` set bs \<union> dom (map_of accept) \<union> dom (map_of reject)"
proof (induction bs arbitrary: accept reject)
  case (Cons b bs)
  have "set (vb_ancestors b) \<subseteq> dom (dag_lookup ds) \<union> dom (map_of accept) \<union> dom (map_of reject)"
    using Cons.prems(3) by simp
  from verify_one [OF Cons.prems(1,2) this] obtain accept1 reject1 where
    one: "verify_against_ancestors check ds b (accept, reject) = Inr (accept1, reject1)"
    "batch_ok ds (accept1, reject1)"
    "dom (map_of accept1) \<union> dom (map_of reject1) =
      insert (vb_reference b) (dom (map_of accept) \<union> dom (map_of reject))" by blast
  have "dom (dag_lookup ds) \<union> dom (map_of accept1) \<union> dom (map_of reject1) =
      insert (vb_reference b) (dom (dag_lookup ds) \<union> dom (map_of accept) \<union> dom (map_of reject))"
    using one(3) by auto
  with Cons.prems(3) have "causal_from (dom (dag_lookup ds) \<union> dom (map_of accept1) \<union> dom (map_of reject1)) bs"
    by simp
  from Cons.IH [OF Cons.prems(1) one(2) this] obtain accept' reject' where
    rest: "for_each (verify_against_ancestors check ds) bs (accept1, reject1) = Inr (accept', reject')"
    "batch_ok ds (accept', reject')"
    "dom (map_of accept') \<union> dom (map_of reject') =
      vb_reference ` set bs \<union> dom (map_of accept1) \<union> dom (map_of reject1)" by blast
  have "dom (map_of accept') \<union> dom (map_of reject') =
      vb_reference ` set (b # bs) \<union> dom (map_of accept) \<union> dom (map_of reject)"
    unfolding rest(3) Un_assoc one(3) by (simp add: Un_assoc)
  with one(1) rest(1,2) show ?case by (auto simp del: list.set map_of.simps)
qed auto

end

end
