(* ===== verification/Manager_Properties.thy ===== *)
theory Manager_Properties
  imports Manager_Accept
begin

text \<open>
  The block manager and the DAG together. For a universe of blocks that the verifier accepts, every
  call of \<open>try_accept_blocks\<close> succeeds, keeps the invariants of both, and adds to the DAG exactly the
  blocks it returns, in causal order; a block it was given is in the DAG or suspended afterwards.
\<close>

section \<open>The blocks there are\<close>

text \<open>
  What the block verifier has established of every block before it reaches the manager, and that
  this authority does not equivocate. \<open>check\<close> accepts a block for its ancestors, each a block of the
  universe or a genesis block.
\<close>

definition genesis_like :: "verified_block \<Rightarrow> bool" where
  "genesis_like b \<longleftrightarrow> vb_round b = 0 \<and> vb_timestamp_ms b = 0"

definition block_universe ::
  "(verified_block \<Rightarrow> verified_block list \<Rightarrow> unit consensus_result res) \<Rightarrow> timestamp_ms \<Rightarrow> epoch_context
     \<Rightarrow> verified_block set \<Rightarrow> bool" where
  "block_universe check now cx K \<longleftrightarrow>
     (\<forall>b \<in> K. 0 < vb_round b \<and> vb_author b < committee_size (cx_committee cx) \<and> vb_timestamp_ms b \<le> now \<and>
        (\<forall>a \<in> set (vb_ancestors b). br_author a < committee_size (cx_committee cx) \<and> br_round a < vb_round b) \<and>
        (\<forall>as. map vb_reference as = vb_ancestors b \<longrightarrow> (\<forall>a \<in> set as. a \<in> K \<or> genesis_like a) \<longrightarrow>
           check b as = Inr (Inr ()))) \<and>
     (\<forall>b \<in> K. \<forall>c \<in> K. vb_author b = cx_own_index cx \<longrightarrow> vb_author c = vb_author b \<longrightarrow>
        vb_round c = vb_round b \<longrightarrow> vb_reference c = vb_reference b)"

definition manager_ok :: "verified_block set \<Rightarrow> block_manager \<times> dag_state \<Rightarrow> bool" where
  "manager_ok K = (\<lambda>(mgr, ds).
     dag_inv ds \<and> dag_causal ds \<and> (\<forall>r b. dag_lookup ds r = Some b \<longrightarrow> b \<in> K \<or> genesis_like b) \<and>
     manager_inv K (dom (dag_lookup ds)) {} mgr)"

lemma block_universeD:
  assumes "block_universe check now cx K" "b \<in> K"
  shows "0 < vb_round b" "vb_author b < committee_size (cx_committee cx)" "vb_timestamp_ms b \<le> now"
    and "\<forall>a \<in> set (vb_ancestors b). br_author a < committee_size (cx_committee cx) \<and> br_round a < vb_round b"
    and "map vb_reference as = vb_ancestors b \<Longrightarrow> \<forall>a \<in> set as. a \<in> K \<or> genesis_like a \<Longrightarrow>
      check b as = Inr (Inr ())"
  using assms unfolding block_universe_def by blast+

lemma block_universe_own:
  "block_universe check now cx K \<Longrightarrow> b \<in> K \<Longrightarrow> c \<in> K \<Longrightarrow> vb_author b = cx_own_index cx \<Longrightarrow>
     vb_author c = vb_author b \<Longrightarrow> vb_round c = vb_round b \<Longrightarrow> vb_reference c = vb_reference b"
  unfolding block_universe_def by blast

lemma manager_okD:
  assumes "manager_ok K (mgr, ds)"
  shows "dag_inv ds" "dag_causal ds" "dag_lookup ds r = Some b \<Longrightarrow> b \<in> K \<or> genesis_like b"
    and "manager_inv K (dom (dag_lookup ds)) {} mgr"
  using assms unfolding manager_ok_def by auto

section \<open>The check against ancestors\<close>

lemma verify_all_accept:
  assumes "block_universe check now (ds_context ds) K" "dag_inv ds"
    and "\<And>r b. dag_lookup ds r = Some b \<Longrightarrow> b \<in> K \<or> genesis_like b"
  shows "set bs \<subseteq> K \<Longrightarrow> causal_from (dom (dag_lookup ds) \<union> dom (map_of accept)) bs \<Longrightarrow>
    \<forall>r b. map_of accept r = Some b \<longrightarrow> vb_reference b = r \<and> b \<in> K \<Longrightarrow>
    for_each (verify_against_ancestors check ds) bs (accept, []) = Inr (foldl add_block accept bs, [])"
proof (induction bs arbitrary: accept)
  case (Cons b bs)
  have ref: "vb_reference x = r" if "dag_lookup ds r = Some x \<or> map_of accept r = Some x" for r x
    using that Cons.prems(3) dag_lookup_ref(1) [OF assms(2)] by blast
  have anc: "dag_lookup ds r \<noteq> None \<or> map_of accept r \<noteq> None" if "r \<in> set (vb_ancestors b)" for r
    using that Cons.prems(2) by auto
  then obtain found where found:
    "find_ancestors accept [] (zip (vb_ancestors b) (map (dag_lookup ds) (vb_ancestors b))) = Inr found"
    "case found of
       Some bs \<Rightarrow> map vb_reference bs = vb_ancestors b \<and>
         (\<forall>b \<in> set bs. dag_lookup ds (vb_reference b) = Some b \<or> map_of accept (vb_reference b) = Some b)
     | None \<Rightarrow> \<exists>r \<in> set (vb_ancestors b). dag_lookup ds r = None \<and> map_of accept r = None"
    using find_ancestors_known [of "vb_ancestors b" ds accept "[]"] ref by blast
  have "found \<noteq> None"
  proof
    assume "found = None"
    with found(2) obtain r where "r \<in> set (vb_ancestors b)" "dag_lookup ds r = None" "map_of accept r = None" by auto
    with anc [of r] show False by simp
  qed
  with found(2) obtain as where as: "found = Some as" "map vb_reference as = vb_ancestors b"
    "\<forall>b \<in> set as. dag_lookup ds (vb_reference b) = Some b \<or> map_of accept (vb_reference b) = Some b"
    by (cases found) auto
  have "a \<in> K \<or> genesis_like a" if "a \<in> set as" for a
    using that as(3) assms(3) [of "vb_reference a" a] Cons.prems(3) by blast
  with as(2) Cons.prems(1) have "check b as = Inr (Inr ())"
    by (intro block_universeD(5) [OF assms(1)]) auto
  with found(1) as(1) have "verify_against_ancestors check ds b (accept, []) = Inr (add_block accept b, [])"
    by (simp add: verify_against_ancestors_def get_blocks_eq)
  moreover have "for_each (verify_against_ancestors check ds) bs (add_block accept b, []) =
      Inr (foldl add_block (add_block accept b) bs, [])"
  proof (rule Cons.IH)
    show "causal_from (dom (dag_lookup ds) \<union> dom (map_of (add_block accept b))) bs"
      using Cons.prems(2) unfolding map_of_bm_insert dom_fun_upd by simp
  qed (use Cons.prems(1,3) in auto)
  ultimately show ?case by simp
qed simp

lemma sorted_causal_from:
  assumes "sorted_wrt (<) (map vb_reference bs)"
    and "\<And>b a. b \<in> set bs \<Longrightarrow> a \<in> set (vb_ancestors b) \<Longrightarrow>
      br_round a < vb_round b \<and> a \<in> P \<union> vb_reference ` set bs"
  shows "causal_from P bs"
  using assms
proof (induction bs arbitrary: P)
  case (Cons b bs)
  have least: "vb_reference b < vb_reference c" if "c \<in> set bs" for c using that Cons.prems(1) by simp
  have "a \<in> P" if a: "a \<in> set (vb_ancestors b)" for a
  proof -
    have "a < vb_reference b" using Cons.prems(2) [OF _ a] by (simp add: block_ref_less)
    then have "a \<notin> vb_reference ` set (b # bs)" using least by (force dest: less_trans)
    moreover have "a \<in> P \<union> vb_reference ` set (b # bs)" using Cons.prems(2) [OF _ a] by simp
    ultimately show ?thesis by blast
  qed
  moreover have "causal_from (insert (vb_reference b) P) bs"
  proof (rule Cons.IH)
    show "sorted_wrt (<) (map vb_reference bs)" using Cons.prems(1) by simp
    show "br_round a < vb_round c \<and> a \<in> insert (vb_reference b) P \<union> vb_reference ` set bs"
      if "c \<in> set bs" "a \<in> set (vb_ancestors c)" for c a
      using Cons.prems(2) [of c a] that by simp
  qed
  ultimately show ?case by auto
qed simp

lemma causal_from_mem:
  "causal_from P bs \<Longrightarrow> b \<in> set bs \<Longrightarrow> set (vb_ancestors b) \<subseteq> P \<union> vb_reference ` set bs"
  by (induction bs arbitrary: P) auto

section \<open>Accepting into the DAG\<close>

lemma accept_blocks_new:
  assumes "block_universe check now (ds_context ds) K"
  shows "dag_inv ds \<Longrightarrow> \<forall>r b. dag_lookup ds r = Some b \<longrightarrow> b \<in> K \<or> genesis_like b \<Longrightarrow> set bs \<subseteq> K \<Longrightarrow>
    \<forall>b \<in> set bs. dag_lookup ds (vb_reference b) = None \<Longrightarrow> distinct (map vb_reference bs) \<Longrightarrow>
    accept_blocks now bs ds = Inr (accept_all bs ds)"
  using assms
proof (induction bs arbitrary: ds)
  case (Cons b bs)
  have b: "b \<in> K" and new: "dag_lookup ds (vb_reference b) = None" using Cons.prems(3,4) by simp_all
  note u = block_universeD [OF Cons.prems(6) b]
  have own: "get_uncommitted_blocks_at_slot ds (slot_of (vb_reference b)) = []"
    if "vb_author b = cx_own_index (ds_context ds)"
  proof -
    have "c \<notin> set (get_uncommitted_blocks_at_slot ds (slot_of (vb_reference b)))" for c
    proof
      assume "c \<in> set (get_uncommitted_blocks_at_slot ds (slot_of (vb_reference b)))"
      then have "map_of (ds_recent_blocks ds) (vb_reference c) = Some c"
        and same: "vb_author c = vb_author b" "vb_round c = vb_round b"
        by (auto simp: set_uncommitted_at_slot [OF dag_invD(2) [OF Cons.prems(1)]] slot_of_eq_iff)
      then have c: "dag_lookup ds (vb_reference c) = Some c"
        using u(1) by (simp add: dag_lookup_def genesis_round_def)
      with Cons.prems(2) same u(1) have "c \<in> K" by (force simp: genesis_like_def)
      from block_universe_own [OF Cons.prems(6) b this that] same c new show False by simp
    qed
    then show ?thesis by (cases "get_uncommitted_blocks_at_slot ds (slot_of (vb_reference b))") auto
  qed
  have step: "accept_block now b ds = Inr (accepted_state b ds)"
    using Cons.prems(1) u new own by (intro accept_block_new) auto
  have look: "dag_lookup (accepted_state b ds) = (dag_lookup ds)(vb_reference b \<mapsto> b)"
    using u(1) by (simp add: accepted_lookup)
  have "accept_blocks now bs (accepted_state b ds) = Inr (accept_all bs (accepted_state b ds))"
  proof (rule Cons.IH)
    show "dag_inv (accepted_state b ds)" using Cons.prems(1) u new by (intro accepted_inv) auto
    show "\<forall>r c. dag_lookup (accepted_state b ds) r = Some c \<longrightarrow> c \<in> K \<or> genesis_like c"
      using Cons.prems(2) b by (auto simp: look)
    have "vb_reference b \<notin> vb_reference ` set bs" using Cons.prems(5) by simp
    then have "vb_reference c \<noteq> vb_reference b" if "c \<in> set bs" for c using that by (metis imageI)
    with Cons.prems(4) show "\<forall>c \<in> set bs. dag_lookup (accepted_state b ds) (vb_reference c) = None"
      by (simp add: look)
  qed (use Cons.prems in auto)
  with step show ?case by (simp add: accept_blocks_def)
qed (simp add: accept_blocks_def)

section \<open>One block\<close>

lemma accept_all_manager_ok:
  assumes u: "block_universe check now (ds_context ds) K" and ok: "manager_ok K (mgr, ds)"
    and new: "set bs \<subseteq> K" "sorted_wrt (<) (map vb_reference bs)" "vb_reference ` set bs \<inter> dom (dag_lookup ds) = {}"
    and anc: "\<And>b. b \<in> set bs \<Longrightarrow> set (vb_ancestors b) \<subseteq> dom (dag_lookup ds) \<union> vb_reference ` set bs"
    and mgr: "manager_inv K (dom (dag_lookup ds) \<union> vb_reference ` set bs) {} mgr'"
  shows "manager_ok K (mgr', accept_all bs ds)"
    and "dom (dag_lookup (accept_all bs ds)) = dom (dag_lookup ds) \<union> vb_reference ` set bs"
proof -
  have dist: "distinct (map vb_reference bs)" using new(2) by (simp add: strict_sorted_iff)
  have rounds: "\<forall>b \<in> set bs. vb_round b \<noteq> 0" using block_universeD(1) [OF u] new(1) by fastforce
  have keys: "distinct (map fst (block_entries bs))" using dist by (simp add: block_entries_def comp_def)
  note look = accept_all_lookup [OF rounds dist, of ds]
  have entry: "map_of (block_entries bs) r = Some b \<longleftrightarrow> b \<in> set bs \<and> vb_reference b = r" for r b
    unfolding map_of_eq_Some_iff [OF keys] by (auto simp: block_entries_def)
  have mem: "dag_lookup (accept_all bs ds) r = Some b \<longleftrightarrow>
      b \<in> set bs \<and> vb_reference b = r \<or> dag_lookup ds r = Some b" for r b
    unfolding look map_add_Some_iff entry
    using new(3) entry by (auto simp: map_of_eq_None_iff block_entries_def)
  then show dom: "dom (dag_lookup (accept_all bs ds)) = dom (dag_lookup ds) \<union> vb_reference ` set bs" by auto
  have inv: "dag_inv (accept_all bs ds)"
  proof (rule accept_all_inv [OF manager_okD(1) [OF ok] _ dist])
    have "dag_lookup ds (vb_reference b) = None" "vb_author b < num_authorities ds" if "b \<in> set bs" for b
      using that new(1,3) block_universeD(2) [OF u, of b] by blast+
    with rounds show "\<forall>b \<in> set bs. vb_round b \<noteq> 0 \<and> vb_author b < num_authorities ds \<and>
        dag_lookup ds (vb_reference b) = None" by simp
  qed
  have edge: "dag_lookup (accept_all bs ds) a \<noteq> None \<and> br_round a < br_round r"
    if look: "dag_lookup (accept_all bs ds) r = Some b" and "a \<in> set (vb_ancestors b)" for r b a
  proof -
    consider "b \<in> set bs" "vb_reference b = r" | "dag_lookup ds r = Some b" 
      using iffD1 [OF mem look] by (elim disjE conjE)
    then have "a \<in> dom (dag_lookup ds) \<union> vb_reference ` set bs \<and> br_round a < br_round r"
    proof cases
      case 1
      then have "b \<in> K" using new(1) by blast
      with block_universeD(4) [OF u this] that(2) 1(2) have "br_round a < br_round r" by auto
      with anc [OF 1(1)] that(2) show ?thesis by blast
    next
      case 2
      with manager_okD(2) [OF ok] that(2) show ?thesis unfolding dag_causal_def by blast
    qed
    then show ?thesis unfolding dom [symmetric] by blast
  qed
  have "dag_causal (accept_all bs ds)" unfolding dag_causal_def by (intro allI impI ballI edge)
  moreover have "\<forall>r b. dag_lookup (accept_all bs ds) r = Some b \<longrightarrow> b \<in> K \<or> genesis_like b"
    using mem new(1) manager_okD(3) [OF ok] by blast
  ultimately show "manager_ok K (mgr', accept_all bs ds)"
    using inv mgr unfolding manager_ok_def prod.case dom by blast
qed

definition accepts_more ::
  "verified_block set \<Rightarrow> dag_state \<Rightarrow> verified_block list \<Rightarrow> dag_state \<Rightarrow> bool" where
  "accepts_more K ds new ds' \<longleftrightarrow>
     set new \<subseteq> K \<and> ds' = accept_all new ds \<and> distinct (map vb_reference new) \<and>
     vb_reference ` set new \<inter> dom (dag_lookup ds) = {} \<and>
     dom (dag_lookup ds') = dom (dag_lookup ds) \<union> vb_reference ` set new \<and>
     causal_from (dom (dag_lookup ds)) new"

text \<open>A batch of freed blocks, given in causal order, is accepted as a whole.\<close>

lemma accept_batch_ok:
  assumes u: "block_universe check now (ds_context ds) K" and ok: "manager_ok K (mgr, ds)"
    and bs: "set bs \<subseteq> K" "distinct (map vb_reference bs)" "vb_reference ` set bs \<inter> dom (dag_lookup ds) = {}"
      "causal_from (dom (dag_lookup ds)) bs"
    and mgr: "manager_inv K (dom (dag_lookup ds) \<union> vb_reference ` set bs) {} mgr'"
  obtains accept where "for_each (verify_against_ancestors check ds) bs ([], []) = Inr (accept, [])"
    "accept_blocks now (map snd accept) ds = Inr (accept_all (map snd accept) ds)"
    "manager_ok K (mgr', accept_all (map snd accept) ds)"
    "accepts_more K ds (map snd accept) (accept_all (map snd accept) ds)" "set (map snd accept) = set bs"
proof -
  note m = manager_okD [OF ok]
  let ?accept = "foldl add_block [] bs"
  let ?new = "map snd ?accept"
  note added = added_blocks [OF bs(2)]
  have anc: "set (vb_ancestors b) \<subseteq> dom (dag_lookup ds) \<union> vb_reference ` set ?new" if "b \<in> set ?new" for b
    using causal_from_mem [OF bs(4), of b] that unfolding added(1) by blast
  have causal: "causal_from (dom (dag_lookup ds)) ?new"
  proof (rule sorted_causal_from [OF added(2)])
    fix b a assume "b \<in> set ?new" "a \<in> set (vb_ancestors b)"
    with anc [of b] block_universeD(4) [OF u, of b] bs(1)
    show "br_round a < vb_round b \<and> a \<in> dom (dag_lookup ds) \<union> vb_reference ` set ?new"
      unfolding added(1) by blast
  qed
  have dist: "distinct (map vb_reference ?new)" using added(2) by (simp only: strict_sorted_iff)
  have verified: "for_each (verify_against_ancestors check ds) bs ([], []) = Inr (?accept, [])"
    using verify_all_accept [OF u m(1,3), where bs = bs and accept = "[]"] bs(1,4) by simp
  have "\<forall>b \<in> set ?new. dag_lookup ds (vb_reference b) = None" using bs(3) unfolding added(1) by blast
  with m(3) bs(1) have accepted: "accept_blocks now ?new ds = Inr (accept_all ?new ds)"
    by (intro accept_blocks_new [OF u m(1) _ _ _ dist]) (simp_all only: added(1), blast)
  note after = accept_all_manager_ok [OF u ok, of ?new, unfolded added(1), OF bs(1) added(2) bs(3) _ mgr]
  have "manager_ok K (mgr', accept_all ?new ds)"
    and "accepts_more K ds ?new (accept_all ?new ds)"
    using after anc added(1) bs(1,3) dist causal unfolding accepts_more_def by simp_all
  with verified accepted added(1) show thesis by (intro that)
qed

lemma try_accept_step_ok:
  assumes u: "block_universe check now (ds_context ds) K" and ok: "manager_ok K (mgr, ds)" and b: "b \<in> K"
  shows "\<exists>new missing' mgr' ds'. try_accept_step check now b (accepted, missing, mgr, ds) =
      Inr (accepted @ new, missing', mgr', ds') \<and> manager_ok K (mgr', ds') \<and> accepts_more K ds new ds' \<and>
    dom (dag_lookup ds') \<union> dom (suspended_at mgr') =
      insert (vb_reference b) (dom (dag_lookup ds) \<union> dom (suspended_at mgr))"
proof -
  note m = manager_okD [OF ok]
  have same: "accepts_more K ds [] ds" by (simp add: accepts_more_def)
  have author: "vb_author b < num_authorities ds" using block_universeD(2) [OF u b] .
  have anc: "\<forall>a \<in> set (vb_ancestors b). br_author a < num_authorities ds"
    using block_universeD(4) [OF u b] by simp
  show ?thesis
  proof (rule try_accept_one_cases [OF m(1,4) b author anc])
    assume "try_accept_one_block ds b mgr = Inr (Processed, mgr)"
      and "suspended_at mgr (vb_reference b) \<noteq> None \<or> dag_lookup ds (vb_reference b) \<noteq> None"
    then show ?thesis using ok same
      by (intro exI [of _ "[]"] exI [of _ missing] exI [of _ mgr] exI [of _ ds])
        (auto simp: try_accept_step_def)
  next
    fix fetch mgr'
    assume "try_accept_one_block ds b mgr = Inr (Suspended fetch, mgr')" "dag_lookup ds (vb_reference b) = None"
      "manager_inv K (dom (dag_lookup ds)) {} mgr'"
      "dom (suspended_at mgr') = insert (vb_reference b) (dom (suspended_at mgr))"
    then show ?thesis using ok same
      by (intro exI [of _ "[]"] exI [of _ "bs_extend fetch missing"] exI [of _ mgr'] exI [of _ ds])
        (auto simp: try_accept_step_def manager_ok_def)
  next
    fix mgr1
    assume one: "try_accept_one_block ds b mgr = Inr (Accepted b, mgr1)"
      and new: "dag_lookup ds (vb_reference b) = None" "suspended_at mgr (vb_reference b) = None"
      and anc: "set (vb_ancestors b) \<subseteq> dom (dag_lookup ds)"
      and susp: "mg_suspended_blocks mgr1 = mg_suspended_blocks mgr"
      and mgr1: "manager_inv K (dom (dag_lookup ds)) {vb_reference b} mgr1"
    have "vb_reference b \<notin> dom (dag_lookup ds)" using new(1) by blast
    from unsuspend_children_spec [OF mgr1 b this anc] obtain un mgr2 where
      un: "try_unsuspend_children_blocks b mgr1 = Inr (un, mgr2)" "set (b # un) \<subseteq> K"
      "distinct (map vb_reference (b # un))" "vb_reference ` set (b # un) \<inter> dom (dag_lookup ds) = {}"
      "causal_from (dom (dag_lookup ds)) (b # un)"
      "manager_inv K (dom (dag_lookup ds) \<union> vb_reference ` set (b # un)) {} mgr2"
      "dom (suspended_at mgr1) = dom (suspended_at mgr2) \<union> vb_reference ` set un"
      by (elim exE conjE) (rule that; assumption)
    from accept_batch_ok [OF u ok un(2-6)] obtain accept where
      batch: "for_each (verify_against_ancestors check ds) (b # un) ([], []) = Inr (accept, [])"
      "accept_blocks now (map snd accept) ds = Inr (accept_all (map snd accept) ds)"
      "manager_ok K (mgr2, accept_all (map snd accept) ds)"
      "accepts_more K ds (map snd accept) (accept_all (map snd accept) ds)" "set (map snd accept) = set (b # un)" .
    have "try_accept_step check now b (accepted, missing, mgr, ds) =
        Inr (accepted @ map snd accept, missing, mgr2, accept_all (map snd accept) ds)"
      using one un(1) batch(1,2) by (simp add: try_accept_step_def Let_def del: for_each.simps)
    moreover have "dom (dag_lookup (accept_all (map snd accept) ds)) =
        dom (dag_lookup ds) \<union> vb_reference ` set (b # un)"
      using batch(4) unfolding accepts_more_def batch(5) by blast
    then have "dom (dag_lookup (accept_all (map snd accept) ds)) \<union> dom (suspended_at mgr2) =
        insert (vb_reference b) (dom (dag_lookup ds) \<union> dom (suspended_at mgr))"
      using un(7) unfolding susp by auto
    ultimately show ?thesis using batch(3,4) by blast
  qed
qed

section \<open>Many blocks\<close>

lemma accepts_more_trans:
  assumes "accepts_more K ds xs ds1" "accepts_more K ds1 ys ds2"
  shows "accepts_more K ds (xs @ ys) ds2"
proof -
  note x = assms(1) [unfolded accepts_more_def] and y = assms(2) [unfolded accepts_more_def]
  have dom: "dom (dag_lookup ds1) = dom (dag_lookup ds) \<union> vb_reference ` set xs" using x by blast
  have "vb_reference ` set xs \<inter> vb_reference ` set ys = {}" using y unfolding dom by blast
  then have "distinct (map vb_reference (xs @ ys))" using x y by (simp add: disjoint_iff)
  moreover have "vb_reference ` set (xs @ ys) \<inter> dom (dag_lookup ds) = {}"
    using x y unfolding dom set_append image_Un by blast
  moreover have "dom (dag_lookup ds2) = dom (dag_lookup ds) \<union> vb_reference ` set (xs @ ys)"
    using y unfolding dom set_append image_Un by blast
  moreover have "causal_from (dom (dag_lookup ds)) (xs @ ys)"
    using x y unfolding dom causal_from_append by blast
  moreover have "ds2 = accept_all (xs @ ys) ds" using x y by (simp add: accept_all_def)
  ultimately show ?thesis using x y unfolding accepts_more_def by simp
qed

lemma accepts_more_context: "accepts_more K ds new ds' \<Longrightarrow> ds_context ds' = ds_context ds"
  by (simp add: accepts_more_def)

lemma try_accept_all_ok:
  assumes "block_universe check now (ds_context ds) K" "manager_ok K (mgr, ds)" "set bs \<subseteq> K"
  shows "\<exists>new missing' mgr' ds'. for_each (try_accept_step check now) bs (accepted, missing, mgr, ds) =
      Inr (accepted @ new, missing', mgr', ds') \<and> manager_ok K (mgr', ds') \<and> accepts_more K ds new ds' \<and>
    dom (dag_lookup ds') \<union> dom (suspended_at mgr') =
      vb_reference ` set bs \<union> (dom (dag_lookup ds) \<union> dom (suspended_at mgr))"
  using assms
proof (induction bs arbitrary: accepted missing mgr ds)
  case Nil
  then show ?case
    by (intro exI [of _ "[]"] exI [of _ missing] exI [of _ mgr] exI [of _ ds]) (simp add: accepts_more_def)
next
  case (Cons b bs)
  from try_accept_step_ok [OF Cons.prems(1,2), of b accepted missing] Cons.prems(3)
  obtain new1 missing1 mgr1 ds1 where
    one: "try_accept_step check now b (accepted, missing, mgr, ds) = Inr (accepted @ new1, missing1, mgr1, ds1)"
    "manager_ok K (mgr1, ds1)" "accepts_more K ds new1 ds1"
    "dom (dag_lookup ds1) \<union> dom (suspended_at mgr1) =
      insert (vb_reference b) (dom (dag_lookup ds) \<union> dom (suspended_at mgr))" by (meson list.set_intros(1) subsetD)
  have "block_universe check now (ds_context ds1) K"
    using Cons.prems(1) accepts_more_context [OF one(3)] by simp
  moreover have "set bs \<subseteq> K" using Cons.prems(3) by simp
  ultimately have "\<exists>new2 missing2 mgr2 ds2.
      for_each (try_accept_step check now) bs (accepted @ new1, missing1, mgr1, ds1) =
        Inr ((accepted @ new1) @ new2, missing2, mgr2, ds2) \<and>
      manager_ok K (mgr2, ds2) \<and> accepts_more K ds1 new2 ds2 \<and>
      dom (dag_lookup ds2) \<union> dom (suspended_at mgr2) =
        vb_reference ` set bs \<union> (dom (dag_lookup ds1) \<union> dom (suspended_at mgr1))"
    by (rule Cons.IH [OF _ one(2)])
  then obtain new2 missing2 mgr2 ds2 where
    rest: "for_each (try_accept_step check now) bs (accepted @ new1, missing1, mgr1, ds1) =
      Inr ((accepted @ new1) @ new2, missing2, mgr2, ds2)"
    "manager_ok K (mgr2, ds2)" "accepts_more K ds1 new2 ds2"
    "dom (dag_lookup ds2) \<union> dom (suspended_at mgr2) =
      vb_reference ` set bs \<union> (dom (dag_lookup ds1) \<union> dom (suspended_at mgr1))"
    by (elim exE conjE) (rule that; assumption)
  have "for_each (try_accept_step check now) (b # bs) (accepted, missing, mgr, ds) =
      Inr (accepted @ (new1 @ new2), missing2, mgr2, ds2)"
    using one(1) rest(1) by simp
  moreover have "dom (dag_lookup ds2) \<union> dom (suspended_at mgr2) =
      vb_reference ` set (b # bs) \<union> (dom (dag_lookup ds) \<union> dom (suspended_at mgr))"
    unfolding rest(4) one(4) by simp
  ultimately show ?case using rest(2) accepts_more_trans [OF one(3) rest(3)] by (intro exI conjI)
qed

lemma try_accept_blocks_ok:
  assumes "block_universe check now (ds_context ds) K" "manager_ok K (mgr, ds)" "set blocks \<subseteq> K"
  shows "\<exists>accepted missing mgr' ds'. try_accept_blocks check now blocks (mgr, ds) = Inr ((accepted, missing), (mgr', ds')) \<and>
    manager_ok K (mgr', ds') \<and> accepts_more K ds accepted ds' \<and>
    dom (dag_lookup ds') \<union> dom (suspended_at mgr') =
      vb_reference ` set blocks \<union> (dom (dag_lookup ds) \<union> dom (suspended_at mgr))"
proof -
  have "set (sort_key vb_round blocks) \<subseteq> K" using assms(3) by simp
  from try_accept_all_ok [OF assms(1,2) this, of "[]" "[]"] show ?thesis
    by (fastforce simp: try_accept_blocks_def)
qed

section \<open>Properties\<close>

text \<open>C21: for blocks that the verifier accepts, \<open>BlockManager::try_accept_blocks\<close> never panics, whatever
  the order in which they arrive. It keeps the invariants of the manager and of the DAG, adds to the
  DAG exactly the blocks it returns, none of which was there and each after its ancestors, and
  afterwards every block it was given or that was suspended is in the DAG or suspended.\<close>

theorem try_accept_blocks_accepts_causally:
  assumes "block_universe check now (ds_context ds) K" "manager_ok K (mgr, ds)" "set blocks \<subseteq> K"
  shows "\<exists>accepted missing mgr' ds'. try_accept_blocks check now blocks (mgr, ds) = Inr ((accepted, missing), (mgr', ds')) \<and>
    manager_ok K (mgr', ds') \<and> accepts_more K ds accepted ds' \<and>
    dom (dag_lookup ds') \<union> dom (suspended_at mgr') =
      vb_reference ` set blocks \<union> (dom (dag_lookup ds) \<union> dom (suspended_at mgr))"
  using assms by (rule try_accept_blocks_ok)

text \<open>The blocks of the layered network, up to round 20.\<close>

definition ex_universe :: "verified_block set" where
  "ex_universe = (\<Union>r \<in> {1..20}. set (ex_layer r))"

lemma ex_universe_block:
  assumes "b \<in> ex_universe"
  obtains r a where "1 \<le> r" "r \<le> 20" "a < 4" "b = ex_layer r ! a" "vb_timestamp_ms b = r"
    "vb_ancestors b = map vb_reference (ex_layer (r - 1))"
proof -
  from assms obtain r where r: "1 \<le> r" "r \<le> 20" "b \<in> set (ex_layer r)" by (auto simp: ex_universe_def)
  then obtain a where a: "a < 4" "b = ex_layer r ! a" by (auto simp: ex_layer_mem)
  moreover have "vb_timestamp_ms (ex_layer r ! a) = r" using r(1) a(1) by (cases r) (simp_all add: ex_layer.simps)
  ultimately show thesis using that r by simp
qed

lemma ex_universe_ok: "block_universe check_ancestors 20 ex_context ex_universe"
proof -
  have size: "committee_size (cx_committee ex_context) = 4" by (simp add: ex_context_def ex_committee_def committee_size_def)
  have check: "check_ancestors b as = Inr (Inr ())"
    if b: "b \<in> ex_universe" and as: "map vb_reference as = vb_ancestors b" "\<forall>a \<in> set as. a \<in> ex_universe \<or> genesis_like a"
    for b as
  proof -
    obtain r where r: "vb_timestamp_ms b = r" "vb_ancestors b = map vb_reference (ex_layer (r - 1))"
      using ex_universe_block [OF b] by metis
    have "vb_timestamp_ms a \<le> r" if "a \<in> set as" for a
    proof -
      have "vb_reference a \<in> set (vb_ancestors b)" using that as(1) by (metis imageI list.set_map)
      then obtain i where "i < 4" "vb_reference a = vb_reference (ex_layer (r - 1) ! i)"
        unfolding r(2) by (auto simp: ex_layer_mem)
      then have round: "vb_round a = r - 1" by (metis vb_reference_sel(1) ex_layer_nth)
      from as(2) that consider "a \<in> ex_universe" | "genesis_like a" by blast
      then show ?thesis
      proof cases
        case 1
        from ex_universe_block [OF this] obtain q i where "i < 4" "a = ex_layer q ! i" "vb_timestamp_ms a = q" by metis
        with round show ?thesis by simp
      qed (simp add: genesis_like_def)
    qed
    then show ?thesis using check_ancestors_eq [OF as(1)] r(1) by simp
  qed
  have shape: "0 < vb_round b \<and> vb_author b < 4 \<and> vb_timestamp_ms b \<le> 20 \<and>
      (\<forall>a \<in> set (vb_ancestors b). br_author a < 4 \<and> br_round a < vb_round b)" if "b \<in> ex_universe" for b
  proof (rule ex_universe_block [OF that])
    fix r i assume "1 \<le> r" "r \<le> 20" "i < 4" "b = ex_layer r ! i" "vb_timestamp_ms b = r"
      "vb_ancestors b = map vb_reference (ex_layer (r - 1))"
    then show ?thesis by (auto simp: ex_layer_mem)
  qed
  have slot: "vb_reference c = vb_reference b"
    if u: "b \<in> ex_universe" "c \<in> ex_universe" and same: "vb_author c = vb_author b" "vb_round c = vb_round b" for b c
  proof -
    obtain r a where b: "b = ex_layer r ! a" "a < 4" using ex_universe_block [OF u(1)] by metis
    obtain q i where c: "c = ex_layer q ! i" "i < 4" using ex_universe_block [OF u(2)] by metis
    show ?thesis using same b c by simp
  qed
  show ?thesis
    unfolding block_universe_def size
    by (intro conjI ballI impI allI check slot) (use shape in blast)+
qed

lemma ex_start_ok: "manager_ok K (BlockManager_new, ex_dag)"
proof -
  have wf: "genesis_wf ex_dag" using dag_invD(1) [OF layered_inv [of 0]] by simp
  have "genesis_like b" if look: "dag_lookup ex_dag r = Some b" for r b
  proof -
    have "br_round r = 0" using layered_mem [of 0 r b] look by simp
    with look have "map_of (ds_genesis ex_dag) r = Some b" by (simp add: dag_lookup_def genesis_round_def)
    from genesis_lookup [OF wf this] show ?thesis by (auto simp: genesis_like_def)
  qed
  then show ?thesis
    using layered_inv [of 0] layered_causal [of 0] manager_inv_new by (simp add: manager_ok_def)
qed

theorem try_accept_blocks_accepts_causally_witness:
  "\<exists>accepted missing mgr ds.
    try_accept_blocks check_ancestors 20 (ex_layer 2 @ ex_layer 1) (BlockManager_new, ex_dag) =
      Inr ((accepted, missing), (mgr, ds)) \<and>
    manager_ok ex_universe (mgr, ds) \<and> accepts_more ex_universe ex_dag accepted ds"
proof -
  have "set (ex_layer 2 @ ex_layer 1) \<subseteq> ex_universe" unfolding ex_universe_def by fastforce
  moreover have "ds_context ex_dag = ex_context" using layered_sel(1) [of 0] by simp
  ultimately show ?thesis
    using try_accept_blocks_accepts_causally [of check_ancestors 20 ex_dag ex_universe BlockManager_new "ex_layer 2 @ ex_layer 1"]
      ex_universe_ok ex_start_ok by metis
qed


definition ex_waiting :: "block_manager \<times> dag_state" where
  "ex_waiting = (case try_accept_blocks check_ancestors 20 [ex_layer 2 ! 0] (BlockManager_new, ex_dag) of
     Inr (_, s) \<Rightarrow> s | Inl _ \<Rightarrow> (BlockManager_new, ex_dag))"

lemma ex_waiting_ok:
  "manager_ok ex_universe (fst ex_waiting, snd ex_waiting)"
  "block_universe check_ancestors 20 (ds_context (snd ex_waiting)) ex_universe"
proof -
  have ctx: "ds_context ex_dag = ex_context" using layered_sel(1) [of 0] by simp
  have "ex_layer 2 ! 0 \<in> set (ex_layer 2)" by (rule nth_mem) simp
  then have "set [ex_layer 2 ! 0] \<subseteq> ex_universe"
    unfolding ex_universe_def by (auto intro!: bexI [of _ "2 :: nat"])
  from try_accept_blocks_ok [OF _ ex_start_ok this, of check_ancestors 20] ctx ex_universe_ok
  obtain accepted missing mgr ds where
    run: "try_accept_blocks check_ancestors 20 [ex_layer 2 ! 0] (BlockManager_new, ex_dag) = Inr ((accepted, missing), (mgr, ds))"
    "manager_ok ex_universe (mgr, ds)" "accepts_more ex_universe ex_dag accepted ds" by auto
  with ctx ex_universe_ok accepts_more_context [OF run(3)]
  show "manager_ok ex_universe (fst ex_waiting, snd ex_waiting)"
    "block_universe check_ancestors 20 (ds_context (snd ex_waiting)) ex_universe" by (simp_all add: ex_waiting_def)
qed


text \<open>One batch that becomes acceptable at once is checked against its ancestors without a panic,
  whatever timestamps its blocks carry: given in causal order, each block is either accepted, with
  all its ancestors in the DAG or accepted, or rejected.\<close>

theorem batch_check_never_panics:
  assumes "dag_inv ds" "causal_from (dom (dag_lookup ds)) bs"
  shows "\<exists>accept reject. for_each (verify_against_ancestors check_ancestors ds) bs ([], []) = Inr (accept, reject) \<and>
    vb_reference ` set bs = dom (map_of accept) \<union> dom (map_of reject) \<and>
    (\<forall>r b. map_of accept r = Some b \<longrightarrow> set (vb_ancestors b) \<subseteq> dom (dag_lookup ds) \<union> dom (map_of accept))"
  using signed.verify_batch_total [OF assms(1), of "[]" "[]" bs] assms(2) by (auto simp: batch_ok_def)

theorem batch_check_never_panics_witness:
  "\<exists>accept reject. for_each (verify_against_ancestors check_ancestors ex_dag) (ex_layer 1 @ ex_layer 2) ([], []) =
    Inr (accept, reject) \<and> vb_reference ` set (ex_layer 1 @ ex_layer 2) = dom (map_of accept) \<union> dom (map_of reject)"
proof -
  have ref: "\<exists>y. dag_lookup ex_dag (vb_reference b) = Some y" if "b \<in> set ex_genesis" for b
  proof -
    from that obtain a where "a < 4" "b = ex_layer 0 ! a" using ex_layer_mem [of b 0] by auto
    with layered_lookup [of 0 "vb_reference b"] ex_layer_nth [of a 0] show ?thesis
      by (auto simp del: ex_layer.simps(1))
  qed
  have "causal_from (dom (dag_lookup ex_dag)) (ex_layer 1 @ ex_layer 2)"
    unfolding causal_from_append using ref
    by (intro conjI causal_from_all) (auto simp: ex_layer_mem simp del: not_None_eq)
  from batch_check_never_panics [OF _ this] layered_inv [of 0] show ?thesis by auto
qed

definition ex_parent :: verified_block where
  "ex_parent = ex_block 1 0 9 (map vb_reference ex_genesis)"

definition ex_sibling :: verified_block where
  "ex_sibling = ex_block 2 2 9 [vb_reference ex_parent]"

definition ex_late :: verified_block where
  "ex_late = ex_block 2 1 5 [vb_reference ex_parent]"

definition ex_child :: verified_block where
  "ex_child = ex_block 3 3 12 [vb_reference ex_late, vb_reference ex_sibling]"


end
