(* ===== verification/Leader_Scoring.thy ===== *)
theory Leader_Scoring
  imports Base_Committer
begin

text \<open>
  Reputation scores (\<^verbatim>\<open>consensus/core/src/leader_scoring.rs\<close>,
  \<^verbatim>\<open>consensus/core/src/leader_scoring_strategy.rs\<close>): the blocks of the commits since the last change of
  schedule, and the four strategies that score authorities by their votes and certificates for the
  committed leaders. A \<open>HashMap\<close> that is iterated over is a map ordered by its keys; the sums taken
  over it do not depend on the order.
\<close>

section \<open>Unscored sub-dags\<close>

record unscored_subdag =
  us_context :: epoch_context
  us_commit_range :: commit_range
  us_committed_leaders :: "block_ref list"
  us_blocks :: "(block_ref \<times> verified_block) list"

text \<open>The blocks of sub-dags, which must have consecutive commit indices.\<close>

fun contiguous_blocks :: "committed_sub_dag list \<Rightarrow> verified_block list res" where
  "contiguous_blocks (previous # subdag # subdags) =
     (if cr_index (sd_commit_ref subdag) \<noteq> u32_add (cr_index (sd_commit_ref previous)) 1
      then Inl (SchedulePanic NonContiguousSubdags)
      else and_then (contiguous_blocks (subdag # subdags)) (\<lambda>bs. Inr (sd_blocks previous @ bs)))"
| "contiguous_blocks [subdag] = Inr (sd_blocks subdag)"
| "contiguous_blocks [] = Inr []"

definition UnscoredSubdag_new :: "epoch_context \<Rightarrow> committed_sub_dag list \<Rightarrow> unscored_subdag res" where
  "UnscoredSubdag_new cx subdags =
     and_then (contiguous_blocks subdags) (\<lambda>blocks.
     let m = foldl (\<lambda>m b. bm_insert (vb_reference b) b m) [] blocks in
     and_then (expect (first_opt subdags) (SchedulePanic NoUnscoredSubdags)) (\<lambda>first.
     and_then (expect (last_opt subdags) (SchedulePanic NoUnscoredSubdags)) (\<lambda>final.
     and_then (assert_that (m \<noteq> []) (SchedulePanic SubdagWithoutBlocks)) (\<lambda>_.
       Inr \<lparr> us_context = cx,
             us_commit_range = CommitRange (cr_index (sd_commit_ref first))
                                 (u32_add (cr_index (sd_commit_ref final)) 1),
             us_committed_leaders = map sd_leader subdags, us_blocks = m \<rparr>))))"

definition us_get_block :: "unscored_subdag \<Rightarrow> block_ref \<Rightarrow> verified_block option" where
  "us_get_block sub r = map_of (us_blocks sub) r"

definition us_get_blocks_at_slot :: "unscored_subdag \<Rightarrow> slot \<Rightarrow> verified_block list" where
  "us_get_blocks_at_slot sub s =
     map snd (filter (\<lambda>(r, _). BlockRef (slot_round s) (slot_authority s) digest_min \<le> r \<and>
                               r \<le> BlockRef (slot_round s) (slot_authority s) digest_max) (us_blocks sub))"

definition us_get_blocks_at_round :: "unscored_subdag \<Rightarrow> round \<Rightarrow> verified_block list res" where
  "us_get_blocks_at_round sub rnd =
     (if u32_add rnd 1 < rnd then Inl InvalidRange
      else Inr (map snd (filter (\<lambda>(r, _). BlockRef rnd 0 digest_min \<le> r \<and>
                                          r < BlockRef (u32_add rnd 1) 0 digest_min) (us_blocks sub))))"

text \<open>
  The loop over ancestors: unlike in the committer, an ancestor that is not among the blocks ends
  the search. \<open>deeper\<close> is the recursive call.
\<close>

fun first_leader_support ::
  "(block_ref \<Rightarrow> verified_block option) \<Rightarrow> (verified_block \<Rightarrow> block_ref option res) \<Rightarrow> slot
     \<Rightarrow> block_ref list \<Rightarrow> block_ref option res" where
  "first_leader_support get deeper leader_slot [] = Inr None"
| "first_leader_support get deeper leader_slot (a # ancestors) =
     (if slot_of a = leader_slot then Inr (Some a)
      else if br_round a \<le> slot_round leader_slot then first_leader_support get deeper leader_slot ancestors
      else case get a of
        None \<Rightarrow> Inr None
      | Some b \<Rightarrow> and_then (deeper b) (\<lambda>support.
          case support of
            Some r \<Rightarrow> Inr (Some r)
          | None \<Rightarrow> first_leader_support get deeper leader_slot ancestors))"

primrec find_supported_leader_fuel ::
  "unscored_subdag \<Rightarrow> nat \<Rightarrow> slot \<Rightarrow> verified_block \<Rightarrow> block_ref option res" where
  "find_supported_leader_fuel sub 0 leader_slot from_block = Inl Diverges"
| "find_supported_leader_fuel sub (Suc n) leader_slot from_block =
     (if vb_round from_block < slot_round leader_slot then Inr None
      else first_leader_support (us_get_block sub) (find_supported_leader_fuel sub n leader_slot)
             leader_slot (vb_ancestors from_block))"

definition find_supported_leader_block ::
  "unscored_subdag \<Rightarrow> slot \<Rightarrow> verified_block \<Rightarrow> block_ref option res" where
  "find_supported_leader_block sub leader_slot from_block =
     find_supported_leader_fuel sub (Suc (vb_round from_block)) leader_slot from_block"

definition us_is_vote :: "unscored_subdag \<Rightarrow> verified_block \<Rightarrow> verified_block \<Rightarrow> bool res" where
  "us_is_vote sub potential_vote leader_block =
     (let reference = vb_reference leader_block in
      and_then (find_supported_leader_block sub (slot_of reference) potential_vote)
        (\<lambda>support. Inr (support = Some reference)))"

definition us_cached_is_vote ::
  "unscored_subdag \<Rightarrow> verified_block \<Rightarrow> block_ref \<Rightarrow> (block_ref \<rightharpoonup> bool) \<Rightarrow> (bool \<times> (block_ref \<rightharpoonup> bool)) res" where
  "us_cached_is_vote sub leader_block reference all_votes =
     (case all_votes reference of
        Some v \<Rightarrow> Inr (v, all_votes)
      | None \<Rightarrow>
          (case us_get_block sub reference of
             Some potential_vote \<Rightarrow>
               and_then (us_is_vote sub potential_vote leader_block) (\<lambda>v.
                 Inr (v, all_votes(reference \<mapsto> v)))
           | None \<Rightarrow> Inr (False, all_votes)))"

fun us_certificate_loop ::
  "unscored_subdag \<Rightarrow> verified_block \<Rightarrow> block_ref list \<Rightarrow> stake_aggregator
     \<Rightarrow> (block_ref \<rightharpoonup> bool) \<Rightarrow> (bool \<times> (block_ref \<rightharpoonup> bool)) res" where
  "us_certificate_loop sub leader_block [] agg all_votes = Inr (False, all_votes)"
| "us_certificate_loop sub leader_block (r # refs) agg all_votes =
     and_then (us_cached_is_vote sub leader_block r all_votes) (\<lambda>(v, all_votes').
       if v then
         and_then (agg_add quorum_is_threshold (br_author r) (cx_committee (us_context sub)) agg) (\<lambda>(reached, agg').
           if reached then Inr (True, all_votes')
           else us_certificate_loop sub leader_block refs agg' all_votes')
       else us_certificate_loop sub leader_block refs agg all_votes')"

definition us_is_certificate ::
  "unscored_subdag \<Rightarrow> verified_block \<Rightarrow> verified_block \<Rightarrow> (block_ref \<rightharpoonup> bool)
     \<Rightarrow> (bool \<times> (block_ref \<rightharpoonup> bool)) res" where
  "us_is_certificate sub potential_certificate leader_block all_votes =
     us_certificate_loop sub leader_block (vb_ancestors potential_certificate) agg_new all_votes"

section \<open>Scoring strategies\<close>

definition add_score :: "authority_index \<Rightarrow> nat \<Rightarrow> nat list \<Rightarrow> nat list res" where
  "add_score a score scores = and_then (vec_get scores a) (\<lambda>s. vec_set scores a (u64_add s score))"

text \<open>How each strategy begins: nothing to score without a leader block, and never two of them.\<close>

definition score_leader ::
  "(verified_block \<Rightarrow> nat list \<Rightarrow> nat list res) \<Rightarrow> unscored_subdag \<Rightarrow> slot \<Rightarrow> nat list res" where
  "score_leader score sub leader_slot =
     (let scores = replicate (committee_size (cx_committee (us_context sub))) 0;
          leader_blocks = us_get_blocks_at_slot sub leader_slot
      in case leader_blocks of
           [] \<Rightarrow> Inr scores
         | leader_block # _ \<Rightarrow>
             and_then (assert_that (length leader_blocks = 1) (SchedulePanic SeveralLeaderBlocks)) (\<lambda>_.
               score leader_block scores))"

definition scoring_decision_round :: "slot \<Rightarrow> round" where
  "scoring_decision_round leader_slot = u32_sub (u32_add (slot_round leader_slot) default_wave_length) 1"

type_synonym vote_tally = "(block_ref \<times> bool \<times> stake_aggregator) list"

text \<open>An ancestor of a decision block, in the tally of votes with the stake that certifies them.\<close>

definition tally_vote ::
  "unscored_subdag \<Rightarrow> verified_block \<Rightarrow> authority_index \<Rightarrow> block_ref \<Rightarrow> vote_tally \<Rightarrow> vote_tally res" where
  "tally_vote sub leader_block a r votes =
     (let cm = cx_committee (us_context sub) in
      case map_of votes r of
        Some (v, agg) \<Rightarrow>
          if v then and_then (agg_add quorum_is_threshold a cm agg) (\<lambda>(_, agg'). Inr (bm_insert r (v, agg') votes))
          else Inr votes
      | None \<Rightarrow>
          (case us_get_block sub r of
             Some potential_vote \<Rightarrow>
               and_then (us_is_vote sub potential_vote leader_block) (\<lambda>v.
               and_then (agg_add quorum_is_threshold a cm agg_new) (\<lambda>(_, agg).
                 Inr (bm_insert r (v, agg) votes)))
           | None \<Rightarrow> Inr votes))"

definition tally_votes :: "unscored_subdag \<Rightarrow> verified_block \<Rightarrow> slot \<Rightarrow> vote_tally res" where
  "tally_votes sub leader_block leader_slot =
     and_then (us_get_blocks_at_round sub (scoring_decision_round leader_slot)) (\<lambda>decision_blocks.
       for_each (\<lambda>cert. for_each (tally_vote sub leader_block (br_author (vb_reference cert))) (vb_ancestors cert))
         decision_blocks [])"

definition certified_vote_v2_scores :: "unscored_subdag \<Rightarrow> slot \<Rightarrow> nat list res" where
  "certified_vote_v2_scores sub leader_slot =
     score_leader (\<lambda>leader_block scores.
       and_then (tally_votes sub leader_block leader_slot) (\<lambda>votes.
         for_each (\<lambda>(r, v, agg) scores.
             if v then add_score (br_author r) (sa_stake agg) scores else Inr scores) votes scores))
       sub leader_slot"

definition certified_vote_v1_scores :: "unscored_subdag \<Rightarrow> slot \<Rightarrow> nat list res" where
  "certified_vote_v1_scores sub leader_slot =
     score_leader (\<lambda>leader_block scores.
       and_then (tally_votes sub leader_block leader_slot) (\<lambda>votes.
         for_each (\<lambda>(r, v, agg) scores.
             if v \<and> agg_reached_threshold quorum_is_threshold (cx_committee (us_context sub)) agg
             then add_score (br_author r) 1 scores else Inr scores) votes scores))
       sub leader_slot"

definition vote_scores :: "unscored_subdag \<Rightarrow> slot \<Rightarrow> nat list res" where
  "vote_scores sub leader_slot =
     score_leader (\<lambda>leader_block scores.
       and_then (us_get_blocks_at_round sub (u32_add (slot_round leader_slot) 1)) (\<lambda>voting_blocks.
         for_each (\<lambda>b scores.
             and_then (us_is_vote sub b leader_block) (\<lambda>v.
               if v then add_score (vb_author b) 1 scores else Inr scores)) voting_blocks scores))
       sub leader_slot"

definition certificate_scores :: "unscored_subdag \<Rightarrow> slot \<Rightarrow> nat list res" where
  "certificate_scores sub leader_slot =
     score_leader (\<lambda>leader_block scores.
       and_then (us_get_blocks_at_round sub (scoring_decision_round leader_slot)) (\<lambda>decision_blocks.
       and_then (for_each (\<lambda>b (scores, all_votes).
             and_then (us_is_certificate sub b leader_block all_votes) (\<lambda>(c, all_votes').
               if c then and_then (add_score (br_author (vb_reference b)) 1 scores) (\<lambda>scores'. Inr (scores', all_votes'))
               else Inr (scores, all_votes'))) decision_blocks (scores, Map.empty)) (\<lambda>(scores, _).
         Inr scores)))
       sub leader_slot"

datatype scoring_strategy =
    VoteScoringStrategy | CertifiedVoteScoringStrategyV1 | CertifiedVoteScoringStrategyV2
  | CertificateScoringStrategy

fun calculate_scores_for_leader :: "scoring_strategy \<Rightarrow> unscored_subdag \<Rightarrow> slot \<Rightarrow> nat list res" where
  "calculate_scores_for_leader VoteScoringStrategy = vote_scores"
| "calculate_scores_for_leader CertifiedVoteScoringStrategyV1 = certified_vote_v1_scores"
| "calculate_scores_for_leader CertifiedVoteScoringStrategyV2 = certified_vote_v2_scores"
| "calculate_scores_for_leader CertificateScoringStrategy = certificate_scores"

fun leader_scoring_round_range :: "scoring_strategy \<Rightarrow> round \<Rightarrow> round \<Rightarrow> (round \<times> round) res" where
  "leader_scoring_round_range VoteScoringStrategy min_round max_round =
     and_then (assert_that (min_round < max_round) (SchedulePanic ScoringRangeTooShort)) (\<lambda>_.
       Inr (min_round, max_round))"
| "leader_scoring_round_range _ min_round max_round =
     and_then (assert_that (min_round < u32_sub max_round 1) (SchedulePanic ScoringRangeTooShort)) (\<lambda>_.
       Inr (min_round, max_round - 1))"

section \<open>Reputation scores\<close>

record reputation_score_calculator =
  rc_commit_range :: commit_range
  rc_scores_per_authority :: "nat list"
  rc_unscored_subdag :: unscored_subdag
  rc_scoring_strategy :: scoring_strategy

definition ReputationScoreCalculator_new ::
  "epoch_context \<Rightarrow> committed_sub_dag list \<Rightarrow> scoring_strategy \<Rightarrow> reputation_score_calculator res" where
  "ReputationScoreCalculator_new cx unscored_subdags strategy =
     and_then (assert_that (unscored_subdags \<noteq> []) (SchedulePanic NoUnscoredSubdags)) (\<lambda>_.
     and_then (UnscoredSubdag_new cx unscored_subdags) (\<lambda>sub.
       Inr \<lparr> rc_commit_range = us_commit_range sub,
             rc_scores_per_authority = replicate (committee_size (cx_committee cx)) 0,
             rc_unscored_subdag = sub, rc_scoring_strategy = strategy \<rparr>))"

definition add_scores :: "nat list \<Rightarrow> nat list \<Rightarrow> nat list res" where
  "add_scores new_scores scores =
     and_then (assert_that (length new_scores = length scores) (SchedulePanic ScoresCommitteeMismatch)) (\<lambda>_.
       for_each (\<lambda>(a, score). add_score a score) (List.enumerate 0 new_scores) scores)"

definition calculate :: "reputation_score_calculator \<Rightarrow> reputation_scores res" where
  "calculate rc =
     and_then (for_each (\<lambda>leader scores.
         and_then (calculate_scores_for_leader (rc_scoring_strategy rc) (rc_unscored_subdag rc) (slot_of leader))
           (\<lambda>new_scores. add_scores new_scores scores))
       (us_committed_leaders (rc_unscored_subdag rc)) (rc_scores_per_authority rc)) (\<lambda>scores.
       Inr \<lparr> rs_scores_per_authority = scores, rs_commit_range = rc_commit_range rc \<rparr>)"

definition authorities_by_score :: "epoch_context \<Rightarrow> reputation_scores \<Rightarrow> (authority_index \<times> nat) list res" where
  "authorities_by_score cx scores =
     map_res (\<lambda>(index, score).
         and_then (expect (to_authority_index (cx_committee cx) index) (SchedulePanic ScoreWithoutAuthority)) (\<lambda>a.
           Inr (a, score)))
       (List.enumerate 0 (rs_scores_per_authority scores))"

text \<open>Metrics are not modelled, but looking up the authorities they are labelled with can panic.\<close>

definition update_metrics :: "epoch_context \<Rightarrow> reputation_scores \<Rightarrow> unit res" where
  "update_metrics cx scores =
     for_each (\<lambda>(index, _) _.
         and_then (expect (to_authority_index (cx_committee cx) index) (SchedulePanic ScoreWithoutAuthority)) (\<lambda>a.
         and_then (committee_authority (cx_committee cx) a) (\<lambda>_. Inr ())))
       (List.enumerate 0 (rs_scores_per_authority scores)) ()"

end
