(* ===== verification/Leader_Schedule.thy ===== *)
theory Leader_Schedule
  imports Leader_Scoring "HOL-Library.Log_Nat"
begin

text \<open>
  The leader schedule (\<^verbatim>\<open>consensus/core/src/leader_schedule.rs\<close>): the election of a leader by stake, the table
  that replaces authorities with low reputation scores by ones with high scores, and the change of schedule after
  \<open>num_commits_per_schedule\<close> commits. The crate \<open>rand\<close> is the parameter \<open>rand\<close>: each of its functions gets the seed
  of the generator it is called with.
\<close>

section \<open>Randomness\<close>

text \<open>
  \<open>rd_shuffle seed n\<close> gives for each position of a shuffled slice of length \<open>n\<close> the position its element had,
  \<open>rd_choose seed n\<close> the position \<open>choose\<close> picks in a slice of length \<open>n\<close>, and
  \<open>rd_choose_multiple_weighted seed ws k\<close> the positions of the \<open>k\<close> elements chosen with weights \<open>ws\<close>, or \<open>None\<close>
  for an error.
\<close>

record rand =
  rd_shuffle :: "byte list \<Rightarrow> nat \<Rightarrow> nat list"
  rd_choose :: "byte list \<Rightarrow> nat \<Rightarrow> nat"
  rd_choose_multiple_weighted :: "byte list \<Rightarrow> nat list \<Rightarrow> nat \<Rightarrow> nat list option"

definition le_bytes :: "nat \<Rightarrow> byte list" where
  "le_bytes n = map (\<lambda>i. word_of_nat (n div 2 ^ (8 * i))) [0..<4]"

text \<open>The cast of a \<open>u64\<close> to \<open>f32\<close>, a natural number with 24 significant bits, rounding half to even.\<close>

definition f32_of_u64 :: "nat \<Rightarrow> nat" where
  "f32_of_u64 n =
     (let e = floorlog 2 n - 24; q = n div 2 ^ e; r = n mod 2 ^ e in
      if 2 ^ e < 2 * r \<or> 2 ^ e = 2 * r \<and> odd q then (q + 1) * 2 ^ e else q * 2 ^ e)"

section \<open>Swap table\<close>

record leader_swap_table =
  lt_good_nodes :: "(authority_index \<times> string \<times> stake) list"
  lt_bad_nodes :: "(authority_index \<times> string \<times> stake) list"
  lt_reputation_scores_desc :: "(authority_index \<times> nat) list"
  lt_reputation_scores :: reputation_scores

definition LeaderSwapTable_default :: leader_swap_table where
  "LeaderSwapTable_default =
     \<lparr> lt_good_nodes = [], lt_bad_nodes = [], lt_reputation_scores_desc = [],
       lt_reputation_scores = reputation_scores_default \<rparr>"

text \<open>The loop of \<open>retrieve_first_nodes\<close>, with the stake of the authorities it has seen.\<close>

fun retrieve_nodes ::
  "committee \<Rightarrow> nat \<Rightarrow> stake \<Rightarrow> (authority_index \<times> nat) list \<Rightarrow> (authority_index \<times> string \<times> stake) list res" where
  "retrieve_nodes cm threshold seen [] = Inr []"
| "retrieve_nodes cm threshold seen ((a, _) # authorities) =
     and_then (committee_stake cm a) (\<lambda>s.
       if u64_add seen s > u64_mul threshold (cm_total_stake cm) div 100 then Inr []
       else and_then (committee_authority cm a) (\<lambda>auth.
            and_then (retrieve_nodes cm threshold (u64_add seen s) authorities) (\<lambda>nodes.
              Inr ((a, au_hostname auth, au_stake auth) # nodes))))"

definition retrieve_first_nodes ::
  "epoch_context \<Rightarrow> (authority_index \<times> nat) list \<Rightarrow> nat \<Rightarrow> (authority_index \<times> string \<times> stake) list res" where
  "retrieve_first_nodes cx authorities threshold = retrieve_nodes (cx_committee cx) threshold 0 authorities"

definition LeaderSwapTable_new_inner ::
  "rand \<Rightarrow> epoch_context \<Rightarrow> nat \<Rightarrow> commit_index \<Rightarrow> reputation_scores \<Rightarrow> leader_swap_table res" where
  "LeaderSwapTable_new_inner rand cx threshold index scores =
     and_then (assert_that (threshold \<le> 33) (SchedulePanic SwapThresholdOutOfRange)) (\<lambda>_.
     if rs_scores_per_authority scores = [] then Inr LeaderSwapTable_default
     else
       let seed = replicate 28 0 @ le_bytes index in
       and_then (authorities_by_score cx scores) (\<lambda>authorities.
       and_then (assert_that (length authorities = committee_size (cx_committee cx))
                   (SchedulePanic ScoresCommitteeMismatch)) (\<lambda>_.
       let shuffled = map (nth authorities) (rd_shuffle rand seed (length authorities));
           by_score = sort_key (\<lambda>(_, score). - int score) shuffled in
       and_then (retrieve_first_nodes cx by_score threshold) (\<lambda>good_nodes.
       and_then (retrieve_first_nodes cx (rev by_score) threshold) (\<lambda>low_nodes.
       let bad_nodes = foldl (\<lambda>m (a, info). bm_insert a info m) [] low_nodes in
         Inr \<lparr> lt_good_nodes = good_nodes, lt_bad_nodes = bad_nodes,
               lt_reputation_scores_desc = by_score, lt_reputation_scores = scores \<rparr>)))))"

definition LeaderSwapTable_new ::
  "rand \<Rightarrow> epoch_context \<Rightarrow> commit_index \<Rightarrow> reputation_scores \<Rightarrow> leader_swap_table res" where
  "LeaderSwapTable_new rand cx index scores =
     LeaderSwapTable_new_inner rand cx (pc_consensus_bad_nodes_stake_threshold (cx_protocol_config cx)) index scores"

definition swap ::
  "rand \<Rightarrow> leader_swap_table \<Rightarrow> authority_index \<Rightarrow> round \<Rightarrow> nat \<Rightarrow> authority_index option res" where
  "swap rand table leader leader_rnd leader_offset =
     (case map_of (lt_bad_nodes table) leader of
        None \<Rightarrow> Inr None
      | Some _ \<Rightarrow>
          and_then (assert_that (leader_offset = 0) (SchedulePanic SwapMultiLeader)) (\<lambda>_.
          let seed = replicate 24 0 @ le_bytes leader_rnd @ le_bytes leader_offset;
              good_nodes = lt_good_nodes table in
            if good_nodes = [] then Inl (SchedulePanic NoGoodNode)
            else Inr (Some (fst (good_nodes ! rd_choose rand seed (length good_nodes))))))"

section \<open>Leader schedule\<close>

record leader_schedule =
  le_leader_swap_table :: leader_swap_table
  le_context :: epoch_context
  le_num_commits_per_schedule :: nat
  le_scoring_strategy :: scoring_strategy

definition consensus_commits_per_schedule :: nat where
  "consensus_commits_per_schedule = 300"

text \<open>The argument is the value of the environment variable \<open>CONSENSUS_SCORING_STRATEGY\<close>.\<close>

definition choose_scoring_strategy :: "string option \<Rightarrow> scoring_strategy" where
  "choose_scoring_strategy env =
     (case env of
        Some name \<Rightarrow>
          if name = ''vote'' then VoteScoringStrategy
          else if name = ''certified_vote_v1'' then CertifiedVoteScoringStrategyV1
          else if name = ''certified_vote_v2'' then CertifiedVoteScoringStrategyV2
          else if name = ''certificate'' then CertificateScoringStrategy
          else VoteScoringStrategy
      | None \<Rightarrow> VoteScoringStrategy)"

definition LeaderSchedule_new :: "string option \<Rightarrow> epoch_context \<Rightarrow> leader_swap_table \<Rightarrow> leader_schedule" where
  "LeaderSchedule_new env cx table =
     \<lparr> le_leader_swap_table = table, le_context = cx,
       le_num_commits_per_schedule = consensus_commits_per_schedule,
       le_scoring_strategy = choose_scoring_strategy env \<rparr>"

definition LeaderSchedule_from_store ::
  "rand \<Rightarrow> string option \<Rightarrow> epoch_context \<Rightarrow> dag_state \<Rightarrow> leader_schedule res" where
  "LeaderSchedule_from_store rand env cx ds =
     and_then (case recover_last_commit_info ds of
         None \<Rightarrow> Inr LeaderSwapTable_default
       | Some (last_commit_ref, info) \<Rightarrow>
           LeaderSwapTable_new rand cx (cr_index last_commit_ref) (ci_reputation_scores info)) (\<lambda>table.
       Inr (LeaderSchedule_new env cx table))"

definition commits_until_leader_schedule_update :: "leader_schedule \<Rightarrow> dag_state \<Rightarrow> nat res" where
  "commits_until_leader_schedule_update ls ds =
     and_then (assert_that (unscored_committed_subdags_count ds \<le> le_num_commits_per_schedule ls)
                 (SchedulePanic TooManyUnscoredSubdags)) (\<lambda>_.
       Inr (le_num_commits_per_schedule ls - unscored_committed_subdags_count ds))"

definition update_leader_swap_table :: "leader_schedule \<Rightarrow> leader_swap_table \<Rightarrow> leader_schedule res" where
  "update_leader_swap_table ls table =
     (let old_commit_range = rs_commit_range (lt_reputation_scores (le_leader_swap_table ls));
          new_commit_range = rs_commit_range (lt_reputation_scores table) in
      and_then (assert_that (old_commit_range \<noteq> CommitRange 0 0 \<longrightarrow> is_next_range old_commit_range new_commit_range)
                  (SchedulePanic InvalidCommitRange)) (\<lambda>_.
        Inr (ls\<lparr> le_leader_swap_table := table \<rparr>)))"

definition update_leader_schedule ::
  "rand \<Rightarrow> leader_schedule \<Rightarrow> dag_state \<Rightarrow> (leader_schedule \<times> dag_state) res" where
  "update_leader_schedule rand ls ds =
     (let (unscored_subdags, ds) = take_unscored_committed_subdags ds in
      and_then (ReputationScoreCalculator_new (le_context ls) unscored_subdags (le_scoring_strategy ls)) (\<lambda>rc.
      and_then (calculate rc) (\<lambda>scores.
      and_then (update_metrics (le_context ls) scores) (\<lambda>_.
      and_then (expect (last_opt unscored_subdags) (SchedulePanic NoUnscoredSubdags)) (\<lambda>final.
      and_then (LeaderSwapTable_new rand (le_context ls) (cr_index (sd_commit_ref final)) scores) (\<lambda>table.
      and_then (update_leader_swap_table ls table) (\<lambda>ls.
      and_then (add_commit_info scores ds) (\<lambda>ds.
        Inr (ls, ds)))))))))"

definition elect_leader_stake_based :: "rand \<Rightarrow> leader_schedule \<Rightarrow> round \<Rightarrow> nat \<Rightarrow> authority_index res" where
  "elect_leader_stake_based rand ls rnd offset =
     (let cm = cx_committee (le_context ls) in
      and_then (assert_that (offset < committee_size cm) (SchedulePanic LeaderOffsetTooLarge)) (\<lambda>_.
      let seed = replicate 28 0 @ le_bytes rnd;
          choices = map (\<lambda>(index, authority). (index, f32_of_u64 (au_stake authority))) (committee_authorities cm) in
      and_then (expect (rd_choose_multiple_weighted rand seed (map snd choices) (committee_size cm))
                  (SchedulePanic NoWeightedChoice)) (\<lambda>chosen.
        expect (first_opt (drop offset (map (\<lambda>i. fst (choices ! i)) chosen))) (SchedulePanic NoWeightedChoice))))"

definition elect_leader :: "rand \<Rightarrow> leader_schedule \<Rightarrow> round \<Rightarrow> nat \<Rightarrow> authority_index res" where
  "elect_leader rand ls rnd leader_offset =
     and_then (elect_leader_stake_based rand ls rnd leader_offset) (\<lambda>leader.
     and_then (swap rand (le_leader_swap_table ls) leader rnd leader_offset) (\<lambda>swapped.
       Inr (case swapped of Some a \<Rightarrow> a | None \<Rightarrow> leader)))"

end
