(* ===== verification/Scoring_Properties.thy ===== *)
theory Scoring_Properties
  imports Leader_Scoring Commit_Sequence
begin

text \<open>
  What the scoring strategies compute: votes, certified votes weighted by stake, certified votes by
  count, and certificates, for the leader of a slot; and the reputation scores as their sums over the
  committed leaders. The trait \<open>ScoringStrategy\<close> is the locale \<open>leader_scoring_strategy\<close>, interpreted for
  its four implementations.
\<close>

section \<open>Loops over scores\<close>

lemma score_loop:
  assumes "length scores = n" "\<forall>a < n. scores ! a < 2 ^ 64" "\<forall>x \<in> set xs. p x \<longrightarrow> f x < n"
  shows "\<exists>t. for_each (\<lambda>x scores. if p x then add_score (f x) (g x) scores else Inr scores) xs scores = Inr t \<and>
    length t = n \<and> (\<forall>a < n. t ! a = (scores ! a + sum_list (map g (filter (\<lambda>x. p x \<and> f x = a) xs))) mod 2 ^ 64)"
  using assms
proof (induction xs arbitrary: scores)
  case (Cons x xs)
  let ?next = "if p x then scores[f x := u64_add (scores ! f x) (g x)] else scores"
  have step: "(if p x then add_score (f x) (g x) scores else Inr scores) = Inr ?next"
    using Cons.prems by (simp add: add_score_def)
  have "length ?next = n" "\<forall>a < n. ?next ! a < 2 ^ 64"
    using Cons.prems by (auto simp: nth_list_update)
  from Cons.IH [OF this] Cons.prems(3) obtain t where
    t: "for_each (\<lambda>x scores. if p x then add_score (f x) (g x) scores else Inr scores) xs ?next = Inr t"
    "length t = n" "\<And>a. a < n \<Longrightarrow> t ! a = (?next ! a + sum_list (map g (filter (\<lambda>x. p x \<and> f x = a) xs))) mod 2 ^ 64"
    by auto
  have "t ! a = (scores ! a + sum_list (map g (filter (\<lambda>x. p x \<and> f x = a) (x # xs)))) mod 2 ^ 64" if "a < n" for a
    using t(3) [OF that] Cons.prems(1) that by (auto simp: u64_add_def mod_simps add.assoc nth_list_update)
  with t(1,2) step show ?case by auto
qed simp

section \<open>Blocks and votes\<close>

definition subdag_blocks :: "unscored_subdag \<Rightarrow> verified_block set" where
  "subdag_blocks sub = {b. us_get_block sub (vb_reference b) = Some b}"

definition block_fits :: "committee \<Rightarrow> verified_block \<Rightarrow> bool" where
  "block_fits cm b \<longleftrightarrow> vb_author b \<in> members cm \<and>
     (\<forall>a \<in> set (vb_ancestors b). br_round a < vb_round b \<and> br_author a \<in> members cm)"

definition subdag_ok :: "unscored_subdag \<Rightarrow> bool" where
  "subdag_ok sub \<longleftrightarrow>
     committee_wf (cx_committee (us_context sub)) \<and> bm_wf (us_blocks sub) \<and> length (us_blocks sub) < 2 ^ 64 \<and>
     (\<forall>(r, b) \<in> set (us_blocks sub). vb_reference b = r \<and> block_fits (cx_committee (us_context sub)) b)"

text \<open>A vote for a leader block: a block of the next round whose first ancestor at the slot is the leader's.\<close>

definition votes_directly :: "verified_block \<Rightarrow> verified_block \<Rightarrow> bool" where
  "votes_directly b l \<longleftrightarrow> vb_round b = vb_round l + 1 \<and>
     List.find (\<lambda>a. slot_of a = slot_of (vb_reference l)) (vb_ancestors b) = Some (vb_reference l)"

lemma subdag_okD:
  assumes "subdag_ok sub"
  shows "committee_wf (cx_committee (us_context sub))" "bm_wf (us_blocks sub)" "length (us_blocks sub) < 2 ^ 64"
    and "us_get_block sub r = Some b \<Longrightarrow> vb_reference b = r"
    and "us_get_block sub r = Some b \<Longrightarrow> block_fits (cx_committee (us_context sub)) b"
proof -
  show wf: "bm_wf (us_blocks sub)" and "committee_wf (cx_committee (us_context sub))" "length (us_blocks sub) < 2 ^ 64"
    using assms by (simp_all add: subdag_ok_def)
  have "(r, b) \<in> set (us_blocks sub)" if "us_get_block sub r = Some b"
    using that bm_wf_mem [OF wf] by (simp add: us_get_block_def)
  then show "us_get_block sub r = Some b \<Longrightarrow> vb_reference b = r"
    "us_get_block sub r = Some b \<Longrightarrow> block_fits (cx_committee (us_context sub)) b"
    using assms unfolding subdag_ok_def by blast+
qed

lemma subdag_mem:
  assumes "subdag_ok sub"
  shows "(r, b) \<in> set (us_blocks sub) \<longleftrightarrow> b \<in> subdag_blocks sub \<and> vb_reference b = r"
  using bm_wf_mem [OF subdag_okD(2) [OF assms], of r b] subdag_okD(4) [OF assms, of r b]
  by (auto simp: subdag_blocks_def us_get_block_def)

lemma subdag_filter:
  assumes "subdag_ok sub"
  shows "set (map snd (filter (\<lambda>(r, _). P r) (us_blocks sub))) = {b \<in> subdag_blocks sub. P (vb_reference b)}"
    and "distinct (map snd (filter (\<lambda>(r, _). P r) (us_blocks sub)))"
    and "length (map snd (filter (\<lambda>(r, _). P r) (us_blocks sub))) < 2 ^ 64"
proof -
  let ?f = "filter (\<lambda>(r, _). P r) (us_blocks sub)"
  show "set (map snd ?f) = {b \<in> subdag_blocks sub. P (vb_reference b)}"
    using subdag_mem [OF assms] by (force simp: image_iff)
  have "distinct (map fst (us_blocks sub))" using subdag_okD(2) [OF assms] by (simp add: bm_wf_def)
  then have "distinct ?f" by (simp add: distinct_map)
  moreover have "inj_on snd (set ?f)" using subdag_mem [OF assms] by (auto intro!: inj_onI)
  ultimately show "distinct (map snd ?f)" by (simp add: distinct_map)
  show "length (map snd ?f) < 2 ^ 64"
    using subdag_okD(3) [OF assms] length_filter_le [of "\<lambda>(r, _). P r" "us_blocks sub"]
    unfolding length_map by (rule le_less_trans [rotated])
qed

lemma us_get_blocks_at_slot_set:
  "subdag_ok sub \<Longrightarrow> set (us_get_blocks_at_slot sub s) = {b \<in> subdag_blocks sub. slot_of (vb_reference b) = s}"
  unfolding us_get_blocks_at_slot_def slot_range subdag_filter(1) by (auto simp: slot_of_eq_iff)

lemma us_get_blocks_at_round_spec:
  assumes "subdag_ok sub" "rnd + 1 < 2 ^ 32"
  obtains bs where "us_get_blocks_at_round sub rnd = Inr bs" "set bs = {b \<in> subdag_blocks sub. vb_round b = rnd}"
    "distinct bs" "length bs < 2 ^ 64"
proof -
  let ?bs = "map snd (filter (\<lambda>(r, _). br_round r = rnd) (us_blocks sub))"
  have "u32_add rnd 1 = Suc rnd" using assms(2) by (simp add: u32_add_exact)
  then have "us_get_blocks_at_round sub rnd = Inr ?bs"
    unfolding us_get_blocks_at_round_def by (simp only: round_range) simp
  from that [OF this] subdag_filter [OF assms(1), of "\<lambda>r. br_round r = rnd"] show thesis by simp
qed

text \<open>For blocks up to the round after the leader's, a vote is decided by the ancestors alone.\<close>

lemma first_leader_support_find:
  assumes "\<And>a. a \<in> set as \<Longrightarrow> br_round a \<le> slot_round s"
  shows "first_leader_support get deeper s as = Inr (List.find (\<lambda>a. slot_of a = s) as)"
  using assms by (induction as) auto

lemma us_is_vote_eq:
  assumes b: "block_fits cm b" and near: "vb_round b \<le> vb_round l + 1"
  shows "us_is_vote sub b l = Inr (votes_directly b l)"
proof (cases "vb_round b < vb_round l")
  case True
  then show ?thesis
    by (simp add: us_is_vote_def find_supported_leader_block_def Let_def votes_directly_def)
next
  case False
  let ?s = "slot_of (vb_reference l)"
  have "find_supported_leader_block sub ?s b = Inr (List.find (\<lambda>a. slot_of a = ?s) (vb_ancestors b))"
    using False near b unfolding find_supported_leader_block_def
    by (auto intro!: first_leader_support_find simp: block_fits_def)
  moreover have "vb_round b = vb_round l + 1"
    if "List.find (\<lambda>a. slot_of a = ?s) (vb_ancestors b) = Some (vb_reference l)"
  proof -
    from that have "vb_reference l \<in> set (vb_ancestors b)" by (auto simp: find_Some_iff)
    with b near show ?thesis by (force simp: block_fits_def)
  qed
  ultimately show ?thesis by (auto simp: us_is_vote_def Let_def votes_directly_def)
qed

definition leader_slot_ok :: "unscored_subdag \<Rightarrow> slot \<Rightarrow> bool" where
  "leader_slot_ok sub s \<longleftrightarrow> slot_round s + 3 < 2 ^ 32 \<and> length (us_get_blocks_at_slot sub s) \<le> 1"

lemma leader_block_facts:
  assumes "subdag_ok sub" "us_get_blocks_at_slot sub s = [l]"
  shows "l \<in> subdag_blocks sub" "slot_of (vb_reference l) = s" "vb_round l = slot_round s"
proof -
  have "l \<in> {b \<in> subdag_blocks sub. slot_of (vb_reference b) = s}"
    unfolding us_get_blocks_at_slot_set [OF assms(1), symmetric] assms(2) by simp
  then show "l \<in> subdag_blocks sub" "slot_of (vb_reference l) = s" by simp_all
  then show "vb_round l = slot_round s" by (auto simp: slot_of_eq_iff)
qed

section \<open>Votes\<close>

lemma vote_scores_spec:
  assumes ok: "subdag_ok sub" and l: "us_get_blocks_at_slot sub s = [l]" and rnd: "slot_round s + 3 < 2 ^ 32"
  shows "\<exists>scores. vote_scores sub s = Inr scores \<and> length scores = committee_size (cx_committee (us_context sub)) \<and>
    (\<forall>a < committee_size (cx_committee (us_context sub)).
       scores ! a = card {b \<in> subdag_blocks sub. vb_author b = a \<and> votes_directly b l})"
proof -
  note lf = leader_block_facts [OF ok l]
  let ?n = "committee_size (cx_committee (us_context sub))"
  obtain bs where bs: "us_get_blocks_at_round sub (slot_round s + 1) = Inr bs"
    "set bs = {b \<in> subdag_blocks sub. vb_round b = slot_round s + 1}" "distinct bs" "length bs < 2 ^ 64"
    using us_get_blocks_at_round_spec [OF ok, of "slot_round s + 1"] rnd by auto
  have fits: "block_fits (cx_committee (us_context sub)) b" if "b \<in> set bs" for b
    using that bs(2) subdag_okD(5) [OF ok, of "vb_reference b" b] by (simp add: subdag_blocks_def)
  have "for_each (\<lambda>b scores. and_then (us_is_vote sub b l) (\<lambda>v.
        if v then add_score (vb_author b) 1 scores else Inr scores)) bs (replicate ?n 0) =
      for_each (\<lambda>b scores. if votes_directly b l then add_score (vb_author b) 1 scores else Inr scores) bs (replicate ?n 0)"
    using us_is_vote_eq [OF fits] bs(2) lf(3) by (intro for_each_cong) auto
  moreover from score_loop [of "replicate ?n 0" ?n bs "\<lambda>b. votes_directly b l" vb_author "\<lambda>_. 1"] fits
  obtain t where t: "for_each (\<lambda>b scores. if votes_directly b l then add_score (vb_author b) 1 scores else Inr scores) bs
      (replicate ?n 0) = Inr t" "length t = ?n"
    "\<And>a. a < ?n \<Longrightarrow> t ! a = length (filter (\<lambda>b. votes_directly b l \<and> vb_author b = a) bs) mod 2 ^ 64"
    by (auto simp: block_fits_def members_eq sum_list_triv)
  moreover have "t ! a = card {b \<in> subdag_blocks sub. vb_author b = a \<and> votes_directly b l}" if "a < ?n" for a
  proof -
    have "length (filter (\<lambda>b. votes_directly b l \<and> vb_author b = a) bs) < 2 ^ 64"
      using bs(4) length_filter_le [of "\<lambda>b. votes_directly b l \<and> vb_author b = a" bs] by linarith
    moreover have "{b \<in> set bs. votes_directly b l \<and> vb_author b = a} =
        {b \<in> subdag_blocks sub. vb_author b = a \<and> votes_directly b l}"
      unfolding bs(2) using lf(3) by (auto simp: votes_directly_def)
    ultimately show ?thesis using t(3) [OF that] length_filter_card [OF bs(3)] by simp
  qed
  moreover have "u32_add (slot_round s) 1 = slot_round s + 1" using rnd by (simp add: u32_add_exact)
  ultimately show ?thesis using bs(1) by (auto simp: vote_scores_def score_leader_def l)
qed

section \<open>Certified votes\<close>

definition vote_certifiers :: "unscored_subdag \<Rightarrow> verified_block \<Rightarrow> block_ref \<Rightarrow> authority_index set" where
  "vote_certifiers sub l r =
     vb_author ` {c \<in> subdag_blocks sub. vb_round c = vb_round l + 2 \<and> r \<in> set (vb_ancestors c)}"

text \<open>
  The entry of a reference in the tally, after the pairs \<open>seen\<close> of the author of a decision block and
  one of its ancestors.
\<close>

definition tally_entry ::
  "unscored_subdag \<Rightarrow> verified_block \<Rightarrow> (authority_index \<times> block_ref) set \<Rightarrow> block_ref
     \<Rightarrow> (bool \<times> stake_aggregator) option \<Rightarrow> bool" where
  "tally_entry sub l seen r e = (case e of
     None \<Rightarrow> us_get_block sub r = None \<or> r \<notin> snd ` seen
   | Some (v, agg) \<Rightarrow> \<exists>b. us_get_block sub r = Some b \<and> v = votes_directly b l \<and>
       agg_inv (cx_committee (us_context sub)) agg \<and> (v \<longrightarrow> set (sa_votes agg) = {a. (a, r) \<in> seen}))"

definition tally_ok ::
  "unscored_subdag \<Rightarrow> verified_block \<Rightarrow> (authority_index \<times> block_ref) set \<Rightarrow> vote_tally \<Rightarrow> bool" where
  "tally_ok sub l seen votes \<longleftrightarrow> bm_wf votes \<and> (\<forall>r. tally_entry sub l seen r (map_of votes r))"

lemma tally_entry_other:
  "q \<noteq> r \<Longrightarrow> tally_entry sub l (insert (a, r) seen) q e = tally_entry sub l seen q e"
  by (auto simp: tally_entry_def split: option.splits)

lemma tally_ok_insert:
  assumes "tally_ok sub l seen votes" "tally_entry sub l (insert (a, r) seen) r (Some e)"
  shows "tally_ok sub l (insert (a, r) seen) (bm_insert r e votes)"
  using assms tally_entry_other [of _ r sub l a seen] by (simp add: tally_ok_def)

lemma tally_ok_same:
  assumes "tally_ok sub l seen votes" "tally_entry sub l (insert (a, r) seen) r (map_of votes r)"
  shows "tally_ok sub l (insert (a, r) seen) votes"
  unfolding tally_ok_def
proof (intro conjI allI)
  show "bm_wf votes" using assms(1) by (simp add: tally_ok_def)
  show "tally_entry sub l (insert (a, r) seen) q (map_of votes q)" for q
    using assms tally_entry_other [of q r sub l a seen] by (cases "q = r") (auto simp: tally_ok_def)
qed

lemma tally_vote_step:
  assumes ok: "subdag_ok sub" and votes: "tally_ok sub l seen votes"
    and a: "a \<in> members (cx_committee (us_context sub))" and near: "br_round r \<le> vb_round l + 1"
  shows "\<exists>votes'. tally_vote sub l a r votes = Inr votes' \<and> tally_ok sub l (insert (a, r) seen) votes'"
proof -
  let ?cm = "cx_committee (us_context sub)"
  have wf: "committee_wf ?cm" using subdag_okD(1) [OF ok] .
  have entry: "tally_entry sub l seen r (map_of votes r)" using votes by (simp add: tally_ok_def)
  show ?thesis
  proof (cases "map_of votes r")
    case (Some e)
    obtain v agg where e: "e = (v, agg)" by (cases e)
    with entry Some obtain b where b: "us_get_block sub r = Some b" "v = votes_directly b l" "agg_inv ?cm agg"
      "v \<longrightarrow> set (sa_votes agg) = {a. (a, r) \<in> seen}" by (auto simp: tally_entry_def)
    show ?thesis
    proof (cases v)
      case True
      obtain agg' where agg': "agg_add quorum_is_threshold a ?cm agg = Inr (quorum_is_threshold ?cm (sa_stake agg'), agg')"
        "agg_inv ?cm agg'" "set (sa_votes agg') = insert a (set (sa_votes agg))"
        by (rule agg_add_spec [OF wf b(3) a])
      with True b have "tally_entry sub l (insert (a, r) seen) r (Some (v, agg'))" by (auto simp: tally_entry_def)
      from tally_ok_insert [OF votes this] agg'(1) Some e True show ?thesis by (simp add: tally_vote_def)
    next
      case False
      with b have "tally_entry sub l (insert (a, r) seen) r (map_of votes r)"
        by (simp add: tally_entry_def Some e)
      from tally_ok_same [OF votes this] Some e False show ?thesis by (simp add: tally_vote_def)
    qed
  next
    case None
    show ?thesis
    proof (cases "us_get_block sub r")
      case no: None
      then have "tally_entry sub l (insert (a, r) seen) r (map_of votes r)" by (simp add: tally_entry_def None)
      from tally_ok_same [OF votes this] None no show ?thesis by (simp add: tally_vote_def)
    next
      case (Some b)
      have "vb_round b = br_round r" using subdag_okD(4) [OF ok Some] by auto
      with near have vote: "us_is_vote sub b l = Inr (votes_directly b l)"
        using us_is_vote_eq [OF subdag_okD(5) [OF ok Some]] by simp
      obtain agg where agg: "agg_add quorum_is_threshold a ?cm agg_new = Inr (quorum_is_threshold ?cm (sa_stake agg), agg)"
        "agg_inv ?cm agg" "set (sa_votes agg) = insert a (set (sa_votes agg_new))"
        by (rule agg_add_spec [OF wf agg_inv_new a])
      have "r \<notin> snd ` seen" using entry None Some by (simp add: tally_entry_def)
      then have "{x. (x, r) \<in> insert (a, r) seen} = {a}" by force
      with agg Some have "tally_entry sub l (insert (a, r) seen) r (Some (votes_directly b l, agg))"
        by (simp add: tally_entry_def agg_new_def)
      from tally_ok_insert [OF votes this] vote agg(1) Some None show ?thesis by (simp add: tally_vote_def)
    qed
  qed
qed

definition tally_complete :: "unscored_subdag \<Rightarrow> verified_block \<Rightarrow> vote_tally \<Rightarrow> bool" where
  "tally_complete sub l votes \<longleftrightarrow> bm_wf votes \<and>
    (\<forall>r b. us_get_block sub r = Some b \<longrightarrow> votes_directly b l \<longrightarrow>
      (case map_of votes r of None \<Rightarrow> vote_certifiers sub l r = {}
       | Some (v, agg) \<Rightarrow> v \<and> sa_stake agg = stake_of (cx_committee (us_context sub)) (vote_certifiers sub l r))) \<and>
    (\<forall>r v agg. map_of votes r = Some (v, agg) \<longrightarrow> (\<exists>b. us_get_block sub r = Some b \<and> v = votes_directly b l))"

lemma tally_votes_spec:
  assumes ok: "subdag_ok sub" and l: "us_get_blocks_at_slot sub s = [l]" and rnd: "slot_round s + 3 < 2 ^ 32"
  shows "\<exists>votes. tally_votes sub l s = Inr votes \<and> tally_complete sub l votes"
proof -
  note lf = leader_block_facts [OF ok l]
  have round: "scoring_decision_round s = slot_round s + 2"
    using rnd by (simp add: scoring_decision_round_def default_wave_length_def minimum_wave_length_def
        u32_add_exact u32_sub_exact)
  have "slot_round s + 2 + 1 < 2 ^ 32" using rnd by simp
  from us_get_blocks_at_round_spec [OF ok this] obtain bs where
    bs: "us_get_blocks_at_round sub (slot_round s + 2) = Inr bs"
    "set bs = {b \<in> subdag_blocks sub. vb_round b = slot_round s + 2}" by metis
  let ?pairs = "concat (map (\<lambda>c. map (Pair c) (vb_ancestors c)) bs)"
  let ?seen = "\<lambda>ps. (\<lambda>(c, r). (vb_author c, r)) ` set ps"
  have start: "tally_ok sub l (?seen []) []" by (simp add: tally_ok_def tally_entry_def)
  have step: "\<exists>t'. (\<lambda>(c, r). tally_vote sub l (br_author (vb_reference c)) r) x t = Inr t' \<and>
      tally_ok sub l (?seen (ps @ [x])) t'" if "x \<in> set ?pairs" "tally_ok sub l (?seen ps) t" for x ps t
  proof -
    obtain c r where x: "x = (c, r)" "c \<in> set bs" "r \<in> set (vb_ancestors c)" using \<open>x \<in> set ?pairs\<close> by auto
    then have fits: "block_fits (cx_committee (us_context sub)) c" "vb_round c = slot_round s + 2"
      using bs(2) subdag_okD(5) [OF ok, of "vb_reference c" c] by (auto simp: subdag_blocks_def)
    with x have "vb_author c \<in> members (cx_committee (us_context sub))" "br_round r \<le> vb_round l + 1"
      using lf(3) by (auto simp: block_fits_def)
    from tally_vote_step [OF ok that(2) this] show ?thesis by (simp add: x)
  qed
  have "\<exists>votes. for_each (\<lambda>(c, r). tally_vote sub l (br_author (vb_reference c)) r) ?pairs [] = Inr votes \<and>
      tally_ok sub l (?seen ([] @ ?pairs)) votes"
    by (rule for_each_prefix [where P = "\<lambda>ps. tally_ok sub l (?seen ps)", OF start step])
  then obtain votes where
    votes: "for_each (\<lambda>(c, r). tally_vote sub l (br_author (vb_reference c)) r) ?pairs [] = Inr votes"
    "tally_ok sub l (?seen ?pairs) votes" unfolding append_Nil by (elim exE conjE)
  have "tally_votes sub l s = Inr votes"
    using votes(1) bs(1) by (simp add: tally_votes_def round for_each_nested)
  moreover have certs: "{a. (a, r) \<in> ?seen ?pairs} = vote_certifiers sub l r" for r
    using bs(2) lf(3) by (force simp: vote_certifiers_def)
  have "case map_of votes r of None \<Rightarrow> vote_certifiers sub l r = {}
       | Some (v, agg) \<Rightarrow> v \<and> sa_stake agg = stake_of (cx_committee (us_context sub)) (vote_certifiers sub l r)"
    if "us_get_block sub r = Some b" "votes_directly b l" for r b
  proof -
    have "tally_entry sub l (?seen ?pairs) r (map_of votes r)" using votes(2) by (simp add: tally_ok_def)
    moreover have "vote_certifiers sub l r = {}" if "r \<notin> snd ` ?seen ?pairs"
      unfolding certs [symmetric] using that by force
    ultimately show ?thesis using that certs [of r]
      by (auto simp: tally_entry_def agg_inv_def split: option.splits)
  qed
  moreover have "\<exists>b. us_get_block sub r = Some b \<and> v = votes_directly b l" if "map_of votes r = Some (v, agg)" for r v agg
  proof -
    have "tally_entry sub l (?seen ?pairs) r (map_of votes r)" using votes(2) by (simp add: tally_ok_def)
    with that show ?thesis by (auto simp: tally_entry_def)
  qed
  moreover have "bm_wf votes" using votes(2) by (simp add: tally_ok_def)
  ultimately show ?thesis unfolding tally_complete_def by blast
qed

lemma card_blocks_bound:
  assumes "subdag_ok sub" "B \<subseteq> subdag_blocks sub"
  shows "card B < 2 ^ 64"
proof -
  have "card B \<le> card (snd ` set (us_blocks sub))"
    using subdag_mem [OF assms(1)] assms(2) by (intro card_mono) force+
  also have "\<dots> \<le> length (us_blocks sub)" by (meson card_image_le card_length finite_set le_trans)
  finally show ?thesis using subdag_okD(3) [OF assms(1)] by linarith
qed

text \<open>A sum over the votes of an authority in the tally is one over its voting blocks.\<close>

definition votes_of :: "unscored_subdag \<Rightarrow> verified_block \<Rightarrow> authority_index \<Rightarrow> verified_block set" where
  "votes_of sub l a = {b \<in> subdag_blocks sub. vb_author b = a \<and> votes_directly b l}"

lemma finite_subdag_blocks: "subdag_ok sub \<Longrightarrow> finite (subdag_blocks sub)"
  using subdag_mem [of sub] finite_subset [of "subdag_blocks sub" "snd ` set (us_blocks sub)"] by force

lemma tally_sum:
  assumes ok: "subdag_ok sub" and votes: "tally_complete sub l votes"
    and entry: "\<And>r agg. map_of votes r = Some (True, agg) \<Longrightarrow>
      sa_stake agg = stake_of (cx_committee (us_context sub)) (vote_certifiers sub l r) \<Longrightarrow> g (r, True, agg) = h r"
    and none: "\<And>r. vote_certifiers sub l r = {} \<Longrightarrow> h r = 0"
  shows "sum_list (map g (filter (\<lambda>(r, v, agg). v \<and> br_author r = a) votes)) =
    (\<Sum>b \<in> votes_of sub l a. h (vb_reference b) :: nat)"
proof -
  have wf: "bm_wf votes" using votes by (simp add: tally_complete_def)
  let ?E = "{x \<in> set votes. case x of (r, v, agg) \<Rightarrow> v \<and> br_author r = a}"
  let ?j = "\<lambda>x. the (us_get_block sub (fst x))"
  have dist: "distinct (map fst votes)" using wf by (simp add: bm_wf_def)
  have E: "\<exists>r agg b. x = (r, True, agg) \<and> map_of votes r = Some (True, agg) \<and> us_get_block sub r = Some b \<and>
      b \<in> votes_of sub l a \<and> vb_reference b = r \<and> ?j x = b \<and> g x = h (vb_reference b)" if mem: "x \<in> ?E" for x
  proof -
    obtain r agg where x: "x = (r, True, agg)" "map_of votes r = Some (True, agg)" "br_author r = a"
      using mem bm_wf_mem [OF wf] by auto
    with votes obtain b where b: "us_get_block sub r = Some b" "votes_directly b l"
      unfolding tally_complete_def by blast
    have ref: "vb_reference b = r" using subdag_okD(4) [OF ok b(1)] .
    have "sa_stake agg = stake_of (cx_committee (us_context sub)) (vote_certifiers sub l r)"
      using votes b x(2) unfolding tally_complete_def by fastforce
    from entry [OF x(2) this] x b ref show ?thesis by (auto simp: votes_of_def subdag_blocks_def)
  qed
  have inj: "inj_on ?j ?E"
  proof (rule inj_onI)
    fix x y assume "x \<in> ?E" "y \<in> ?E" "?j x = ?j y"
    with E [of x] E [of y] show "x = y" by (metis option.inject prod.inject)
  qed
  have "sum_list (map g (filter (\<lambda>(r, v, agg). v \<and> br_author r = a) votes)) = sum g ?E"
    using dist by (subst sum_list_distinct_conv_sum_set) (auto simp: distinct_map)
  also have "\<dots> = sum ((\<lambda>b. h (vb_reference b)) \<circ> ?j) ?E" using E by (intro sum.cong) fastforce+
  also have "\<dots> = (\<Sum>b \<in> ?j ` ?E. h (vb_reference b))" by (rule sum.reindex [OF inj, symmetric])
  also have "\<dots> = (\<Sum>b \<in> votes_of sub l a. h (vb_reference b))"
  proof (rule sum.mono_neutral_left)
    show "finite (votes_of sub l a)" using finite_subdag_blocks [OF ok] by (simp add: votes_of_def)
    show "?j ` ?E \<subseteq> votes_of sub l a" using E by blast
    show "\<forall>b \<in> votes_of sub l a - ?j ` ?E. h (vb_reference b) = 0"
    proof
      fix b assume b: "b \<in> votes_of sub l a - ?j ` ?E"
      then have get: "us_get_block sub (vb_reference b) = Some b" "votes_directly b l" "vb_author b = a"
        by (auto simp: votes_of_def subdag_blocks_def)
      have "map_of votes (vb_reference b) = None"
      proof (cases "map_of votes (vb_reference b)")
        case (Some e)
        obtain v agg where "e = (v, agg)" by (cases e)
        with votes get(1,2) Some have "(vb_reference b, True, agg) \<in> ?E"
          unfolding tally_complete_def using bm_wf_mem [OF wf] get(3) by fastforce
        then have "?j (vb_reference b, True, agg) \<in> ?j ` ?E" by (rule imageI)
        with get(1) b show ?thesis by simp
      qed
      with votes get(1,2) have "vote_certifiers sub l (vb_reference b) = {}" unfolding tally_complete_def by fastforce
      then show "h (vb_reference b) = 0" by (rule none)
    qed
  qed
  finally show ?thesis .
qed

lemma tally_authors:
  assumes "subdag_ok sub" "tally_complete sub l votes" "(r, v, agg) \<in> set votes"
  shows "br_author r < committee_size (cx_committee (us_context sub))"
proof -
  have "map_of votes r = Some (v, agg)" using assms(2,3) by (simp add: tally_complete_def bm_wf_mem [symmetric])
  with assms(2) obtain b where "us_get_block sub r = Some b" unfolding tally_complete_def by blast
  with subdag_okD(4,5) [OF assms(1) this] show ?thesis by (auto simp: block_fits_def members_eq)
qed

lemma certified_vote_v2_spec:
  assumes ok: "subdag_ok sub" and l: "us_get_blocks_at_slot sub s = [l]" and rnd: "slot_round s + 3 < 2 ^ 32"
  shows "\<exists>scores. certified_vote_v2_scores sub s = Inr scores \<and>
    length scores = committee_size (cx_committee (us_context sub)) \<and>
    (\<forall>a < committee_size (cx_committee (us_context sub)). scores ! a =
       (\<Sum>b \<in> votes_of sub l a. stake_of (cx_committee (us_context sub)) (vote_certifiers sub l (vb_reference b))) mod 2 ^ 64)"
proof -
  let ?n = "committee_size (cx_committee (us_context sub))"
  obtain votes where votes: "tally_votes sub l s = Inr votes" "tally_complete sub l votes"
    using tally_votes_spec [OF assms] by blast
  let ?p = "\<lambda>(r, v, agg :: stake_aggregator). v" and ?f = "\<lambda>(r, v, agg). br_author r" and ?g = "\<lambda>(r, v, agg). sa_stake agg"
  have loop: "(\<lambda>(r, v, agg) scores. if v then add_score (br_author r) (sa_stake agg) scores else Inr scores) =
      (\<lambda>x scores. if ?p x then add_score (?f x) (?g x) scores else Inr scores)"
    by (auto simp: fun_eq_iff)
  from score_loop [of "replicate ?n 0" ?n votes ?p ?f ?g] tally_authors [OF ok votes(2)] obtain t where
    t: "for_each (\<lambda>x scores. if ?p x then add_score (?f x) (?g x) scores else Inr scores) votes (replicate ?n 0) = Inr t"
    "length t = ?n" "\<forall>a < ?n. t ! a = (sum_list (map ?g (filter (\<lambda>x. ?p x \<and> ?f x = a) votes))) mod 2 ^ 64" by fastforce
  have "(\<lambda>x. ?p x \<and> ?f x = a) = (\<lambda>(r, v, agg). v \<and> br_author r = a)" for a by (auto simp: fun_eq_iff)
  with t(3) have "\<forall>a < ?n. t ! a = (\<Sum>b \<in> votes_of sub l a.
      stake_of (cx_committee (us_context sub)) (vote_certifiers sub l (vb_reference b))) mod 2 ^ 64"
    using tally_sum [OF ok votes(2), of ?g "\<lambda>r. stake_of (cx_committee (us_context sub)) (vote_certifiers sub l r)"] by simp
  with t(1,2) votes(1) show ?thesis
    by (simp add: certified_vote_v2_scores_def score_leader_def l loop)
qed

lemma certified_vote_v1_spec:
  assumes ok: "subdag_ok sub" and l: "us_get_blocks_at_slot sub s = [l]" and rnd: "slot_round s + 3 < 2 ^ 32"
  shows "\<exists>scores. certified_vote_v1_scores sub s = Inr scores \<and>
    length scores = committee_size (cx_committee (us_context sub)) \<and>
    (\<forall>a < committee_size (cx_committee (us_context sub)). scores ! a =
       card {b \<in> votes_of sub l a. reached_quorum (cx_committee (us_context sub))
         (stake_of (cx_committee (us_context sub)) (vote_certifiers sub l (vb_reference b)))})"
proof -
  let ?cm = "cx_committee (us_context sub)"
  let ?n = "committee_size ?cm"
  let ?q = "\<lambda>r. reached_quorum ?cm (stake_of ?cm (vote_certifiers sub l r))"
  obtain votes where votes: "tally_votes sub l s = Inr votes" "tally_complete sub l votes"
    using tally_votes_spec [OF assms] by blast
  let ?p = "\<lambda>(r, v, agg). v \<and> agg_reached_threshold quorum_is_threshold ?cm agg" and ?f = "\<lambda>(r, v, agg). br_author r"
  let ?g = "\<lambda>(r, v, agg). of_bool (agg_reached_threshold quorum_is_threshold ?cm agg) :: nat"
  have loop: "(\<lambda>(r, v, agg) scores. if v \<and> agg_reached_threshold quorum_is_threshold ?cm agg
        then add_score (br_author r) 1 scores else Inr scores) =
      (\<lambda>x scores. if ?p x then add_score (?f x) 1 scores else Inr scores)"
    by (auto simp: fun_eq_iff)
  from score_loop [of "replicate ?n 0" ?n votes ?p ?f "\<lambda>_. 1"] tally_authors [OF ok votes(2)] obtain t where
    t: "for_each (\<lambda>x scores. if ?p x then add_score (?f x) 1 scores else Inr scores) votes (replicate ?n 0) = Inr t"
    "length t = ?n" "\<forall>a < ?n. t ! a = (sum_list (map (\<lambda>_. 1) (filter (\<lambda>x. ?p x \<and> ?f x = a) votes))) mod 2 ^ 64" by fastforce
  have "sum_list (map (\<lambda>_. 1) (filter (\<lambda>x. ?p x \<and> ?f x = a) xs)) =
      sum_list (map ?g (filter (\<lambda>(r, v, agg). v \<and> br_author r = a) xs))" for a and xs :: vote_tally
    by (induction xs) auto
  moreover have "sum_list (map ?g (filter (\<lambda>(r, v, agg). v \<and> br_author r = a) votes)) =
      (\<Sum>b \<in> votes_of sub l a. of_bool (?q (vb_reference b)))" for a
    using subdag_okD(1) [OF ok]
    by (intro tally_sum [OF ok votes(2)])
      (auto simp: agg_reached_threshold_def quorum_is_threshold_def reached_quorum_def committee_wf_def)
  moreover have "(\<Sum>b \<in> votes_of sub l a. of_bool (?q (vb_reference b)) :: nat) =
      card {b \<in> votes_of sub l a. ?q (vb_reference b)}" for a
    using finite_subdag_blocks [OF ok] by (simp add: votes_of_def sum_of_bool_eq Int_def)
  moreover have "card {b \<in> votes_of sub l a. ?q (vb_reference b)} < 2 ^ 64" for a
    using card_blocks_bound [OF ok] by (force simp: votes_of_def)
  ultimately have "\<forall>a < ?n. t ! a = card {b \<in> votes_of sub l a. ?q (vb_reference b)}" using t(3) by simp
  with t(1,2) votes(1) show ?thesis
    by (simp add: certified_vote_v1_scores_def score_leader_def l loop)
qed

section \<open>Certificates\<close>

definition voting_ref :: "unscored_subdag \<Rightarrow> verified_block \<Rightarrow> block_ref \<Rightarrow> bool" where
  "voting_ref sub l r \<longleftrightarrow> (\<exists>b. us_get_block sub r = Some b \<and> votes_directly b l)"

definition us_certifies :: "unscored_subdag \<Rightarrow> verified_block \<Rightarrow> verified_block \<Rightarrow> bool" where
  "us_certifies sub l c \<longleftrightarrow> reached_quorum (cx_committee (us_context sub))
     (stake_of (cx_committee (us_context sub)) (br_author ` {r \<in> set (vb_ancestors c). voting_ref sub l r}))"

definition us_cache_ok :: "unscored_subdag \<Rightarrow> verified_block \<Rightarrow> (block_ref \<rightharpoonup> bool) \<Rightarrow> bool" where
  "us_cache_ok sub l all_votes \<longleftrightarrow> (\<forall>r v. all_votes r = Some v \<longrightarrow> v = voting_ref sub l r)"

lemma us_cached_is_vote_eq:
  assumes ok: "subdag_ok sub" and near: "br_round r \<le> vb_round l + 1" and cache: "us_cache_ok sub l votes"
  shows "\<exists>votes'. us_cached_is_vote sub l r votes = Inr (voting_ref sub l r, votes') \<and> us_cache_ok sub l votes'"
proof (cases "votes r")
  case None
  show ?thesis
  proof (cases "us_get_block sub r")
    case (Some b)
    have "vb_round b \<le> vb_round l + 1" using near subdag_okD(4) [OF ok Some] by auto
    from us_is_vote_eq [OF subdag_okD(5) [OF ok Some] this, of sub] None Some cache show ?thesis
      by (auto simp: us_cached_is_vote_def us_cache_ok_def voting_ref_def)
  qed (use None cache in \<open>auto simp: us_cached_is_vote_def voting_ref_def\<close>)
qed (use cache in \<open>auto simp: us_cached_is_vote_def us_cache_ok_def\<close>)

lemma us_certificate_loop_eq:
  assumes ok: "subdag_ok sub" and cm: "cm = cx_committee (us_context sub)"
  shows "agg_inv cm agg \<Longrightarrow> \<not> reached_quorum cm (sa_stake agg) \<Longrightarrow>
    (\<forall>r \<in> set refs. br_round r \<le> vb_round l + 1 \<and> br_author r \<in> members cm) \<Longrightarrow> us_cache_ok sub l votes \<Longrightarrow>
    \<exists>votes'. us_certificate_loop sub l refs agg votes =
      Inr (reached_quorum cm (stake_of cm (br_author ` {r \<in> set refs. voting_ref sub l r} \<union> set (sa_votes agg))), votes') \<and>
      us_cache_ok sub l votes'"
proof (induction refs arbitrary: agg votes)
  case Nil
  then show ?case by (auto simp: agg_inv_def)
next
  case (Cons r refs)
  have r: "br_round r \<le> vb_round l + 1" "br_author r \<in> members cm"
    and rest: "\<forall>r \<in> set refs. br_round r \<le> vb_round l + 1 \<and> br_author r \<in> members cm" using Cons.prems(3) by auto
  obtain votes1 where vote: "us_cached_is_vote sub l r votes = Inr (voting_ref sub l r, votes1)" "us_cache_ok sub l votes1"
    using us_cached_is_vote_eq [OF ok r(1) Cons.prems(4)] by blast
  let ?V = "\<lambda>refs. br_author ` {r \<in> set refs. voting_ref sub l r}"
  show ?case
  proof (cases "voting_ref sub l r")
    case False
    then have "{x \<in> set (r # refs). voting_ref sub l x} = {x \<in> set refs. voting_ref sub l x}" by auto
    with vote False Cons.IH [OF Cons.prems(1,2) rest vote(2)] show ?thesis by simp
  next
    case True
    obtain agg1 where agg1: "agg_add quorum_is_threshold (br_author r) cm agg =
        Inr (quorum_is_threshold cm (sa_stake agg1), agg1)" "agg_inv cm agg1"
      "set (sa_votes agg1) = insert (br_author r) (set (sa_votes agg))"
      using agg_add_spec [OF _ Cons.prems(1) r(2), of quorum_is_threshold] subdag_okD(1) [OF ok] cm by metis
    have eq: "?V (r # refs) \<union> set (sa_votes agg) = ?V refs \<union> set (sa_votes agg1)"
      using True agg1(3) by auto
    have sub: "?V refs \<union> set (sa_votes agg1) \<subseteq> members cm"
      using rest agg1(2) by (auto simp: agg_inv_def)
    show ?thesis
    proof (cases "reached_quorum cm (sa_stake agg1)")
      case reached: True
      then have "reached_quorum cm (stake_of cm (?V refs \<union> set (sa_votes agg1)))"
        using quorum_thr.reached_mono [OF _ sub, of "set (sa_votes agg1)"] agg1(2)
        by (simp add: quorum_is_threshold_def agg_inv_def)
      with True reached vote agg1 eq show ?thesis by (simp add: quorum_is_threshold_def cm [symmetric])
    next
      case False
      from Cons.IH [OF agg1(2) False rest vote(2)] True False vote(1) agg1(1) show ?thesis
        unfolding eq by (simp add: quorum_is_threshold_def cm [symmetric])
    qed
  qed
qed

lemma us_is_certificate_eq:
  assumes ok: "subdag_ok sub" and c: "c \<in> subdag_blocks sub" "vb_round c = vb_round l + 2" and cache: "us_cache_ok sub l votes"
  shows "\<exists>votes'. us_is_certificate sub c l votes = Inr (us_certifies sub l c, votes') \<and> us_cache_ok sub l votes'"
proof -
  let ?cm = "cx_committee (us_context sub)"
  have fits: "block_fits ?cm c" using subdag_okD(5) [OF ok] c(1) by (simp add: subdag_blocks_def)
  have near: "\<forall>r \<in> set (vb_ancestors c). br_round r \<le> vb_round l + 1 \<and> br_author r \<in> members ?cm"
    using fits c(2) by (fastforce simp: block_fits_def)
  have "\<not> reached_quorum ?cm (sa_stake agg_new)"
    using subdag_okD(1) [OF ok] by (simp add: reached_quorum_def agg_new_def committee_wf_def)
  from us_certificate_loop_eq [OF ok refl agg_inv_new this near cache] show ?thesis
    by (simp add: us_is_certificate_def us_certifies_def agg_new_def)
qed

lemma certificate_scores_spec:
  assumes ok: "subdag_ok sub" and l: "us_get_blocks_at_slot sub s = [l]" and rnd: "slot_round s + 3 < 2 ^ 32"
  shows "\<exists>scores. certificate_scores sub s = Inr scores \<and>
    length scores = committee_size (cx_committee (us_context sub)) \<and> (\<forall>x \<in> set scores. x < 2 ^ 64)"
proof -
  note lf = leader_block_facts [OF ok l]
  let ?n = "committee_size (cx_committee (us_context sub))"
  have round: "scoring_decision_round s = slot_round s + 2"
    using rnd by (simp add: scoring_decision_round_def default_wave_length_def minimum_wave_length_def
        u32_add_exact u32_sub_exact)
  have "slot_round s + 2 + 1 < 2 ^ 32" using rnd by simp
  from us_get_blocks_at_round_spec [OF ok this] obtain bs where
    bs: "us_get_blocks_at_round sub (slot_round s + 2) = Inr bs"
    "set bs = {b \<in> subdag_blocks sub. vb_round b = slot_round s + 2}" by metis
  let ?P = "\<lambda>(scores :: nat list, votes). length scores = ?n \<and> (\<forall>x \<in> set scores. x < 2 ^ 64) \<and> us_cache_ok sub l votes"
  have "\<exists>st. for_each (\<lambda>b (scores, all_votes).
             and_then (us_is_certificate sub b l all_votes) (\<lambda>(c, all_votes').
               if c then and_then (add_score (br_author (vb_reference b)) 1 scores) (\<lambda>scores'. Inr (scores', all_votes'))
               else Inr (scores, all_votes'))) bs (replicate ?n 0, Map.empty) = Inr st \<and> ?P st"
  proof (rule for_each_total)
    fix b st assume b: "b \<in> set bs" and "?P st"
    then obtain scores votes where st: "st = (scores, votes)" "length scores = ?n" "\<forall>x \<in> set scores. x < 2 ^ 64"
      "us_cache_ok sub l votes" by (cases st) auto
    have mem: "b \<in> subdag_blocks sub" "vb_round b = vb_round l + 2" using b bs(2) lf(3) by auto
    obtain votes' where cert: "us_is_certificate sub b l votes = Inr (us_certifies sub l b, votes')" "us_cache_ok sub l votes'"
      using us_is_certificate_eq [OF ok mem st(4)] by blast
    have "vb_author b < ?n"
      using mem(1) subdag_okD(5) [OF ok, of "vb_reference b" b] by (simp add: subdag_blocks_def block_fits_def members_eq)
    moreover have "\<forall>x \<in> set (scores[vb_author b := u64_add (scores ! vb_author b) 1]). x < 2 ^ 64"
      using st(3) set_update_subset_insert [of scores "vb_author b" "u64_add (scores ! vb_author b) 1"] by auto
    ultimately show "\<exists>st'. (\<lambda>(scores, all_votes).
             and_then (us_is_certificate sub b l all_votes) (\<lambda>(c, all_votes').
               if c then and_then (add_score (br_author (vb_reference b)) 1 scores) (\<lambda>scores'. Inr (scores', all_votes'))
               else Inr (scores, all_votes'))) st = Inr st' \<and> ?P st'"
      using cert st by (cases "us_certifies sub l b") (auto simp: add_score_def)
  qed (auto simp: us_cache_ok_def)
  with bs(1) show ?thesis by (fastforce simp: certificate_scores_def score_leader_def l round)
qed

section \<open>The trait\<close>

text \<open>
  What the calculator relies on: for a slot with at most one block a strategy answers with one score
  per authority.
\<close>

locale leader_scoring_strategy =
  fixes score :: "unscored_subdag \<Rightarrow> slot \<Rightarrow> nat list res"
  assumes score_total: "subdag_ok sub \<Longrightarrow> leader_slot_ok sub s \<Longrightarrow>
    \<exists>scores. score sub s = Inr scores \<and> length scores = committee_size (cx_committee (us_context sub)) \<and>
      (\<forall>x \<in> set scores. x < 2 ^ 64)"
begin

lemma add_leader:
  assumes "subdag_ok sub" "leader_slot_ok sub s" "length scores = committee_size (cx_committee (us_context sub))"
    and "\<forall>x \<in> set scores. x < 2 ^ 64"
  shows "\<exists>t. and_then (score sub s) (\<lambda>new. add_scores new scores) = Inr t \<and>
    length t = length scores \<and> (\<forall>a < length scores. t ! a = u64_add (scores ! a) (projr (score sub s) ! a))"
proof -
  from score_total [OF assms(1,2)] assms(3) obtain new where new: "score sub s = Inr new" "length new = length scores" by auto
  let ?n = "length scores"
  have "(\<lambda>(a, v). add_score a v) = (\<lambda>x scores. if True then add_score (fst x) (snd x) scores else Inr scores)"
    by (auto simp: fun_eq_iff)
  moreover obtain t where t: "for_each (\<lambda>x scores. if True then add_score (fst x) (snd x) scores else Inr scores)
      (List.enumerate 0 new) scores = Inr t" "length t = ?n"
    "\<forall>a < ?n. t ! a = (scores ! a + sum_list (map snd (filter (\<lambda>x. True \<and> fst x = a) (List.enumerate 0 new)))) mod 2 ^ 64"
    using score_loop [of scores ?n "List.enumerate 0 new" "\<lambda>_. True" fst snd] assms(4) new(2)
    by (auto simp: in_set_enumerate_eq)
  moreover have "sum_list (map snd (filter (\<lambda>x. True \<and> fst x = a) (List.enumerate 0 new))) = new ! a" if "a < ?n" for a
  proof -
    have "filter (\<lambda>x. fst x = k + a) (List.enumerate k xs) = (if a < length xs then [(k + a, xs ! a)] else [])" for k and xs :: "nat list"
    proof (induction xs arbitrary: k a)
      case (Cons x xs)
      have "filter (\<lambda>x. fst x = k) (List.enumerate (Suc k) xs) = []"
        by (auto simp: filter_empty_conv in_set_enumerate_eq)
      with Cons [of "Suc k" "a - 1"] show ?case by (cases a) auto
    qed simp
    from this [of 0 new] that new(2) show ?thesis by simp
  qed
  ultimately show ?thesis using new by (simp add: add_scores_def u64_add_def)
qed

lemma scores_total:
  assumes ok: "subdag_ok sub" and slots: "\<forall>r \<in> set leaders. leader_slot_ok sub (slot_of r)"
    and scores: "length scores = committee_size (cx_committee (us_context sub))" "\<forall>x \<in> set scores. x < 2 ^ 64"
  shows "\<exists>t. for_each (\<lambda>r scores. and_then (score sub (slot_of r)) (\<lambda>new. add_scores new scores)) leaders scores = Inr t \<and>
    length t = length scores \<and>
    (\<forall>a < length scores. t ! a = (scores ! a + (\<Sum>r \<leftarrow> leaders. projr (score sub (slot_of r)) ! a)) mod 2 ^ 64)"
  using slots scores
proof (induction leaders arbitrary: scores)
  case (Cons r leaders)
  have slot: "leader_slot_ok sub (slot_of r)" using Cons.prems(1) by simp
  obtain u where u: "and_then (score sub (slot_of r)) (\<lambda>new. add_scores new scores) = Inr u" "length u = length scores"
    "\<And>a. a < length scores \<Longrightarrow> u ! a = u64_add (scores ! a) (projr (score sub (slot_of r)) ! a)"
    using add_leader [OF ok slot Cons.prems(2,3)] by auto
  have "\<forall>x \<in> set u. x < 2 ^ 64" using u(2,3) by (auto simp: in_set_conv_nth)
  moreover have "length u = committee_size (cx_committee (us_context sub))" using u(2) Cons.prems(2) by simp
  ultimately obtain t where t: "for_each (\<lambda>r scores. and_then (score sub (slot_of r)) (\<lambda>new. add_scores new scores)) leaders u = Inr t"
    "length t = length u" "\<And>a. a < length u \<Longrightarrow> t ! a = (u ! a + (\<Sum>r \<leftarrow> leaders. projr (score sub (slot_of r)) ! a)) mod 2 ^ 64"
    using Cons.IH [of u] Cons.prems(1) by auto
  have "t ! a = (scores ! a + (\<Sum>r \<leftarrow> r # leaders. projr (score sub (slot_of r)) ! a)) mod 2 ^ 64"
    if "a < length scores" for a
    using t(3) [of a] u(2) u(3) [OF that] that by (simp add: u64_add_def mod_simps add.assoc)
  with u(1,2) t(1,2) show ?case by simp
next
  case Nil
  then have "scores ! a < 2 ^ 64" if "a < length scores" for a using that nth_mem by blast
  then show ?case by simp
qed

end

lemma no_leader_score:
  "us_get_blocks_at_slot sub s = [] \<Longrightarrow> score_leader f sub s = Inr (replicate (committee_size (cx_committee (us_context sub))) 0)"
  by (simp add: score_leader_def)

lemma leader_slot_ok_cases:
  assumes "leader_slot_ok sub s"
  obtains "us_get_blocks_at_slot sub s = []" | l where "us_get_blocks_at_slot sub s = [l]" "slot_round s + 3 < 2 ^ 32"
proof (cases "us_get_blocks_at_slot sub s")
  case (Cons l rest)
  with assms have "us_get_blocks_at_slot sub s = [l]" by (cases rest) (simp_all add: leader_slot_ok_def)
  with assms that(2) show thesis by (simp add: leader_slot_ok_def)
qed (rule that(1))

interpretation vote: leader_scoring_strategy vote_scores
proof
  fix sub s assume ok: "subdag_ok sub" and "leader_slot_ok sub s"
  from this(2) show "\<exists>scores. vote_scores sub s = Inr scores \<and>
      length scores = committee_size (cx_committee (us_context sub)) \<and> (\<forall>x \<in> set scores. x < 2 ^ 64)"
  proof (cases rule: leader_slot_ok_cases)
    case 1
    then show ?thesis by (simp add: vote_scores_def no_leader_score)
  next
    case (2 l)
    from vote_scores_spec [OF ok 2] card_blocks_bound [OF ok] show ?thesis
      by (fastforce simp: in_set_conv_nth)
  qed
qed

interpretation certified_v2: leader_scoring_strategy certified_vote_v2_scores
proof
  fix sub s assume ok: "subdag_ok sub" and "leader_slot_ok sub s"
  from this(2) show "\<exists>scores. certified_vote_v2_scores sub s = Inr scores \<and>
      length scores = committee_size (cx_committee (us_context sub)) \<and> (\<forall>x \<in> set scores. x < 2 ^ 64)"
  proof (cases rule: leader_slot_ok_cases)
    case 1
    then show ?thesis by (simp add: certified_vote_v2_scores_def no_leader_score)
  next
    case (2 l)
    from certified_vote_v2_spec [OF ok 2] obtain scores where
      "certified_vote_v2_scores sub s = Inr scores" "length scores = committee_size (cx_committee (us_context sub))"
      "\<forall>a < committee_size (cx_committee (us_context sub)). scores ! a < 2 ^ 64" by auto
    then show ?thesis by (auto simp: in_set_conv_nth)
  qed
qed

interpretation certified_v1: leader_scoring_strategy certified_vote_v1_scores
proof
  fix sub s assume ok: "subdag_ok sub" and "leader_slot_ok sub s"
  from this(2) show "\<exists>scores. certified_vote_v1_scores sub s = Inr scores \<and>
      length scores = committee_size (cx_committee (us_context sub)) \<and> (\<forall>x \<in> set scores. x < 2 ^ 64)"
  proof (cases rule: leader_slot_ok_cases)
    case 1
    then show ?thesis by (simp add: certified_vote_v1_scores_def no_leader_score)
  next
    case (2 l)
    from certified_vote_v1_spec [OF ok 2] card_blocks_bound [OF ok] show ?thesis
      by (fastforce simp: in_set_conv_nth votes_of_def)
  qed
qed

interpretation certificate: leader_scoring_strategy certificate_scores
proof
  fix sub s assume ok: "subdag_ok sub" and "leader_slot_ok sub s"
  from this(2) show "\<exists>scores. certificate_scores sub s = Inr scores \<and>
      length scores = committee_size (cx_committee (us_context sub)) \<and> (\<forall>x \<in> set scores. x < 2 ^ 64)"
  proof (cases rule: leader_slot_ok_cases)
    case 1
    then show ?thesis by (simp add: certificate_scores_def no_leader_score)
  next
    case (2 l)
    from certificate_scores_spec [OF ok 2] show ?thesis .
  qed
qed

end
