(* ===== verification/Reputation.thy ===== *)
theory Reputation
  imports Scoring_Properties
begin

text \<open>
  The sub-dags that wait to be scored, across calls of the linearizer: their commit indices are
  consecutive and no block but the leader is at the slot of a leader, so that the reputation scores
  are calculated without a panic whatever the strategy.
\<close>

section \<open>One block per leader slot\<close>

definition leader_slots_unique :: "committed_sub_dag list \<Rightarrow> bool" where
  "leader_slots_unique sds \<longleftrightarrow>
     (\<forall>sd \<in> set sds. \<forall>b \<in> set (committed_blocks sds).
        slot_of (vb_reference b) = slot_of (sd_leader sd) \<longrightarrow> vb_reference b = sd_leader sd)"

text \<open>What holds of the sub-dags \<open>sds\<close> that wait for scores, in the state after their commits.\<close>

definition scoring_inv :: "dag_state \<Rightarrow> committed_sub_dag list \<Rightarrow> bool" where
  "scoring_inv ds sds \<longleftrightarrow>
     length sds \<le> last_commit_index ds \<and>
     map (cr_index \<circ> sd_commit_ref) sds = [last_commit_index ds + 1 - length sds..<last_commit_index ds + 1] \<and>
     (\<forall>sd \<in> set sds. sd_leader sd \<in> vb_reference ` set (sd_blocks sd)) \<and>
     distinct (map vb_reference (committed_blocks sds)) \<and>
     (\<forall>b \<in> set (committed_blocks sds). dag_lookup ds (vb_reference b) = Some b \<and>
        \<not> uncommitted ds (vb_reference b) \<and> vb_round b \<le> last_commit_round ds) \<and>
     leader_slots_unique sds"

lemma scoring_inv_empty: "scoring_inv ds []"
  by (simp add: scoring_inv_def leader_slots_unique_def)

lemma scoring_invD:
  assumes "scoring_inv ds sds"
  shows "length sds \<le> last_commit_index ds"
    and "map (cr_index \<circ> sd_commit_ref) sds = [last_commit_index ds + 1 - length sds..<last_commit_index ds + 1]"
    and "sd \<in> set sds \<Longrightarrow> sd_leader sd \<in> vb_reference ` set (sd_blocks sd)"
    and "distinct (map vb_reference (committed_blocks sds))"
    and "b \<in> set (committed_blocks sds) \<Longrightarrow> dag_lookup ds (vb_reference b) = Some b"
    and "b \<in> set (committed_blocks sds) \<Longrightarrow> \<not> uncommitted ds (vb_reference b)"
    and "b \<in> set (committed_blocks sds) \<Longrightarrow> vb_round b \<le> last_commit_round ds"
    and "leader_slots_unique sds"
  using assms unfolding scoring_inv_def by blast+

lemma committed_blocks_append [simp]: "committed_blocks (xs @ ys) = committed_blocks xs @ committed_blocks ys"
  by (simp add: committed_blocks_def)

lemma leader_committed:
  assumes "scoring_inv ds sds" "sd \<in> set sds"
  obtains b where "b \<in> set (committed_blocks sds)" "vb_reference b = sd_leader sd"
proof -
  from scoring_invD(3) [OF assms] obtain b where "b \<in> set (sd_blocks sd)" "vb_reference b = sd_leader sd" by auto
  moreover from this(1) assms(2) have "b \<in> set (committed_blocks sds)" by (auto simp: committed_blocks_def)
  ultimately show thesis by (intro that)
qed

text \<open>The new sub-dag is apart from the ones before, at the slot of every leader.\<close>

lemma leader_slots_unique_snoc:
  assumes inv: "scoring_inv ds sds" and lead: "sd_leader sd = vb_reference l" "last_commit_round ds < vb_round l"
    and new: "\<And>b. b \<in> set (sd_blocks sd) \<Longrightarrow> uncommitted ds (vb_reference b) \<and>
      (vb_reference b = vb_reference l \<or> vb_round b < vb_round l)"
  shows "leader_slots_unique (sds @ [sd])"
  unfolding leader_slots_unique_def
proof (intro ballI impI)
  note i = scoring_invD [OF inv]
  fix s b assume s: "s \<in> set (sds @ [sd])" and b: "b \<in> set (committed_blocks (sds @ [sd]))"
    and slot: "slot_of (vb_reference b) = slot_of (sd_leader s)"
  have same: "vb_round b = br_round (sd_leader s)" "vb_author b = br_author (sd_leader s)"
    using slot by (auto simp: slot_of_eq_iff)
  consider "s \<in> set sds" "b \<in> set (committed_blocks sds)" | "s \<in> set sds" "b \<in> set (sd_blocks sd)"
    | "s = sd" "b \<in> set (committed_blocks sds)" | "s = sd" "b \<in> set (sd_blocks sd)"
    using s b by auto
  then show "vb_reference b = sd_leader s"
  proof cases
    case 1
    with i(8) slot show ?thesis by (simp add: leader_slots_unique_def)
  next
    case 2
    obtain x where x: "x \<in> set (committed_blocks sds)" "vb_reference x = sd_leader s"
      by (rule leader_committed [OF inv 2(1)])
    have "uncommitted ds (vb_reference b) \<longleftrightarrow> uncommitted ds (vb_reference x)"
      using same x(2) by (simp add: uncommitted_def flip: vb_reference_sel)
    with i(6) [OF x(1)] new [OF 2(2)] show ?thesis by simp
  next
    case 3
    with i(7) [OF 3(2)] same lead show ?thesis by simp
  next
    case 4
    with new [OF 4(2)] same lead(1) show ?thesis by auto
  qed
qed

lemma scoring_inv_commit:
  assumes ok: "linear_ok ds" and inv: "scoring_inv ds sds" and ext: "extends_by cry ds l sd c" and rec: "recorded c ds ds'"
    and l: "dag_lookup ds (vb_reference l) = Some l" "last_commit_round ds < vb_round l"
    and idx: "last_commit_index ds + 1 < 2 ^ 32"
  shows "scoring_inv ds' (sds @ [sd])"
proof -
  note last = recorded_last [OF rec ext] and follows = extends_follows [OF ext idx]
  note i = scoring_invD [OF inv]
  have e: "sd_leader sd = vb_reference l" "sd_commit_ref sd = tc_reference c" "distinct (map vb_reference (sd_blocks sd))"
    "vb_reference ` set (sd_blocks sd) = sub_dag_of ds (vb_reference l)" "set (tc_blocks c) = vb_reference ` set (sd_blocks sd)"
    "\<And>b. b \<in> set (sd_blocks sd) \<Longrightarrow> dag_lookup ds (vb_reference b) = Some b" using ext by (auto simp: extends_by_def)
  have same: "dag_lookup ds' = dag_lookup ds" using rec by (simp add: recorded_def)
  have new: "uncommitted ds (vb_reference b) \<and> (vb_reference b = vb_reference l \<or> vb_round b < vb_round l)"
    if "b \<in> set (sd_blocks sd)" for b
  proof -
    have "vb_reference b \<in> sub_dag_of ds (vb_reference l)" using that e(4) by (metis imageI)
    with sub_dag_uncommitted [OF this] sub_dag_round [OF _ this] leader_uncommitted [OF _ l(2,1)] ok
    show ?thesis by (auto simp: linear_ok_def)
  qed
  have committed: "\<not> uncommitted ds' (vb_reference b)"
    if "dag_lookup ds (vb_reference b) = Some b" "\<not> uncommitted ds (vb_reference b) \<or> vb_reference b \<in> set (tc_blocks c)" for b
  proof -
    have "br_author (vb_reference b) < length (ds_last_committed_rounds ds)"
      using dag_lookup_ref(2) [of ds, OF _ that(1)] ok dag_invD(2) [of ds] by (auto simp: linear_ok_def cache_wf_def)
    with recorded_uncommitted [OF rec, of "vb_reference b"] that(2) show ?thesis by blast
  qed
  show ?thesis
    unfolding scoring_inv_def
  proof (intro conjI ballI)
    show "length (sds @ [sd]) \<le> last_commit_index ds'" using i(1) last(1) follows(2) by simp
    show "map (cr_index \<circ> sd_commit_ref) (sds @ [sd]) =
        [last_commit_index ds' + 1 - length (sds @ [sd])..<last_commit_index ds' + 1]"
      using i(1,2) last(1) follows(2) e(2) by (simp add: tc_reference_def Suc_diff_le)
    show "sd_leader s \<in> vb_reference ` set (sd_blocks s)" if "s \<in> set (sds @ [sd])" for s
      using that i(3) e(1,4) sub_dag_leader by auto
    have "vb_reference x \<noteq> vb_reference y" if "x \<in> set (committed_blocks sds)" "y \<in> set (sd_blocks sd)" for x y
      using i(6) [OF that(1)] new [OF that(2)] by auto
    then show "distinct (map vb_reference (committed_blocks (sds @ [sd])))" using i(4) e(3) by auto
    show "leader_slots_unique (sds @ [sd])" by (rule leader_slots_unique_snoc [OF inv e(1) l(2) new])
    fix b assume "b \<in> set (committed_blocks (sds @ [sd]))"
    then consider "b \<in> set (committed_blocks sds)" | "b \<in> set (sd_blocks sd)" by auto
    then have *: "dag_lookup ds (vb_reference b) = Some b \<and> \<not> uncommitted ds' (vb_reference b) \<and> vb_round b \<le> vb_round l"
    proof cases
      case 1
      with i(5-7) [OF 1] committed l(2) show ?thesis by auto
    next
      case 2
      with e(5,6) committed new [OF 2] show ?thesis by (auto simp: slot_of_eq_iff vb_reference_def)
    qed
    then show "dag_lookup ds' (vb_reference b) = Some b" "\<not> uncommitted ds' (vb_reference b)"
      "vb_round b \<le> last_commit_round ds'" using same last(2) by simp_all
  qed
qed

lemma scoring_inv_commits:
  assumes ser: "commits_serialize cry"
  shows "linear_ok ds \<Longrightarrow> leaders_ascend ds leaders \<Longrightarrow> last_commit_index ds + length leaders < 2 ^ 32 \<Longrightarrow>
    scoring_inv ds sds \<Longrightarrow> commit_leaders cry leaders ds = Inr (new, ds') \<Longrightarrow>
    scoring_inv ds' (sds @ new) \<and> last_commit_index ds' = last_commit_index ds + length leaders \<and>
    last_commit_round ds' = last (last_commit_round ds # map vb_round leaders) \<and> length new = length leaders"
proof (induction leaders arbitrary: ds sds new)
  case (Cons l leaders)
  have l: "dag_lookup ds (vb_reference l) = Some l" "last_commit_round ds < vb_round l"
    using Cons.prems(2) by (auto simp: leaders_ascend_def)
  have idx: "last_commit_index ds + 1 < 2 ^ 32" using Cons.prems(3) by simp
  obtain sd c ds1 where step: "collect_sub_dag_and_commit cry ds l = Inr (sd, c)" "extends_by cry ds l sd c"
    "add_commit c ds = Inr ds1" "recorded c ds ds1"
    using commit_leader_step [OF Cons.prems(1) ser l idx] by blast
  note last = recorded_last [OF step(4,2)] extends_follows(2) [OF step(2) idx]
  obtain rest where rest: "new = sd # rest" "commit_leaders cry leaders ds1 = Inr (rest, ds')"
    using Cons.prems(5) step(1,3) by (auto simp: and_then_eq_Inr)
  have "linear_ok ds1" "dag_lookup ds1 = dag_lookup ds" using step(4) by (simp_all add: recorded_def)
  moreover have "leaders_ascend ds1 leaders" "last_commit_index ds1 + length leaders < 2 ^ 32"
    using Cons.prems(2,3) calculation(2) last by (auto simp: leaders_ascend_def)
  moreover have "scoring_inv ds1 (sds @ [sd])"
    by (rule scoring_inv_commit [OF Cons.prems(1,4) step(2,4) l idx])
  ultimately show ?case using Cons.IH [of ds1 "sds @ [sd]" rest] rest last by simp
qed simp

lemma scoring_inv_cong:
  assumes "ds_last_commit ds' = ds_last_commit ds" "ds_last_committed_rounds ds' = ds_last_committed_rounds ds"
    and "\<And>r b. dag_lookup ds r = Some b \<Longrightarrow> dag_lookup ds' r = Some b"
  shows "scoring_inv ds sds \<Longrightarrow> scoring_inv ds' sds"
  using assms unfolding scoring_inv_def last_commit_index_def last_commit_round_def uncommitted_def by auto

lemma flush_sel [simp]:
  "ds_last_commit (flush ds) = ds_last_commit ds" "ds_last_committed_rounds (flush ds) = ds_last_committed_rounds ds"
  "ds_context (flush ds) = ds_context ds" "ds_unscored_committed_subdags (flush ds) = ds_unscored_committed_subdags ds"
  by (simp_all add: flush_def Let_def split: prod.split)

lemma handle_commit_scoring:
  assumes "commits_serialize cry" "linear_ok ds" "leaders_ascend ds leaders"
    and "last_commit_index ds + length leaders < 2 ^ 32" "scoring_inv ds sds"
  shows "\<exists>new ds'. linearizer_handle_commit cry leaders ds = Inr (new, ds') \<and> scoring_inv ds' (sds @ new) \<and>
    linear_ok ds' \<and> dag_lookup ds' = dag_lookup ds \<and> ds_context ds' = ds_context ds \<and> length new = length leaders \<and>
    last_commit_index ds' = last_commit_index ds + length leaders \<and>
    last_commit_round ds' = last (last_commit_round ds # map vb_round leaders)"
proof -
  from commit_leaders_spec [OF assms(1-4)] obtain new cs ds1 where
    ds1: "commit_leaders cry leaders ds = Inr (new, ds1)" "linear_ok ds1" "dag_lookup ds1 = dag_lookup ds"
    "ds_context ds1 = ds_context ds" by blast
  note inv = scoring_inv_commits [OF assms ds1(1)]
  let ?ds' = "if new \<noteq> [] then flush ds1 else ds1"
  have "dag_inv (flush ds1)" "dag_lookup (flush ds1) = dag_lookup ds1"
    using flush_persists(1,2) [of ds1] ds1(2) by (simp_all add: linear_ok_def)
  then have "linear_ok ?ds'" "dag_lookup ?ds' = dag_lookup ds" "scoring_inv ?ds' (sds @ new)"
    using ds1(2,3) inv scoring_inv_cong [of "flush ds1" ds1]
    by (auto simp: linear_ok_def dag_causal_def ancestors_distinct_def)
  moreover have "linearizer_handle_commit cry leaders ds = Inr (new, ?ds')"
    using ds1(1) by (simp add: linearizer_handle_commit_def)
  moreover have "last_commit_index ?ds' = last_commit_index ds1" "last_commit_round ?ds' = last_commit_round ds1"
    by (simp_all add: last_commit_index_def last_commit_round_def)
  ultimately show ?thesis using inv ds1(4) by (intro exI [of _ new] exI [of _ ?ds']) simp
qed

section \<open>Unscored sub-dags\<close>

lemma contiguous_blocks_eq:
  "map (cr_index \<circ> sd_commit_ref) sds = [k..<k + length sds] \<Longrightarrow> k + length sds \<le> 2 ^ 32 \<Longrightarrow>
     contiguous_blocks sds = Inr (committed_blocks sds)"
proof (induction sds arbitrary: k rule: contiguous_blocks.induct)
  case (1 previous subdag sds)
  have "[k..<k + length (previous # subdag # sds)] = k # Suc k # [Suc (Suc k)..<k + length (previous # subdag # sds)]"
    by (simp add: upt_conv_Cons del: upt_Suc)
  with 1(2) have "map (cr_index \<circ> sd_commit_ref) (subdag # sds) = [Suc k..<Suc k + length (subdag # sds)]"
    "cr_index (sd_commit_ref previous) = k" "cr_index (sd_commit_ref subdag) = Suc k"
    by (simp_all add: upt_conv_Cons comp_def del: upt_Suc)
  moreover have add: "u32_add k 1 = Suc k" using 1(3) by (simp add: u32_add_exact)
  ultimately have "contiguous_blocks (subdag # sds) = Inr (committed_blocks (subdag # sds))"
    using 1(3) by (intro 1(1) [of "Suc k"]) (assumption | simp)+
  with \<open>cr_index (sd_commit_ref previous) = k\<close> \<open>cr_index (sd_commit_ref subdag) = Suc k\<close> add show ?case by simp
qed simp_all

lemma dag_block_fits:
  assumes "dag_inv ds" "dag_causal ds" "dag_lookup ds r = Some b"
  shows "block_fits (cx_committee (ds_context ds)) b"
proof -
  have ref: "vb_reference b = r" "br_author r < num_authorities ds" using dag_lookup_ref [OF assms(1,3)] by simp_all
  have "br_author a < num_authorities ds \<and> br_round a < br_round r" if "a \<in> set (vb_ancestors b)" for a
  proof -
    have "dag_lookup ds a \<noteq> None" "br_round a < br_round r" using assms(2,3) that by (auto simp: dag_causal_def)
    with dag_lookup_ref(2) [OF assms(1), of a] show ?thesis by auto
  qed
  with ref show ?thesis by (auto simp: block_fits_def members_eq)
qed

lemma distinct_equal_length: "(\<And>x y. x \<in> set xs \<Longrightarrow> y \<in> set xs \<Longrightarrow> x = y) \<Longrightarrow> distinct xs \<Longrightarrow> length xs \<le> 1"
  using card_le_Suc0_iff_eq [of "set xs"] distinct_card [of xs] by simp

lemma unscored_subdag_spec:
  assumes wf: "committee_wf (cx_committee cx)" and cx: "ds_context ds = cx" and ok: "linear_ok ds"
    and inv: "scoring_inv ds sds" and ne: "sds \<noteq> []"
    and bounds: "last_commit_index ds + 1 < 2 ^ 32" "last_commit_round ds + 3 < 2 ^ 32" "card (dom (dag_lookup ds)) < 2 ^ 64"
  obtains sub where "UnscoredSubdag_new cx sds = Inr sub" "subdag_ok sub" "us_context sub = cx"
    "us_commit_range sub = CommitRange (last_commit_index ds + 1 - length sds) (last_commit_index ds + 1)"
    "us_committed_leaders sub = map sd_leader sds" "subdag_blocks sub = set (committed_blocks sds)"
    "\<forall>sd \<in> set sds. leader_slot_ok sub (slot_of (sd_leader sd))"
proof -
  note i = scoring_invD [OF inv]
  let ?k = "last_commit_index ds + 1 - length sds"
  let ?m = "foldl add_block [] (committed_blocks sds)"
  let ?sub = "\<lparr> us_context = cx, us_commit_range = CommitRange ?k (last_commit_index ds + 1),
      us_committed_leaders = map sd_leader sds, us_blocks = ?m \<rparr>"
  have idx: "map (cr_index \<circ> sd_commit_ref) sds = [?k..<?k + length sds]" using i(1,2) by simp
  note added = added_blocks [OF i(4)]
  have mwf: "bm_wf ?m" by (rule add_blocks(1)) simp
  have keys: "(r, b) \<in> set ?m \<Longrightarrow> vb_reference b = r \<and> b \<in> set (committed_blocks sds)" for r b
    using added_block_mem [OF i(4), of r b] by simp
  have "distinct (map fst ?m)" using mwf by (simp add: bm_wf_def)
  then have "length ?m = card (fst ` set ?m)" using distinct_card [of "map fst ?m"] by simp
  also have "\<dots> \<le> card (dom (dag_lookup ds))"
  proof (intro card_mono finite_dag subsetI)
    fix r assume "r \<in> fst ` set ?m"
    then obtain b where b: "(r, b) \<in> set ?m" by auto
    with keys [OF b] i(5) [of b] show "r \<in> dom (dag_lookup ds)" by auto
  qed
  finally have len: "length ?m < 2 ^ 64" using bounds(3) by simp
  have fits: "block_fits (cx_committee cx) b" if "b \<in> set (committed_blocks sds)" for b
    using dag_block_fits [of ds, OF _ _ i(5) [OF that]] ok cx by (simp add: linear_ok_def)
  have sub_ok: "subdag_ok ?sub" unfolding subdag_ok_def using wf mwf len keys fits by auto
  have blocks: "subdag_blocks ?sub = set (committed_blocks sds)"
    using subdag_mem [OF sub_ok] added(1) by (force simp: image_iff)
  have "leader_slot_ok ?sub (slot_of (sd_leader sd))" if sd: "sd \<in> set sds" for sd
  proof -
    let ?bs = "us_get_blocks_at_slot ?sub (slot_of (sd_leader sd))"
    have "b = c" if "b \<in> set ?bs" "c \<in> set ?bs" for b c
    proof -
      have "b \<in> subdag_blocks ?sub" "c \<in> subdag_blocks ?sub" "vb_reference b = sd_leader sd" "vb_reference c = sd_leader sd"
        using that i(8) sd unfolding us_get_blocks_at_slot_set [OF sub_ok] blocks leader_slots_unique_def by blast+
      then show ?thesis by (simp add: subdag_blocks_def)
    qed
    moreover have "distinct ?bs" unfolding us_get_blocks_at_slot_def by (rule subdag_filter(2) [OF sub_ok])
    ultimately have "length ?bs \<le> 1" by (intro distinct_equal_length)
    moreover obtain b where "b \<in> set (committed_blocks sds)" "vb_reference b = sd_leader sd"
      by (rule leader_committed [OF inv sd])
    with i(7) bounds(2) have "slot_round (slot_of (sd_leader sd)) + 3 < 2 ^ 32" by (metis (no_types, lifting) add_le_cancel_right le_less_trans slot_of_sel(1) vb_reference_sel(1))
    ultimately show ?thesis by (simp add: leader_slot_ok_def)
  qed
  moreover have "UnscoredSubdag_new cx sds = Inr ?sub"
  proof -
    obtain sd rest where sds: "sds = sd # rest" using ne by (cases sds) auto
    have "cr_index (sd_commit_ref (hd sds)) = ?k" using idx sds by (simp add: upt_conv_Cons del: upt_Suc)
    moreover have "last (map (cr_index \<circ> sd_commit_ref) sds) = last_commit_index ds" 
      unfolding i(2) using i(1) ne by (cases sds) simp_all
    then have "cr_index (sd_commit_ref (last sds)) = last_commit_index ds" using ne by (simp add: last_map)
    moreover have "u32_add (last_commit_index ds) 1 = last_commit_index ds + 1" using bounds(1) by (rule u32_add_exact)
    moreover have "?m \<noteq> []" using added(1) i(3) [of sd] sds by fastforce
    moreover have "contiguous_blocks sds = Inr (committed_blocks sds)"
      using i(1) bounds(1) by (intro contiguous_blocks_eq [OF idx]) simp
    ultimately show ?thesis
      by (simp add: UnscoredSubdag_new_def sds first_opt_def last_opt_def Let_def)
  qed
  ultimately show thesis using sub_ok blocks by (intro that [of ?sub]) simp_all
qed

section \<open>Reputation scores\<close>

lemma calculate_total:
  assumes ok: "subdag_ok sub" and slots: "\<forall>r \<in> set (us_committed_leaders sub). leader_slot_ok sub (slot_of r)"
    and n: "n = committee_size (cx_committee (us_context sub))"
  shows "\<exists>scores. calculate \<lparr> rc_commit_range = cr, rc_scores_per_authority = replicate n 0,
      rc_unscored_subdag = sub, rc_scoring_strategy = strategy \<rparr> =
      Inr \<lparr> rs_scores_per_authority = scores, rs_commit_range = cr \<rparr> \<and> length scores = n \<and>
    (\<forall>a < n. scores ! a = (\<Sum>r \<leftarrow> us_committed_leaders sub.
       projr (calculate_scores_for_leader strategy sub (slot_of r)) ! a) mod 2 ^ 64)"
proof -
  let ?zero = "replicate n 0 :: nat list"
  have zero: "length ?zero = committee_size (cx_committee (us_context sub))" "\<forall>x \<in> set ?zero. x < 2 ^ 64"
    using n by auto
  have "\<exists>t. for_each (\<lambda>r scores. and_then (calculate_scores_for_leader strategy sub (slot_of r)) (\<lambda>new. add_scores new scores))
        (us_committed_leaders sub) ?zero = Inr t \<and> length t = n \<and>
      (\<forall>a < n. t ! a = (\<Sum>r \<leftarrow> us_committed_leaders sub.
         projr (calculate_scores_for_leader strategy sub (slot_of r)) ! a) mod 2 ^ 64)"
    using vote.scores_total [OF ok slots zero] certified_v1.scores_total [OF ok slots zero]
      certified_v2.scores_total [OF ok slots zero] certificate.scores_total [OF ok slots zero]
    by (cases strategy) auto
  then show ?thesis by (auto simp: calculate_def)
qed

text \<open>What scoring the waiting sub-dags gives, under the invariant.\<close>

lemma reputation_total:
  assumes "committee_wf (cx_committee cx)" "ds_context ds = cx" "linear_ok ds" "scoring_inv ds sds" "sds \<noteq> []"
    and "last_commit_index ds + 1 < 2 ^ 32" "last_commit_round ds + 3 < 2 ^ 32" "card (dom (dag_lookup ds)) < 2 ^ 64"
  shows "\<exists>scores. and_then (ReputationScoreCalculator_new cx sds strategy) calculate =
      Inr \<lparr> rs_scores_per_authority = scores,
            rs_commit_range = CommitRange (last_commit_index ds + 1 - length sds) (last_commit_index ds + 1) \<rparr> \<and>
    length scores = committee_size (cx_committee cx)"
proof -
  obtain sub where sub: "UnscoredSubdag_new cx sds = Inr sub" "subdag_ok sub" "us_context sub = cx"
    "us_commit_range sub = CommitRange (last_commit_index ds + 1 - length sds) (last_commit_index ds + 1)"
    "us_committed_leaders sub = map sd_leader sds" "subdag_blocks sub = set (committed_blocks sds)"
    "\<forall>sd \<in> set sds. leader_slot_ok sub (slot_of (sd_leader sd))"
    by (rule unscored_subdag_spec [OF assms])
  have "\<forall>r \<in> set (us_committed_leaders sub). leader_slot_ok sub (slot_of r)" using sub(5,7) by simp
  from calculate_total [OF sub(2) this refl, of "us_commit_range sub" strategy] sub(1,3,4) assms(5) show ?thesis
    by (auto simp: ReputationScoreCalculator_new_def)
qed

section \<open>Properties\<close>



text \<open>Under \<open>VoteScoringStrategy\<close> the score of an authority for a leader is the number of its blocks
  in the round after the leader's that vote for it. Votes need no block below the leader's
  round, so blocks missing from the sub-dags do not change the score.\<close>

theorem vote_scores_count_votes:
  assumes "subdag_ok sub" "us_get_blocks_at_slot sub s = [l]" "slot_round s + 3 < 2 ^ 32"
  shows "\<exists>scores. calculate_scores_for_leader VoteScoringStrategy sub s = Inr scores \<and>
    length scores = committee_size (cx_committee (us_context sub)) \<and>
    (\<forall>a < committee_size (cx_committee (us_context sub)). scores ! a = card (votes_of sub l a))"
  using vote_scores_spec [OF assms] by (auto simp: votes_of_def)

text \<open>The first three rounds of the layered network.\<close>

definition ex_subdag :: unscored_subdag where
  "ex_subdag = \<lparr> us_context = ex_context, us_commit_range = CommitRange 1 2,
     us_committed_leaders = [vb_reference (ex_layer 1 ! 2)],
     us_blocks = block_entries (ex_layer 1 @ ex_layer 2 @ ex_layer 3) \<rparr>"

lemma ex_layer_facts: "b \<in> set (ex_layer r) \<Longrightarrow> vb_round b = r \<and> vb_author b < 4"
  by (auto simp: ex_layer_mem)

lemma ex_layer_fits:
  assumes "b \<in> set (ex_layer (Suc r))"
  shows "block_fits ex_committee b"
proof -
  from assms obtain i where "i < 4" "b = ex_layer (Suc r) ! i" by (auto simp: ex_layer_mem)
  then have "vb_round b = Suc r" "vb_author b < 4" "vb_ancestors b = map vb_reference (ex_layer r)" by simp_all
  with ex_layer_facts [of _ r] show ?thesis by (auto simp: block_fits_def ex_members)
qed

lemma ex_subdag_ok: "subdag_ok ex_subdag"
proof -
  let ?bs = "ex_layer 1 @ ex_layer 2 @ ex_layer 3"
  have "sorted_wrt (<) (map vb_reference ?bs)"
    using ex_layer_sorted [of 1] ex_layer_sorted [of 2] ex_layer_sorted [of 3]
    by (auto simp: sorted_wrt_append block_ref_less dest!: ex_layer_facts)
  then have "bm_wf (us_blocks ex_subdag)"
    by (simp add: ex_subdag_def bm_wf_def block_entries_def comp_def strict_sorted_iff)
  moreover have "vb_reference b = r \<and> block_fits ex_committee b" if "(r, b) \<in> set (us_blocks ex_subdag)" for r b
  proof -
    have "vb_reference b = r" and "b \<in> set (ex_layer (Suc 0)) \<or> b \<in> set (ex_layer (Suc 1)) \<or> b \<in> set (ex_layer (Suc 2))"
      using that by (auto simp: ex_subdag_def block_entries_def numeral_2_eq_2 numeral_3_eq_3)
    then show ?thesis using ex_layer_fits by blast
  qed
  moreover have "length (us_blocks ex_subdag) < 2 ^ 64"
    by (simp add: ex_subdag_def block_entries_def)
  ultimately show ?thesis by (fastforce simp: subdag_ok_def ex_subdag_def ex_context_def)
qed

lemma ex_subdag_size: "cx_committee (us_context ex_subdag) = ex_committee" "slot_round (Slot 1 2) + 3 < 2 ^ 32"
  by (simp_all add: ex_subdag_def ex_context_def)

lemma ex_subdag_leader: "us_get_blocks_at_slot ex_subdag (Slot 1 2) = [ex_layer 1 ! 2]"
  by code_simp

theorem vote_scores_count_votes_witness:
  "\<exists>scores. calculate_scores_for_leader VoteScoringStrategy ex_subdag (Slot 1 2) = Inr scores \<and>
    scores ! 3 = card (votes_of ex_subdag (ex_layer 1 ! 2) 3)"
  using vote_scores_count_votes [OF ex_subdag_ok ex_subdag_leader] ex_subdag_size by auto

text \<open>C25: under \<open>CertifiedVoteScoringStrategyV2\<close> the score of an authority for a leader is the sum, over its
  votes for the leader, of the stake of the authorities whose blocks two rounds after the leader's
  name the vote, modulo the width of a score; under \<open>CertifiedVoteScoringStrategyV1\<close> it is the number of its votes
  for which that stake is a quorum.\<close>

theorem certified_votes_are_weighed:
  assumes "subdag_ok sub" "us_get_blocks_at_slot sub s = [l]" "slot_round s + 3 < 2 ^ 32"
    and "cm = cx_committee (us_context sub)"
  shows "(\<exists>scores. calculate_scores_for_leader CertifiedVoteScoringStrategyV2 sub s = Inr scores \<and>
      length scores = committee_size cm \<and>
      (\<forall>a < committee_size cm. scores ! a =
        (\<Sum>b \<in> votes_of sub l a. stake_of cm (vote_certifiers sub l (vb_reference b))) mod 2 ^ 64)) \<and>
    (\<exists>scores. calculate_scores_for_leader CertifiedVoteScoringStrategyV1 sub s = Inr scores \<and>
      length scores = committee_size cm \<and>
      (\<forall>a < committee_size cm. scores ! a =
        card {b \<in> votes_of sub l a. reached_quorum cm (stake_of cm (vote_certifiers sub l (vb_reference b)))}))"
  using certified_vote_v2_spec [OF assms(1-3)] certified_vote_v1_spec [OF assms(1-3)] assms(4) by simp_all

theorem certified_votes_are_weighed_witness:
  "\<exists>scores. calculate_scores_for_leader CertifiedVoteScoringStrategyV2 ex_subdag (Slot 1 2) = Inr scores \<and>
    scores ! 3 = (\<Sum>b \<in> votes_of ex_subdag (ex_layer 1 ! 2) 3.
      stake_of ex_committee (vote_certifiers ex_subdag (ex_layer 1 ! 2) (vb_reference b))) mod 2 ^ 64"
  using certified_votes_are_weighed [OF ex_subdag_ok ex_subdag_leader _ refl] ex_subdag_size by auto

end
