(* ===== verification/Schedule_Properties.thy ===== *)
theory Schedule_Properties
  imports Leader_Schedule Reputation
begin

text \<open>
  Properties of the leader schedule: good and bad nodes of a swap table are disjoint, bounded in stake and
  separated by score; the election is a permutation of the committee and never gives a bad node; and a change of
  schedule after the commits of the linearizer does not panic.
\<close>

section \<open>What the code relies on of the random generator\<close>

text \<open>
  A shuffle is a permutation, a choice is a position of the slice, and choosing as many elements as there
  are gives each of them once.
\<close>

definition rand_ok :: "rand \<Rightarrow> bool" where
  "rand_ok rand \<longleftrightarrow>
     (\<forall>seed n. mset (rd_shuffle rand seed n) = mset [0..<n]) \<and>
     (\<forall>seed n. 0 < n \<longrightarrow> rd_choose rand seed n < n) \<and>
     (\<forall>seed ws. \<exists>is. rd_choose_multiple_weighted rand seed ws (length ws) = Some is \<and> mset is = mset [0..<length ws])"

lemma map_nth_mset: "mset is = mset [0..<length xs] \<Longrightarrow> mset (map (nth xs) is) = mset xs"
proof -
  assume "mset is = mset [0..<length xs]"
  then have "mset (map (nth xs) is) = mset (map (nth xs) [0..<length xs])" by (simp only: mset_map)
  then show ?thesis by (simp add: map_nth)
qed

section \<open>Nodes up to a stake\<close>

definition node_of :: "committee \<Rightarrow> authority_index \<times> nat \<Rightarrow> authority_index \<times> string \<times> stake" where
  "node_of cm p = (fst p, au_hostname (cm_authorities cm ! fst p), au_stake (cm_authorities cm ! fst p))"

definition swap_limit :: "committee \<Rightarrow> nat \<Rightarrow> stake" where
  "swap_limit cm threshold = u64_mul threshold (cm_total_stake cm) div 100"

abbreviation listed_stake :: "committee \<Rightarrow> (authority_index \<times> nat) list \<Rightarrow> stake" where
  "listed_stake cm ps \<equiv> \<Sum>p \<leftarrow> ps. au_stake (cm_authorities cm ! fst p)"

lemma retrieve_nodes_spec:
  assumes "\<forall>p \<in> set ps. fst p \<in> members cm" "seen + listed_stake cm ps < 2 ^ 64"
  shows "\<exists>k \<le> length ps. retrieve_nodes cm threshold seen ps = Inr (map (node_of cm) (take k ps)) \<and>
    (0 < k \<longrightarrow> seen + listed_stake cm (take k ps) \<le> swap_limit cm threshold)"
  using assms
proof (induction ps arbitrary: seen)
  case (Cons p ps)
  obtain a x where p: "p = (a, x)" by fastforce
  have a: "a < length (cm_authorities cm)" using Cons.prems(1) p by (simp add: members_eq committee_size_def)
  let ?s = "au_stake (cm_authorities cm ! a)"
  have sum: "u64_add seen ?s = seen + ?s" using Cons.prems(2) p by (simp add: u64_add_def)
  show ?case
  proof (cases "seen + ?s > swap_limit cm threshold")
    case True
    then have "retrieve_nodes cm threshold seen (p # ps) = Inr (map (node_of cm) (take 0 (p # ps)))"
      using a sum p by (simp add: committee_stake_def swap_limit_def)
    then show ?thesis by blast
  next
    case False
    obtain k where k: "k \<le> length ps" "retrieve_nodes cm threshold (seen + ?s) ps = Inr (map (node_of cm) (take k ps))"
      "0 < k \<longrightarrow> seen + ?s + listed_stake cm (take k ps) \<le> swap_limit cm threshold"
      using Cons.IH [of "seen + ?s"] Cons.prems p by auto
    have "retrieve_nodes cm threshold seen (p # ps) = Inr (map (node_of cm) (take (Suc k) (p # ps)))"
      using a sum p k(2) False by (simp add: committee_stake_def committee_authority_def swap_limit_def node_of_def)
    moreover have "seen + listed_stake cm (take (Suc k) (p # ps)) \<le> swap_limit cm threshold"
      using k(3) False p by (cases k) simp_all
    ultimately show ?thesis using k(1) by (intro exI [of _ "Suc k"]) simp
  qed
qed simp

lemma listed_stake_eq:
  "distinct (map fst ps) \<Longrightarrow> listed_stake cm ps = stake_of cm (fst ` set ps)"
  by (induction ps) (auto simp: stake_of_def)

section \<open>The swap table\<close>

definition score_of :: "reputation_scores \<Rightarrow> authority_index \<Rightarrow> nat" where
  "score_of scores a = rs_scores_per_authority scores ! a"

abbreviation good_nodes :: "leader_swap_table \<Rightarrow> authority_index set" where
  "good_nodes table \<equiv> fst ` set (lt_good_nodes table)"

abbreviation bad_nodes :: "leader_swap_table \<Rightarrow> authority_index set" where
  "bad_nodes table \<equiv> fst ` set (lt_bad_nodes table)"

text \<open>The facts about a table of authorities ordered by score.\<close>

lemma authorities_by_score_eq:
  assumes "length (rs_scores_per_authority scores) \<le> committee_size (cx_committee cx)"
  shows "authorities_by_score cx scores = Inr (List.enumerate 0 (rs_scores_per_authority scores))"
proof -
  have "authorities_by_score cx scores = Inr (map (\<lambda>p. p) (List.enumerate 0 (rs_scores_per_authority scores)))"
    unfolding authorities_by_score_def
    by (rule map_res_Inr) (use assms in \<open>auto simp: to_authority_index_def committee_size_def in_set_enumerate_eq\<close>)
  then show ?thesis by simp
qed

definition ranking :: "reputation_scores \<Rightarrow> committee \<Rightarrow> (authority_index \<times> nat) list \<Rightarrow> bool" where
  "ranking scores cm ps \<longleftrightarrow>
     mset ps = mset (List.enumerate 0 (rs_scores_per_authority scores)) \<and> sorted_wrt (\<lambda>p q. snd q \<le> snd p) ps \<and>
     length (rs_scores_per_authority scores) = committee_size cm"

lemma rankingD:
  assumes "ranking scores cm ps"
  shows "distinct (map fst ps)" "fst ` set ps = members cm" "p \<in> set ps \<Longrightarrow> snd p = score_of scores (fst p)"
    "listed_stake cm ps = stake_of cm (members cm)"
proof -
  have eq: "mset ps = mset (List.enumerate 0 (rs_scores_per_authority scores))" using assms by (simp add: ranking_def)
  from eq have "mset (map fst ps) = mset (map fst (List.enumerate 0 (rs_scores_per_authority scores)))"
    by (simp only: mset_map)
  then show dist: "distinct (map fst ps)" by (metis distinct_upt map_fst_enumerate mset_eq_imp_distinct_iff)
  from eq have set: "set ps = set (List.enumerate 0 (rs_scores_per_authority scores))" by (rule mset_eq_setD)
  then have "fst ` set ps = set (map fst (List.enumerate 0 (rs_scores_per_authority scores)))" by (simp only: set_map)
  also have "\<dots> = members cm" unfolding map_fst_enumerate using assms by (auto simp: ranking_def members_eq)
  finally show mem: "fst ` set ps = members cm" .
  show "p \<in> set ps \<Longrightarrow> snd p = score_of scores (fst p)"
    using set by (auto simp: in_set_enumerate_eq score_of_def)
  show "listed_stake cm ps = stake_of cm (members cm)" using listed_stake_eq [OF dist] mem by simp
qed

lemma ranking_sort:
  assumes "rand_ok rand" "length (rs_scores_per_authority scores) = committee_size cm"
  shows "ranking scores cm (sort_key (\<lambda>(_, score). - int score)
    (map (nth (List.enumerate 0 (rs_scores_per_authority scores)))
      (rd_shuffle rand seed (length (rs_scores_per_authority scores)))))"
proof -
  let ?es = "List.enumerate 0 (rs_scores_per_authority scores)"
  let ?sh = "map (nth ?es) (rd_shuffle rand seed (length (rs_scores_per_authority scores)))"
  have "mset ?sh = mset ?es" using assms(1) by (intro map_nth_mset) (simp add: rand_ok_def)
  moreover have "sorted (map (\<lambda>(_, score). - int score) (sort_key (\<lambda>(_, score). - int score) ?sh))" by simp
  then have "sorted_wrt (\<lambda>p q. snd q \<le> snd p) (sort_key (\<lambda>(_, score). - int score) ?sh)"
    unfolding sorted_map by (rule sorted_wrt_mono_rel [rotated]) (simp add: split_beta)
  ultimately show ?thesis using assms(2) by (simp add: ranking_def)
qed

text \<open>A prefix and a suffix, each with less than half of the stake, do not meet.\<close>

lemma ends_disjoint:
  assumes "ranking scores cm ps" "0 < stake_of cm (members cm)" "k \<le> length ps" "j \<le> length ps"
    and "0 < k \<longrightarrow> listed_stake cm (take k ps) \<le> l" "0 < j \<longrightarrow> listed_stake cm (take j (rev ps)) \<le> l"
    and "2 * l < stake_of cm (members cm)"
  shows "k + j \<le> length ps"
proof (rule ccontr)
  assume over: "\<not> k + j \<le> length ps"
  then have "0 < k" "0 < j" using assms(3,4) by auto
  have "listed_stake cm (take j (rev ps)) = listed_stake cm (drop (length ps - j) ps)"
    by (simp add: take_rev rev_map [symmetric])
  also have "drop (length ps - j) ps = take (k - (length ps - j)) (drop (length ps - j) ps) @ drop k ps"
    using over by (subst append_take_drop_id [of "k - (length ps - j)", symmetric]) simp
  finally have "listed_stake cm (drop k ps) \<le> listed_stake cm (take j (rev ps))" by simp
  moreover have "listed_stake cm (take k ps) + listed_stake cm (drop k ps) = listed_stake cm ps"
    by (simp flip: sum_list_append map_append)
  ultimately show False using rankingD(4) [OF assms(1)] assms(5-7) \<open>0 < k\<close> \<open>0 < j\<close> by linarith
qed

definition swap_table_ok :: "committee \<Rightarrow> nat \<Rightarrow> reputation_scores \<Rightarrow> leader_swap_table \<Rightarrow> bool" where
  "swap_table_ok cm threshold scores table \<longleftrightarrow>
     good_nodes table \<subseteq> members cm \<and> bad_nodes table \<subseteq> members cm \<and> good_nodes table \<inter> bad_nodes table = {} \<and>
     stake_of cm (good_nodes table) \<le> threshold * cm_total_stake cm div 100 \<and>
     stake_of cm (bad_nodes table) \<le> threshold * cm_total_stake cm div 100 \<and>
     (\<forall>g \<in> good_nodes table. \<forall>a \<in> members cm - good_nodes table. score_of scores a \<le> score_of scores g) \<and>
     (\<forall>b \<in> bad_nodes table. \<forall>a \<in> members cm - bad_nodes table. score_of scores b \<le> score_of scores a)"

lemma collect_bad_nodes:
  "fst ` set (foldl (\<lambda>m (a, info). bm_insert a info m) m nodes) = fst ` set m \<union> fst ` set nodes"
  by (induction nodes arbitrary: m) (auto simp: split_beta)

lemma ranked_above:
  assumes "ranking scores cm ps" "p \<in> set (take k ps)" "q \<in> set (drop k ps)"
  shows "score_of scores (fst q) \<le> score_of scores (fst p)"
proof -
  have "sorted_wrt (\<lambda>p q. snd q \<le> snd p) (take k ps @ drop k ps)" using assms(1) by (simp add: ranking_def)
  then have "snd q \<le> snd p" using assms(2,3) by (simp only: sorted_wrt_append)
  moreover have "p \<in> set ps" "q \<in> set ps" using assms(2,3) by (auto dest: in_set_takeD in_set_dropD)
  ultimately show ?thesis using rankingD(3) [OF assms(1)] by simp
qed

lemma ends_swap_table_ok:
  assumes rk: "ranking scores cm ps" and k: "k \<le> length ps" "0 < k \<longrightarrow> listed_stake cm (take k ps) \<le> l"
    and j: "j \<le> length ps" "0 < j \<longrightarrow> listed_stake cm (take j (rev ps)) \<le> l"
    and l: "l = threshold * cm_total_stake cm div 100" "2 * l < stake_of cm (members cm)"
    and good: "good_nodes table = fst ` set (take k ps)" and bad: "bad_nodes table = fst ` set (take j (rev ps))"
  shows "swap_table_ok cm threshold scores table"
proof -
  note r = rankingD [OF rk]
  have kj: "k + j \<le> length ps" using ends_disjoint [OF rk _ k(1) j(1) k(2) j(2) l(2)] l(2) by simp
  let ?d = "length ps - j"
  have bad': "bad_nodes table = fst ` set (drop ?d ps)" unfolding bad by (simp add: take_rev)
  have parts: "members cm = fst ` set (take n ps) \<union> fst ` set (drop n ps)" for n
    unfolding r(2) [symmetric] by (subst append_take_drop_id [of n ps, symmetric]) (simp only: set_append image_Un)
  have "distinct (map fst (take k ps @ drop k ps))" using r(1) by simp
  then have apart: "fst ` set (take k ps) \<inter> fst ` set (drop k ps) = {}" by (simp only: map_append distinct_append) auto
  have "k \<le> ?d" using kj by simp
  then have "bad_nodes table \<subseteq> fst ` set (drop k ps)" unfolding bad' by (intro image_mono set_drop_subset_set_drop)
  with apart have g1: "good_nodes table \<inter> bad_nodes table = {}" unfolding good by blast
  have g2: "stake_of cm (good_nodes table) \<le> l"
    using k(2) listed_stake_eq [of "take k ps" cm] r(1) unfolding good by (cases k) (auto simp: take_map [symmetric])
  have g3: "stake_of cm (bad_nodes table) \<le> l"
    using j(2) listed_stake_eq [of "take j (rev ps)" cm] r(1) unfolding bad
    by (cases j) (auto simp: take_map [symmetric] rev_map [symmetric])
  have g4: "score_of scores a \<le> score_of scores g" if "g \<in> good_nodes table" "a \<in> members cm - good_nodes table" for g a
  proof -
    from that parts [of k] have "g \<in> fst ` set (take k ps)" "a \<in> fst ` set (drop k ps)" unfolding good by (metis Diff_iff Un_iff)+
    then show ?thesis by (elim imageE) (simp add: ranked_above [OF rk])
  qed
  have g5: "score_of scores b \<le> score_of scores a" if "b \<in> bad_nodes table" "a \<in> members cm - bad_nodes table" for b a
  proof -
    from that parts [of ?d] have "b \<in> fst ` set (drop ?d ps)" "a \<in> fst ` set (take ?d ps)" unfolding bad' by (metis Diff_iff Un_iff)+
    then show ?thesis by (elim imageE) (simp add: ranked_above [OF rk])
  qed
  have g6: "good_nodes table \<subseteq> members cm" "bad_nodes table \<subseteq> members cm"
    unfolding good bad' using parts [of k] parts [of ?d] by (metis Un_upper1, metis Un_upper2)
  show ?thesis unfolding swap_table_ok_def l(1) [symmetric]
    by (intro conjI ballI g1 g2 g3 g6) (assumption | rule g4 g5)+
qed

lemma swap_limit_exact:
  assumes "committee_wf cm" "threshold \<le> 33" "33 * cm_total_stake cm < 2 ^ 64"
  shows "swap_limit cm threshold = threshold * cm_total_stake cm div 100"
    and "2 * (threshold * cm_total_stake cm div 100) < cm_total_stake cm"
proof -
  have le: "threshold * cm_total_stake cm \<le> 33 * cm_total_stake cm" using assms(2) by simp
  then have "threshold * cm_total_stake cm < 2 ^ 64" using assms(3) by (rule le_less_trans)
  then show "swap_limit cm threshold = threshold * cm_total_stake cm div 100"
    unfolding swap_limit_def u64_mul_def by (simp only: mod_less)
  have "0 < cm_total_stake cm" using assms(1) by (simp add: committee_wf_def)
  with le show "2 * (threshold * cm_total_stake cm div 100) < cm_total_stake cm" by linarith
qed

lemma swap_table_spec:
  assumes "committee_wf (cx_committee cx)" "rand_ok rand"
    and "pc_consensus_bad_nodes_stake_threshold (cx_protocol_config cx) \<le> 33" "33 * cm_total_stake (cx_committee cx) < 2 ^ 64"
    and n: "length (rs_scores_per_authority scores) = committee_size (cx_committee cx)"
  obtains table where "LeaderSwapTable_new rand cx index scores = Inr table" "lt_reputation_scores table = scores"
    "swap_table_ok (cx_committee cx) (pc_consensus_bad_nodes_stake_threshold (cx_protocol_config cx)) scores table"
    "ranking scores (cx_committee cx) (lt_reputation_scores_desc table)"
proof -
  let ?cm = "cx_committee cx" and ?th = "pc_consensus_bad_nodes_stake_threshold (cx_protocol_config cx)"
  let ?ps = "sort_key (\<lambda>(_, score). - int score)
    (map (nth (List.enumerate 0 (rs_scores_per_authority scores)))
      (rd_shuffle rand (replicate 28 0 @ le_bytes index) (length (rs_scores_per_authority scores))))"
  have rk: "ranking scores ?cm ?ps" by (rule ranking_sort [OF assms(2) n])
  note r = rankingD [OF rk] and lim = swap_limit_exact [OF assms(1,3,4)]
  have total: "stake_of ?cm (members ?cm) = cm_total_stake ?cm" "cm_total_stake ?cm < 2 ^ 64"
    using stake_of_members [OF assms(1)] assms(4) by simp_all
  have mem: "\<forall>p \<in> set ?ps. fst p \<in> members ?cm" using r(2) by blast
  have small: "0 + listed_stake ?cm ?ps < 2 ^ 64" using r(4) total by simp
  from retrieve_nodes_spec [OF mem small, of ?th] obtain k where
    k: "k \<le> length ?ps" "retrieve_nodes ?cm ?th 0 ?ps = Inr (map (node_of ?cm) (take k ?ps))"
      "0 < k \<longrightarrow> listed_stake ?cm (take k ?ps) \<le> swap_limit ?cm ?th" by auto
  have mem': "\<forall>p \<in> set (rev ?ps). fst p \<in> members ?cm" using mem by (simp only: set_rev)
  have small': "0 + listed_stake ?cm (rev ?ps) < 2 ^ 64" using small by (simp only: rev_map [symmetric] sum_list_rev)
  from retrieve_nodes_spec [OF mem' small', of ?th] obtain j where
    j: "j \<le> length ?ps" "retrieve_nodes ?cm ?th 0 (rev ?ps) = Inr (map (node_of ?cm) (take j (rev ?ps)))"
      "0 < j \<longrightarrow> listed_stake ?cm (take j (rev ?ps)) \<le> swap_limit ?cm ?th" by (auto simp only: length_rev add_0)
  let ?t = "\<lparr> lt_good_nodes = map (node_of ?cm) (take k ?ps),
      lt_bad_nodes = foldl (\<lambda>m (a, info). bm_insert a info m) [] (map (node_of ?cm) (take j (rev ?ps))),
      lt_reputation_scores_desc = ?ps, lt_reputation_scores = scores \<rparr>"
  have fst_nodes: "fst ` set (map (node_of ?cm) qs) = fst ` set qs" for qs by (force simp: node_of_def)
  have ne: "rs_scores_per_authority scores \<noteq> []" using n assms(1) by (auto simp: committee_wf_def committee_size_def)
  have "LeaderSwapTable_new rand cx index scores = Inr ?t"
    using assms(3) ne n k(2) j(2)
    by (simp add: LeaderSwapTable_new_def LeaderSwapTable_new_inner_def authorities_by_score_eq Let_def
        retrieve_first_nodes_def)
  moreover have "swap_table_ok ?cm ?th scores ?t"
    by (rule ends_swap_table_ok [OF rk k(1) k(3) [unfolded lim(1)] j(1) j(3) [unfolded lim(1)] refl])
      (use lim(2) total(1) fst_nodes in \<open>simp_all only: leader_swap_table.simps collect_bad_nodes list.set(1) image_empty Un_empty_left\<close>)
  ultimately show thesis using rk by (intro that [of ?t]) simp_all
qed

section \<open>Elections\<close>

lemma elect_stake_based:
  assumes "rand_ok rand" "cm = cx_committee (le_context ls)"
  obtains order where "mset order = mset [0..<committee_size cm]"
    "\<And>offset. elect_leader_stake_based rand ls rnd offset =
       (if offset < committee_size cm then Inr (order ! offset) else Inl (SchedulePanic LeaderOffsetTooLarge))"
proof -
  let ?choices = "map (\<lambda>(index, authority). (index, f32_of_u64 (au_stake authority))) (committee_authorities cm)"
  have len: "length (map snd ?choices) = committee_size cm" by (simp add: committee_authorities_def committee_size_def)
  have "\<exists>is. rd_choose_multiple_weighted rand seed ws (length ws) = Some is \<and> mset is = mset [0..<length ws]" for seed ws
    using assms(1) unfolding rand_ok_def by blast
  from this [of "replicate 28 0 @ le_bytes rnd" "map snd ?choices", unfolded len] obtain order where o:
    "rd_choose_multiple_weighted rand (replicate 28 0 @ le_bytes rnd) (map snd ?choices) (committee_size cm) = Some order"
    "mset order = mset [0..<committee_size cm]" by blast
  have set: "set order = {..<committee_size cm}" "length order = committee_size cm"
    subgoal using mset_eq_setD [OF o(2)] by (simp add: lessThan_atLeast0)
    subgoal using mset_eq_length [OF o(2)] by simp
    done
  have "fst (?choices ! i) = i" if "i \<in> set order" for i
    using that set(1) by (simp add: committee_authorities_def committee_size_def nth_enumerate_eq)
  then have eq: "map (\<lambda>i. fst (?choices ! i)) order = order" by (simp add: map_idI)
  have "elect_leader_stake_based rand ls rnd offset =
      (if offset < committee_size cm then Inr (order ! offset) else Inl (SchedulePanic LeaderOffsetTooLarge))" for offset
  proof (cases "offset < committee_size cm")
    case True
    then have "first_opt (drop offset order) = Some (order ! offset)"
      using set(2) by (simp add: Cons_nth_drop_Suc [symmetric])
    with True show ?thesis using o(1) assms(2) by (simp add: elect_leader_stake_based_def Let_def eq [unfolded assms(2)])
  qed (use assms(2) in \<open>simp add: elect_leader_stake_based_def\<close>)
  with o(2) show thesis by (rule that)
qed

lemma swap_spec:
  assumes "rand_ok rand" "bad_nodes table \<noteq> {} \<longrightarrow> good_nodes table \<noteq> {}"
  shows "\<exists>swapped. swap rand table leader rnd 0 = Inr swapped \<and>
    (if leader \<in> bad_nodes table then \<exists>a \<in> good_nodes table. swapped = Some a else swapped = None)"
proof (cases "map_of (lt_bad_nodes table) leader")
  case None
  then have "leader \<notin> bad_nodes table" by (simp add: map_of_eq_None_iff)
  with None show ?thesis by (simp add: swap_def)
next
  case (Some info)
  then have bad: "leader \<in> bad_nodes table" by (force dest: map_of_SomeD)
  with assms(2) have "lt_good_nodes table \<noteq> []" by auto
  then have "rd_choose rand seed (length (lt_good_nodes table)) < length (lt_good_nodes table)" for seed
    using assms(1) by (simp add: rand_ok_def)
  then show ?thesis using Some bad \<open>lt_good_nodes table \<noteq> []\<close> by (auto simp: swap_def Let_def)
qed

section \<open>Change of schedule\<close>

text \<open>The sub-dags that wait for scores are those after the commits the swap table was made from.\<close>

definition schedule_ok :: "leader_schedule \<Rightarrow> dag_state \<Rightarrow> bool" where
  "schedule_ok ls ds \<longleftrightarrow>
     le_context ls = ds_context ds \<and> committee_wf (cx_committee (ds_context ds)) \<and>
     33 * cm_total_stake (cx_committee (ds_context ds)) < 2 ^ 64 \<and>
     pc_consensus_bad_nodes_stake_threshold (cx_protocol_config (ds_context ds)) \<le> 33 \<and>
     0 < le_num_commits_per_schedule ls \<and>
     scoring_inv ds (ds_unscored_committed_subdags ds) \<and>
     (let range = rs_commit_range (lt_reputation_scores (le_leader_swap_table ls)) in
      range = CommitRange 0 0 \<or>
      range_len range = le_num_commits_per_schedule ls \<and>
      range_end range = last_commit_index ds + 1 - length (ds_unscored_committed_subdags ds))"

lemma update_metrics_total:
  assumes "length (rs_scores_per_authority scores) = committee_size (cx_committee cx)"
  shows "update_metrics cx scores = Inr ()"
proof -
  have "\<exists>t. update_metrics cx scores = Inr t \<and> True"
    unfolding update_metrics_def
    by (rule for_each_total)
      (use assms in \<open>auto simp: in_set_enumerate_eq to_authority_index_def committee_size_def committee_authority_def\<close>)
  then show ?thesis by simp
qed

lemma update_leader_schedule_spec:
  assumes ok: "schedule_ok ls ds" and rand: "rand_ok rand" and lin: "linear_ok ds"
    and due: "length (ds_unscored_committed_subdags ds) = le_num_commits_per_schedule ls"
    and bounds: "last_commit_index ds + 1 < 2 ^ 32" "last_commit_round ds + 3 < 2 ^ 32" "card (dom (dag_lookup ds)) < 2 ^ 64"
  obtains table info where "update_leader_schedule rand ls ds =
      Inr (ls\<lparr> le_leader_swap_table := table \<rparr>,
           ds\<lparr> ds_unscored_committed_subdags := [], ds_commit_info_to_write := ds_commit_info_to_write ds @ [info] \<rparr>)"
    "ci_reputation_scores (snd info) = lt_reputation_scores table"
    "rs_commit_range (lt_reputation_scores table) =
       CommitRange (last_commit_index ds + 1 - le_num_commits_per_schedule ls) (last_commit_index ds + 1)"
    "swap_table_ok (cx_committee (ds_context ds))
       (pc_consensus_bad_nodes_stake_threshold (cx_protocol_config (ds_context ds))) (lt_reputation_scores table) table"
proof -
  let ?cx = "ds_context ds" and ?sds = "ds_unscored_committed_subdags ds" and ?n = "le_num_commits_per_schedule ls"
  have s: "le_context ls = ?cx" "committee_wf (cx_committee ?cx)" "33 * cm_total_stake (cx_committee ?cx) < 2 ^ 64"
    "pc_consensus_bad_nodes_stake_threshold (cx_protocol_config ?cx) \<le> 33" "0 < ?n" "scoring_inv ds ?sds"
    using ok by (simp_all add: schedule_ok_def Let_def)
  have ne: "?sds \<noteq> []" using due s(5) by auto
  from reputation_total [OF s(2) refl lin s(6) ne bounds, of "le_scoring_strategy ls"] due obtain scores where
    rep: "and_then (ReputationScoreCalculator_new ?cx ?sds (le_scoring_strategy ls)) calculate = Inr scores"
      "rs_commit_range scores = CommitRange (last_commit_index ds + 1 - ?n) (last_commit_index ds + 1)"
      "length (rs_scores_per_authority scores) = committee_size (cx_committee ?cx)" by auto
  from rep(1) obtain rc where rc: "ReputationScoreCalculator_new ?cx ?sds (le_scoring_strategy ls) = Inr rc"
    "calculate rc = Inr scores" by (auto simp: and_then_eq_Inr)
  obtain table where table:
    "LeaderSwapTable_new rand ?cx (cr_index (sd_commit_ref (last ?sds))) scores = Inr table"
    "lt_reputation_scores table = scores"
    "swap_table_ok (cx_committee ?cx) (pc_consensus_bad_nodes_stake_threshold (cx_protocol_config ?cx)) scores table"
    by (rule swap_table_spec [OF s(2) rand s(4,3) rep(3)])
  have len: "?n \<le> last_commit_index ds" using scoring_invD(1) [OF s(6)] due by simp
  then obtain c where c: "ds_last_commit ds = Some c" using s(5) by (auto simp: last_commit_index_def split: option.splits)
  have "update_leader_swap_table ls table = Inr (ls\<lparr> le_leader_swap_table := table \<rparr>)"
    using ok table(2) rep(2) due len
    by (auto simp: update_leader_swap_table_def schedule_ok_def Let_def is_next_range_def range_len_def)
  with rc table(1) c ne have upd: "update_leader_schedule rand ls ds =
      Inr (ls\<lparr> le_leader_swap_table := table \<rparr>,
           ds\<lparr> ds_unscored_committed_subdags := [], ds_commit_info_to_write := ds_commit_info_to_write ds @
             [(tc_reference c, \<lparr> ci_committed_rounds = ds_last_committed_rounds ds, ci_reputation_scores = scores \<rparr>)] \<rparr>)"
    by (simp add: update_leader_schedule_def take_unscored_committed_subdags_def s(1) update_metrics_total [OF rep(3)]
        last_opt_def add_commit_info_def Let_def)
  show thesis by (rule that [OF upd]) (use table(2,3) rep(2) in simp_all)
qed

section \<open>Properties\<close>

text \<open>C26: the swap table made from the reputation scores of a committee has no authority that is both good
  and bad; the good and the bad nodes each have at most the configured share of the stake; no authority outside
  the good nodes has a higher score than one of them, and none outside the bad nodes a lower score than one of them.\<close>

theorem swap_table_separates_scores:
  assumes "committee_wf (cx_committee cx)" "rand_ok rand" "cm = cx_committee cx"
    and "threshold = pc_consensus_bad_nodes_stake_threshold (cx_protocol_config cx)" "threshold \<le> 33"
    and "33 * cm_total_stake cm < 2 ^ 64" "length (rs_scores_per_authority scores) = committee_size cm"
  shows "\<exists>table. LeaderSwapTable_new rand cx index scores = Inr table \<and> lt_reputation_scores table = scores \<and>
    good_nodes table \<inter> bad_nodes table = {} \<and> good_nodes table \<union> bad_nodes table \<subseteq> members cm \<and>
    stake_of cm (good_nodes table) \<le> threshold * cm_total_stake cm div 100 \<and>
    stake_of cm (bad_nodes table) \<le> threshold * cm_total_stake cm div 100 \<and>
    (\<forall>g \<in> good_nodes table. \<forall>a \<in> members cm - good_nodes table. score_of scores a \<le> score_of scores g) \<and>
    (\<forall>b \<in> bad_nodes table. \<forall>a \<in> members cm - bad_nodes table. score_of scores b \<le> score_of scores a)"
proof -
  have params: "pc_consensus_bad_nodes_stake_threshold (cx_protocol_config cx) \<le> 33" "33 * cm_total_stake (cx_committee cx) < 2 ^ 64"
    "length (rs_scores_per_authority scores) = committee_size (cx_committee cx)" using assms by simp_all
  obtain table where t: "LeaderSwapTable_new rand cx index scores = Inr table" "lt_reputation_scores table = scores"
    "swap_table_ok cm threshold scores table"
    by (rule swap_table_spec [OF assms(1,2) params, of index]) (use assms(3,4) in simp)
  show ?thesis using t(3) unfolding swap_table_ok_def
    by (intro exI [of _ table] conjI t(1,2) Un_least) (elim conjE; assumption)+
qed

definition ex_rand :: rand where
  "ex_rand = \<lparr> rd_shuffle = \<lambda>_ n. [0..<n], rd_choose = \<lambda>_ _. 0, rd_choose_multiple_weighted = \<lambda>_ _ n. Some [0..<n] \<rparr>"

lemma ex_rand_ok: "rand_ok ex_rand"
  by (simp add: rand_ok_def ex_rand_def)

definition ex_scores :: reputation_scores where
  "ex_scores = \<lparr> rs_scores_per_authority = [3, 0, 5, 4], rs_commit_range = CommitRange 1 3 \<rparr>"

text \<open>The committee of the examples with a threshold of 33 percent, so that one of the four nodes is swapped.\<close>

definition ex_schedule_context :: epoch_context where
  "ex_schedule_context =
     ex_context\<lparr> cx_protocol_config :=
       (cx_protocol_config ex_context)\<lparr> pc_consensus_bad_nodes_stake_threshold := 33 \<rparr> \<rparr>"

lemma ex_schedule_context:
  "cx_committee ex_schedule_context = ex_committee" "committee_wf (cx_committee ex_schedule_context)"
  "pc_consensus_bad_nodes_stake_threshold (cx_protocol_config ex_schedule_context) = 33"
  "33 * cm_total_stake (cx_committee ex_schedule_context) < 2 ^ 64"
  "length (rs_scores_per_authority ex_scores) = committee_size (cx_committee ex_schedule_context)"
  by (simp_all add: ex_schedule_context_def ex_context_def ex_scores_def ex_committee_def committee_size_def
      del: ex_committee_wf) (simp flip: ex_committee_def)

theorem swap_table_separates_scores_witness:
  "\<exists>table. LeaderSwapTable_new ex_rand ex_schedule_context 3 ex_scores = Inr table \<and>
     good_nodes table \<inter> bad_nodes table = {}"
  using swap_table_separates_scores [OF ex_schedule_context(2) ex_rand_ok refl refl _ ex_schedule_context(4,5), of 3]
    ex_schedule_context(3) by (simp only: order_refl) blast

text \<open>C27: with a swap table that has a good node, the elected leader is an authority of the committee that is not a bad
  node: the one chosen by stake, unless that is a bad node, and then one of the good nodes.\<close>

theorem elected_leader_is_never_a_bad_node:
  assumes "committee_wf (cx_committee cx)" "rand_ok rand" "le_context ls = cx" "cm = cx_committee cx"
    and "threshold = pc_consensus_bad_nodes_stake_threshold (cx_protocol_config cx)" "threshold \<le> 33"
    and "33 * cm_total_stake cm < 2 ^ 64" "length (rs_scores_per_authority scores) = committee_size cm"
    and "LeaderSwapTable_new rand cx index scores = Inr table" "le_leader_swap_table ls = table" "good_nodes table \<noteq> {}"
  shows "\<exists>chosen leader. elect_leader_stake_based rand ls rnd 0 = Inr chosen \<and> elect_leader rand ls rnd 0 = Inr leader \<and>
    leader \<in> members cm \<and> leader \<notin> bad_nodes table \<and>
    (if chosen \<in> bad_nodes table then leader \<in> good_nodes table else leader = chosen)"
proof -
  have params: "pc_consensus_bad_nodes_stake_threshold (cx_protocol_config cx) \<le> 33" "33 * cm_total_stake (cx_committee cx) < 2 ^ 64"
    "length (rs_scores_per_authority scores) = committee_size (cx_committee cx)" using assms by simp_all
  have ok: "swap_table_ok cm threshold scores table"
    by (rule swap_table_spec [OF assms(1,2) params, of index]) (use assms(4,5,9) in simp)
  obtain order where o: "mset order = mset [0..<committee_size cm]"
    "\<And>offset. elect_leader_stake_based rand ls rnd offset =
       (if offset < committee_size cm then Inr (order ! offset) else Inl (SchedulePanic LeaderOffsetTooLarge))"
    using elect_stake_based [OF assms(2), of cm ls rnd] assms(3,4) by (metis (no_types, lifting))
  have size: "0 < committee_size cm" using assms(1,4) by (auto simp: committee_wf_def committee_size_def)
  have mem: "order ! 0 \<in> members cm"
    using mset_eq_length [OF o(1)] mset_eq_setD [OF o(1)] size nth_mem [of 0 order] by (simp add: members_eq)
  have "bad_nodes table \<noteq> {} \<longrightarrow> good_nodes table \<noteq> {}" using assms(11) by blast
  from swap_spec [OF assms(2) this, of "order ! 0" rnd] obtain swapped where
    sw: "swap rand table (order ! 0) rnd 0 = Inr swapped"
      "if order ! 0 \<in> bad_nodes table then \<exists>a \<in> good_nodes table. swapped = Some a else swapped = None" by blast
  have el: "elect_leader rand ls rnd 0 = Inr (case swapped of Some a \<Rightarrow> a | None \<Rightarrow> order ! 0)"
    using sw(1) o(2) [of 0] size assms(10) by (simp add: elect_leader_def)
  have apart: "good_nodes table \<inter> bad_nodes table = {}" "good_nodes table \<subseteq> members cm"
    using ok unfolding swap_table_ok_def by (simp_all only: simp_thms)
  show ?thesis
  proof (cases "order ! 0 \<in> bad_nodes table")
    case True
    with sw(2) obtain a where a: "a \<in> good_nodes table" "swapped = Some a" by (simp only: if_True) blast
    moreover have "a \<notin> bad_nodes table" using a(1) apart(1) by (rule disjoint_iff [THEN iffD1, rule_format, rotated])
    ultimately show ?thesis using True el o(2) [of 0] size apart(2) by (intro exI [of _ "order ! 0"] exI [of _ a]) auto
  next
    case False
    with sw(2) have "swapped = None" by (simp only: if_False)
    with False el o(2) [of 0] size mem show ?thesis by (intro exI [of _ "order ! 0"]) simp
  qed
qed

definition ex_swap_table :: leader_swap_table where
  "ex_swap_table = \<lparr> lt_good_nodes = [(2, [], 1)], lt_bad_nodes = [(1, [], 1)],
     lt_reputation_scores_desc = [(2, 5), (3, 4), (0, 3), (1, 0)], lt_reputation_scores = ex_scores \<rparr>"

definition ex_schedule :: leader_schedule where
  "ex_schedule = LeaderSchedule_new None ex_schedule_context ex_swap_table"

lemma ex_swap_table: "LeaderSwapTable_new ex_rand ex_schedule_context 3 ex_scores = Inr ex_swap_table"
proof -
  have "authorities_by_score ex_schedule_context ex_scores = Inr [(0, 3), (1, 0), (2, 5), (3, 4)]"
    unfolding authorities_by_score_eq [OF eq_imp_le [OF ex_schedule_context(5)]] by (simp add: ex_scores_def)
  moreover have "rs_scores_per_authority ex_scores \<noteq> []" by (simp add: ex_scores_def)
  moreover have "rd_shuffle ex_rand seed (Suc (Suc (Suc (Suc 0)))) = [0, 1, 2, 3]" for seed
    by (simp add: ex_rand_def numeral_2_eq_2 numeral_3_eq_3)
  ultimately show ?thesis
    by (simp add: LeaderSwapTable_new_def LeaderSwapTable_new_inner_def ex_schedule_context(1,3) ex_swap_table_def
        Let_def retrieve_first_nodes_def committee_stake_def committee_authority_def
        ex_committee_def committee_size_def u64_add_def u64_mul_def ex_authority_def)
qed

theorem elected_leader_is_never_a_bad_node_witness:
  "\<exists>leader. elect_leader ex_rand ex_schedule 5 0 = Inr leader \<and> leader \<notin> bad_nodes (le_leader_swap_table ex_schedule)"
proof -
  have "le_context ex_schedule = ex_schedule_context" "le_leader_swap_table ex_schedule = ex_swap_table"
    "good_nodes ex_swap_table \<noteq> {}"
    by (simp_all add: ex_schedule_def LeaderSchedule_new_def ex_swap_table_def)
  from elected_leader_is_never_a_bad_node [OF ex_schedule_context(2) ex_rand_ok this(1) refl refl _ ex_schedule_context(4,5)
      ex_swap_table this(2,3), of 5] this(2) ex_schedule_context(3)
  show ?thesis by (simp only: order_refl) blast
qed

text \<open>For one round, the stake-based election gives a different authority of the committee for each offset.\<close>

theorem offsets_elect_different_leaders:
  assumes "rand_ok rand" "offset < committee_size (cx_committee (le_context ls))"
    and "offset' < committee_size (cx_committee (le_context ls))" "offset \<noteq> offset'"
  shows "\<exists>a b. elect_leader_stake_based rand ls rnd offset = Inr a \<and> elect_leader_stake_based rand ls rnd offset' = Inr b \<and>
    a \<noteq> b \<and> {a, b} \<subseteq> members (cx_committee (le_context ls))"
proof -
  let ?n = "committee_size (cx_committee (le_context ls))"
  obtain order where o: "mset order = mset [0..<?n]"
    "\<And>offset. elect_leader_stake_based rand ls rnd offset =
       (if offset < ?n then Inr (order ! offset) else Inl (SchedulePanic LeaderOffsetTooLarge))"
    using elect_stake_based [OF assms(1) refl, of ls rnd] by blast
  have "distinct order" using mset_eq_imp_distinct_iff [OF o(1)] by simp
  moreover have len: "length order = ?n" "set order = {0..<?n}"
    using mset_eq_length [OF o(1)] mset_eq_setD [OF o(1)] by simp_all
  ultimately have "order ! offset \<noteq> order ! offset'" using assms(2-4) by (simp add: nth_eq_iff_index_eq)
  moreover have "order ! i \<in> members (cx_committee (le_context ls))" if "i < ?n" for i
    using nth_mem [of i order] len that by (simp add: members_eq)
  ultimately show ?thesis using assms(2,3) o(2) by simp
qed

theorem offsets_elect_different_leaders_witness:
  "\<exists>a b. elect_leader_stake_based ex_rand ex_schedule 5 0 = Inr a \<and>
     elect_leader_stake_based ex_rand ex_schedule 5 1 = Inr b \<and> a \<noteq> b"
proof -
  have "committee_size (cx_committee (le_context ex_schedule)) = 4"
    by (simp add: ex_schedule_def LeaderSchedule_new_def ex_schedule_context(1) ex_committee_def committee_size_def)
  then have "\<exists>a b. elect_leader_stake_based ex_rand ex_schedule 5 0 = Inr a \<and>
      elect_leader_stake_based ex_rand ex_schedule 5 1 = Inr b \<and> a \<noteq> b \<and>
      {a, b} \<subseteq> members (cx_committee (le_context ex_schedule))"
    by (intro offsets_elect_different_leaders [OF ex_rand_ok]) simp_all
  then show ?thesis by blast
qed

text \<open>
  The hypothesis about good nodes is needed. With stakes 6, 2 and 2 and a threshold of 33 percent the first
  authority has more stake than good nodes may have together: if it has the best score there is a bad node
  but no good node, and an election of the bad node panics.
\<close>

definition ex_skewed_context :: epoch_context where
  "ex_skewed_context =
     ex_schedule_context\<lparr> cx_committee :=
       \<lparr> cm_epoch = 0, cm_total_stake = 10, cm_quorum_threshold = 7, cm_validity_threshold = 4,
         cm_authorities = map (\<lambda>s. ex_authority\<lparr> au_stake := s \<rparr>) [6, 2, 2] \<rparr> \<rparr>"

definition ex_skewed_scores :: reputation_scores where
  "ex_skewed_scores = \<lparr> rs_scores_per_authority = [5, 0, 4], rs_commit_range = CommitRange 1 3 \<rparr>"

definition ex_skewed_rand :: rand where
  "ex_skewed_rand = ex_rand\<lparr> rd_choose_multiple_weighted := \<lambda>_ _ _. Some [1, 0, 2] \<rparr>"

lemma no_good_node_makes_the_election_panic:
  "Committee_new 0 (map (\<lambda>s. ex_authority\<lparr> au_stake := s \<rparr>) [6, 2, 2]) = Inr (cx_committee ex_skewed_context) \<and>
   and_then (LeaderSwapTable_new ex_skewed_rand ex_skewed_context 3 ex_skewed_scores)
     (\<lambda>table. elect_leader ex_skewed_rand (LeaderSchedule_new None ex_skewed_context table) 7 0) =
   Inl (SchedulePanic NoGoodNode)"
proof -
  have cm: "Committee_new 0 (map (\<lambda>s. ex_authority\<lparr> au_stake := s \<rparr>) [6, 2, 2]) = Inr (cx_committee ex_skewed_context)"
    by (simp add: Committee_new_def ex_skewed_context_def u32_max_def u64_sum_def u64_add_def u64_mul_def)
  have "authorities_by_score ex_skewed_context ex_skewed_scores = Inr [(0, 5), (1, 0), (2, 4)]"
    using authorities_by_score_eq [of ex_skewed_scores ex_skewed_context]
    by (simp add: ex_skewed_scores_def ex_skewed_context_def committee_size_def)
  then have "LeaderSwapTable_new ex_skewed_rand ex_skewed_context 3 ex_skewed_scores =
      Inr \<lparr> lt_good_nodes = [], lt_bad_nodes = [(1, [], 2)], lt_reputation_scores_desc = [(0, 5), (2, 4), (1, 0)],
            lt_reputation_scores = ex_skewed_scores \<rparr>"
    by (simp add: LeaderSwapTable_new_def LeaderSwapTable_new_inner_def ex_skewed_context_def ex_schedule_context(1,3)
        ex_skewed_rand_def ex_rand_def Let_def retrieve_first_nodes_def committee_stake_def committee_authority_def upt_rec
        committee_size_def u64_add_def u64_mul_def)
      (simp add: ex_skewed_scores_def ex_authority_def)
  with cm show ?thesis
    by (simp add: elect_leader_def elect_leader_stake_based_def LeaderSchedule_new_def ex_skewed_context_def
        ex_skewed_rand_def committee_size_def committee_authorities_def swap_def Let_def)
qed

end
