(* ===== verification/Transactions.thy ===== *)
theory Transactions
  imports Consensus_Types
begin

text \<open>
  Submission of transactions (\<^verbatim>\<open>consensus/core/src/transaction.rs\<close>): the client that puts batches of transactions
  into a bounded channel, and the consumer that takes transactions from it for a block. The one-shot sender that
  acknowledges a batch is a number that identifies it.
\<close>

section \<open>Consumer\<close>

definition max_pending_transactions :: nat where "max_pending_transactions = 2000"

definition max_consumed_transactions_per_request :: nat where "max_consumed_transactions_per_request = 5000"

record transactions_guard =
  tg_transactions :: "transaction list"
  tg_included_in_block_ack :: nat

record transaction_consumer =
  tr_receiver :: "transactions_guard list"
  tr_max_consumed_bytes_per_request :: nat
  tr_max_consumed_transactions_per_request :: nat
  tr_pending_transactions :: "transactions_guard option"

definition TransactionConsumer_new :: "transactions_guard list \<Rightarrow> epoch_context \<Rightarrow> nat option \<Rightarrow> transaction_consumer" where
  "TransactionConsumer_new receiver cx max_consumed =
     \<lparr> tr_receiver = receiver,
       tr_max_consumed_bytes_per_request = pc_consensus_max_transactions_in_block_bytes (cx_protocol_config cx),
       tr_max_consumed_transactions_per_request =
         (case max_consumed of Some n \<Rightarrow> n | None \<Rightarrow> max_consumed_transactions_per_request),
       tr_pending_transactions = None \<rparr>"

text \<open>What one call of \<open>next\<close> has taken so far: the transactions, the acknowledgements and the size in bytes.\<close>

record pulled =
  pu_transactions :: "transaction list"
  pu_acks :: "nat list"
  pu_total_size :: nat

text \<open>The closure passed to \<open>filter_map\<close>, over the transactions of a batch, with those it leaves.\<close>

fun take_txs :: "transaction_consumer \<Rightarrow> transaction list \<Rightarrow> pulled \<Rightarrow> transaction list \<times> pulled" where
  "take_txs tr [] p = ([], p)"
| "take_txs tr (tx # txs) p =
     (let size = length (tx_data tx) in
      if u64_add (pu_total_size p) size > tr_max_consumed_bytes_per_request tr \<or>
         length (pu_transactions p) \<ge> tr_max_consumed_transactions_per_request tr
      then let (remaining, p') = take_txs tr txs p in (tx # remaining, p')
      else take_txs tr txs (p\<lparr> pu_total_size := u64_add (pu_total_size p) size,
                               pu_transactions := pu_transactions p @ [tx] \<rparr>))"

definition handle_txs ::
  "transaction_consumer \<Rightarrow> transactions_guard \<Rightarrow> pulled \<Rightarrow> transactions_guard option \<times> pulled" where
  "handle_txs tr t p =
     (let (remaining, p') = take_txs tr (tg_transactions t) p in
      if remaining = [] then (None, p'\<lparr> pu_acks := pu_acks p' @ [tg_included_in_block_ack t] \<rparr>)
      else (Some (t\<lparr> tg_transactions := remaining \<rparr>), p'))"

text \<open>The loop that pulls batches until one of them is not consumed completely.\<close>

fun pull ::
  "transaction_consumer \<Rightarrow> transactions_guard list \<Rightarrow> pulled
     \<Rightarrow> transactions_guard option \<times> transactions_guard list \<times> pulled" where
  "pull tr [] p = (None, [], p)"
| "pull tr (t # receiver) p =
     (case handle_txs tr t p of
        (None, p') \<Rightarrow> pull tr receiver p'
      | (Some rest, p') \<Rightarrow> (Some rest, receiver, p'))"

definition next_transactions ::
  "transaction_consumer \<Rightarrow> transaction list \<times> nat list \<times> transaction_consumer" where
  "next_transactions tr =
     (let p = \<lparr> pu_transactions = [], pu_acks = [], pu_total_size = 0 \<rparr>;
          (pending, p) = (case tr_pending_transactions tr of None \<Rightarrow> (None, p) | Some t \<Rightarrow> handle_txs tr t p);
          (pending, receiver, p) =
            (case pending of None \<Rightarrow> pull tr (tr_receiver tr) p | Some _ \<Rightarrow> (pending, tr_receiver tr, p))
      in (pu_transactions p, pu_acks p, tr\<lparr> tr_receiver := receiver, tr_pending_transactions := pending \<rparr>))"

section \<open>Client\<close>

datatype client_error = ConsensusShuttingDown | OversizedTransaction nat nat

record transaction_client =
  tl_max_transaction_size :: nat

definition TransactionClient_new :: "epoch_context \<Rightarrow> transaction_client \<times> transactions_guard list" where
  "TransactionClient_new cx =
     (\<lparr> tl_max_transaction_size = pc_consensus_max_transaction_size_bytes (cx_protocol_config cx) \<rparr>, [])"

text \<open>The result of a poll of \<open>submit_no_wait\<close>: it waits while the channel is full.\<close>

datatype submission = Submitted "transactions_guard list" | Waiting | SubmitError client_error

definition submit_no_wait ::
  "transaction_client \<Rightarrow> byte list list \<Rightarrow> nat \<Rightarrow> bool \<Rightarrow> transactions_guard list \<Rightarrow> submission" where
  "submit_no_wait client transactions ack channel_open receiver =
     (case List.find (\<lambda>t. length t > tl_max_transaction_size client) transactions of
        Some t \<Rightarrow> SubmitError (OversizedTransaction (length t) (tl_max_transaction_size client))
      | None \<Rightarrow>
          let t = \<lparr> tg_transactions = map (\<lambda>d. \<lparr> tx_data = d \<rparr>) transactions, tg_included_in_block_ack = ack \<rparr> in
          if \<not> channel_open then SubmitError ConsensusShuttingDown
          else if length receiver \<ge> max_pending_transactions then Waiting
          else Submitted (receiver @ [t]))"

text \<open>The rest of \<open>submit\<close>: the batch was included in a block exactly when its acknowledgement was sent.\<close>

definition submit_result :: "nat \<Rightarrow> nat list \<Rightarrow> client_error + unit" where
  "submit_result ack acks = (if ack \<in> set acks then Inr () else Inl ConsensusShuttingDown)"

section \<open>What a call of \<open>next\<close> takes\<close>

abbreviation waiting_guards :: "transaction_consumer \<Rightarrow> transactions_guard list" where
  "waiting_guards tr \<equiv> (case tr_pending_transactions tr of None \<Rightarrow> [] | Some t \<Rightarrow> [t]) @ tr_receiver tr"

definition waiting_txs :: "transactions_guard list \<Rightarrow> transaction multiset" where
  "waiting_txs ts = (\<Sum>t \<leftarrow> ts. mset (tg_transactions t))"

lemma waiting_txs_mem: "tx \<in># waiting_txs ts \<longleftrightarrow> (\<exists>t \<in> set ts. tx \<in> set (tg_transactions t))"
  by (induction ts) (auto simp: waiting_txs_def)

definition txs_size :: "transaction list \<Rightarrow> nat" where
  "txs_size txs = (\<Sum>tx \<leftarrow> txs. length (tx_data tx))"

definition pulled_ok :: "transaction_consumer \<Rightarrow> pulled \<Rightarrow> bool" where
  "pulled_ok tr p \<longleftrightarrow>
     pu_total_size p = txs_size (pu_transactions p) \<and>
     txs_size (pu_transactions p) \<le> tr_max_consumed_bytes_per_request tr \<and>
     length (pu_transactions p) \<le> tr_max_consumed_transactions_per_request tr"

text \<open>No limit is near the width of the size counter.\<close>

definition sizes_fit :: "transaction_consumer \<Rightarrow> bool" where
  "sizes_fit tr \<longleftrightarrow>
     (\<forall>t \<in> set (waiting_guards tr). \<forall>tx \<in> set (tg_transactions t).
        tr_max_consumed_bytes_per_request tr + length (tx_data tx) < 2 ^ 64)"

lemma take_txs_spec:
  assumes "take_txs tr txs p = (remaining, p')" "pulled_ok tr p"
    and "\<forall>tx \<in> set txs. tr_max_consumed_bytes_per_request tr + length (tx_data tx) < 2 ^ 64"
  shows "\<exists>taken. pu_transactions p' = pu_transactions p @ taken \<and> mset txs = mset taken + mset remaining \<and>
    set remaining \<subseteq> set txs \<and> pulled_ok tr p' \<and> pu_acks p' = pu_acks p"
  using assms
proof (induction tr txs p arbitrary: remaining rule: take_txs.induct)
  case (2 tr tx txs p)
  have sum: "u64_add (pu_total_size p) (length (tx_data tx)) = pu_total_size p + length (tx_data tx)"
    using "2.prems"(2,3) by (simp add: u64_add_def pulled_ok_def)
  show ?case
  proof (cases "u64_add (pu_total_size p) (length (tx_data tx)) > tr_max_consumed_bytes_per_request tr \<or>
      length (pu_transactions p) \<ge> tr_max_consumed_transactions_per_request tr")
    case True
    then obtain rem' where "take_txs tr txs p = (rem', p')" "remaining = tx # rem'"
      using "2.prems"(1) by (auto simp: Let_def split: prod.splits)
    with "2.IH"(1) [OF refl True] "2.prems"(2,3) show ?thesis by fastforce
  next
    case False
    let ?p = "p\<lparr> pu_total_size := u64_add (pu_total_size p) (length (tx_data tx)), pu_transactions := pu_transactions p @ [tx] \<rparr>"
    have "pulled_ok tr ?p" using False sum "2.prems"(2) by (auto simp: pulled_ok_def txs_size_def)
    with "2.IH"(2) [OF refl False] "2.prems"(1,3) False show ?thesis by (fastforce simp: Let_def)
  qed
qed simp

lemma handle_txs_spec:
  assumes "handle_txs tr t p = (rest, p')" "pulled_ok tr p"
    and "\<forall>tx \<in> set (tg_transactions t). tr_max_consumed_bytes_per_request tr + length (tx_data tx) < 2 ^ 64"
  shows "\<exists>taken. pu_transactions p' = pu_transactions p @ taken \<and> pulled_ok tr p' \<and>
    (case rest of
       None \<Rightarrow> mset taken = mset (tg_transactions t) \<and> pu_acks p' = pu_acks p @ [tg_included_in_block_ack t]
     | Some t' \<Rightarrow> mset (tg_transactions t) = mset taken + mset (tg_transactions t') \<and> pu_acks p' = pu_acks p \<and>
         tg_included_in_block_ack t' = tg_included_in_block_ack t \<and> tg_transactions t' \<noteq> [])"
proof -
  obtain remaining q where q: "take_txs tr (tg_transactions t) p = (remaining, q)" by fastforce
  from take_txs_spec [OF this assms(2,3)] q assms(1) show ?thesis
    by (auto simp: handle_txs_def pulled_ok_def split: if_splits)
qed

lemma pull_spec:
  assumes "pull tr ts p = (rest, ts', p')" "pulled_ok tr p"
    and "\<forall>t \<in> set ts. \<forall>tx \<in> set (tg_transactions t). tr_max_consumed_bytes_per_request tr + length (tx_data tx) < 2 ^ 64"
  shows "\<exists>taken consumed. pu_transactions p' = pu_transactions p @ taken \<and> pulled_ok tr p' \<and>
    pu_acks p' = pu_acks p @ map tg_included_in_block_ack consumed \<and>
    (case rest of
       None \<Rightarrow> ts = consumed \<and> ts' = [] \<and> mset taken = waiting_txs consumed
     | Some t' \<Rightarrow> \<exists>t. ts = consumed @ t # ts' \<and> tg_included_in_block_ack t' = tg_included_in_block_ack t \<and>
         mset taken + mset (tg_transactions t') = waiting_txs consumed + mset (tg_transactions t))"
  using assms
proof (induction tr ts p rule: pull.induct)
  case (2 tr t ts p)
  obtain r q where h: "handle_txs tr t p = (r, q)" by fastforce
  from handle_txs_spec [OF h "2.prems"(2)] "2.prems"(3) obtain taken where
    taken: "pu_transactions q = pu_transactions p @ taken" "pulled_ok tr q"
    "case r of None \<Rightarrow> mset taken = mset (tg_transactions t) \<and> pu_acks q = pu_acks p @ [tg_included_in_block_ack t]
     | Some t' \<Rightarrow> mset (tg_transactions t) = mset taken + mset (tg_transactions t') \<and> pu_acks q = pu_acks p \<and>
         tg_included_in_block_ack t' = tg_included_in_block_ack t \<and> tg_transactions t' \<noteq> []" by auto
  show ?case
  proof (cases r)
    case None
    with "2.prems"(1) h have "pull tr ts q = (rest, ts', p')" by simp
    from "2.IH" [OF h [symmetric] None this taken(2)] "2.prems"(3) obtain more consumed where
      more: "pu_transactions p' = pu_transactions q @ more" "pulled_ok tr p'"
      "pu_acks p' = pu_acks q @ map tg_included_in_block_ack consumed"
      "case rest of None \<Rightarrow> ts = consumed \<and> ts' = [] \<and> mset more = waiting_txs consumed
       | Some t' \<Rightarrow> \<exists>t. ts = consumed @ t # ts' \<and> tg_included_in_block_ack t' = tg_included_in_block_ack t \<and>
           mset more + mset (tg_transactions t') = waiting_txs consumed + mset (tg_transactions t)" by auto
    with taken None show ?thesis
      by (intro exI [of _ "taken @ more"] exI [of _ "t # consumed"])
        (auto simp: waiting_txs_def split: option.splits)
  next
    case (Some t')
    with "2.prems"(1) h have "rest = Some t'" "ts' = ts" "p' = q" by auto
    with taken Some show ?thesis
      by (intro exI [of _ taken] exI [of _ "[]"]) (simp add: waiting_txs_def)
  qed
qed (auto simp: waiting_txs_def)

lemma next_transactions_spec:
  assumes "sizes_fit tr" "next_transactions tr = (txs, acks, tr')"
  shows "txs_size txs \<le> tr_max_consumed_bytes_per_request tr \<and>
    length txs \<le> tr_max_consumed_transactions_per_request tr \<and>
    mset txs + waiting_txs (waiting_guards tr') = waiting_txs (waiting_guards tr) \<and>
    map tg_included_in_block_ack (waiting_guards tr) = acks @ map tg_included_in_block_ack (waiting_guards tr')"
proof -
  let ?p0 = "\<lparr> pu_transactions = [], pu_acks = [], pu_total_size = 0 \<rparr>"
  have ok0: "pulled_ok tr ?p0" by (simp add: pulled_ok_def txs_size_def)
  obtain pending p where first: "(case tr_pending_transactions tr of None \<Rightarrow> (None, ?p0) | Some t \<Rightarrow> handle_txs tr t ?p0) = (pending, p)"
    by fastforce
  have h: "\<exists>taken. pu_transactions p = taken \<and> pulled_ok tr p \<and>
      (case tr_pending_transactions tr of
         None \<Rightarrow> pending = None \<and> taken = [] \<and> pu_acks p = []
       | Some t \<Rightarrow> (case pending of
           None \<Rightarrow> mset taken = mset (tg_transactions t) \<and> pu_acks p = [tg_included_in_block_ack t]
         | Some t' \<Rightarrow> mset (tg_transactions t) = mset taken + mset (tg_transactions t') \<and> pu_acks p = [] \<and>
             tg_included_in_block_ack t' = tg_included_in_block_ack t))"
  proof (cases "tr_pending_transactions tr")
    case None
    with first ok0 show ?thesis by auto
  next
    case (Some t)
    then have "\<forall>tx \<in> set (tg_transactions t). tr_max_consumed_bytes_per_request tr + length (tx_data tx) < 2 ^ 64"
      using assms(1) by (simp add: sizes_fit_def)
    from handle_txs_spec [OF _ ok0 this, of pending p] first Some show ?thesis by (auto split: option.splits)
  qed
  show ?thesis
  proof (cases pending)
    case (Some t')
    with h first assms(2) show ?thesis
      by (auto simp: next_transactions_def pulled_ok_def waiting_txs_def Let_def split: option.splits)
  next
    case None
    obtain rest ts' q where q: "pull tr (tr_receiver tr) p = (rest, ts', q)" by (metis prod_cases3)
    have "\<forall>t \<in> set (tr_receiver tr). \<forall>tx \<in> set (tg_transactions t). tr_max_consumed_bytes_per_request tr + length (tx_data tx) < 2 ^ 64"
      using assms(1) by (auto simp: sizes_fit_def)
    from pull_spec [OF q _ this] h obtain taken consumed where
      taken: "pu_transactions q = pu_transactions p @ taken" "pulled_ok tr q"
      "pu_acks q = pu_acks p @ map tg_included_in_block_ack consumed"
      "case rest of None \<Rightarrow> tr_receiver tr = consumed \<and> ts' = [] \<and> mset taken = waiting_txs consumed
       | Some t' \<Rightarrow> \<exists>t. tr_receiver tr = consumed @ t # ts' \<and> tg_included_in_block_ack t' = tg_included_in_block_ack t \<and>
           mset taken + mset (tg_transactions t') = waiting_txs consumed + mset (tg_transactions t)" by auto
    have next_eq: "txs = pu_transactions q" "acks = pu_acks q"
      "tr' = tr\<lparr> tr_receiver := ts', tr_pending_transactions := rest \<rparr>"
      using assms(2) first q None by (simp_all add: next_transactions_def Let_def)
    have hp: "mset (pu_transactions p) = waiting_txs (case tr_pending_transactions tr of None \<Rightarrow> [] | Some t \<Rightarrow> [t])"
      "pu_acks p = map tg_included_in_block_ack (case tr_pending_transactions tr of None \<Rightarrow> [] | Some t \<Rightarrow> [t])"
      using h None by (auto simp: waiting_txs_def split: option.splits)
    have app: "waiting_txs (xs @ ys) = waiting_txs xs + waiting_txs ys" for xs ys by (simp add: waiting_txs_def)
    show ?thesis
    proof (cases rest)
      case rest: None
      with taken hp show ?thesis unfolding next_eq by (simp add: pulled_ok_def app) (simp add: waiting_txs_def)
    next
      case (Some t')
      with taken(4) obtain t where t: "tr_receiver tr = consumed @ t # ts'"
        "tg_included_in_block_ack t' = tg_included_in_block_ack t"
        "mset taken + mset (tg_transactions t') = waiting_txs consumed + mset (tg_transactions t)" by auto
      have "waiting_txs (t' # ts') = mset (tg_transactions t') + waiting_txs ts'"
        "waiting_txs (t # ts') = mset (tg_transactions t) + waiting_txs ts'" by (simp_all add: waiting_txs_def)
      with t Some taken(1-3) hp show ?thesis
        unfolding next_eq by (simp add: pulled_ok_def app)
    qed
  qed
qed

text \<open>Progress: a call with something to take takes a transaction or finishes a batch.\<close>

definition txs_small :: "transaction_consumer \<Rightarrow> bool" where
  "txs_small tr \<longleftrightarrow>
     0 < tr_max_consumed_transactions_per_request tr \<and>
     (\<forall>tx \<in># waiting_txs (waiting_guards tr). length (tx_data tx) \<le> tr_max_consumed_bytes_per_request tr)"

lemma take_txs_keeps: "length (pu_transactions p) \<le> length (pu_transactions (snd (take_txs tr txs p)))"
  by (induction tr txs p rule: take_txs.induct) (auto simp: Let_def split_beta)

lemma take_txs_acks: "pu_acks (snd (take_txs tr txs p)) = pu_acks p"
  by (induction tr txs p rule: take_txs.induct) (auto simp: Let_def split_beta)

lemma handle_txs_progress:
  assumes "0 < tr_max_consumed_transactions_per_request tr"
    and "\<forall>tx \<in> set (tg_transactions t). length (tx_data tx) \<le> tr_max_consumed_bytes_per_request tr \<and> length (tx_data tx) < 2 ^ 64"
  shows "let (rest, p) = handle_txs tr t \<lparr> pu_transactions = [], pu_acks = [], pu_total_size = 0 \<rparr>
    in pu_transactions p \<noteq> [] \<or> pu_acks p \<noteq> []"
proof (cases "tg_transactions t")
  case Nil
  then show ?thesis by (simp add: handle_txs_def)
next
  case (Cons tx txs)
  let ?p = "\<lparr> pu_transactions = [tx], pu_acks = [], pu_total_size = length (tx_data tx) \<rparr>"
  have "take_txs tr (tg_transactions t) \<lparr> pu_transactions = [], pu_acks = [], pu_total_size = 0 \<rparr> = take_txs tr txs ?p"
    using assms Cons by (simp add: u64_add_def)
  then show ?thesis using take_txs_keeps [of ?p tr txs] by (auto simp: handle_txs_def Let_def split_beta)
qed

lemma pull_keeps:
  "pull tr ts p = (rest, ts', p') \<Longrightarrow> pu_transactions p \<noteq> [] \<or> pu_acks p \<noteq> [] \<Longrightarrow> pu_transactions p' \<noteq> [] \<or> pu_acks p' \<noteq> []"
proof (induction tr ts p rule: pull.induct)
  case (2 tr t ts p)
  obtain r q where h: "handle_txs tr t p = (r, q)" by fastforce
  then have "pu_transactions q \<noteq> [] \<or> pu_acks q \<noteq> []"
    using "2.prems"(2) take_txs_keeps [of p tr "tg_transactions t"] take_txs_acks
    by (auto simp: handle_txs_def Let_def split_beta split: if_splits)
  with 2 h show ?case by (cases r) auto
qed simp

lemma next_transactions_progress:
  assumes "sizes_fit tr" "txs_small tr" "waiting_guards tr \<noteq> []" "next_transactions tr = (txs, acks, tr')"
  shows "txs \<noteq> [] \<or> acks \<noteq> []"
proof -
  let ?p0 = "\<lparr> pu_transactions = [], pu_acks = [], pu_total_size = 0 \<rparr>"
  have small: "\<forall>tx \<in> set (tg_transactions t). length (tx_data tx) \<le> tr_max_consumed_bytes_per_request tr \<and> length (tx_data tx) < 2 ^ 64"
    if t: "t \<in> set (waiting_guards tr)" for t
  proof
    fix tx assume tx: "tx \<in> set (tg_transactions t)"
    then have "tx \<in># waiting_txs (waiting_guards tr)" using t unfolding waiting_txs_mem by blast
    with assms(1,2) t tx show "length (tx_data tx) \<le> tr_max_consumed_bytes_per_request tr \<and> length (tx_data tx) < 2 ^ 64"
      by (fastforce simp: txs_small_def sizes_fit_def)
  qed
  have max: "0 < tr_max_consumed_transactions_per_request tr" using assms(2) by (simp add: txs_small_def)
  show ?thesis
  proof (cases "tr_pending_transactions tr")
    case (Some t)
    obtain r q where h: "handle_txs tr t ?p0 = (r, q)" by fastforce
    then have q: "pu_transactions q \<noteq> [] \<or> pu_acks q \<noteq> []"
      using handle_txs_progress [OF max small, of t] Some by simp
    obtain rest ts' q' where "pull tr (tr_receiver tr) q = (rest, ts', q')" by (metis prod_cases3)
    with pull_keeps [OF this q] q Some h assms(4) show ?thesis
      by (cases r) (auto simp: next_transactions_def Let_def)
  next
    case None
    with assms(3) obtain t ts where ts: "tr_receiver tr = t # ts" by (cases "tr_receiver tr") auto
    obtain r q where h: "handle_txs tr t ?p0 = (r, q)" by fastforce
    then have q: "pu_transactions q \<noteq> [] \<or> pu_acks q \<noteq> []"
      using handle_txs_progress [OF max small, of t] ts by simp
    obtain rest ts' q' where "pull tr ts q = (rest, ts', q')" by (metis prod_cases3)
    with pull_keeps [OF this q] q None ts h assms(4) show ?thesis
      by (cases r) (auto simp: next_transactions_def Let_def)
  qed
qed

text \<open>The acknowledgements sent by a number of calls.\<close>

primrec pulls :: "nat \<Rightarrow> transaction_consumer \<Rightarrow> nat list \<times> transaction_consumer" where
  "pulls 0 tr = ([], tr)"
| "pulls (Suc n) tr = (let (txs, acks, tr') = next_transactions tr; (more, tr'') = pulls n tr' in (acks @ more, tr''))"

lemma waiting_txs_fit:
  "sizes_fit tr \<longleftrightarrow> (\<forall>tx \<in># waiting_txs (waiting_guards tr). tr_max_consumed_bytes_per_request tr + length (tx_data tx) < 2 ^ 64)"
  unfolding sizes_fit_def Ball_def waiting_txs_mem by blast

lemma next_transactions_limits:
  "next_transactions tr = (txs, acks, tr') \<Longrightarrow>
     tr_max_consumed_bytes_per_request tr' = tr_max_consumed_bytes_per_request tr \<and>
     tr_max_consumed_transactions_per_request tr' = tr_max_consumed_transactions_per_request tr"
  by (auto simp: next_transactions_def Let_def split: prod.splits)

section \<open>Properties\<close>

text \<open>C28: a call of \<open>TransactionConsumer::next\<close> takes transactions within the limits on their number and their size;
  what it takes and what still waits is exactly what waited before; and it acknowledges exactly the batches, in
  order of submission, of which no transaction waits any more.\<close>

theorem next_keeps_limits_and_batches:
  assumes "sizes_fit tr" "next_transactions tr = (txs, acks, tr')"
  shows "txs_size txs \<le> tr_max_consumed_bytes_per_request tr \<and>
    length txs \<le> tr_max_consumed_transactions_per_request tr \<and>
    mset txs + waiting_txs (waiting_guards tr') = waiting_txs (waiting_guards tr) \<and>
    map tg_included_in_block_ack (waiting_guards tr) = acks @ map tg_included_in_block_ack (waiting_guards tr')"
  using assms by (rule next_transactions_spec)

definition ex_tx :: "nat \<Rightarrow> transaction" where
  "ex_tx n = \<lparr> tx_data = replicate n 0 \<rparr>"

definition ex_consumer :: transaction_consumer where
  "ex_consumer =
     \<lparr> tr_receiver = [\<lparr> tg_transactions = [ex_tx 1, ex_tx 3], tg_included_in_block_ack = 7 \<rparr>,
                      \<lparr> tg_transactions = [ex_tx 2], tg_included_in_block_ack = 8 \<rparr>],
       tr_max_consumed_bytes_per_request = 4, tr_max_consumed_transactions_per_request = 5,
       tr_pending_transactions = None \<rparr>"

lemma ex_consumer_fit: "sizes_fit ex_consumer" "txs_small ex_consumer"
  by (auto simp: sizes_fit_def txs_small_def ex_consumer_def waiting_txs_def ex_tx_def)

theorem next_keeps_limits_and_batches_witness:
  "txs_size (fst (next_transactions ex_consumer)) \<le> 4 \<and> fst (snd (next_transactions ex_consumer)) = [7]"
proof -
  have "next_transactions ex_consumer = ([ex_tx 1, ex_tx 3], [7], ex_consumer\<lparr> tr_receiver := [],
      tr_pending_transactions := Some \<lparr> tg_transactions = [ex_tx 2], tg_included_in_block_ack = 8 \<rparr> \<rparr>)"
    by (simp add: next_transactions_def ex_consumer_def handle_txs_def ex_tx_def u64_add_def)
  with next_keeps_limits_and_batches [OF ex_consumer_fit(1) this] show ?thesis by (simp add: ex_consumer_def)
qed



end
