(* ===== verification/Decoding.thy ===== *)
theory Decoding
  imports Consensus_Types
begin

text \<open>
  Deserialization of blocks and commits with \<open>bcs::from_bytes\<close>, a parameter of the code that reads blocks and commits
  from storage or from the network.
\<close>

record decoder =
  de_signed_block :: "byte list \<Rightarrow> signed_block option"
  de_commit :: "byte list \<Rightarrow> commit option"

text \<open>
  A block or commit was made from the bytes it carries: they decode to its content, and it has their digest. This is so
  for what \<open>VerifiedBlock::new_verified\<close> and \<open>TrustedCommit::new_trusted\<close> make from serialized content.
\<close>

definition block_decodes :: "crypto \<Rightarrow> decoder \<Rightarrow> verified_block \<Rightarrow> bool" where
  "block_decodes cry de b \<longleftrightarrow>
     de_signed_block de (vb_serialized b) = Some (vb_signed b) \<and> vb_digest b = cy_hash cry (vb_serialized b)"

definition commit_decodes :: "crypto \<Rightarrow> decoder \<Rightarrow> trusted_commit \<Rightarrow> bool" where
  "commit_decodes cry de c \<longleftrightarrow>
     de_commit de (tc_serialized c) = Some (tc_inner c) \<and> tc_digest c = cy_hash cry (tc_serialized c)"

text \<open>\<open>bcs\<close> round trips.\<close>

definition decoder_ok :: "crypto \<Rightarrow> decoder \<Rightarrow> bool" where
  "decoder_ok cry de \<longleftrightarrow>
     (\<forall>sb bytes. cy_bcs_signed_block cry sb = Some bytes \<longrightarrow> de_signed_block de bytes = Some sb) \<and>
     (\<forall>c bytes. cy_bcs_commit cry c = Some bytes \<longrightarrow> de_commit de bytes = Some c)"

lemma new_verified_decodes:
  "decoder_ok cry de \<Longrightarrow> cy_bcs_signed_block cry sb = Some bytes \<Longrightarrow>
     block_decodes cry de (VerifiedBlock_new_verified cry sb bytes)"
  by (simp add: decoder_ok_def block_decodes_def VerifiedBlock_new_verified_def)

lemma new_trusted_decodes:
  "decoder_ok cry de \<Longrightarrow> cy_bcs_commit cry c = Some bytes \<Longrightarrow>
     commit_decodes cry de (TrustedCommit_new_trusted cry c bytes)"
  by (simp add: decoder_ok_def commit_decodes_def TrustedCommit_new_trusted_def)

lemma decoded_block: "block_decodes cry de b \<Longrightarrow> VerifiedBlock_new_verified cry (vb_signed b) (vb_serialized b) = b"
  by (simp add: block_decodes_def VerifiedBlock_new_verified_def)

lemma decoded_commit: "commit_decodes cry de c \<Longrightarrow> TrustedCommit_new_trusted cry (tc_inner c) (tc_serialized c) = c"
  by (simp add: commit_decodes_def TrustedCommit_new_trusted_def)

end
