(* ===== verification/Rocksdb_Store.thy ===== *)
theory Rocksdb_Store
  imports Dag_Start Decoding
begin

text \<open>
  The persistent store (\<^verbatim>\<open>consensus/core/src/storage/rocksdb_store.rs\<close>). A column family is a map ordered by its keys;
  errors of the database are not modelled, those of decoding are. The store refines the in-memory
  store: on what it holds, each of its operations does what that of the in-memory store does, on serialized blocks and
  commits.
\<close>

section \<open>Operations\<close>

record rocks_store =
  rk_blocks :: "((round \<times> authority_index \<times> digest) \<times> byte list) list"
  rk_digests_by_authorities :: "((authority_index \<times> round \<times> digest) \<times> unit) list"
  rk_commits :: "((commit_index \<times> digest) \<times> byte list) list"
  rk_commit_votes :: "((commit_index \<times> digest \<times> block_ref) \<times> unit) list"
  rk_commit_info :: "((commit_index \<times> digest) \<times> commit_info) list"

definition RocksDBStore_new :: rocks_store where
  "RocksDBStore_new = \<lparr> rk_blocks = [], rk_digests_by_authorities = [], rk_commits = [],
                        rk_commit_votes = [], rk_commit_info = [] \<rparr>"

definition rocks_write_block :: "verified_block \<Rightarrow> rocks_store \<Rightarrow> rocks_store" where
  "rocks_write_block b rk =
     (let r = vb_reference b in
      rk\<lparr> rk_blocks := bm_insert (ref_key r) (vb_serialized b) (rk_blocks rk),
          rk_digests_by_authorities :=
            bm_insert (br_author r, br_round r, br_digest r) () (rk_digests_by_authorities rk),
          rk_commit_votes :=
            fold (\<lambda>v. bm_insert (cr_index v, cr_digest v, r) ()) (vb_commit_votes b) (rk_commit_votes rk) \<rparr>)"

definition rocks_write_commit :: "trusted_commit \<Rightarrow> rocks_store \<Rightarrow> rocks_store" where
  "rocks_write_commit c rk =
     rk\<lparr> rk_commits := bm_insert (tc_index c, tc_digest c) (tc_serialized c) (rk_commits rk) \<rparr>"

definition rocks_write_commit_info :: "commit_ref \<times> commit_info \<Rightarrow> rocks_store \<Rightarrow> rocks_store" where
  "rocks_write_commit_info ri rk =
     rk\<lparr> rk_commit_info := bm_insert (cr_index (fst ri), cr_digest (fst ri)) (snd ri) (rk_commit_info rk) \<rparr>"

definition rocks_write :: "write_batch \<Rightarrow> rocks_store \<Rightarrow> rocks_store" where
  "rocks_write wb rk =
     fold rocks_write_commit_info (wb_commit_info wb)
       (fold rocks_write_commit (wb_commits wb)
         (fold rocks_write_block (wb_blocks wb) rk))"

text \<open>The result of a read: a panic, an error, or a value.\<close>

type_synonym 'a read_result = "'a consensus_result res"

definition try_then :: "'a read_result \<Rightarrow> ('a \<Rightarrow> 'b read_result) \<Rightarrow> 'b read_result" where
  "try_then m f = and_then m (\<lambda>r. case r of Inl e \<Rightarrow> Inr (Inl e) | Inr x \<Rightarrow> f x)"

text \<open>The block with a reference, as read from its serialized form.\<close>

definition rocks_decode_block :: "crypto \<Rightarrow> decoder \<Rightarrow> block_ref \<Rightarrow> byte list \<Rightarrow> verified_block read_result" where
  "rocks_decode_block cry de r serialized =
     (case de_signed_block de serialized of
        None \<Rightarrow> Inr (Inl MalformedBlock)
      | Some signed_block \<Rightarrow>
          let b = VerifiedBlock_new_verified cry signed_block serialized in
          and_then (assert_that (r = vb_reference b) StorageFailure) (\<lambda>_. Inr (Inr b)))"

fun rocks_decode_blocks ::
  "crypto \<Rightarrow> decoder \<Rightarrow> (block_ref \<times> byte list option) list \<Rightarrow> verified_block option list read_result" where
  "rocks_decode_blocks cry de [] = Inr (Inr [])"
| "rocks_decode_blocks cry de ((r, serialized) # rest) =
     try_then (case serialized of
         Some bytes \<Rightarrow> try_then (rocks_decode_block cry de r bytes) (\<lambda>b. Inr (Inr (Some b)))
       | None \<Rightarrow> Inr (Inr None)) (\<lambda>b.
     try_then (rocks_decode_blocks cry de rest) (\<lambda>bs. Inr (Inr (b # bs))))"

definition rocks_read_blocks ::
  "crypto \<Rightarrow> decoder \<Rightarrow> rocks_store \<Rightarrow> block_ref list \<Rightarrow> verified_block option list read_result" where
  "rocks_read_blocks cry de rk refs =
     rocks_decode_blocks cry de (zip refs (map (\<lambda>r. map_of (rk_blocks rk) (ref_key r)) refs))"

definition rocks_contains_blocks :: "rocks_store \<Rightarrow> block_ref list \<Rightarrow> bool list" where
  "rocks_contains_blocks rk refs = map (\<lambda>r. ref_key r \<in> fst ` set (rk_blocks rk)) refs"

definition rocks_contains_block_at_slot :: "rocks_store \<Rightarrow> slot \<Rightarrow> bool" where
  "rocks_contains_block_at_slot rk s =
     (filter (\<lambda>(k, _). (slot_authority s, slot_round s, digest_min) \<le> k \<and>
                       k \<le> (slot_authority s, slot_round s, digest_max))
        (rk_digests_by_authorities rk) \<noteq> [])"

text \<open>Reading the blocks of references that the index by author gave.\<close>

definition rocks_read_found ::
  "crypto \<Rightarrow> decoder \<Rightarrow> rocks_store \<Rightarrow> block_ref list \<Rightarrow> verified_block list read_result" where
  "rocks_read_found cry de rk refs =
     try_then (rocks_read_blocks cry de rk refs) (\<lambda>results.
       and_then (map_res (\<lambda>b. expect b (DagPanic BlockNotFound)) results) (\<lambda>bs. Inr (Inr bs)))"

definition rocks_scan_blocks_by_author ::
  "crypto \<Rightarrow> decoder \<Rightarrow> rocks_store \<Rightarrow> authority_index \<Rightarrow> round \<Rightarrow> verified_block list read_result" where
  "rocks_scan_blocks_by_author cry de rk author start_round =
     rocks_read_found cry de rk
       (map (\<lambda>((a, r, d), _). BlockRef r a d)
         (filter (\<lambda>(k, _). (author, start_round, digest_min) \<le> k \<and> k \<le> (author, u32_max, digest_max))
           (rk_digests_by_authorities rk)))"

definition rocks_scan_last_blocks_by_author ::
  "crypto \<Rightarrow> decoder \<Rightarrow> rocks_store \<Rightarrow> authority_index \<Rightarrow> nat \<Rightarrow> round option \<Rightarrow> verified_block list read_result" where
  "rocks_scan_last_blocks_by_author cry de rk author num_of_rounds before_round =
     (let before = (case before_round of None \<Rightarrow> u32_max | Some r \<Rightarrow> r);
          hits = filter (\<lambda>(k, _). (author, 0, digest_min) \<le> k \<and> k \<le> (author, before, digest_max))
                   (rk_digests_by_authorities rk);
          refs = map (\<lambda>((a, r, d), _). BlockRef r a d) (rev (take num_of_rounds (rev hits)))
      in rocks_read_found cry de rk (first_slice refs))"

definition rocks_decode_commit :: "crypto \<Rightarrow> decoder \<Rightarrow> digest \<Rightarrow> byte list \<Rightarrow> trusted_commit read_result" where
  "rocks_decode_commit cry de digest serialized =
     (case de_commit de serialized of
        None \<Rightarrow> Inr (Inl MalformedCommit)
      | Some inner \<Rightarrow>
          let c = TrustedCommit_new_trusted cry inner serialized in
          and_then (assert_that (tc_digest c = digest) StorageFailure) (\<lambda>_. Inr (Inr c)))"

definition rocks_read_last_commit :: "crypto \<Rightarrow> decoder \<Rightarrow> rocks_store \<Rightarrow> trusted_commit option read_result" where
  "rocks_read_last_commit cry de rk =
     (case last_opt (rk_commits rk) of
        None \<Rightarrow> Inr (Inr None)
      | Some ((_, digest), serialized) \<Rightarrow>
          try_then (rocks_decode_commit cry de digest serialized) (\<lambda>c. Inr (Inr (Some c))))"

fun rocks_decode_commits ::
  "crypto \<Rightarrow> decoder \<Rightarrow> ((commit_index \<times> digest) \<times> byte list) list \<Rightarrow> trusted_commit list read_result" where
  "rocks_decode_commits cry de [] = Inr (Inr [])"
| "rocks_decode_commits cry de (((_, digest), serialized) # rest) =
     try_then (rocks_decode_commit cry de digest serialized) (\<lambda>c.
     try_then (rocks_decode_commits cry de rest) (\<lambda>cs. Inr (Inr (c # cs))))"

definition rocks_scan_commits ::
  "crypto \<Rightarrow> decoder \<Rightarrow> rocks_store \<Rightarrow> commit_range \<Rightarrow> trusted_commit list read_result" where
  "rocks_scan_commits cry de rk rng =
     rocks_decode_commits cry de
       (filter (\<lambda>(k, _). (range_start rng, digest_min) \<le> k \<and> k < (range_end rng, digest_min)) (rk_commits rk))"

definition rocks_read_commit_votes :: "rocks_store \<Rightarrow> commit_index \<Rightarrow> block_ref list" where
  "rocks_read_commit_votes rk index =
     map (\<lambda>((_, _, r), _). r)
       (filter (\<lambda>(k, _). (index, digest_min, BlockRef 0 0 digest_min) \<le> k \<and>
                         k \<le> (index, digest_max, BlockRef u32_max u32_max digest_max))
         (rk_commit_votes rk))"

definition rocks_read_last_commit_info :: "rocks_store \<Rightarrow> (commit_ref \<times> commit_info) option" where
  "rocks_read_last_commit_info rk =
     map_option (\<lambda>(k, v). (CommitRef (fst k) (snd k), v)) (last_opt (rk_commit_info rk))"

section \<open>Refinement of the in-memory store\<close>

text \<open>The database that holds what an in-memory store holds, serialized.\<close>

definition rocks_of :: "mem_store \<Rightarrow> rocks_store" where
  "rocks_of ms =
     \<lparr> rk_blocks = map (map_prod id vb_serialized) (ms_blocks ms),
       rk_digests_by_authorities = map (\<lambda>k. (k, ())) (ms_digests_by_authorities ms),
       rk_commits = map (map_prod id tc_serialized) (ms_commits ms),
       rk_commit_votes = map (\<lambda>k. (k, ())) (ms_commit_votes ms),
       rk_commit_info = ms_commit_info ms \<rparr>"

text \<open>Everything the store holds can be decoded, and is stored under its own key.\<close>

definition store_decodes :: "crypto \<Rightarrow> decoder \<Rightarrow> mem_store \<Rightarrow> bool" where
  "store_decodes cry de ms \<longleftrightarrow>
     mem_inv ms \<and> bs_wf (ms_commit_votes ms) \<and>
     (\<forall>(k, b) \<in> set (ms_blocks ms). block_decodes cry de b) \<and>
     (\<forall>(k, c) \<in> set (ms_commits ms). commit_decodes cry de c)"

definition batch_decodes :: "crypto \<Rightarrow> decoder \<Rightarrow> write_batch \<Rightarrow> bool" where
  "batch_decodes cry de wb \<longleftrightarrow>
     (\<forall>b \<in> set (wb_blocks wb). block_decodes cry de b) \<and> (\<forall>c \<in> set (wb_commits wb). commit_decodes cry de c)"

lemma bm_insert_serialized: "bm_insert k (f v) (map (map_prod id f) m) = map (map_prod id f) (bm_insert k v m)"
  by (induction k v m rule: bm_insert.induct) auto

lemma set_bm_insert_sub: "set (bm_insert k v m) \<subseteq> insert (k, v) (set m)"
  by (induction k v m rule: bm_insert.induct) auto

lemma bm_insert_unit:
  "bs_wf ks \<Longrightarrow> bm_insert k () (map (\<lambda>k. (k, ())) ks) = map (\<lambda>k. (k, ())) (bs_insert k ks)"
proof (induction ks)
  case (Cons x xs)
  have wf: "bs_wf xs" "\<forall>y \<in> set xs. x < y" using Cons.prems by (auto simp: bs_wf_def order_less_le)
  show ?case
  proof (cases "k = x")
    case True
    then show ?thesis by (simp add: bs_insert_def)
  next
    case False
    moreover have "k \<notin> set xs" if "k < x" using that wf(2) by (auto dest: less_asym)
    moreover have "insort k (x # xs) = x # insort k xs" if "\<not> k < x" using that False by simp
    ultimately show ?thesis using Cons.IH [OF wf(1)] by (auto simp: bs_insert_def)
  qed
qed (simp add: bs_insert_def)

lemma fold_bm_insert_unit:
  "bs_wf ks \<Longrightarrow> fold (\<lambda>v. bm_insert (f v) ()) vs (map (\<lambda>k. (k, ())) ks) = map (\<lambda>k. (k, ())) (bs_extend (map f vs) ks)"
  by (induction vs arbitrary: ks) (simp_all add: bs_extend_def bm_insert_unit)

lemma store_decodes_write_block:
  assumes "store_decodes cry de ms" "block_decodes cry de b"
  shows "rocks_write_block b (rocks_of ms) = rocks_of (mem_write_block b ms) \<and> store_decodes cry de (mem_write_block b ms)"
proof
  have wf: "bs_wf (ms_digests_by_authorities ms)" "bs_wf (ms_commit_votes ms)"
    using assms(1) by (simp_all add: store_decodes_def mem_inv_def)
  show "rocks_write_block b (rocks_of ms) = rocks_of (mem_write_block b ms)"
    using wf fold_bm_insert_unit [OF wf(2), of "\<lambda>v. (cr_index v, cr_digest v, vb_reference b)"]
    by (simp add: rocks_write_block_def mem_write_block_def rocks_of_def Let_def bm_insert_serialized bm_insert_unit)
  show "store_decodes cry de (mem_write_block b ms)"
    using assms mem_inv_write_block [of ms b] set_bm_insert_sub [of "ref_key (vb_reference b)" b "ms_blocks ms"]
    by (auto simp: store_decodes_def mem_write_block_def Let_def)
qed

lemma store_decodes_write_commit:
  assumes "store_decodes cry de ms" "commit_decodes cry de c"
  shows "rocks_write_commit c (rocks_of ms) = rocks_of (mem_write_commit c ms) \<and> store_decodes cry de (mem_write_commit c ms)"
proof
  show "rocks_write_commit c (rocks_of ms) = rocks_of (mem_write_commit c ms)"
    by (simp add: rocks_write_commit_def mem_write_commit_def rocks_of_def bm_insert_serialized)
  show "store_decodes cry de (mem_write_commit c ms)"
    using assms mem_inv_write_commit [of ms c] set_bm_insert_sub [of "(tc_index c, tc_digest c)" c "ms_commits ms"]
    by (auto simp: store_decodes_def mem_write_commit_def)
qed

lemma store_decodes_write_commit_info:
  assumes "store_decodes cry de ms"
  shows "rocks_write_commit_info i (rocks_of ms) = rocks_of (mem_write_commit_info i ms) \<and>
    store_decodes cry de (mem_write_commit_info i ms)"
  using assms mem_inv_write_commit_info [of ms i]
  by (simp add: rocks_write_commit_info_def mem_write_commit_info_def rocks_of_def store_decodes_def)

text \<open>A step that commutes with the abstraction commutes with it over a list.\<close>

lemma fold_refines:
  assumes "\<And>x s. x \<in> set xs \<Longrightarrow> P s \<Longrightarrow> g x (h s) = h (f x s) \<and> P (f x s)" "P s"
  shows "fold g xs (h s) = h (fold f xs s) \<and> P (fold f xs s)"
  using assms by (induction xs arbitrary: s) auto

lemma rocks_write_refines:
  assumes "store_decodes cry de ms" "batch_decodes cry de wb"
  shows "rocks_write wb (rocks_of ms) = rocks_of (mem_write wb ms) \<and> store_decodes cry de (mem_write wb ms)"
proof -
  let ?P = "store_decodes cry de"
  let ?m1 = "fold mem_write_block (wb_blocks wb) ms"
  let ?m2 = "fold mem_write_commit (wb_commits wb) ?m1"
  have 1: "fold rocks_write_block (wb_blocks wb) (rocks_of ms) = rocks_of ?m1 \<and> ?P ?m1"
    by (rule fold_refines) (use assms store_decodes_write_block in \<open>auto simp: batch_decodes_def\<close>)
  have 2: "fold rocks_write_commit (wb_commits wb) (rocks_of ?m1) = rocks_of ?m2 \<and> ?P ?m2"
    by (rule fold_refines) (use assms 1 store_decodes_write_commit in \<open>auto simp: batch_decodes_def\<close>)
  have 3: "fold rocks_write_commit_info (wb_commit_info wb) (rocks_of ?m2) =
      rocks_of (fold mem_write_commit_info (wb_commit_info wb) ?m2) \<and> ?P (fold mem_write_commit_info (wb_commit_info wb) ?m2)"
    by (rule fold_refines) (use 2 store_decodes_write_commit_info in auto)
  show ?thesis using 1 2 3 by (simp add: rocks_write_def mem_write_def)
qed

lemma map_of_serialized: "map_of (map (map_prod id f) m) k = map_option f (map_of m k)"
  by (induction m) auto

lemma stored_block:
  assumes "store_decodes cry de ms" "map_of (ms_blocks ms) (ref_key r) = Some b"
  shows "rocks_decode_block cry de r (vb_serialized b) = Inr (Inr b)"
proof -
  have dec: "block_decodes cry de b" using assms map_of_SomeD [OF assms(2)] by (auto simp: store_decodes_def)
  have "vb_reference b = r" using assms mem_block_ref [of ms r b] by (simp add: store_decodes_def mem_block_def)
  with dec decoded_block [OF dec] show ?thesis by (simp add: rocks_decode_block_def block_decodes_def)
qed

lemma rocks_read_blocks_refines:
  assumes "store_decodes cry de ms"
  shows "rocks_read_blocks cry de (rocks_of ms) refs = Inr (Inr (mem_read_blocks ms refs))"
proof -
  have "rocks_decode_blocks cry de (zip refs (map (\<lambda>r. map_option vb_serialized (map_of (ms_blocks ms) (ref_key r))) refs)) =
      Inr (Inr (map (\<lambda>r. map_of (ms_blocks ms) (ref_key r)) refs))"
    by (induction refs) (auto simp: try_then_def stored_block [OF assms] split: option.splits)
  then show ?thesis by (simp add: rocks_read_blocks_def rocks_of_def map_of_serialized mem_read_blocks_def)
qed

lemma rocks_read_found_refines:
  assumes "store_decodes cry de ms"
  shows "rocks_read_found cry de (rocks_of ms) refs =
    and_then (map_res (\<lambda>b. expect b (DagPanic BlockNotFound)) (mem_read_blocks ms refs)) (\<lambda>bs. Inr (Inr bs))"
  by (simp add: rocks_read_found_def rocks_read_blocks_refines [OF assms] try_then_def)

lemma filter_unit_keys: "filter (\<lambda>(k, _). P k) (map (\<lambda>k. (k, ())) ks) = map (\<lambda>k. (k, ())) (filter P ks)"
  by (induction ks) auto

lemma unit_refs: "map (\<lambda>((a, r, d), _). BlockRef r a d) (map (\<lambda>k. (k, ())) ks) = map (\<lambda>(a, r, d). BlockRef r a d) ks"
  by (induction ks) auto

lemma unit_votes: "map (\<lambda>((_, _, r), _). r) (map (\<lambda>k. (k, ())) ks) = map (\<lambda>(_, _, r). r) ks"
  by (induction ks) auto

lemma filter_serialized: "filter (\<lambda>(k, _). P k) (map (map_prod id f) m) = map (map_prod id f) (filter (\<lambda>(k, _). P k) m)"
  by (induction m) auto

lemma last_opt_map: "last_opt (map f xs) = map_option f (last_opt xs)"
  by (cases xs rule: rev_cases) simp_all

lemma rev_take_rev: "rev (take n (rev xs)) = drop (length xs - n) xs"
  by (simp add: take_rev)

lemma stored_commit:
  assumes "store_decodes cry de ms" "(k, c) \<in> set (ms_commits ms)"
  shows "rocks_decode_commit cry de (snd k) (tc_serialized c) = Inr (Inr c)"
proof -
  have dec: "commit_decodes cry de c" using assms by (auto simp: store_decodes_def)
  have "map_of (ms_commits ms) k = Some c" using assms bm_wf_mem [of "ms_commits ms" k c] by (simp add: store_decodes_def mem_inv_def)
  then have "snd k = tc_digest c" using assms(1) unfolding store_decodes_def mem_inv_def by (metis snd_conv)
  with dec decoded_commit [OF dec] show ?thesis by (simp add: rocks_decode_commit_def commit_decodes_def)
qed

lemma rocks_decode_commits_eq:
  assumes "store_decodes cry de ms" "set kcs \<subseteq> set (ms_commits ms)"
  shows "rocks_decode_commits cry de (map (map_prod id tc_serialized) kcs) = Inr (Inr (map snd kcs))"
  using assms(2)
proof (induction kcs)
  case (Cons kc kcs)
  obtain i d c where "kc = ((i, d), c)" by (metis surj_pair)
  with Cons stored_commit [OF assms(1), of "(i, d)" c] show ?case by (simp add: try_then_def)
qed simp

section \<open>Properties\<close>

text \<open>C30: the persistent store refines the in-memory store. A write keeps that it holds what the in-memory store holds, if
  what is written was made from its serialized form; then every read of blocks, of commits, of votes and of the
  last commit gives what the in-memory store gives, and no error of decoding.\<close>

theorem rocksdb_refines_mem_store:
  assumes "store_decodes cry de ms" "batch_decodes cry de wb" "rk = rocks_of ms" "range_start rng \<le> range_end rng"
  shows "rocks_write wb rk = rocks_of (mem_write wb ms) \<and> store_decodes cry de (mem_write wb ms) \<and>
    rocks_read_blocks cry de rk refs = Inr (Inr (mem_read_blocks ms refs)) \<and>
    rocks_contains_blocks rk refs = mem_contains_blocks ms refs \<and>
    rocks_contains_block_at_slot rk s = mem_contains_block_at_slot ms s \<and>
    rocks_scan_blocks_by_author cry de rk a start = and_then (mem_scan_blocks_by_author ms a start) (\<lambda>bs. Inr (Inr bs)) \<and>
    rocks_scan_last_blocks_by_author cry de rk a n before =
      and_then (mem_scan_last_blocks_by_author ms a n before) (\<lambda>bs. Inr (Inr bs)) \<and>
    rocks_read_last_commit cry de rk = Inr (Inr (mem_read_last_commit ms)) \<and>
    rocks_scan_commits cry de rk rng = and_then (mem_scan_commits ms rng) (\<lambda>cs. Inr (Inr cs)) \<and>
    rocks_read_commit_votes rk index = mem_read_commit_votes ms index \<and>
    rocks_read_last_commit_info rk = mem_read_last_commit_info ms"
proof (intro conjI)
  note d = assms(1)
  show "rocks_write wb rk = rocks_of (mem_write wb ms)" "store_decodes cry de (mem_write wb ms)"
    using rocks_write_refines [OF assms(1,2)] assms(3) by simp_all
  show "rocks_read_blocks cry de rk refs = Inr (Inr (mem_read_blocks ms refs))"
    unfolding assms(3) by (rule rocks_read_blocks_refines [OF d])
  have fst_serialized: "fst ` set (map (map_prod id f) m) = fst ` set m" for f :: "verified_block \<Rightarrow> byte list" and m
    by force
  show "rocks_contains_blocks rk refs = mem_contains_blocks ms refs"
    unfolding rocks_contains_blocks_def mem_contains_blocks_def assms(3) rocks_of_def
    by (simp only: rocks_store.simps fst_serialized)
  show "rocks_contains_block_at_slot rk s = mem_contains_block_at_slot ms s"
    by (simp add: rocks_contains_block_at_slot_def mem_contains_block_at_slot_def assms(3) rocks_of_def filter_unit_keys)
  show "rocks_scan_blocks_by_author cry de rk a start = and_then (mem_scan_blocks_by_author ms a start) (\<lambda>bs. Inr (Inr bs))"
    unfolding rocks_scan_blocks_by_author_def mem_scan_blocks_by_author_def assms(3) rocks_read_found_refines [OF d]
    by (simp add: rocks_of_def filter_unit_keys unit_refs del: map_map)
  show "rocks_scan_last_blocks_by_author cry de rk a n before =
      and_then (mem_scan_last_blocks_by_author ms a n before) (\<lambda>bs. Inr (Inr bs))"
    unfolding rocks_scan_last_blocks_by_author_def mem_scan_last_blocks_by_author_def assms(3)
      rocks_read_found_refines [OF d] Let_def rev_take_rev
    by (simp add: rocks_of_def filter_unit_keys unit_refs drop_map del: map_map)
  show "rocks_read_last_commit cry de rk = Inr (Inr (mem_read_last_commit ms))"
  proof (cases "last_opt (ms_commits ms)")
    case (Some kc)
    moreover obtain i e c where kc: "kc = ((i, e), c)" by (metis surj_pair)
    moreover have "((i, e), c) \<in> set (ms_commits ms)" using Some kc by (auto simp: last_opt_Some)
    ultimately show ?thesis using stored_commit [OF d, of "(i, e)" c]
      by (simp add: rocks_read_last_commit_def mem_read_last_commit_def assms(3) rocks_of_def last_opt_map try_then_def)
  qed (simp add: rocks_read_last_commit_def mem_read_last_commit_def assms(3) rocks_of_def last_opt_map)
  show "rocks_scan_commits cry de rk rng = and_then (mem_scan_commits ms rng) (\<lambda>cs. Inr (Inr cs))"
    using rocks_decode_commits_eq [OF d, of "filter (\<lambda>(k, _). (range_start rng, digest_min) \<le> k \<and> k < (range_end rng, digest_min)) (ms_commits ms)"]
      assms(4) by (simp add: rocks_scan_commits_def mem_scan_commits_def assms(3) rocks_of_def filter_serialized)
  show "rocks_read_commit_votes rk index = mem_read_commit_votes ms index"
    by (simp add: rocks_read_commit_votes_def mem_read_commit_votes_def assms(3) rocks_of_def filter_unit_keys unit_votes del: map_map)
  show "rocks_read_last_commit_info rk = mem_read_last_commit_info ms"
    by (simp add: rocks_read_last_commit_info_def mem_read_last_commit_info_def assms(3) rocks_of_def)
qed

definition ex_stored_block :: verified_block where
  "ex_stored_block =
     (let sb = SignedBlock_new_genesis (V1 (genesis_block 0 0))
      in VerifiedBlock_new_verified ex_crypto sb (ex_block_bytes (sb_inner sb)))"

definition ex_decoder :: decoder where
  "ex_decoder = \<lparr> de_signed_block = \<lambda>_. Some (vb_signed ex_stored_block), de_commit = \<lambda>_. None \<rparr>"

definition ex_batch :: write_batch where
  "ex_batch = WriteBatch_new [ex_stored_block] [] []"

theorem rocksdb_refines_mem_store_witness:
  "rocks_read_blocks ex_crypto ex_decoder (rocks_write ex_batch RocksDBStore_new) [vb_reference ex_stored_block] =
     Inr (Inr [Some ex_stored_block])"
proof -
  have new: "RocksDBStore_new = rocks_of MemStore_new" by (simp add: RocksDBStore_new_def rocks_of_def MemStore_new_def)
  have batch: "batch_decodes ex_crypto ex_decoder ex_batch"
    by (simp add: batch_decodes_def ex_batch_def WriteBatch_new_def block_decodes_def ex_decoder_def ex_stored_block_def
        VerifiedBlock_new_verified_def Let_def)
  have empty: "store_decodes ex_crypto ex_decoder MemStore_new"
    using mem_inv_new by (simp add: store_decodes_def MemStore_new_def)
  have range: "range_start (CommitRange 0 0) \<le> range_end (CommitRange 0 0)" by simp
  have written: "rocks_write ex_batch RocksDBStore_new = rocks_of (mem_write ex_batch MemStore_new)"
    "store_decodes ex_crypto ex_decoder (mem_write ex_batch MemStore_new)"
    using rocksdb_refines_mem_store [OF empty batch new range] by simp_all
  have "mem_read_blocks (mem_write ex_batch MemStore_new) [vb_reference ex_stored_block] = [Some ex_stored_block]"
    using mem.write_read [of ex_stored_block ex_batch MemStore_new] by (simp add: mem.read ex_batch_def WriteBatch_new_def)
  with rocksdb_refines_mem_store [OF written(2) batch written(1) range] show ?thesis by simp
qed

end
