(* ===== verification/Synchronizer.thy ===== *)
theory Synchronizer
  imports Block_Verifier Decoding
begin

text \<open>
  Fetching of missing blocks from peers (\<^verbatim>\<open>consensus/core/src/synchronizer.rs\<close>). The state holds the map of
  locks on blocks and every guard of such a lock: in the channels to the tasks of the peers, in their requests, and in the
  requests and results of the periodic task. Each branch of the asynchronous loops is a function from state to state; the
  network's reply to a request is an argument. \<open>dispatch\<close> is the handle to the core thread: it
  returns the missing ancestors, or \<open>None\<close> when the core has shut down.
\<close>

section \<open>Locks on blocks\<close>

definition fetch_blocks_concurrency :: nat where "fetch_blocks_concurrency = 5"

definition max_authorities_to_fetch_per_block :: nat where "max_authorities_to_fetch_per_block = 2"

definition max_retries :: nat where "max_retries = 5"

definition max_additional_blocks :: nat where "max_additional_blocks = 10"

definition max_peers :: nat where "max_peers = 3"

record blocks_guard =
  bg_block_refs :: "block_ref list"
  bg_peer :: authority_index

type_synonym inflight_blocks_map = "block_ref \<rightharpoonup> authority_index list"

definition lock_block ::
  "authority_index \<Rightarrow> block_ref \<Rightarrow> inflight_blocks_map \<times> block_ref list
     \<Rightarrow> (inflight_blocks_map \<times> block_ref list) res" where
  "lock_block peer r mb =
     (let (m, blocks) = mb;
          authorities = (case m r of None \<Rightarrow> [] | Some authorities \<Rightarrow> authorities) in
      if length authorities < max_authorities_to_fetch_per_block \<and> peer \<notin> set authorities
      then and_then (assert_that (peer \<notin> set authorities) (SyncPanic PeerAlreadyInflight)) (\<lambda>_.
             Inr (m(r \<mapsto> bs_insert peer authorities), bs_insert r blocks))
      else Inr (m(r \<mapsto> authorities), blocks))"

definition lock_blocks ::
  "block_ref list \<Rightarrow> authority_index \<Rightarrow> inflight_blocks_map \<Rightarrow> (blocks_guard option \<times> inflight_blocks_map) res" where
  "lock_blocks missing_block_refs peer m =
     and_then (for_each (lock_block peer) missing_block_refs (m, [])) (\<lambda>(m', blocks).
       Inr (if blocks = [] then None else Some \<lparr> bg_block_refs = blocks, bg_peer = peer \<rparr>, m'))"

definition unlock_block :: "authority_index \<Rightarrow> block_ref \<Rightarrow> inflight_blocks_map \<Rightarrow> inflight_blocks_map res" where
  "unlock_block peer r m =
     and_then (expect (m r) (SyncPanic NoInflightEntry)) (\<lambda>authorities.
     and_then (assert_that (peer \<in> set authorities) (SyncPanic PeerNotInflight)) (\<lambda>_.
     let authorities = bs_remove peer authorities in
       Inr (if authorities = [] then m(r := None) else m(r \<mapsto> authorities))))"

definition unlock_blocks :: "block_ref list \<Rightarrow> authority_index \<Rightarrow> inflight_blocks_map \<Rightarrow> inflight_blocks_map res" where
  "unlock_blocks block_refs peer = for_each (unlock_block peer) block_refs"

definition drop_guard :: "blocks_guard \<Rightarrow> inflight_blocks_map \<Rightarrow> inflight_blocks_map res" where
  "drop_guard g = unlock_blocks (bg_block_refs g) (bg_peer g)"

definition swap_locks ::
  "blocks_guard \<Rightarrow> authority_index \<Rightarrow> inflight_blocks_map \<Rightarrow> (blocks_guard option \<times> inflight_blocks_map) res" where
  "swap_locks g peer m = and_then (drop_guard g m) (lock_blocks (bg_block_refs g) peer)"

section \<open>Fetched blocks\<close>

fun sync_verify_blocks ::
  "crypto \<Rightarrow> decoder \<Rightarrow> signed_block_verifier \<Rightarrow> timestamp_ms \<Rightarrow> byte list list \<Rightarrow> verified_block list consensus_result" where
  "sync_verify_blocks cry de sv now [] = Inr []"
| "sync_verify_blocks cry de sv now (serialized # rest) =
     and_then (ok_or (de_signed_block de serialized) MalformedBlock) (\<lambda>signed_block.
     and_then (verify cry sv signed_block) (\<lambda>_.
     let b = VerifiedBlock_new_verified cry signed_block serialized in
     and_then (sync_verify_blocks cry de sv now rest) (\<lambda>bs.
       Inr (if now < vb_timestamp_ms b then bs else b # bs))))"

text \<open>The checks of \<open>process_fetched_blocks\<close> on what a peer returned for requested blocks.\<close>

definition check_fetched_blocks ::
  "crypto \<Rightarrow> decoder \<Rightarrow> signed_block_verifier \<Rightarrow> timestamp_ms \<Rightarrow> blocks_guard \<Rightarrow> byte list list
     \<Rightarrow> verified_block list consensus_result" where
  "check_fetched_blocks cry de sv now g serialized_blocks =
     (if length serialized_blocks > length (bg_block_refs g) + max_additional_blocks
      then Inl (TooManyFetchedBlocksReturned (bg_peer g))
      else and_then (sync_verify_blocks cry de sv now serialized_blocks) (\<lambda>blocks.
        let requested = set (bg_block_refs g);
            ancestors = bs_extend (concat (map vb_ancestors (filter (\<lambda>b. vb_reference b \<in> requested) blocks))) [] in
        case List.find (\<lambda>b. vb_reference b \<notin> requested \<and> vb_reference b \<notin> set ancestors) blocks of
          Some b \<Rightarrow> Inl (UnexpectedFetchedBlock (bg_peer g) (vb_reference b))
        | None \<Rightarrow> Inr blocks))"

text \<open>
  The result, the state of the core, and whether the scheduler is to be started. The guard is dropped when the
  function returns.
\<close>

definition process_fetched_blocks ::
  "crypto \<Rightarrow> decoder \<Rightarrow> signed_block_verifier \<Rightarrow> (verified_block list \<Rightarrow> 'c \<Rightarrow> block_ref list option \<times> 'c) \<Rightarrow> timestamp_ms
     \<Rightarrow> blocks_guard \<Rightarrow> byte list list \<Rightarrow> 'c \<Rightarrow> unit consensus_result \<times> 'c \<times> bool" where
  "process_fetched_blocks cry de sv dispatch now g serialized_blocks core =
     (case check_fetched_blocks cry de sv now g serialized_blocks of
        Inl e \<Rightarrow> (Inl e, core, False)
      | Inr blocks \<Rightarrow>
          (case dispatch blocks core of
             (None, core') \<Rightarrow> (Inl Shutdown, core', False)
           | (Some missing_blocks, core') \<Rightarrow> (Inr (), core', missing_blocks \<noteq> [])))"

definition get_highest_accepted_rounds :: "epoch_context \<Rightarrow> dag_state \<Rightarrow> round list res" where
  "get_highest_accepted_rounds cx ds =
     and_then (get_last_cached_block_per_authority ds u32_max) (\<lambda>blocks.
     and_then (assert_that (length blocks = committee_size (cx_committee cx)) (CorePanic AncestorsCommitteeMismatch)) (\<lambda>_.
       Inr (map vb_round blocks)))"

section \<open>The tasks of the synchronizer\<close>

record fetch_channel =
  fc_open :: bool
  fc_queue :: "blocks_guard list"

record sync_request =
  sq_guard :: blocks_guard
  sq_retries :: nat
  sq_highest_rounds :: "round list"

record sync_state =
  sy_inflight :: inflight_blocks_map
  sy_senders :: "(authority_index \<times> fetch_channel) list"
  sy_requests :: "sync_request list"
  sy_scheduled :: "sync_request list"
  sy_peers :: "authority_index list"
  sy_results :: "(blocks_guard \<times> byte list list \<times> authority_index) list"
  sy_kick_off :: bool

definition Synchronizer_start :: "epoch_context \<Rightarrow> sync_state" where
  "Synchronizer_start cx =
     \<lparr> sy_inflight = Map.empty,
       sy_senders = map (\<lambda>(index, _). (index, \<lparr> fc_open = True, fc_queue = [] \<rparr>))
         (filter (\<lambda>(index, _). index \<noteq> cx_own_index cx) (committee_authorities (cx_committee cx))),
       sy_requests = [], sy_scheduled = [], sy_peers = [], sy_results = [], sy_kick_off = False \<rparr>"

text \<open>
  The command \<open>FetchBlocks\<close>, with the reply to its sender. A guard that cannot be sent is dropped with the error.
\<close>

definition handle_fetch_command ::
  "epoch_context \<Rightarrow> block_ref list \<Rightarrow> authority_index \<Rightarrow> sync_state \<Rightarrow> (unit consensus_result option \<times> sync_state) res" where
  "handle_fetch_command cx missing_block_refs peer st =
     (if peer = cx_own_index cx then Inr (None, st)
      else and_then (lock_blocks (take (pa_max_blocks_per_fetch (cx_parameters cx)) missing_block_refs) peer (sy_inflight st))
        (\<lambda>(guard, m).
        let st = st\<lparr> sy_inflight := m \<rparr> in
        case guard of
          None \<Rightarrow> Inr (Some (Inr ()), st)
        | Some g \<Rightarrow>
            and_then (expect (map_of (sy_senders st) peer) (SyncPanic NoFetchSender)) (\<lambda>ch.
              if \<not> fc_open ch then and_then (drop_guard g m) (\<lambda>m. Inr (Some (Inl Shutdown), st\<lparr> sy_inflight := m \<rparr>))
              else if length (fc_queue ch) \<ge> fetch_blocks_concurrency
              then and_then (drop_guard g m) (\<lambda>m. Inr (Some (Inl (SynchronizerSaturated peer)), st\<lparr> sy_inflight := m \<rparr>))
              else Inr (Some (Inr ()),
                     st\<lparr> sy_senders := bm_insert peer (ch\<lparr> fc_queue := fc_queue ch @ [g] \<rparr>) (sy_senders st) \<rparr>))))"

text \<open>The task of a peer takes a guard from its channel and sends a request.\<close>

definition peer_requests :: "authority_index \<Rightarrow> sync_request list \<Rightarrow> sync_request list" where
  "peer_requests peer requests = filter (\<lambda>q. bg_peer (sq_guard q) = peer) requests"

definition receive_guard ::
  "epoch_context \<Rightarrow> dag_state \<Rightarrow> authority_index \<Rightarrow> sync_state \<Rightarrow> sync_state res" where
  "receive_guard cx ds peer st =
     (case map_of (sy_senders st) peer of
        None \<Rightarrow> Inr st
      | Some ch \<Rightarrow>
          (case fc_queue ch of
             [] \<Rightarrow> Inr st
           | g # queue \<Rightarrow>
               if length (peer_requests peer (sy_requests st)) \<ge> fetch_blocks_concurrency then Inr st
               else and_then (get_highest_accepted_rounds cx ds) (\<lambda>highest_rounds.
                 Inr (st\<lparr> sy_senders := bm_insert peer (ch\<lparr> fc_queue := queue \<rparr>) (sy_senders st),
                          sy_requests := sy_requests st @
                            [\<lparr> sq_guard = g, sq_retries = 1, sq_highest_rounds = highest_rounds \<rparr>] \<rparr>))))"

text \<open>What the network gives for a request: an answer of the client, or the timeout around it.\<close>

datatype network_reply = Answered "byte list list consensus_result" | TimedOut

definition fetch_blocks_request :: "network_reply \<Rightarrow> nat \<Rightarrow> byte list list consensus_result \<times> nat" where
  "fetch_blocks_request reply retries =
     (case reply of
        Answered (Inl e) \<Rightarrow> (Inl e, u32_add retries 1)
      | TimedOut \<Rightarrow> (Inl NetworkRequestTimeout, retries)
      | Answered (Inr blocks) \<Rightarrow> (Inr blocks, retries))"

definition handle_response ::
  "crypto \<Rightarrow> decoder \<Rightarrow> signed_block_verifier \<Rightarrow> (verified_block list \<Rightarrow> 'c \<Rightarrow> block_ref list option \<times> 'c) \<Rightarrow> timestamp_ms
     \<Rightarrow> nat \<Rightarrow> network_reply \<Rightarrow> sync_state \<Rightarrow> 'c \<Rightarrow> (sync_state \<times> 'c) res" where
  "handle_response cry de sv dispatch now i reply st core =
     (if i \<ge> length (sy_requests st) then Inr (st, core)
      else
        let q = sy_requests st ! i;
            g = sq_guard q;
            rest = take i (sy_requests st) @ drop (Suc i) (sy_requests st);
            (response, retries) = fetch_blocks_request reply (sq_retries q) in
        case response of
          Inr blocks \<Rightarrow>
            (case process_fetched_blocks cry de sv dispatch now g blocks core of
               (_, core', kick) \<Rightarrow>
                 and_then (drop_guard g (sy_inflight st)) (\<lambda>m.
                   Inr (st\<lparr> sy_inflight := m, sy_requests := rest, sy_kick_off := sy_kick_off st \<or> kick \<rparr>, core')))
        | Inl _ \<Rightarrow>
            if retries \<le> max_retries then Inr (st\<lparr> sy_requests := rest @ [q\<lparr> sq_retries := retries \<rparr>] \<rparr>, core)
            else and_then (drop_guard g (sy_inflight st)) (\<lambda>m.
                   Inr (st\<lparr> sy_inflight := m, sy_requests := rest \<rparr>, core)))"

text \<open>The first requests of the periodic task: a batch of blocks for each of a few peers.\<close>

fun initial_requests ::
  "round list \<Rightarrow> block_ref list list \<Rightarrow> sync_state \<Rightarrow> sync_state res" where
  "initial_requests highest_rounds [] st = Inr st"
| "initial_requests highest_rounds (blocks # batches) st =
     (case sy_peers st of
        [] \<Rightarrow> Inl (SyncPanic NoPeerLeft)
      | peer # peers \<Rightarrow>
          and_then (lock_blocks (bs_extend blocks []) peer (sy_inflight st)) (\<lambda>(guard, m).
            let st = st\<lparr> sy_inflight := m, sy_peers := peers \<rparr> in
            initial_requests highest_rounds batches
              (case guard of
                 None \<Rightarrow> st
               | Some g \<Rightarrow> st\<lparr> sy_scheduled := sy_scheduled st @
                   [\<lparr> sq_guard = g, sq_retries = 1, sq_highest_rounds = highest_rounds \<rparr>] \<rparr>)))"

text \<open>\<open>chunks\<close> of a slice.\<close>

fun chunks_of :: "nat \<Rightarrow> 'a list \<Rightarrow> 'a list list" where
  "chunks_of n [] = []"
| "chunks_of n (x # xs) = (x # take (n - 1) xs) # chunks_of n (drop (n - 1) xs)"

text \<open>
  The start of the periodic task, for the missing blocks of the core, with the peers in shuffled order
  (\<open>order\<close> gives the positions). It runs only when the previous run has ended.
\<close>

definition start_fetch_missing_blocks_task ::
  "epoch_context \<Rightarrow> dag_state \<Rightarrow> nat list \<Rightarrow> block_ref list \<Rightarrow> sync_state \<Rightarrow> sync_state res" where
  "start_fetch_missing_blocks_task cx ds order missing_blocks st =
     (if sy_scheduled st \<noteq> [] \<or> sy_results st \<noteq> [] \<or> missing_blocks = [] then Inr st
      else
        let n = pa_max_blocks_per_fetch (cx_parameters cx);
            blocks = take (max_peers * n) missing_blocks;
            peers = filter (\<lambda>a. a \<noteq> cx_own_index cx) (map fst (committee_authorities (cx_committee cx))) in
        and_then (get_highest_accepted_rounds cx ds) (\<lambda>highest_rounds.
        and_then (assert_that (n \<noteq> 0) (SyncPanic ZeroBatchSize)) (\<lambda>_.
          initial_requests highest_rounds (chunks_of n blocks)
            (st\<lparr> sy_peers := map (nth peers) order, sy_kick_off := False \<rparr>))))"

definition handle_scheduled_response :: "nat \<Rightarrow> network_reply \<Rightarrow> sync_state \<Rightarrow> sync_state res" where
  "handle_scheduled_response i reply st =
     (if i \<ge> length (sy_scheduled st) then Inr st
      else
        let q = sy_scheduled st ! i;
            g = sq_guard q;
            rest = take i (sy_scheduled st) @ drop (Suc i) (sy_scheduled st);
            (response, _) = fetch_blocks_request reply (sq_retries q) in
        case response of
          Inr blocks \<Rightarrow> Inr (st\<lparr> sy_scheduled := rest, sy_results := sy_results st @ [(g, blocks, bg_peer g)] \<rparr>)
        | Inl _ \<Rightarrow>
            (case sy_peers st of
               [] \<Rightarrow> and_then (drop_guard g (sy_inflight st)) (\<lambda>m. Inr (st\<lparr> sy_inflight := m, sy_scheduled := rest \<rparr>))
             | next_peer # peers \<Rightarrow>
                 and_then (swap_locks g next_peer (sy_inflight st)) (\<lambda>(guard, m).
                   let st = st\<lparr> sy_inflight := m, sy_peers := peers, sy_scheduled := rest \<rparr> in
                   Inr (case guard of
                          None \<Rightarrow> st
                        | Some g' \<Rightarrow> st\<lparr> sy_scheduled := rest @
                            [\<lparr> sq_guard = g', sq_retries = 1, sq_highest_rounds = sq_highest_rounds q \<rparr>] \<rparr>))))"

text \<open>At the timeout the requests that are still open are dropped, with their guards.\<close>

definition scheduler_timeout :: "sync_state \<Rightarrow> sync_state res" where
  "scheduler_timeout st =
     and_then (for_each (\<lambda>q. drop_guard (sq_guard q)) (sy_scheduled st) (sy_inflight st)) (\<lambda>m.
       Inr (st\<lparr> sy_inflight := m, sy_scheduled := [] \<rparr>))"

definition process_result ::
  "crypto \<Rightarrow> decoder \<Rightarrow> signed_block_verifier \<Rightarrow> (verified_block list \<Rightarrow> 'c \<Rightarrow> block_ref list option \<times> 'c) \<Rightarrow> timestamp_ms
     \<Rightarrow> sync_state \<Rightarrow> 'c \<Rightarrow> (sync_state \<times> 'c) res" where
  "process_result cry de sv dispatch now st core =
     (case sy_results st of
        [] \<Rightarrow> Inr (st, core)
      | (g, blocks, peer) # results \<Rightarrow>
          (case process_fetched_blocks cry de sv dispatch now g blocks core of
             (_, core', kick) \<Rightarrow>
               and_then (drop_guard g (sy_inflight st)) (\<lambda>m.
                 Inr (st\<lparr> sy_inflight := m, sy_results := results, sy_kick_off := sy_kick_off st \<or> kick \<rparr>, core'))))"

end
