(* ===== verification/Synchronizer_Properties.thy ===== *)
theory Synchronizer_Properties
  imports Synchronizer
begin

text \<open>
  Properties of the synchronizer: the map of locks always holds exactly the locks of the guards that are alive, so that
  unlocking never panics and no block is fetched from more than two peers at a time, over every
  interleaving of its tasks; and only verified blocks that were asked for, or their ancestors, reach the core.
\<close>

section \<open>The locks of the guards\<close>

definition locked :: "inflight_blocks_map \<Rightarrow> (block_ref \<times> authority_index) set" where
  "locked m = {(r, p). \<exists>as. m r = Some as \<and> p \<in> set as}"

definition entry_ok :: "authority_index list \<Rightarrow> bool" where
  "entry_ok as \<longleftrightarrow> as \<noteq> [] \<and> bs_wf as \<and> length as \<le> max_authorities_to_fetch_per_block"

definition inflight_wf :: "inflight_blocks_map \<Rightarrow> bool" where
  "inflight_wf m \<longleftrightarrow> finite (dom m) \<and> (\<forall>as \<in> ran m. entry_ok as)"

definition guard_locks :: "blocks_guard \<Rightarrow> (block_ref \<times> authority_index) multiset" where
  "guard_locks g = mset (map (\<lambda>r. (r, bg_peer g)) (bg_block_refs g))"

text \<open>The map holds each lock of each guard, once.\<close>

definition locks_of :: "inflight_blocks_map \<Rightarrow> blocks_guard multiset \<Rightarrow> bool" where
  "locks_of m gs \<longleftrightarrow> inflight_wf m \<and> (\<Sum>g \<in># gs. guard_locks g) = mset_set (locked m)"

lemma inflight_wfD:
  assumes "inflight_wf m" "m r = Some as"
  shows "as \<noteq> []" "bs_wf as" "length as \<le> max_authorities_to_fetch_per_block"
  using assms by (auto simp: inflight_wf_def entry_ok_def dest: ranI)

lemma finite_locked: "inflight_wf m \<Longrightarrow> finite (locked m)"
proof -
  assume wf: "inflight_wf m"
  have "locked m \<subseteq> (\<Union>r \<in> dom m. Pair r ` set (the (m r)))" by (auto simp: locked_def)
  moreover have "finite (\<Union>r \<in> dom m. Pair r ` set (the (m r)))" using wf by (simp add: inflight_wf_def)
  ultimately show ?thesis by (rule finite_subset)
qed

lemma inflight_wf_upd: "inflight_wf m \<Longrightarrow> entry_ok as \<Longrightarrow> inflight_wf (m(r \<mapsto> as))"
  by (auto simp: inflight_wf_def ran_def)

lemma length_bs_insert: "length (bs_insert x xs) = (if x \<in> set xs then length xs else Suc (length xs))"
  by (simp add: bs_insert_def)

lemma lock_block_spec:
  assumes "inflight_wf m"
  obtains m' where "lock_block p r (m, bs) = Inr (m', bs)" "m' = m"
  | m' where "lock_block p r (m, bs) = Inr (m', bs_insert r bs)" "inflight_wf m'" "locked m' = insert (r, p) (locked m)"
      "(r, p) \<notin> locked m"
proof -
  let ?as = "case m r of None \<Rightarrow> [] | Some as \<Rightarrow> as"
  show thesis
  proof (cases "length ?as < max_authorities_to_fetch_per_block \<and> p \<notin> set ?as")
    case True
    have wf: "bs_wf ?as" using inflight_wfD(2) [OF assms] by (cases "m r") auto
    have "inflight_wf (m(r \<mapsto> bs_insert p ?as))"
      using True wf by (intro inflight_wf_upd [OF assms]) (simp add: entry_ok_def length_bs_insert)
    moreover have "locked (m(r \<mapsto> bs_insert p ?as)) = insert (r, p) (locked m)"
      by (auto simp: locked_def split: option.splits if_splits)
    moreover have "(r, p) \<notin> locked m" using True by (auto simp: locked_def)
    ultimately show thesis using that(2) True by (simp add: lock_block_def)
  next
    case False
    then obtain as where as: "m r = Some as" by (cases "m r") (auto simp: max_authorities_to_fetch_per_block_def)
    with False have "lock_block p r (m, bs) = Inr (m, bs)" by (simp add: lock_block_def fun_upd_triv Let_def) (metis fun_upd_triv)
    then show thesis using that(1) by blast
  qed
qed

text \<open>The locks a peer gets for some blocks.\<close>

definition locks_added :: "inflight_blocks_map \<Rightarrow> authority_index \<Rightarrow> block_ref list \<Rightarrow> inflight_blocks_map \<Rightarrow> bool" where
  "locks_added m p new m' \<longleftrightarrow>
     inflight_wf m' \<and> locked m' = locked m \<union> (\<lambda>r. (r, p)) ` set new \<and> locked m \<inter> (\<lambda>r. (r, p)) ` set new = {}"

lemma lock_blocks_loop:
  assumes "inflight_wf m"
  shows "\<exists>m' new. for_each (lock_block p) refs (m, bs) = Inr (m', bs_extend new bs) \<and> set new \<subseteq> set refs \<and> locks_added m p new m'"
  using assms
proof (induction refs arbitrary: m bs)
  case Nil
  then show ?case by (intro exI [of _ m] exI [of _ "[]"]) (simp add: bs_extend_def locks_added_def)
next
  case (Cons r refs)
  show ?case
  proof (rule lock_block_spec [OF Cons.prems, of p r bs])
    fix m' assume "lock_block p r (m, bs) = Inr (m', bs)" "m' = m"
    with Cons.IH [OF Cons.prems, of bs] show ?thesis by fastforce
  next
    fix m' assume l: "lock_block p r (m, bs) = Inr (m', bs_insert r bs)" "inflight_wf m'" "locked m' = insert (r, p) (locked m)"
      "(r, p) \<notin> locked m"
    from Cons.IH [OF l(2), of "bs_insert r bs"] obtain m'' new where
      n: "for_each (lock_block p) refs (m', bs_insert r bs) = Inr (m'', bs_extend new (bs_insert r bs))"
      "set new \<subseteq> set refs" "locks_added m' p new m''" by blast
    have "bs_extend new (bs_insert r bs) = bs_extend (r # new) bs" by (simp add: bs_extend_def)
    moreover have "locks_added m p (r # new) m''" using n(3) l(3,4) by (auto simp: locks_added_def)
    ultimately show ?thesis using l(1) n(1,2) by (intro exI [of _ m''] exI [of _ "r # new"]) auto
  qed
qed

lemma guard_locks_set:
  "distinct (bg_block_refs g) \<Longrightarrow> guard_locks g = mset_set ((\<lambda>r. (r, bg_peer g)) ` set (bg_block_refs g))"
  by (simp add: guard_locks_def mset_set_set [symmetric] distinct_map inj_on_def del: mset_map)

lemma lock_blocks_locks:
  assumes "locks_of m gs"
  obtains m' where "lock_blocks refs p m = Inr (None, m')" "locks_of m' gs"
  | g m' where "lock_blocks refs p m = Inr (Some g, m')" "locks_of m' (add_mset g gs)" "bg_peer g = p"
      "set (bg_block_refs g) \<subseteq> set refs"
proof -
  have wf: "inflight_wf m" using assms by (simp add: locks_of_def)
  from lock_blocks_loop [OF wf, of p refs "[]"] obtain m' new where
    l: "for_each (lock_block p) refs (m, []) = Inr (m', bs_extend new [])" "set new \<subseteq> set refs" "locks_added m p new m'"
    by blast
  show thesis
  proof (cases "bs_extend new [] = []")
    case True
    have "set (bs_extend new []) = set new \<union> set []" by (rule set_bs_extend)
    with True have "new = []" by simp
    with l assms that(1) [of m'] True show thesis by (simp add: lock_blocks_def locks_of_def locks_added_def)
  next
    case False
    let ?g = "\<lparr> bg_block_refs = bs_extend new [], bg_peer = p \<rparr>"
    have "bs_wf (bs_extend new [])" by simp
    then have "guard_locks ?g = mset_set ((\<lambda>r. (r, p)) ` set new)"
      using guard_locks_set [of ?g] by (simp add: bs_wf_def)
    moreover have "mset_set (locked m') = mset_set (locked m) + mset_set ((\<lambda>r. (r, p)) ` set new)"
      using l(3) finite_locked [OF wf] by (simp add: locks_added_def mset_set_Union)
    ultimately have "locks_of m' (add_mset ?g gs)" using assms l(3) by (simp add: locks_of_def locks_added_def)
    with False l(1,2) that(2) [of ?g m'] show thesis by (simp add: lock_blocks_def)
  qed
qed

lemma unlock_block_spec:
  assumes "inflight_wf m" "(r, p) \<in> locked m"
  obtains m' where "unlock_block p r m = Inr m'" "inflight_wf m'" "locked m' = locked m - {(r, p)}"
proof -
  obtain as where as: "m r = Some as" "p \<in> set as" using assms(2) by (auto simp: locked_def)
  note wf = inflight_wfD [OF assms(1) as(1)]
  show thesis
  proof (cases "bs_remove p as = []")
    case True
    then have only: "set as = {p}" using as(2) set_bs_remove [of p as] by auto
    have "inflight_wf (m(r := None))" using assms(1) by (auto simp: inflight_wf_def ran_def)
    moreover have "locked (m(r := None)) = locked m - {(r, p)}" using as(1) only by (auto simp: locked_def split: if_splits)
    ultimately show thesis using that as True by (simp add: unlock_block_def Let_def)
  next
    case False
    have "length (bs_remove p as) \<le> length as" by (simp add: bs_remove_def)
    then have "inflight_wf (m(r \<mapsto> bs_remove p as))" using False wf by (intro inflight_wf_upd [OF assms(1)]) (simp add: entry_ok_def)
    moreover have "locked (m(r \<mapsto> bs_remove p as)) = locked m - {(r, p)}"
      using as(1) by (auto simp: locked_def split: if_splits)
    ultimately show thesis using that as False by (simp add: unlock_block_def Let_def)
  qed
qed

lemma unlock_blocks_spec:
  assumes "inflight_wf m" "distinct refs" "(\<lambda>r. (r, p)) ` set refs \<subseteq> locked m"
  shows "\<exists>m'. unlock_blocks refs p m = Inr m' \<and> inflight_wf m' \<and> locked m' = locked m - (\<lambda>r. (r, p)) ` set refs"
  using assms
proof (induction refs arbitrary: m)
  case (Cons r refs)
  have rp: "(r, p) \<in> locked m" using Cons.prems(3) by simp
  obtain m' where m': "unlock_block p r m = Inr m'" "inflight_wf m'" "locked m' = locked m - {(r, p)}"
    by (rule unlock_block_spec [OF Cons.prems(1) rp])
  have "(\<lambda>r. (r, p)) ` set refs \<subseteq> locked m'" using m'(3) Cons.prems(2,3) by auto
  from Cons.IH [OF m'(2) _ this] Cons.prems(2) m' show ?case by (auto simp: unlock_blocks_def)
qed (simp add: unlock_blocks_def)

lemma drop_guard_locks:
  assumes "locks_of m (add_mset g gs)"
  shows "\<exists>m'. drop_guard g m = Inr m' \<and> locks_of m' gs"
proof -
  have wf: "inflight_wf m" and eq: "guard_locks g + (\<Sum>g \<in># gs. guard_locks g) = mset_set (locked m)"
    using assms by (simp_all add: locks_of_def)
  let ?ps = "(\<lambda>r. (r, bg_peer g)) ` set (bg_block_refs g)"
  have sub: "guard_locks g \<subseteq># mset_set (locked m)" using eq by (metis mset_subset_eq_add_left)
  have dist: "distinct (bg_block_refs g)"
  proof -
    have "count (guard_locks g) x \<le> 1" for x
      using mset_subset_eq_count [OF sub, of x] by (metis count_mset_set(3) count_mset_set' le_trans le_zero_eq linear zero_neq_one order_refl)
    then have "distinct (map (\<lambda>r. (r, bg_peer g)) (bg_block_refs g))"
      unfolding guard_locks_def distinct_count_atmost_1 by (metis count_mset_0_iff le_antisym less_one linorder_not_less)
    then show ?thesis by (simp add: distinct_map)
  qed
  have ps: "?ps \<subseteq> locked m"
    using set_mset_mono [OF sub] finite_locked [OF wf] by (auto simp: guard_locks_def)
  from unlock_blocks_spec [OF wf dist ps] obtain m' where
    m': "unlock_blocks (bg_block_refs g) (bg_peer g) m = Inr m'" "inflight_wf m'" "locked m' = locked m - ?ps" by blast
  have "mset_set (locked m') = mset_set (locked m) - guard_locks g"
    unfolding m'(3) guard_locks_set [OF dist] using ps finite_locked [OF wf] by (intro mset_set_Diff)
  also have "\<dots> = (\<Sum>g \<in># gs. guard_locks g)" using eq by (metis add_diff_cancel_left')
  finally show ?thesis using m'(1,2) by (simp add: drop_guard_def locks_of_def)
qed

section \<open>Every guard of the synchronizer\<close>

definition queued :: "(authority_index \<times> fetch_channel) list \<Rightarrow> blocks_guard multiset" where
  "queued senders = (\<Sum>(_, ch) \<leftarrow> senders. mset (fc_queue ch))"

definition guards_of :: "sync_state \<Rightarrow> blocks_guard multiset" where
  "guards_of st = queued (sy_senders st) + mset (map sq_guard (sy_requests st)) + mset (map sq_guard (sy_scheduled st)) +
     mset (map fst (sy_results st))"

definition sync_ok :: "epoch_context \<Rightarrow> sync_state \<Rightarrow> bool" where
  "sync_ok cx st \<longleftrightarrow>
     locks_of (sy_inflight st) (guards_of st) \<and> bm_wf (sy_senders st) \<and>
     fst ` set (sy_senders st) = members (cx_committee cx) - {cx_own_index cx}"

lemma queued_insert:
  "bm_wf senders \<Longrightarrow> map_of senders p = Some ch \<Longrightarrow>
     queued (bm_insert p ch' senders) + mset (fc_queue ch) = queued senders + mset (fc_queue ch')"
  by (induction p ch' senders rule: bm_insert.induct)
    (auto simp: queued_def bm_wf_Cons dest!: map_of_SomeD split: if_splits)

lemma sync_ok_locks: "sync_ok cx st \<Longrightarrow> locks_of (sy_inflight st) (guards_of st)"
  by (simp add: sync_ok_def)

text \<open>A change of state that keeps the senders' keys keeps the invariant, if the new map holds the new guards.\<close>

lemma sync_okI:
  assumes "sync_ok cx st" "locks_of (sy_inflight st') (guards_of st')"
    and "bm_wf (sy_senders st')" "fst ` set (sy_senders st') = fst ` set (sy_senders st)"
  shows "sync_ok cx st'"
  using assms by (simp add: sync_ok_def)

lemma map_fst_filter: "map fst (filter (\<lambda>(i, _). P i) xs) = filter P (map fst xs)"
  by (induction xs) auto

lemma sync_start_ok: "sync_ok cx (Synchronizer_start cx)"
proof -
  let ?as = "filter (\<lambda>(index, _). index \<noteq> cx_own_index cx) (committee_authorities (cx_committee cx))"
  have keys: "map fst (map (\<lambda>(index, _). (index, \<lparr> fc_open = True, fc_queue = [] \<rparr>)) ?as) =
      filter (\<lambda>i. i \<noteq> cx_own_index cx) [0..<committee_size (cx_committee cx)]"
    using map_fst_filter [of "\<lambda>i. i \<noteq> cx_own_index cx" "committee_authorities (cx_committee cx)"]
    by (simp add: committee_authorities_def committee_size_def comp_def split_beta)
  then have "bm_wf (sy_senders (Synchronizer_start cx))" by (simp add: bm_wf_def Synchronizer_start_def sorted_wrt_filter)
  moreover have "fst ` set (sy_senders (Synchronizer_start cx)) = members (cx_committee cx) - {cx_own_index cx}"
    using arg_cong [OF keys, of set] by (auto simp: Synchronizer_start_def members_eq simp del: map_map)
  moreover have "queued (sy_senders (Synchronizer_start cx)) = {#}"
    by (simp add: queued_def Synchronizer_start_def comp_def split_beta sum_list_0)
  then have "guards_of (Synchronizer_start cx) = {#}" by (simp add: guards_of_def Synchronizer_start_def)
  then have "locks_of (sy_inflight (Synchronizer_start cx)) (guards_of (Synchronizer_start cx))"
    by (simp add: locks_of_def inflight_wf_def locked_def Synchronizer_start_def)
  ultimately show ?thesis by (simp add: sync_ok_def)
qed

lemma handle_fetch_command_ok:
  assumes ok: "sync_ok cx st" and peer: "peer \<in> members (cx_committee cx)"
  shows "\<exists>reply st'. handle_fetch_command cx refs peer st = Inr (reply, st') \<and> sync_ok cx st'"
proof (cases "peer = cx_own_index cx")
  case True
  with ok show ?thesis by (simp add: handle_fetch_command_def)
next
  case False
  with ok peer have "peer \<in> fst ` set (sy_senders st)" by (simp add: sync_ok_def)
  then obtain ch where ch: "map_of (sy_senders st) peer = Some ch"
    by (metis domD dom_map_of_conv_image_fst)
  let ?refs = "take (pa_max_blocks_per_fetch (cx_parameters cx)) refs"
  have wf: "bm_wf (sy_senders st)" using ok by (simp add: sync_ok_def)
  show ?thesis
  proof (rule lock_blocks_locks [OF sync_ok_locks [OF ok], of ?refs peer])
    fix m' assume "lock_blocks ?refs peer (sy_inflight st) = Inr (None, m')" "locks_of m' (guards_of st)"
    with False ok wf show ?thesis
      by (auto simp: handle_fetch_command_def guards_of_def intro!: sync_okI [OF ok])
  next
    fix g m' assume l: "lock_blocks ?refs peer (sy_inflight st) = Inr (Some g, m')" "locks_of m' (add_mset g (guards_of st))"
    obtain m'' where d: "drop_guard g m' = Inr m''" "locks_of m'' (guards_of st)" using drop_guard_locks [OF l(2)] by blast
    have kept: "sync_ok cx (st\<lparr> sy_inflight := m'' \<rparr>)"
      using d(2) wf by (intro sync_okI [OF ok]) (simp_all add: guards_of_def)
    let ?senders = "bm_insert peer (ch\<lparr> fc_queue := fc_queue ch @ [g] \<rparr>) (sy_senders st)"
    have "queued ?senders = add_mset g (queued (sy_senders st))"
      using queued_insert [OF wf ch, of "ch\<lparr> fc_queue := fc_queue ch @ [g] \<rparr>"] by simp
    then have "guards_of (st\<lparr> sy_inflight := m', sy_senders := ?senders \<rparr>) = add_mset g (guards_of st)"
      by (simp add: guards_of_def)
    then have "sync_ok cx (st\<lparr> sy_inflight := m', sy_senders := ?senders \<rparr>)"
      using l(2) wf \<open>peer \<in> fst ` set (sy_senders st)\<close> by (intro sync_okI [OF ok]) (simp_all add: insert_absorb)
    with False l(1) ch d(1) kept show ?thesis by (auto simp: handle_fetch_command_def Let_def)
  qed
qed

lemma receive_guard_ok:
  assumes ok: "sync_ok cx st" and rounds: "get_highest_accepted_rounds cx ds = Inr rounds"
  shows "\<exists>st'. receive_guard cx ds peer st = Inr st' \<and> sync_ok cx st'"
proof (cases "\<exists>ch g queue. map_of (sy_senders st) peer = Some ch \<and> fc_queue ch = g # queue \<and>
    \<not> length (peer_requests peer (sy_requests st)) \<ge> fetch_blocks_concurrency")
  case True
  then obtain ch g queue where ch: "map_of (sy_senders st) peer = Some ch" "fc_queue ch = g # queue"
    "\<not> length (peer_requests peer (sy_requests st)) \<ge> fetch_blocks_concurrency" by blast
  have wf: "bm_wf (sy_senders st)" using ok by (simp add: sync_ok_def)
  let ?st = "st\<lparr> sy_senders := bm_insert peer (ch\<lparr> fc_queue := queue \<rparr>) (sy_senders st),
      sy_requests := sy_requests st @ [\<lparr> sq_guard = g, sq_retries = 1, sq_highest_rounds = rounds \<rparr>] \<rparr>"
  have "queued (sy_senders st) = add_mset g (queued (bm_insert peer (ch\<lparr> fc_queue := queue \<rparr>) (sy_senders st)))"
    using queued_insert [OF wf ch(1), of "ch\<lparr> fc_queue := queue \<rparr>"] ch(2) by simp
  then have "guards_of ?st = guards_of st" by (simp add: guards_of_def)
  moreover have "peer \<in> fst ` set (sy_senders st)" using map_of_SomeD [OF ch(1)] by force
  ultimately have "sync_ok cx ?st"
    using sync_ok_locks [OF ok] wf by (intro sync_okI [OF ok]) (simp_all add: insert_absorb)
  with ch rounds show ?thesis by (simp add: receive_guard_def)
next
  case False
  with ok show ?thesis by (auto simp: receive_guard_def split: option.splits list.splits)
qed

text \<open>Removing an element of a list by its position.\<close>

lemma mset_remove_nth: "i < length xs \<Longrightarrow> mset xs = add_mset (xs ! i) (mset (take i xs @ drop (Suc i) xs))"
  by (subst id_take_nth_drop [of i xs]) simp_all

lemma mset_map_remove_nth:
  "i < length xs \<Longrightarrow> mset (map f xs) = add_mset (f (xs ! i)) (mset (map f (take i xs @ drop (Suc i) xs)))"
  using mset_remove_nth [of i xs] by (simp only: mset_map image_mset_add_mset)

lemma handle_response_ok:
  assumes ok: "sync_ok cx st"
  shows "\<exists>st' core'. handle_response cry de sv dispatch now i reply st core = Inr (st', core') \<and> sync_ok cx st'"
proof (cases "i < length (sy_requests st)")
  case False
  with ok show ?thesis by (simp add: handle_response_def)
next
  case True
  let ?q = "sy_requests st ! i" and ?rest = "take i (sy_requests st) @ drop (Suc i) (sy_requests st)"
  have wf: "bm_wf (sy_senders st)" using ok by (simp add: sync_ok_def)
  have gs: "guards_of st = add_mset (sq_guard ?q) (guards_of (st\<lparr> sy_requests := ?rest \<rparr>))"
    using mset_map_remove_nth [OF True, of sq_guard] by (simp add: guards_of_def)
  from drop_guard_locks [OF sync_ok_locks [OF ok, unfolded gs]] obtain m where
    m: "drop_guard (sq_guard ?q) (sy_inflight st) = Inr m" "locks_of m (guards_of (st\<lparr> sy_requests := ?rest \<rparr>))" by blast
  have dropped: "sync_ok cx (st\<lparr> sy_inflight := m, sy_requests := ?rest, sy_kick_off := k \<rparr>)" for k
    using m(2) wf by (intro sync_okI [OF ok]) (simp_all add: guards_of_def)
  have again: "sync_ok cx (st\<lparr> sy_requests := ?rest @ [?q\<lparr> sq_retries := n \<rparr>] \<rparr>)" for n
    using sync_ok_locks [OF ok, unfolded gs] wf by (intro sync_okI [OF ok]) (simp_all add: guards_of_def)
  have "st\<lparr> sy_inflight := m, sy_requests := ?rest \<rparr> = st\<lparr> sy_inflight := m, sy_requests := ?rest, sy_kick_off := sy_kick_off st \<rparr>"
    by simp
  with dropped [of "sy_kick_off st"] have gone: "sync_ok cx (st\<lparr> sy_inflight := m, sy_requests := ?rest \<rparr>)" by metis
  show ?thesis using True m(1) dropped again gone
    by (auto simp: handle_response_def Let_def split: sum.splits prod.splits)
qed

lemma initial_requests_ok:
  assumes "sync_ok cx st" "length batches \<le> length (sy_peers st)"
  shows "\<exists>st'. initial_requests rounds batches st = Inr st' \<and> sync_ok cx st'"
  using assms
proof (induction batches arbitrary: st)
  case (Cons blocks batches)
  then obtain peer peers where peers: "sy_peers st = peer # peers" by (cases "sy_peers st") auto
  have wf: "bm_wf (sy_senders st)" using Cons.prems(1) by (simp add: sync_ok_def)
  show ?case
  proof (rule lock_blocks_locks [OF sync_ok_locks [OF Cons.prems(1)], of "bs_extend blocks []" peer])
    fix m' assume l: "lock_blocks (bs_extend blocks []) peer (sy_inflight st) = Inr (None, m')" "locks_of m' (guards_of st)"
    have "sync_ok cx (st\<lparr> sy_inflight := m', sy_peers := peers \<rparr>)"
      using l(2) wf by (intro sync_okI [OF Cons.prems(1)]) (simp_all add: guards_of_def)
    from Cons.IH [OF this] Cons.prems(2) peers l(1) show ?thesis by simp
  next
    fix g m' assume l: "lock_blocks (bs_extend blocks []) peer (sy_inflight st) = Inr (Some g, m')" "locks_of m' (add_mset g (guards_of st))"
    have "sync_ok cx (st\<lparr> sy_inflight := m', sy_peers := peers,
        sy_scheduled := sy_scheduled st @ [\<lparr> sq_guard = g, sq_retries = 1, sq_highest_rounds = rounds \<rparr>] \<rparr>)"
      using l(2) wf by (intro sync_okI [OF Cons.prems(1)]) (simp_all add: guards_of_def)
    from Cons.IH [OF this] Cons.prems(2) peers l(1) show ?thesis by simp
  qed
qed simp

lemma chunks_of_length: "0 < n \<Longrightarrow> length xs \<le> k * n \<Longrightarrow> length (chunks_of n xs) \<le> k"
proof (induction n xs arbitrary: k rule: chunks_of.induct)
  case (2 n x xs)
  then obtain k' where k: "k = Suc k'" by (cases k) auto
  have "length (drop (n - 1) xs) \<le> k' * n" using 2(2,3) k by auto
  from "2.IH" [OF 2(2) this] k show ?case by simp
qed simp

text \<open>A committee with enough peers for the batches of one run, and a positive size of a batch.\<close>

definition fetch_params_ok :: "epoch_context \<Rightarrow> bool" where
  "fetch_params_ok cx \<longleftrightarrow> 0 < pa_max_blocks_per_fetch (cx_parameters cx) \<and> max_peers < committee_size (cx_committee cx)"

definition peer_count :: "epoch_context \<Rightarrow> nat" where
  "peer_count cx = card (members (cx_committee cx) - {cx_own_index cx})"

lemma start_fetch_missing_blocks_task_ok:
  assumes ok: "sync_ok cx st" and params: "fetch_params_ok cx"
    and rounds: "get_highest_accepted_rounds cx ds = Inr rounds" and order: "peer_count cx \<le> length order"
  shows "\<exists>st'. start_fetch_missing_blocks_task cx ds order missing st = Inr st' \<and> sync_ok cx st'"
proof (cases "sy_scheduled st \<noteq> [] \<or> sy_results st \<noteq> [] \<or> missing = []")
  case True
  with ok show ?thesis by (auto simp: start_fetch_missing_blocks_task_def)
next
  case False
  let ?n = "pa_max_blocks_per_fetch (cx_parameters cx)"
  let ?peers = "filter (\<lambda>a. a \<noteq> cx_own_index cx) (map fst (committee_authorities (cx_committee cx)))"
  let ?st = "st\<lparr> sy_peers := map (nth ?peers) order, sy_kick_off := False \<rparr>"
  have "committee_size (cx_committee cx) \<le> Suc (peer_count cx)"
    by (simp add: peer_count_def members_eq card_Diff_singleton_if)
  then have "max_peers \<le> length order" using params order by (simp add: fetch_params_ok_def)
  moreover have "length (chunks_of ?n (take (max_peers * ?n) missing)) \<le> max_peers"
    using params by (intro chunks_of_length) (simp_all add: fetch_params_ok_def)
  ultimately have "length (chunks_of ?n (take (max_peers * ?n) missing)) \<le> length (sy_peers ?st)" by simp
  moreover have "sync_ok cx ?st" using ok by (simp add: sync_ok_def guards_of_def)
  ultimately obtain st' where "initial_requests rounds (chunks_of ?n (take (max_peers * ?n) missing)) ?st = Inr st'" "sync_ok cx st'"
    using initial_requests_ok by blast
  with False rounds params show ?thesis
    by (simp add: start_fetch_missing_blocks_task_def Let_def fetch_params_ok_def)
qed

lemma handle_scheduled_response_ok:
  assumes ok: "sync_ok cx st"
  shows "\<exists>st'. handle_scheduled_response i reply st = Inr st' \<and> sync_ok cx st'"
proof (cases "i < length (sy_scheduled st)")
  case False
  with ok show ?thesis by (simp add: handle_scheduled_response_def)
next
  case True
  let ?q = "sy_scheduled st ! i" and ?rest = "take i (sy_scheduled st) @ drop (Suc i) (sy_scheduled st)"
  let ?gs = "guards_of (st\<lparr> sy_scheduled := ?rest \<rparr>)"
  have wf: "bm_wf (sy_senders st)" using ok by (simp add: sync_ok_def)
  have gs: "guards_of st = add_mset (sq_guard ?q) ?gs"
    using mset_map_remove_nth [OF True, of sq_guard] by (simp add: guards_of_def)
  have result: "sync_ok cx (st\<lparr> sy_scheduled := ?rest, sy_results := sy_results st @ [(sq_guard ?q, blocks, peer)] \<rparr>)" for blocks peer
    using sync_ok_locks [OF ok, unfolded gs] wf by (intro sync_okI [OF ok]) (simp_all add: guards_of_def)
  from drop_guard_locks [OF sync_ok_locks [OF ok, unfolded gs]] obtain m where
    m: "drop_guard (sq_guard ?q) (sy_inflight st) = Inr m" "locks_of m ?gs" by blast
  have dropped: "sync_ok cx (st\<lparr> sy_inflight := m, sy_scheduled := ?rest \<rparr>)"
    using m(2) wf by (intro sync_okI [OF ok]) (simp_all add: guards_of_def)
  have swapped: "\<exists>st'. and_then (swap_locks (sq_guard ?q) peer (sy_inflight st)) (\<lambda>(guard, m).
      let st = st\<lparr> sy_inflight := m, sy_peers := peers, sy_scheduled := ?rest \<rparr> in
      Inr (case guard of
             None \<Rightarrow> st
           | Some g' \<Rightarrow> st\<lparr> sy_scheduled := ?rest @
               [\<lparr> sq_guard = g', sq_retries = 1, sq_highest_rounds = sq_highest_rounds ?q \<rparr>] \<rparr>)) =
      Inr st' \<and> sync_ok cx st'" for peer peers
  proof (rule lock_blocks_locks [OF m(2), of "bg_block_refs (sq_guard ?q)" peer])
    fix m' assume l: "lock_blocks (bg_block_refs (sq_guard ?q)) peer m = Inr (None, m')" "locks_of m' ?gs"
    have "sync_ok cx (st\<lparr> sy_inflight := m', sy_peers := peers, sy_scheduled := ?rest \<rparr>)"
      using l(2) wf by (intro sync_okI [OF ok]) (simp_all add: guards_of_def)
    with m(1) l(1) show ?thesis by (simp add: swap_locks_def)
  next
    fix g m' assume l: "lock_blocks (bg_block_refs (sq_guard ?q)) peer m = Inr (Some g, m')" "locks_of m' (add_mset g ?gs)"
    have "sync_ok cx (st\<lparr> sy_inflight := m', sy_peers := peers, sy_scheduled := ?rest @
        [\<lparr> sq_guard = g, sq_retries = 1, sq_highest_rounds = sq_highest_rounds ?q \<rparr>] \<rparr>)"
      using l(2) wf by (intro sync_okI [OF ok]) (simp_all add: guards_of_def)
    with m(1) l(1) show ?thesis by (simp add: swap_locks_def)
  qed
  show ?thesis
  proof (cases "fst (fetch_blocks_request reply (sq_retries ?q))")
    case (Inr blocks)
    with True result show ?thesis by (auto simp: handle_scheduled_response_def Let_def split: prod.splits)
  next
    case (Inl e)
    show ?thesis
    proof (cases "sy_peers st")
      case Nil
      with Inl True m(1) dropped show ?thesis by (auto simp: handle_scheduled_response_def Let_def split: prod.splits)
    next
      case (Cons peer peers)
      with Inl True have "handle_scheduled_response i reply st =
          and_then (swap_locks (sq_guard ?q) peer (sy_inflight st)) (\<lambda>(guard, m).
            let st = st\<lparr> sy_inflight := m, sy_peers := peers, sy_scheduled := ?rest \<rparr> in
            Inr (case guard of
                   None \<Rightarrow> st
                 | Some g' \<Rightarrow> st\<lparr> sy_scheduled := ?rest @
                     [\<lparr> sq_guard = g', sq_retries = 1, sq_highest_rounds = sq_highest_rounds ?q \<rparr>] \<rparr>))"
        by (auto simp: handle_scheduled_response_def Let_def split: prod.splits)
      with swapped show ?thesis by simp
    qed
  qed
qed

lemma drop_guards_locks:
  assumes "locks_of m (mset (map sq_guard qs) + gs)"
  shows "\<exists>m'. for_each (\<lambda>q. drop_guard (sq_guard q)) qs m = Inr m' \<and> locks_of m' gs"
  using assms
proof (induction qs arbitrary: m)
  case (Cons q qs)
  then have "locks_of m (add_mset (sq_guard q) (mset (map sq_guard qs) + gs))" by simp
  from drop_guard_locks [OF this] Cons.IH show ?case by fastforce
qed simp

lemma scheduler_timeout_ok:
  assumes ok: "sync_ok cx st"
  shows "\<exists>st'. scheduler_timeout st = Inr st' \<and> sync_ok cx st'"
proof -
  have wf: "bm_wf (sy_senders st)" using ok by (simp add: sync_ok_def)
  have "guards_of st = mset (map sq_guard (sy_scheduled st)) + guards_of (st\<lparr> sy_scheduled := [] \<rparr>)"
    by (simp add: guards_of_def)
  with sync_ok_locks [OF ok] obtain m where
    m: "for_each (\<lambda>q. drop_guard (sq_guard q)) (sy_scheduled st) (sy_inflight st) = Inr m" "locks_of m (guards_of (st\<lparr> sy_scheduled := [] \<rparr>))"
    using drop_guards_locks by metis
  have "sync_ok cx (st\<lparr> sy_inflight := m, sy_scheduled := [] \<rparr>)"
    using m(2) wf by (intro sync_okI [OF ok]) (simp_all add: guards_of_def)
  with m(1) show ?thesis by (simp add: scheduler_timeout_def)
qed

lemma process_result_ok:
  assumes ok: "sync_ok cx st"
  shows "\<exists>st' core'. process_result cry de sv dispatch now st core = Inr (st', core') \<and> sync_ok cx st'"
proof (cases "sy_results st")
  case Nil
  with ok show ?thesis by (simp add: process_result_def)
next
  case (Cons result results)
  obtain g blocks peer where r: "result = (g, blocks, peer)" by (metis prod_cases3)
  have wf: "bm_wf (sy_senders st)" using ok by (simp add: sync_ok_def)
  have gs: "guards_of st = add_mset g (guards_of (st\<lparr> sy_results := results \<rparr>))" using Cons r by (simp add: guards_of_def)
  from drop_guard_locks [OF sync_ok_locks [OF ok, unfolded gs]] obtain m where
    m: "drop_guard g (sy_inflight st) = Inr m" "locks_of m (guards_of (st\<lparr> sy_results := results \<rparr>))" by blast
  have "sync_ok cx (st\<lparr> sy_inflight := m, sy_results := results, sy_kick_off := k \<rparr>)" for k
    using m(2) wf by (intro sync_okI [OF ok]) (simp_all add: guards_of_def)
  with Cons r m(1) show ?thesis by (auto simp: process_result_def split: prod.splits)
qed

section \<open>Interleavings\<close>

text \<open>
  One constructor for every branch of the loops of \<open>run\<close>, \<open>fetch_blocks_from_authority\<close> and
  \<open>fetch_blocks_from_authorities\<close>, with what it gets from its environment.
\<close>

datatype sync_event =
    FetchCommand "block_ref list" authority_index
  | ReceiveGuard dag_state authority_index
  | PeerResponse timestamp_ms nat network_reply
  | StartScheduler dag_state "nat list" "block_ref list"
  | ScheduledResponse nat network_reply
  | SchedulerTimeout
  | ProcessResult timestamp_ms

fun sync_handle ::
  "crypto \<Rightarrow> decoder \<Rightarrow> signed_block_verifier \<Rightarrow> (verified_block list \<Rightarrow> 'c \<Rightarrow> block_ref list option \<times> 'c) \<Rightarrow> epoch_context
     \<Rightarrow> sync_event \<Rightarrow> sync_state \<times> 'c \<Rightarrow> (sync_state \<times> 'c) res" where
  "sync_handle cry de sv dispatch cx (FetchCommand refs peer) (st, core) =
     and_then (handle_fetch_command cx refs peer st) (\<lambda>(_, st'). Inr (st', core))"
| "sync_handle cry de sv dispatch cx (ReceiveGuard ds peer) (st, core) =
     and_then (receive_guard cx ds peer st) (\<lambda>st'. Inr (st', core))"
| "sync_handle cry de sv dispatch cx (PeerResponse now i reply) (st, core) =
     handle_response cry de sv dispatch now i reply st core"
| "sync_handle cry de sv dispatch cx (StartScheduler ds order missing) (st, core) =
     and_then (start_fetch_missing_blocks_task cx ds order missing st) (\<lambda>st'. Inr (st', core))"
| "sync_handle cry de sv dispatch cx (ScheduledResponse i reply) (st, core) =
     and_then (handle_scheduled_response i reply st) (\<lambda>st'. Inr (st', core))"
| "sync_handle cry de sv dispatch cx SchedulerTimeout (st, core) =
     and_then (scheduler_timeout st) (\<lambda>st'. Inr (st', core))"
| "sync_handle cry de sv dispatch cx (ProcessResult now) (st, core) =
     process_result cry de sv dispatch now st core"

text \<open>What an event may carry: peers of the committee, a DAG with a block for every authority, a shuffle of the peers.\<close>

fun event_ok :: "epoch_context \<Rightarrow> sync_event \<Rightarrow> bool" where
  "event_ok cx (FetchCommand refs peer) \<longleftrightarrow> peer \<in> members (cx_committee cx)"
| "event_ok cx (ReceiveGuard ds peer) \<longleftrightarrow> (\<exists>rounds. get_highest_accepted_rounds cx ds = Inr rounds)"
| "event_ok cx (StartScheduler ds order missing) \<longleftrightarrow>
     (\<exists>rounds. get_highest_accepted_rounds cx ds = Inr rounds) \<and> mset order = mset [0..<peer_count cx]"
| "event_ok cx _ \<longleftrightarrow> True"

lemma sync_handle_ok:
  assumes "sync_ok cx st" "event_ok cx ev" "fetch_params_ok cx"
  shows "\<exists>st' core'. sync_handle cry de sv dispatch cx ev (st, core) = Inr (st', core') \<and> sync_ok cx st'"
proof (cases ev)
  case (FetchCommand refs peer)
  with handle_fetch_command_ok [OF assms(1), of peer refs] assms(2) show ?thesis by auto
next
  case (ReceiveGuard ds peer)
  with receive_guard_ok [OF assms(1), of ds _ peer] assms(2) show ?thesis by auto
next
  case (PeerResponse now i reply)
  with handle_response_ok [OF assms(1)] show ?thesis by auto
next
  case (StartScheduler ds order missing)
  moreover from this have "peer_count cx \<le> length order" using assms(2) mset_eq_length [of order "[0..<peer_count cx]"] by simp
  ultimately show ?thesis using start_fetch_missing_blocks_task_ok [OF assms(1,3), of ds _ order missing] assms(2) by auto
next
  case (ScheduledResponse i reply)
  with handle_scheduled_response_ok [OF assms(1), of i reply] show ?thesis by auto
next
  case SchedulerTimeout
  with scheduler_timeout_ok [OF assms(1)] show ?thesis by auto
next
  case (ProcessResult now)
  with process_result_ok [OF assms(1)] show ?thesis by auto
qed

lemma sync_run_ok:
  assumes "sync_ok cx st" "\<forall>ev \<in> set evs. event_ok cx ev" "fetch_params_ok cx"
  shows "\<exists>st' core'. for_each (sync_handle cry de sv dispatch cx) evs (st, core) = Inr (st', core') \<and> sync_ok cx st'"
proof -
  have "\<exists>t. for_each (sync_handle cry de sv dispatch cx) evs (st, core) = Inr t \<and> sync_ok cx (fst t)"
    by (rule for_each_total) (use assms sync_handle_ok in \<open>fastforce+\<close>)
  then show ?thesis by auto
qed

lemma holders_two:
  assumes "locks_of m gs"
  shows "card {p. \<exists>g \<in># gs. r \<in> set (bg_block_refs g) \<and> bg_peer g = p} \<le> max_authorities_to_fetch_per_block"
proof -
  have wf: "inflight_wf m" using assms by (simp add: locks_of_def)
  have "set_mset (\<Sum>g \<in># gs. guard_locks g) = locked m" using assms finite_locked [OF wf] by (simp add: locks_of_def)
  then have "(\<exists>g \<in># gs. r \<in> set (bg_block_refs g) \<and> bg_peer g = p) \<longleftrightarrow> (r, p) \<in> locked m" for p
    by (force simp: guard_locks_def)
  then have eq: "{p. \<exists>g \<in># gs. r \<in> set (bg_block_refs g) \<and> bg_peer g = p} = {p. (r, p) \<in> locked m}" by blast
  show ?thesis
  proof (cases "m r")
    case None
    then have none: "{p. (r, p) \<in> locked m} = {}" by (simp add: locked_def)
    show ?thesis unfolding eq none by simp
  next
    case (Some as)
    then have some: "{p. (r, p) \<in> locked m} = set as" by (simp add: locked_def)
    show ?thesis unfolding eq some using inflight_wfD(3) [OF wf Some] card_length [of as] by simp
  qed
qed

section \<open>Properties\<close>

text \<open>C31: over every interleaving of the commands, the tasks of the peers and the periodic task, whatever the
  network replies, no lock is released that is not held and no handler panics; the map holds exactly the
  locks of the guards that are alive, and no block is fetched from more than two peers at a time.\<close>

theorem locks_match_live_guards:
  assumes "\<forall>ev \<in> set evs. event_ok cx ev" "fetch_params_ok cx"
  shows "\<exists>st core'. for_each (sync_handle cry de sv dispatch cx) evs (Synchronizer_start cx, core) = Inr (st, core') \<and>
    (\<Sum>g \<in># guards_of st. guard_locks g) = mset_set (locked (sy_inflight st)) \<and>
    (\<forall>r. card {p. \<exists>g \<in># guards_of st. r \<in> set (bg_block_refs g) \<and> bg_peer g = p} \<le> 2)"
proof -
  obtain st core' where st: "for_each (sync_handle cry de sv dispatch cx) evs (Synchronizer_start cx, core) = Inr (st, core')"
    "sync_ok cx st" using sync_run_ok [OF sync_start_ok assms, of cry de sv dispatch core] by auto
  have "locks_of (sy_inflight st) (guards_of st)" by (rule sync_ok_locks [OF st(2)])
  with st(1) holders_two [OF this] show ?thesis by (auto simp: locks_of_def max_authorities_to_fetch_per_block_def)
qed

definition ex_refs :: "block_ref list" where
  "ex_refs = [BlockRef 5 1 3, BlockRef 5 2 4]"

definition ex_sync_events :: "sync_event list" where
  "ex_sync_events = [FetchCommand ex_refs 1, FetchCommand ex_refs 2, FetchCommand ex_refs 3,
     ScheduledResponse 0 TimedOut, SchedulerTimeout]"

definition ex_signed_decoder :: decoder where
  "ex_signed_decoder = \<lparr> de_signed_block = \<lambda>_. Some ex_signed, de_commit = \<lambda>_. None \<rparr>"

theorem locks_match_live_guards_witness:
  "\<exists>st. for_each (sync_handle ex_crypto ex_signed_decoder ex_verifier (\<lambda>_ c. (Some [], c)) ex_context) ex_sync_events
      (Synchronizer_start ex_context, ()) = Inr (st, ()) \<and>
    (\<forall>r. card {p. \<exists>g \<in># guards_of st. r \<in> set (bg_block_refs g) \<and> bg_peer g = p} \<le> 2)"
proof -
  have "\<forall>ev \<in> set ex_sync_events. event_ok ex_context ev" "fetch_params_ok ex_context"
    by (simp_all add: ex_sync_events_def ex_context_def ex_members fetch_params_ok_def max_peers_def)
  from locks_match_live_guards [OF this, of ex_crypto ex_signed_decoder ex_verifier "\<lambda>_ c. (Some [], c)" "()"]
  show ?thesis by auto
qed

text \<open>C32: of what a peer returns, only blocks that were requested or that a returned requested block names as an
  ancestor reach the core; each of them passed the verifier, has the digest of its bytes, and is not from the
  future; and there are at most ten more of them than requested.\<close>

theorem fetched_blocks_are_requested_and_verified:
  assumes "check_fetched_blocks cry de sv now g serialized = Inr blocks" "b \<in> set blocks"
  shows "length blocks \<le> length (bg_block_refs g) + 10 \<and> verify cry sv (vb_signed b) = Inr () \<and>
    vb_serialized b \<in> set serialized \<and> vb_digest b = cy_hash cry (vb_serialized b) \<and> vb_timestamp_ms b \<le> now \<and>
    (vb_reference b \<in> set (bg_block_refs g) \<or>
     (\<exists>c \<in> set blocks. vb_reference c \<in> set (bg_block_refs g) \<and> vb_reference b \<in> set (vb_ancestors c)))"
proof -
  have verified: "length bs \<le> length ser \<and> (\<forall>b \<in> set bs. verify cry sv (vb_signed b) = Inr () \<and> vb_serialized b \<in> set ser \<and>
      vb_digest b = cy_hash cry (vb_serialized b) \<and> vb_timestamp_ms b \<le> now)"
    if "sync_verify_blocks cry de sv now ser = Inr bs" for ser bs
    using that
  proof (induction ser arbitrary: bs)
    case (Cons x ser)
    then obtain sb bs' where x: "verify cry sv sb = Inr ()" "sync_verify_blocks cry de sv now ser = Inr bs'"
      "bs = (if now < vb_timestamp_ms (VerifiedBlock_new_verified cry sb x) then bs' else VerifiedBlock_new_verified cry sb x # bs')"
      by (auto simp: and_then_eq_Inr Let_def)
    with Cons.IH [OF x(2)] show ?case by (auto simp: VerifiedBlock_new_verified_def)
  qed simp
  from assms(1) have len: "length serialized \<le> length (bg_block_refs g) + 10"
    and bs: "sync_verify_blocks cry de sv now serialized = Inr blocks"
    and none: "List.find (\<lambda>b. vb_reference b \<notin> set (bg_block_refs g) \<and> vb_reference b \<notin> set (bs_extend (concat
      (map vb_ancestors (filter (\<lambda>b. vb_reference b \<in> set (bg_block_refs g)) blocks))) [])) blocks = None"
    by (auto simp: check_fetched_blocks_def max_additional_blocks_def and_then_eq_Inr Let_def split: if_splits option.splits)
  from none assms(2) have "vb_reference b \<in> set (bg_block_refs g) \<or>
     (\<exists>c \<in> set blocks. vb_reference c \<in> set (bg_block_refs g) \<and> vb_reference b \<in> set (vb_ancestors c))"
    unfolding find_None_iff by auto
  with verified [OF bs] assms(2) len show ?thesis by force
qed

theorem fetched_blocks_are_requested_and_verified_witness:
  "verify ex_crypto ex_verifier (vb_signed ex_verified) = Inr () \<and> vb_timestamp_ms ex_verified \<le> 9"
proof -
  let ?g = "\<lparr> bg_block_refs = [vb_reference ex_verified], bg_peer = 2 \<rparr>"
  have "vb_timestamp_ms ex_verified = 5"
    by (simp add: ex_verified_def VerifiedBlock_new_verified_def vb_defs ex_signed_def ex_proposal_def block_v1_new_def)
  then have "check_fetched_blocks ex_crypto ex_signed_decoder ex_verifier 9 ?g [[]] = Inr [ex_verified]"
    using ex_signed_verifies
    by (simp add: check_fetched_blocks_def ex_signed_decoder_def ok_or_def ex_verified_def [symmetric])
  from fetched_blocks_are_requested_and_verified [OF this, of ex_verified] show ?thesis by simp
qed

text \<open>
  The limit on retries does not count timeouts: a request that times out is sent again with the same
  number of retries, however often, and keeps its locks.
\<close>

lemma timeouts_are_retried_forever:
  assumes "sy_requests st = [q]" "sq_retries q \<le> max_retries"
  shows "for_each (\<lambda>_ (st, core). handle_response cry de sv dispatch now 0 TimedOut st core) (replicate n ()) (st, core) = Inr (st, core)"
proof (induction n)
  case (Suc n)
  have "handle_response cry de sv dispatch now 0 TimedOut st core = Inr (st, core)"
    using assms by (cases st) (simp add: handle_response_def fetch_blocks_request_def)
  with Suc show ?case by simp
qed simp

end
