(* ===== verification/Commit_Syncer.thy ===== *)
theory Commit_Syncer
  imports Synchronizer
begin

text \<open>
  Synchronization of commits (\<^verbatim>\<open>consensus/core/src/commit_syncer.rs\<close>): the monitor of commit votes, the check of
  commits that a peer returns, and the loop that schedules fetches and sends fetched blocks to the core in the order of commits.
  \<open>dispatch\<close> is the handle to the core thread: it returns \<open>None\<close> when the core has shut down.
\<close>

section \<open>Votes on commits\<close>

record commit_vote_monitor =
  cv_context :: epoch_context
  cv_highest_voted_commits :: "commit_index list"

definition CommitVoteMonitor_new :: "epoch_context \<Rightarrow> commit_vote_monitor" where
  "CommitVoteMonitor_new cx =
     \<lparr> cv_context = cx, cv_highest_voted_commits = replicate (committee_size (cx_committee cx)) 0 \<rparr>"

definition observe_vote :: "authority_index \<Rightarrow> commit_vote \<Rightarrow> commit_index list \<Rightarrow> commit_index list res" where
  "observe_vote a vote highest =
     and_then (vec_get highest a) (\<lambda>index.
       if cr_index vote > index then vec_set highest a (cr_index vote) else Inr highest)"

definition observe :: "verified_block \<Rightarrow> commit_vote_monitor \<Rightarrow> commit_vote_monitor res" where
  "observe b cv =
     and_then (for_each (observe_vote (vb_author b)) (vb_commit_votes b) (cv_highest_voted_commits cv)) (\<lambda>highest.
       Inr (cv\<lparr> cv_highest_voted_commits := highest \<rparr>))"

text \<open>The loop over the votes in descending order, with the stake seen so far.\<close>

fun first_quorum_index :: "stake \<Rightarrow> stake \<Rightarrow> (commit_index \<times> stake) list \<Rightarrow> commit_index" where
  "first_quorum_index threshold seen [] = genesis_commit_index"
| "first_quorum_index threshold seen ((index, s) # rest) =
     (if u64_add seen s \<ge> threshold then index else first_quorum_index threshold (u64_add seen s) rest)"

definition quorum_commit_index :: "commit_vote_monitor \<Rightarrow> commit_index" where
  "quorum_commit_index cv =
     (let cm = cx_committee (cv_context cv);
          votes = map (\<lambda>(index, (_, a)). (index, au_stake a))
                    (zip (cv_highest_voted_commits cv) (committee_authorities cm))
      in first_quorum_index (cm_quorum_threshold cm) 0 (rev (sort votes)))"

section \<open>Verification of fetched commits\<close>

text \<open>The loop that parses commits and checks that they form a chain from \<open>start\<close>, up to \<open>end\<close>.\<close>

fun parse_commits ::
  "crypto \<Rightarrow> decoder \<Rightarrow> authority_index \<Rightarrow> commit_index \<Rightarrow> commit_index \<Rightarrow> byte list list \<Rightarrow> (digest \<times> commit) list
     \<Rightarrow> (digest \<times> commit) list consensus_result" where
  "parse_commits cry de peer start end_index [] commits = Inr commits"
| "parse_commits cry de peer start end_index (serialized # rest) commits =
     and_then (ok_or (de_commit de serialized) MalformedCommit) (\<lambda>commit.
     let digest = cy_hash cry serialized in
     and_then
       (case last_opt commits of
          None \<Rightarrow> if commit_index_of commit \<noteq> start then Inl (UnexpectedStartCommit peer start commit) else Inr ()
        | Some (last_digest, last_commit) \<Rightarrow>
            if commit_index_of commit \<noteq> u32_add (commit_index_of last_commit) 1 \<or>
               commit_previous_digest commit \<noteq> last_digest
            then Inl (UnexpectedCommitSequence peer last_commit commit) else Inr ()) (\<lambda>_.
       if commit_index_of commit > end_index then Inr commits
       else parse_commits cry de peer start end_index rest (commits @ [(digest, commit)])))"

definition count_votes ::
  "crypto \<Rightarrow> decoder \<Rightarrow> signed_block_verifier \<Rightarrow> commit_ref \<Rightarrow> byte list \<Rightarrow> stake_aggregator
     \<Rightarrow> stake_aggregator res consensus_result" where
  "count_votes cry de sv end_ref serialized agg =
     and_then (ok_or (de_signed_block de serialized) MalformedBlock) (\<lambda>block.
     and_then (verify cry sv block) (\<lambda>_.
       Inr (agg_add_all quorum_is_threshold (cx_committee (sv_context sv))
              (map (\<lambda>_. block_author (sb_inner block))
                (filter (\<lambda>vote. vote = end_ref) (block_commit_votes (sb_inner block)))) agg)))"

fun tally_commit_votes ::
  "crypto \<Rightarrow> decoder \<Rightarrow> signed_block_verifier \<Rightarrow> commit_ref \<Rightarrow> byte list list \<Rightarrow> stake_aggregator
     \<Rightarrow> stake_aggregator consensus_result res" where
  "tally_commit_votes cry de sv end_ref [] agg = Inr (Inr agg)"
| "tally_commit_votes cry de sv end_ref (serialized # rest) agg =
     (case count_votes cry de sv end_ref serialized agg of
        Inl e \<Rightarrow> Inr (Inl e)
      | Inr counted \<Rightarrow> and_then counted (tally_commit_votes cry de sv end_ref rest))"

definition verify_commits ::
  "crypto \<Rightarrow> decoder \<Rightarrow> signed_block_verifier \<Rightarrow> authority_index \<Rightarrow> commit_index \<Rightarrow> commit_index \<Rightarrow> byte list list
     \<Rightarrow> byte list list \<Rightarrow> trusted_commit list consensus_result res" where
  "verify_commits cry de sv peer start end_index serialized_commits serialized_blocks =
     (case parse_commits cry de peer start end_index serialized_commits [] of
        Inl e \<Rightarrow> Inr (Inl e)
      | Inr commits \<Rightarrow>
          (case last_opt commits of
             None \<Rightarrow> Inr (Inl (NoCommitReceived peer))
           | Some (end_digest, end_commit) \<Rightarrow>
               and_then (tally_commit_votes cry de sv (CommitRef (commit_index_of end_commit) end_digest)
                           serialized_blocks agg_new) (\<lambda>counted.
                 Inr (and_then counted (\<lambda>agg.
                   if \<not> agg_reached_threshold quorum_is_threshold (cx_committee (sv_context sv)) agg
                   then Inl (NotEnoughCommitVotes (sa_stake agg) peer end_commit)
                   else Inr (map (\<lambda>((_, c), s). TrustedCommit_new_trusted cry c s)
                               (zip commits serialized_commits)))))))"

section \<open>Fetched blocks of commits\<close>

text \<open>The check of the blocks a peer returned for one request.\<close>

fun match_blocks ::
  "crypto \<Rightarrow> decoder \<Rightarrow> authority_index \<Rightarrow> block_ref list \<Rightarrow> signed_block list \<Rightarrow> byte list list
     \<Rightarrow> verified_block list consensus_result" where
  "match_blocks cry de peer (r # refs) (sb # sbs) (serialized # rest) =
     (let received = BlockRef (block_round (sb_inner sb)) (block_author (sb_inner sb)) (cy_hash cry serialized) in
      if r \<noteq> received then Inl (UnexpectedBlockForCommit peer r received)
      else and_then (match_blocks cry de peer refs sbs rest) (\<lambda>bs.
             Inr (VerifiedBlock_new_verified cry sb serialized # bs)))"
| "match_blocks cry de peer _ _ _ = Inr []"

definition check_commit_blocks ::
  "crypto \<Rightarrow> decoder \<Rightarrow> authority_index \<Rightarrow> block_ref list \<Rightarrow> byte list list \<Rightarrow> verified_block list consensus_result" where
  "check_commit_blocks cry de peer refs serialized_blocks =
     (if length refs \<noteq> length serialized_blocks
      then Inl (UnexpectedNumberOfBlocksFetched peer (length refs) (length serialized_blocks))
      else and_then (map_res (\<lambda>s. ok_or (de_signed_block de s) MalformedBlock) serialized_blocks) (\<lambda>sbs.
             match_blocks cry de peer refs sbs serialized_blocks))"

text \<open>
  Authorities to fetch from, by the time at which they are available, with the number of consecutive failures. Times
  are in seconds.
\<close>

type_synonym fetch_state = "(nat \<times> nat \<times> authority_index) list"

definition fetch_retry_interval_limit :: nat where "fetch_retry_interval_limit = 30"

text \<open>\<open>order\<close> gives the position of each authority in the shuffled list.\<close>

definition FetchState_new :: "nat \<Rightarrow> nat list \<Rightarrow> epoch_context \<Rightarrow> fetch_state" where
  "FetchState_new now order cx =
     (let indices = filter (\<lambda>i. i \<noteq> cx_own_index cx) (map fst (committee_authorities (cx_committee cx)))
      in bs_extend (map (\<lambda>i. (now, 0, indices ! i)) order) [])"

text \<open>The first step of \<open>fetch_once\<close>: the authority to fetch from, and what its answer does to the state.\<close>

definition pick_authority :: "fetch_state \<Rightarrow> (nat \<times> authority_index \<times> fetch_state) consensus_result" where
  "pick_authority fs =
     (case fs of
        [] \<Rightarrow> Inl NoAvailableAuthorityToFetchCommits
      | (_, retries, a) # rest \<Rightarrow> Inr (retries, a, rest))"

definition return_authority :: "nat \<Rightarrow> bool \<Rightarrow> nat \<Rightarrow> authority_index \<Rightarrow> fetch_state \<Rightarrow> fetch_state" where
  "return_authority now succeeded retries a fs =
     (if succeeded then bs_insert (now, 0, a) fs
      else bs_insert (now + min retries fetch_retry_interval_limit, min u32_max (retries + 1), a) fs)"

text \<open>
  The rest of \<open>fetch_once\<close>: \<open>answer\<close> is the peer's answer to the request for commits, \<open>fetch\<close> its answers to the requests
  for blocks.
\<close>

definition fetch_once ::
  "crypto \<Rightarrow> decoder \<Rightarrow> signed_block_verifier \<Rightarrow> nat \<Rightarrow> (byte list list \<times> byte list list) consensus_result
     \<Rightarrow> (block_ref list \<Rightarrow> byte list list consensus_result) \<Rightarrow> commit_index \<Rightarrow> commit_index \<Rightarrow> fetch_state
     \<Rightarrow> ((trusted_commit list \<times> verified_block list) consensus_result \<times> fetch_state) res" where
  "fetch_once cry de sv now answer fetch start end_index fs =
     (case pick_authority fs of
        Inl e \<Rightarrow> Inr (Inl e, fs)
      | Inr (retries, peer, fs) \<Rightarrow>
          (case answer of
             Inl e \<Rightarrow> Inr (Inl e, return_authority now False retries peer fs)
           | Inr (serialized_commits, serialized_blocks) \<Rightarrow>
               let fs = return_authority now True retries peer fs in
               and_then (verify_commits cry de sv peer start end_index serialized_commits serialized_blocks) (\<lambda>verified.
                 case verified of
                   Inl e \<Rightarrow> Inr (Inl e, fs)
                 | Inr commits \<Rightarrow>
                     let n = pa_max_blocks_per_fetch (cx_parameters (sv_context sv)) in
                     and_then (assert_that (n \<noteq> 0) (SyncPanic ZeroBatchSize)) (\<lambda>_.
                       Inr (and_then (map_res (\<lambda>refs. and_then (fetch refs) (check_commit_blocks cry de peer refs))
                                        (chunks_of n (concat (map tc_blocks commits)))) (\<lambda>blocks.
                              Inr (commits, concat blocks)), fs)))))"

text \<open>
  The loop around \<open>fetch_once\<close>, on what the attempts meet: the time, the answer on commits and the answers on blocks of each.
  It returns \<open>None\<close> while every attempt so far has failed.
\<close>

type_synonym fetch_attempt =
  "nat \<times> (byte list list \<times> byte list list) consensus_result \<times> (block_ref list \<Rightarrow> byte list list consensus_result)"

fun fetch_loop ::
  "crypto \<Rightarrow> decoder \<Rightarrow> signed_block_verifier \<Rightarrow> commit_index \<Rightarrow> commit_index \<Rightarrow> fetch_attempt list \<Rightarrow> fetch_state
     \<Rightarrow> ((commit_index \<times> trusted_commit list \<times> verified_block list) option \<times> fetch_state) res" where
  "fetch_loop cry de sv start end_index [] fs = Inr (None, fs)"
| "fetch_loop cry de sv start end_index ((now, answer, fetch) # attempts) fs =
     and_then (fetch_once cry de sv now answer fetch start end_index fs) (\<lambda>(result, fs').
       case result of
         Inr (commits, blocks) \<Rightarrow> Inr (Some (end_index, commits, blocks), fs')
       | Inl _ \<Rightarrow> fetch_loop cry de sv start end_index attempts fs')"

section \<open>The scheduling loop\<close>

record commit_sync =
  cs_pending_fetches :: "(commit_index \<times> commit_index) list"
  cs_inflight_fetches :: "(commit_index \<times> commit_index) list"
  cs_fetched_blocks :: "((commit_index \<times> commit_index) \<times> verified_block list) list"
  cs_highest_scheduled_index :: "commit_index option"
  cs_synced_commit_index :: commit_index

definition commit_sync_start :: "dag_state \<Rightarrow> commit_sync" where
  "commit_sync_start ds =
     \<lparr> cs_pending_fetches = [], cs_inflight_fetches = [], cs_fetched_blocks = [], cs_highest_scheduled_index = None,
       cs_synced_commit_index = last_commit_index ds \<rparr>"

text \<open>The loop over the starts of batches: \<open>prev_ends\<close> are the elements of the stepped range.\<close>

fun schedule_ranges :: "nat \<Rightarrow> commit_index \<Rightarrow> commit_index list \<Rightarrow> commit_sync \<Rightarrow> commit_sync" where
  "schedule_ranges batch quorum_index [] cs = cs"
| "schedule_ranges batch quorum_index (prev_end # prev_ends) cs =
     (let start = u32_add prev_end 1; end_index = u32_add prev_end batch in
      if end_index > quorum_index then cs
      else schedule_ranges batch quorum_index prev_ends
             (cs\<lparr> cs_pending_fetches := bs_insert (start, end_index) (cs_pending_fetches cs),
                  cs_highest_scheduled_index := Some end_index \<rparr>))"

definition stepped_range :: "nat \<Rightarrow> nat \<Rightarrow> nat \<Rightarrow> nat list" where
  "stepped_range start end_index step =
     (if end_index < start then [] else map (\<lambda>i. start + i * step) [0..<(end_index - start) div step + 1])"

definition schedule_tick ::
  "epoch_context \<Rightarrow> commit_vote_monitor \<Rightarrow> dag_state \<Rightarrow> commit_sync \<Rightarrow> commit_sync res" where
  "schedule_tick cx cv ds cs =
     (let quorum_index = quorum_commit_index cv;
          batch = pa_commit_sync_batch_size (cx_parameters cx);
          synced = max (cs_synced_commit_index cs) (last_commit_index ds);
          fetch_after_index = max synced (case cs_highest_scheduled_index cs of None \<Rightarrow> 0 | Some i \<Rightarrow> i) in
      and_then (assert_that (batch \<noteq> 0) (SyncPanic ZeroBatchSize)) (\<lambda>_.
        Inr (schedule_ranges batch quorum_index (stepped_range fetch_after_index quorum_index batch)
               (cs\<lparr> cs_synced_commit_index := synced \<rparr>))))"

text \<open>
  The loop that sends fetched blocks to the core while there is no gap to what was sent before. It ends with \<open>None\<close>
  for the state when the core has shut down.
\<close>

fun send_fetched ::
  "(verified_block list \<Rightarrow> 'c \<Rightarrow> block_ref list option \<times> 'c) \<Rightarrow> ((commit_index \<times> commit_index) \<times> verified_block list) list
     \<Rightarrow> commit_index \<Rightarrow> 'c
     \<Rightarrow> (((commit_index \<times> commit_index) \<times> verified_block list) list \<times> commit_index) option \<times> 'c" where
  "send_fetched dispatch [] synced core = (Some ([], synced), core)"
| "send_fetched dispatch (((start, end_index), blocks) # fetched) synced core =
     (if \<not> start \<le> u32_add synced 1 then (Some (((start, end_index), blocks) # fetched, synced), core)
      else if end_index \<le> synced then send_fetched dispatch fetched synced core
      else case dispatch blocks core of
             (None, core') \<Rightarrow> (None, core')
           | (Some _, core') \<Rightarrow> send_fetched dispatch fetched (max synced end_index) core')"

text \<open>The result of a fetch of a range: commits and blocks that \<open>fetch_loop\<close> returned for the \<open>i\<close>-th fetch in flight.\<close>

definition handle_fetched ::
  "(verified_block list \<Rightarrow> 'c \<Rightarrow> block_ref list option \<times> 'c) \<Rightarrow> dag_state \<Rightarrow> nat \<Rightarrow> trusted_commit list
     \<Rightarrow> verified_block list \<Rightarrow> commit_sync \<Rightarrow> 'c \<Rightarrow> (commit_sync option \<times> 'c) res" where
  "handle_fetched dispatch ds i commits blocks cs core =
     (if i \<ge> length (cs_inflight_fetches cs) then Inr (Some cs, core) else
      let target_end = snd (cs_inflight_fetches cs ! i);
          cs = cs\<lparr> cs_inflight_fetches := take i (cs_inflight_fetches cs) @ drop (Suc i) (cs_inflight_fetches cs) \<rparr> in
      and_then (assert_that (commits \<noteq> []) (SyncPanic NoFetchedCommit)) (\<lambda>_.
      let commit_start = tc_index (hd commits);
          commit_end = tc_index (last commits);
          pending = (if commit_end < target_end
                     then bs_insert (u32_add commit_end 1, target_end) (cs_pending_fetches cs)
                     else cs_pending_fetches cs);
          synced = max (cs_synced_commit_index cs) (last_commit_index ds);
          fetched = (if synced < commit_end
                     then bm_insert (commit_start, commit_end) blocks (cs_fetched_blocks cs)
                     else cs_fetched_blocks cs) in
      case send_fetched dispatch fetched synced core of
        (None, core') \<Rightarrow> Inr (None, core')
      | (Some (fetched', synced'), core') \<Rightarrow>
          Inr (Some (cs\<lparr> cs_pending_fetches := pending, cs_fetched_blocks := fetched',
                         cs_synced_commit_index := synced' \<rparr>), core')))"

definition target_parallel_fetches :: "epoch_context \<Rightarrow> commit_sync \<Rightarrow> nat" where
  "target_parallel_fetches cx cs =
     max 1 (min (min (pa_commit_sync_parallel_fetches (cx_parameters cx)) (committee_size (cx_committee cx) * 2 div 3))
              (pa_commit_sync_batches_ahead (cx_parameters cx) - length (cs_fetched_blocks cs)))"

definition start_fetches :: "epoch_context \<Rightarrow> commit_sync \<Rightarrow> commit_sync" where
  "start_fetches cx cs =
     (let n = target_parallel_fetches cx cs - length (cs_inflight_fetches cs)
      in cs\<lparr> cs_inflight_fetches := cs_inflight_fetches cs @ take n (cs_pending_fetches cs),
             cs_pending_fetches := drop n (cs_pending_fetches cs) \<rparr>)"

end
