(* ===== verification/Commit_Sync_Properties.thy ===== *)
theory Commit_Sync_Properties
  imports Commit_Syncer
begin

text \<open>
  Properties of the synchronization of commits: the quorum commit index, that commits taken from a peer form a
  chain whose end a quorum has voted for, and that no range of commits is lost between scheduling and the core.
\<close>

section \<open>Quorum commit index\<close>

text \<open>The first index in descending order at which the stake reaches the threshold.\<close>

lemma first_quorum_index_spec:
  assumes "sorted_wrt (\<lambda>p q. fst q \<le> fst p) vs" "seen + (\<Sum>v \<leftarrow> vs. snd v) < 2 ^ 64"
    and "seen < threshold" "threshold \<le> seen + (\<Sum>v \<leftarrow> vs. snd v)" "i = first_quorum_index threshold seen vs"
  shows "threshold \<le> seen + (\<Sum>v \<leftarrow> filter (\<lambda>v. i \<le> fst v) vs. snd v) \<and>
    (\<forall>j > i. seen + (\<Sum>v \<leftarrow> filter (\<lambda>v. j \<le> fst v) vs. snd v) < threshold)"
  using assms
proof (induction threshold seen vs rule: first_quorum_index.induct)
  case (2 threshold seen index s rest)
  have add: "u64_add seen s = seen + s" using "2.prems"(2) by (simp add: u64_add_def)
  have below: "\<forall>v \<in> set rest. fst v \<le> index" using "2.prems"(1) by auto
  show ?case
  proof (cases "threshold \<le> seen + s")
    case True
    with "2.prems"(5) add have i: "i = index" by simp
    have "filter (\<lambda>v. j \<le> fst v) rest = []" if "index < j" for j using below that by (auto simp: filter_empty_conv)
    with i True "2.prems"(3) show ?thesis by (auto simp: trans_le_add1)
  next
    case False
    have i: "i = first_quorum_index threshold (seen + s) rest" using False add "2.prems"(5) by simp
    have ih: "threshold \<le> (seen + s) + (\<Sum>v \<leftarrow> filter (\<lambda>v. i \<le> fst v) rest. snd v) \<and>
      (\<forall>j > i. (seen + s) + (\<Sum>v \<leftarrow> filter (\<lambda>v. j \<le> fst v) rest. snd v) < threshold)"
      using "2.IH" False add "2.prems" i by simp
    have "rest \<noteq> []" using False "2.prems"(4) by auto
    have le: "i \<le> index"
    proof (rule ccontr)
      assume "\<not> i \<le> index"
      then have "filter (\<lambda>v. i \<le> fst v) rest = []" using below by (auto simp: filter_empty_conv)
      with ih False show False by simp
    qed
    show ?thesis
    proof
      show "threshold \<le> seen + (\<Sum>v \<leftarrow> filter (\<lambda>v. i \<le> fst v) ((index, s) # rest). snd v)" using ih le by simp
      show "\<forall>j > i. seen + (\<Sum>v \<leftarrow> filter (\<lambda>v. j \<le> fst v) ((index, s) # rest). snd v) < threshold"
      proof (intro allI impI)
        fix j assume "i < j"
        with ih have "(seen + s) + (\<Sum>v \<leftarrow> filter (\<lambda>v. j \<le> fst v) rest. snd v) < threshold" by blast
        then show "seen + (\<Sum>v \<leftarrow> filter (\<lambda>v. j \<le> fst v) ((index, s) # rest). snd v) < threshold" by simp
      qed
    qed
  qed
qed simp

definition voters_from :: "commit_vote_monitor \<Rightarrow> commit_index \<Rightarrow> authority_index set" where
  "voters_from cv i =
     {a \<in> members (cx_committee (cv_context cv)). i \<le> cv_highest_voted_commits cv ! a}"

definition monitor_ok :: "commit_vote_monitor \<Rightarrow> bool" where
  "monitor_ok cv \<longleftrightarrow> committee_wf (cx_committee (cv_context cv)) \<and>
     length (cv_highest_voted_commits cv) = committee_size (cx_committee (cv_context cv))"

abbreviation vote_list :: "commit_vote_monitor \<Rightarrow> (commit_index \<times> stake) list" where
  "vote_list cv \<equiv> map (\<lambda>(index, (_, a)). (index, au_stake a))
     (zip (cv_highest_voted_commits cv) (committee_authorities (cx_committee (cv_context cv))))"

lemma vote_list_eq:
  assumes "monitor_ok cv"
  shows "vote_list cv = map (\<lambda>a. (cv_highest_voted_commits cv ! a, au_stake (cm_authorities (cx_committee (cv_context cv)) ! a)))
    [0..<committee_size (cx_committee (cv_context cv))]"
  using assms by (intro nth_equalityI) (auto simp: monitor_ok_def committee_authorities_def committee_size_def nth_enumerate_eq)

lemma voters_stake:
  assumes "monitor_ok cv"
  shows "(\<Sum>v \<leftarrow> filter (\<lambda>v. i \<le> fst v) (vote_list cv). snd v) = stake_of (cx_committee (cv_context cv)) (voters_from cv i)"
proof -
  let ?cm = "cx_committee (cv_context cv)"
  let ?as = "filter (\<lambda>a. i \<le> cv_highest_voted_commits cv ! a) [0..<committee_size ?cm]"
  have "(\<Sum>v \<leftarrow> filter (\<lambda>v. i \<le> fst v) (vote_list cv). snd v) = (\<Sum>a \<leftarrow> ?as. au_stake (cm_authorities ?cm ! a))"
    unfolding vote_list_eq [OF assms] by (simp add: filter_map comp_def)
  also have "\<dots> = (\<Sum>a \<in> set ?as. au_stake (cm_authorities ?cm ! a))" by (rule sum_list_distinct_conv_sum_set) simp
  also have "set ?as = voters_from cv i" by (auto simp: voters_from_def members_eq)
  finally show ?thesis by (simp add: stake_of_def)
qed

lemma sum_list_mset_eq: "mset xs = mset ys \<Longrightarrow> (\<Sum>x \<leftarrow> filter P xs. f x) = (\<Sum>x \<leftarrow> filter P ys. (f x :: nat))"
  by (metis mset_filter mset_map sum_mset_sum_list)

lemma quorum_commit_index_spec:
  assumes "monitor_ok cv" "cm = cx_committee (cv_context cv)"
  shows "reached_quorum cm (stake_of cm (voters_from cv (quorum_commit_index cv))) \<and>
    (\<forall>j > quorum_commit_index cv. \<not> reached_quorum cm (stake_of cm (voters_from cv j)))"
proof -
  let ?vs = "rev (sort (vote_list cv))"
  have wf: "committee_wf cm" using assms by (simp add: monitor_ok_def)
  have sum: "(\<Sum>v \<leftarrow> filter (\<lambda>v. i \<le> fst v) ?vs. snd v) = stake_of cm (voters_from cv i)" for i
    using voters_stake [OF assms(1), of i] sum_list_mset_eq [of ?vs "vote_list cv" snd "\<lambda>v. i \<le> fst v"] assms(2) by simp
  have all: "voters_from cv 0 = members cm" using assms(2) by (auto simp: voters_from_def)
  have total: "(\<Sum>v \<leftarrow> ?vs. snd v) = cm_total_stake cm"
    using sum [of 0] stake_of_members [OF wf] all by simp
  have "sorted (sort (vote_list cv))" by simp
  then have "sorted_wrt (\<lambda>p q. q \<le> p) ?vs" by (simp add: sorted_wrt_rev)
  then have desc: "sorted_wrt (\<lambda>p q. fst q \<le> fst p) ?vs" by (rule sorted_wrt_mono_rel [rotated]) (auto simp: less_eq_prod_def)
  have "0 + (\<Sum>v \<leftarrow> ?vs. snd v) < 2 ^ 64" "0 < cm_quorum_threshold cm" "cm_quorum_threshold cm \<le> 0 + (\<Sum>v \<leftarrow> ?vs. snd v)"
    using total wf by (auto simp: committee_wf_def)
  from first_quorum_index_spec [OF desc this, of "quorum_commit_index cv"] assms(2) show ?thesis
    unfolding sum by (simp add: quorum_commit_index_def Let_def reached_quorum_def not_le)
qed

section \<open>Commits of a peer\<close>

text \<open>Commits with their digests, in a chain from \<open>start\<close>.\<close>

definition commit_chain :: "commit_index \<Rightarrow> (digest \<times> commit) list \<Rightarrow> bool" where
  "commit_chain start cs \<longleftrightarrow>
     map (commit_index_of \<circ> snd) cs = [start..<start + length cs] \<and>
     (\<forall>i < length cs - 1. commit_previous_digest (snd (cs ! Suc i)) = fst (cs ! i))"

lemma commit_chain_snoc:
  assumes "commit_chain start cs"
    and "case last_opt cs of None \<Rightarrow> commit_index_of c = start
      | Some (d', c') \<Rightarrow> commit_index_of c = commit_index_of c' + 1 \<and> commit_previous_digest c = d'"
  shows "commit_chain start (cs @ [(d, c)])"
proof (cases cs rule: rev_cases)
  case Nil
  with assms(2) show ?thesis by (simp add: commit_chain_def)
next
  case (snoc ds dc)
  obtain d' c' where dc: "dc = (d', c')" by fastforce
  have idx: "map (commit_index_of \<circ> snd) cs = [start..<start + length cs]" using assms(1) by (simp add: commit_chain_def)
  have "commit_index_of c' = start + length ds"
    using arg_cong [OF idx, of last] snoc dc by (simp add: last_map)
  then have "commit_index_of c = start + length cs" using assms(2) snoc dc by simp
  with idx have "map (commit_index_of \<circ> snd) (cs @ [(d, c)]) = [start..<start + length (cs @ [(d, c)])]" by simp
  moreover have "commit_previous_digest (snd ((cs @ [(d, c)]) ! Suc i)) = fst ((cs @ [(d, c)]) ! i)"
    if "i < length (cs @ [(d, c)]) - 1" for i
  proof (cases "Suc i < length cs")
    case True
    with assms(1) show ?thesis by (simp add: commit_chain_def nth_append)
  next
    case False
    with that have "Suc i = length cs" by simp
    with assms(2) snoc dc show ?thesis by (auto simp: nth_append)
  qed
  ultimately show ?thesis by (simp add: commit_chain_def)
qed

lemma parse_commits_spec:
  assumes "parse_commits cry de peer start end_index sers acc = Inr cs" "commit_chain start acc"
    and "\<forall>(d, c) \<in> set acc. commit_index_of c \<le> end_index" "end_index + 1 < 2 ^ 32"
  shows "commit_chain start cs \<and> (\<forall>(d, c) \<in> set cs. commit_index_of c \<le> end_index) \<and>
    (\<exists>k. cs = acc @ map (\<lambda>s. (cy_hash cry s, the (de_commit de s))) (take k sers) \<and> k \<le> length sers)"
  using assms
proof (induction sers arbitrary: acc)
  case Nil
  then show ?case by auto
next
  case (Cons s sers)
  from Cons.prems(1) obtain c where c: "de_commit de s = Some c"
    by (auto simp: and_then_eq_Inr ok_or_def split: option.splits)
  let ?ok = "case last_opt acc of None \<Rightarrow> commit_index_of c = start
      | Some (d', c') \<Rightarrow> commit_index_of c = u32_add (commit_index_of c') 1 \<and> commit_previous_digest c = d'"
  have ok: ?ok using Cons.prems(1) c
    by (auto simp: ok_or_def and_then_eq_Inr Let_def split: option.splits if_splits)
  show ?case
  proof (cases "commit_index_of c > end_index")
    case True
    then have "cs = acc" using Cons.prems(1) c ok by (auto simp: ok_or_def Let_def split: option.splits)
    with Cons.prems(2,3) show ?thesis by (intro conjI exI [of _ 0]) simp_all
  next
    case False
    then have rec: "parse_commits cry de peer start end_index sers (acc @ [(cy_hash cry s, c)]) = Inr cs"
      using Cons.prems(1) c ok by (auto simp: ok_or_def Let_def split: option.splits)
    have chain: "commit_chain start (acc @ [(cy_hash cry s, c)])"
    proof (rule commit_chain_snoc [OF Cons.prems(2)])
      show "case last_opt acc of None \<Rightarrow> commit_index_of c = start
        | Some (d', c') \<Rightarrow> commit_index_of c = commit_index_of c' + 1 \<and> commit_previous_digest c = d'"
      proof (cases "last_opt acc")
        case (Some dc)
        moreover obtain d' c' where dc: "dc = (d', c')" by fastforce
        moreover have "(d', c') \<in> set acc" using Some dc by (auto simp: last_opt_Some)
        then have "u32_add (commit_index_of c') 1 = commit_index_of c' + 1"
          using Cons.prems(3,4) by (intro u32_add_exact) auto
        ultimately show ?thesis using ok by simp
      qed (use ok in simp)
    qed
    have "\<forall>(d, c) \<in> set (acc @ [(cy_hash cry s, c)]). commit_index_of c \<le> end_index" using Cons.prems(3) False by simp
    note ih = Cons.IH [OF rec chain this Cons.prems(4)]
    from ih obtain k where
      k: "cs = (acc @ [(cy_hash cry s, c)]) @ map (\<lambda>s. (cy_hash cry s, the (de_commit de s))) (take k sers)" "k \<le> length sers"
      by blast
    have "cs = acc @ map (\<lambda>s. (cy_hash cry s, the (de_commit de s))) (take (Suc k) (s # sers))" using k(1) c by simp
    moreover have "Suc k \<le> length (s # sers)" using k(2) by simp
    ultimately show ?thesis using ih by blast
  qed
qed

text \<open>The authors whose verified blocks among \<open>sers\<close> vote for a commit.\<close>

definition commit_voters :: "decoder \<Rightarrow> commit_ref \<Rightarrow> byte list list \<Rightarrow> authority_index set" where
  "commit_voters de r sers =
     {block_author (sb_inner sb) | s sb. s \<in> set sers \<and> de_signed_block de s = Some sb \<and> r \<in> set (block_commit_votes (sb_inner sb))}"

lemma commit_voters_simps [simp]:
  "commit_voters de r [] = {}"
  "de_signed_block de s = Some sb \<Longrightarrow> commit_voters de r (s # sers) =
     (if r \<in> set (block_commit_votes (sb_inner sb)) then insert (block_author (sb_inner sb)) (commit_voters de r sers)
      else commit_voters de r sers)"
  by (auto simp: commit_voters_def)

lemma count_votes_spec:
  assumes "committee_wf cm" "cm = cx_committee (sv_context sv)" "agg_inv cm agg"
    and "count_votes cry de sv r s agg = Inr counted"
  shows "\<exists>sb agg'. counted = Inr agg' \<and> de_signed_block de s = Some sb \<and> verify cry sv sb = Inr () \<and> agg_inv cm agg' \<and>
    set (sa_votes agg') = set (sa_votes agg) \<union> commit_voters de r [s]"
proof -
  from assms(4) obtain sb where sb: "de_signed_block de s = Some sb" "verify cry sv sb = Inr ()"
    and counted: "counted = agg_add_all quorum_is_threshold cm (map (\<lambda>_. block_author (sb_inner sb))
      (filter (\<lambda>vote. vote = r) (block_commit_votes (sb_inner sb)))) agg"
    by (auto simp: count_votes_def and_then_eq_Inr ok_or_def assms(2) split: option.splits)
  have "block_author (sb_inner sb) \<in> members cm"
    using sb(2) verify_eq [OF assms(1,2)] by (simp add: block_well_formed_def)
  then have "set (map (\<lambda>_. block_author (sb_inner sb)) (filter (\<lambda>vote. vote = r) (block_commit_votes (sb_inner sb)))) \<subseteq> members cm"
    by auto
  from agg_add_all_spec [OF assms(1,3) this, of quorum_is_threshold] sb counted show ?thesis by auto
qed

lemma tally_commit_votes_spec:
  assumes "committee_wf cm" "cm = cx_committee (sv_context sv)" "agg_inv cm agg"
  shows "\<exists>counted. tally_commit_votes cry de sv r sers agg = Inr counted \<and>
    (\<forall>agg'. counted = Inr agg' \<longrightarrow> agg_inv cm agg' \<and> set (sa_votes agg') = set (sa_votes agg) \<union> commit_voters de r sers \<and>
      (\<forall>s \<in> set sers. \<exists>sb. de_signed_block de s = Some sb \<and> verify cry sv sb = Inr ()))"
  using assms(3)
proof (induction sers arbitrary: agg)
  case (Cons s sers)
  show ?case
  proof (cases "count_votes cry de sv r s agg")
    case (Inr counted)
    from count_votes_spec [OF assms(1,2) Cons.prems Inr] obtain sb agg1 where
      one: "counted = Inr agg1" "de_signed_block de s = Some sb" "verify cry sv sb = Inr ()" "agg_inv cm agg1"
        "set (sa_votes agg1) = set (sa_votes agg) \<union> commit_voters de r [s]" by blast
    from Cons.IH [OF one(4)] obtain rest where
      "tally_commit_votes cry de sv r sers agg1 = Inr rest"
      "\<forall>agg'. rest = Inr agg' \<longrightarrow> agg_inv cm agg' \<and> set (sa_votes agg') = set (sa_votes agg1) \<union> commit_voters de r sers \<and>
        (\<forall>s \<in> set sers. \<exists>sb. de_signed_block de s = Some sb \<and> verify cry sv sb = Inr ())" by blast
    with one Inr show ?thesis by auto
  qed simp
qed simp

lemma parsed_commits_trusted:
  assumes "parse_commits cry de peer start end_index scs [] = Inr parsed" "end_index + 1 < 2 ^ 32"
    and "last_opt parsed = Some (d, c)" "cs = map (\<lambda>((_, c), s). TrustedCommit_new_trusted cry c s) (zip parsed scs)"
  shows "cs \<noteq> [] \<and> commit_chain start (map (\<lambda>c. (tc_digest c, tc_inner c)) cs) \<and> tc_index (last cs) \<le> end_index \<and>
    (\<exists>k \<le> length scs. cs = map (\<lambda>s. TrustedCommit_new_trusted cry (the (de_commit de s)) s) (take k scs)) \<and>
    tc_reference (last cs) = CommitRef (commit_index_of c) d"
proof -
  have "commit_chain start []" by (simp add: commit_chain_def)
  from parse_commits_spec [OF assms(1) this _ assms(2)] obtain k where
    chain: "commit_chain start parsed" and le: "\<forall>(d, c) \<in> set parsed. commit_index_of c \<le> end_index"
    and k: "parsed = map (\<lambda>s. (cy_hash cry s, the (de_commit de s))) (take k scs)" "k \<le> length scs"
    by auto
  have "zip parsed scs = map (\<lambda>s. ((cy_hash cry s, the (de_commit de s)), s)) (take k scs)"
    using k by (intro nth_equalityI) auto
  then have cs: "cs = map (\<lambda>s. TrustedCommit_new_trusted cry (the (de_commit de s)) s) (take k scs)" by (simp add: assms(4))
  have pairs: "map (\<lambda>c. (tc_digest c, tc_inner c)) cs = parsed" unfolding cs by (simp add: k(1))
  have ne: "parsed \<noteq> []" and last: "last parsed = (d, c)" using assms(3) by (auto simp: last_opt_Some)
  have ne': "cs \<noteq> []" using ne pairs by auto
  have "last (map (\<lambda>c. (tc_digest c, tc_inner c)) cs) = (d, c)" unfolding pairs last ..
  then have end_ref: "tc_digest (last cs) = d" "tc_inner (last cs) = c" by (simp_all add: last_map [OF ne'])
  have "(d, c) \<in> set parsed" using ne last last_in_set by metis
  then have "tc_index (last cs) \<le> end_index" using le end_ref by (auto simp: tc_defs)
  with ne' chain pairs cs k(2) end_ref show ?thesis by (auto simp: tc_defs)
qed

lemma verify_commits_spec:
  assumes "committee_wf cm" "cm = cx_committee (sv_context sv)" "end_index + 1 < 2 ^ 32"
  shows "\<exists>r. verify_commits cry de sv peer start end_index scs sbs = Inr r \<and> (\<forall>commits. r = Inr commits \<longrightarrow>
      commits \<noteq> [] \<and>
      commit_chain start (map (\<lambda>c. (tc_digest c, tc_inner c)) commits) \<and> tc_index (last commits) \<le> end_index \<and>
      (\<exists>k \<le> length scs. commits = map (\<lambda>s. TrustedCommit_new_trusted cry (the (de_commit de s)) s) (take k scs)) \<and>
      (\<forall>s \<in> set sbs. \<exists>sb. de_signed_block de s = Some sb \<and> verify cry sv sb = Inr ()) \<and>
      reached_quorum cm (stake_of cm (commit_voters de (tc_reference (last commits)) sbs)))"
    (is "\<exists>r. _ \<and> (\<forall>commits. _ \<longrightarrow> ?good commits)")
proof (cases "parse_commits cry de peer start end_index scs []")
  case (Inr parsed)
  let ?cs = "map (\<lambda>((_, c), s). TrustedCommit_new_trusted cry c s) (zip parsed scs)"
  show ?thesis
  proof (cases "last_opt parsed")
    case None
    with Inr show ?thesis by (simp add: verify_commits_def)
  next
    case (Some dc)
    obtain d c where dc: "dc = (d, c)" by fastforce
    note trusted = parsed_commits_trusted [OF Inr assms(3) Some [unfolded dc] refl]
    from tally_commit_votes_spec [OF assms(1,2) agg_inv_new, of cry de "CommitRef (commit_index_of c) d" sbs] obtain counted where
      counted: "tally_commit_votes cry de sv (CommitRef (commit_index_of c) d) sbs agg_new = Inr counted"
      and spec: "\<forall>agg. counted = Inr agg \<longrightarrow> agg_inv cm agg \<and>
        set (sa_votes agg) = set (sa_votes agg_new) \<union> commit_voters de (CommitRef (commit_index_of c) d) sbs \<and>
        (\<forall>s \<in> set sbs. \<exists>sb. de_signed_block de s = Some sb \<and> verify cry sv sb = Inr ())" by blast
    let ?r = "and_then counted (\<lambda>agg. if \<not> agg_reached_threshold quorum_is_threshold (cx_committee (sv_context sv)) agg
        then Inl (NotEnoughCommitVotes (sa_stake agg) peer c) else Inr ?cs)"
    have run: "verify_commits cry de sv peer start end_index scs sbs = Inr ?r"
      using Inr Some dc counted by (simp add: verify_commits_def)
    have quorum: "commits = ?cs \<and> (\<forall>s \<in> set sbs. \<exists>sb. de_signed_block de s = Some sb \<and> verify cry sv sb = Inr ()) \<and>
        reached_quorum cm (stake_of cm (commit_voters de (tc_reference (last ?cs)) sbs))" if "?r = Inr commits" for commits
    proof -
      from that obtain agg where agg: "counted = Inr agg" "agg_reached_threshold quorum_is_threshold cm agg" "commits = ?cs"
        by (auto simp: and_then_eq_Inr assms(2) split: if_splits)
      with spec [rule_format, OF agg(1)] trusted show ?thesis
        by (simp add: agg_inv_def agg_new_def agg_reached_threshold_def quorum_is_threshold_def)
    qed
    show ?thesis
    proof (rule exI, rule conjI [OF run], intro allI impI)
      fix commits assume r: "?r = Inr commits"
      then have eq: "commits = ?cs" using quorum by blast
      show "?good commits" unfolding eq using trusted quorum [OF r] by blast
    qed
  qed
qed (simp add: verify_commits_def)

section \<open>Fetched blocks\<close>

lemma match_blocks_refs:
  "match_blocks cry de peer refs sbs sers = Inr bs \<Longrightarrow> length sbs = length sers \<Longrightarrow> length refs = length sers \<Longrightarrow>
   map vb_reference bs = refs \<and> (\<forall>b \<in> set bs. vb_serialized b \<in> set sers \<and> vb_digest b = cy_hash cry (vb_serialized b))"
proof (induction cry de peer refs sbs sers arbitrary: bs rule: match_blocks.induct)
  case (1 cry de peer r refs sb sbs s rest)
  then obtain bs' where "match_blocks cry de peer refs sbs rest = Inr bs'" "bs = VerifiedBlock_new_verified cry sb s # bs'"
    "r = BlockRef (block_round (sb_inner sb)) (block_author (sb_inner sb)) (cy_hash cry s)"
    by (auto simp: and_then_eq_Inr Let_def split: if_splits)
  with 1 show ?case by (auto simp: VerifiedBlock_new_verified_def vb_defs)
qed simp_all

lemma check_commit_blocks_refs:
  assumes "check_commit_blocks cry de peer refs sers = Inr bs"
  shows "map vb_reference bs = refs \<and> (\<forall>b \<in> set bs. vb_digest b = cy_hash cry (vb_serialized b))"
  using assms match_blocks_refs [of cry de peer refs _ sers bs]
  by (auto simp: check_commit_blocks_def and_then_eq_Inr map_res_eq_Inr dest: list_all2_lengthD split: if_splits)

lemma concat_chunks_of [simp]: "0 < n \<Longrightarrow> concat (chunks_of n xs) = xs"
  by (induction n xs rule: chunks_of.induct) auto

lemma map_res_concat:
  assumes "map_res f xs = Inr yss" "\<And>x ys. f x = Inr ys \<Longrightarrow> map g ys = x \<and> (\<forall>y \<in> set ys. P y)"
  shows "map g (concat yss) = concat xs \<and> (\<forall>y \<in> set (concat yss). P y)"
  using assms(1)
proof (induction xs arbitrary: yss)
  case (Cons x xs)
  then obtain ys yss' where "f x = Inr ys" "map_res f xs = Inr yss'" "yss = ys # yss'" by (auto simp: and_then_eq_Inr)
  with Cons.IH assms(2) show ?case by auto
qed simp

lemma fetch_once_result:
  assumes "fetch_once cry de sv now answer fetch start end_index fs = Inr (Inr (commits, blocks), fs')"
  shows "\<exists>peer scs sbs bs. verify_commits cry de sv peer start end_index scs sbs = Inr (Inr commits) \<and>
    0 < pa_max_blocks_per_fetch (cx_parameters (sv_context sv)) \<and>
    map_res (\<lambda>refs. and_then (fetch refs) (check_commit_blocks cry de peer refs))
      (chunks_of (pa_max_blocks_per_fetch (cx_parameters (sv_context sv))) (concat (map tc_blocks commits))) = Inr bs \<and>
    blocks = concat bs"
proof -
  from assms obtain retries peer fs1 where pick: "pick_authority fs = Inr (retries, peer, fs1)"
    by (auto simp: fetch_once_def split: sum.split_asm)
  with assms obtain scs sbs where answer: "answer = Inr (scs, sbs)"
    by (auto simp: fetch_once_def split: sum.split_asm)
  with assms pick obtain verified where
    v: "verify_commits cry de sv peer start end_index scs sbs = Inr verified"
    by (auto simp: fetch_once_def and_then_eq_Inr Let_def)
  with assms pick answer show ?thesis
    by (cases verified) (auto simp: fetch_once_def and_then_eq_Inr Let_def)
qed

text \<open>A fetch that succeeds has verified commits and the blocks they name, in their order.\<close>

lemma fetch_loop_result:
  assumes "fetch_loop cry de sv start end_index attempts fs = Inr (Some (e, commits, blocks), fs')"
  shows "e = end_index \<and>
    (\<exists>peer scs sbs. verify_commits cry de sv peer start end_index scs sbs = Inr (Inr commits)) \<and>
    map vb_reference blocks = concat (map tc_blocks commits) \<and> (\<forall>b \<in> set blocks. vb_digest b = cy_hash cry (vb_serialized b))"
  using assms
proof (induction cry de sv start end_index attempts fs rule: fetch_loop.induct)
  case (2 cry de sv start end_index now answer fetch attempts fs)
  from 2(2) obtain result fs1 where once: "fetch_once cry de sv now answer fetch start end_index fs = Inr (result, fs1)"
    by (auto simp: and_then_eq_Inr)
  show ?case
  proof (cases result)
    case (Inl x)
    with 2(1) [OF once refl Inl] 2(2) once show ?thesis by simp
  next
    case (Inr cb)
    with 2(2) once have "result = Inr (commits, blocks)" "e = end_index" by (auto split: prod.splits)
    with once have "fetch_once cry de sv now answer fetch start end_index fs = Inr (Inr (commits, blocks), fs1)" by simp
    from fetch_once_result [OF this] obtain peer scs sbs bs where
      v: "verify_commits cry de sv peer start end_index scs sbs = Inr (Inr commits)"
      and n: "0 < pa_max_blocks_per_fetch (cx_parameters (sv_context sv))"
      and bs: "map_res (\<lambda>refs. and_then (fetch refs) (check_commit_blocks cry de peer refs))
        (chunks_of (pa_max_blocks_per_fetch (cx_parameters (sv_context sv))) (concat (map tc_blocks commits))) = Inr bs" "blocks = concat bs"
      by blast
    have "map vb_reference ys = x \<and> (\<forall>b \<in> set ys. vb_digest b = cy_hash cry (vb_serialized b))"
      if "and_then (fetch x) (check_commit_blocks cry de peer x) = Inr ys" for x ys
      using that check_commit_blocks_refs by (auto simp: and_then_eq_Inr)
    from map_res_concat [OF bs(1) this] v n bs(2) \<open>e = end_index\<close> show ?thesis by auto
  qed
qed simp

section \<open>No range is lost\<close>

text \<open>
  The states of the scheduling loop: after its start, a tick, or a fetch of a range that has ended, each followed by
  the start of new fetches.
\<close>

inductive sync_reachable ::
  "crypto \<Rightarrow> decoder \<Rightarrow> signed_block_verifier \<Rightarrow> (verified_block list \<Rightarrow> 'c \<Rightarrow> block_ref list option \<times> 'c)
     \<Rightarrow> commit_sync \<Rightarrow> 'c \<Rightarrow> bool"
  for cry de sv dispatch where
  sync_begin: "sync_reachable cry de sv dispatch (commit_sync_start ds) core"
| sync_tick: "sync_reachable cry de sv dispatch cs core \<Longrightarrow>
    quorum_commit_index cv + pa_commit_sync_batch_size (cx_parameters (sv_context sv)) < 2 ^ 32 \<Longrightarrow>
    schedule_tick (sv_context sv) cv ds cs = Inr cs' \<Longrightarrow>
    sync_reachable cry de sv dispatch (start_fetches (sv_context sv) cs') core"
| sync_fetched: "sync_reachable cry de sv dispatch cs core \<Longrightarrow> i < length (cs_inflight_fetches cs) \<Longrightarrow>
    fetch_loop cry de sv (fst (cs_inflight_fetches cs ! i)) (snd (cs_inflight_fetches cs ! i)) attempts fs =
      Inr (Some (e, commits, blocks), fs') \<Longrightarrow>
    handle_fetched dispatch ds i commits blocks cs core = Inr (Some cs', core') \<Longrightarrow>
    sync_reachable cry de sv dispatch (start_fetches (sv_context sv) cs') core'"

definition in_range :: "(commit_index \<times> commit_index) set \<Rightarrow> commit_index \<Rightarrow> bool" where
  "in_range R i \<longleftrightarrow> (\<exists>(s, e) \<in> R. s \<le> i \<and> i \<le> e)"

lemma in_range_simps [simp]:
  "in_range {} i = False" "in_range (insert (s, e) R) i \<longleftrightarrow> s \<le> i \<and> i \<le> e \<or> in_range R i"
  "in_range (R \<union> S) i \<longleftrightarrow> in_range R i \<or> in_range S i"
  by (auto simp: in_range_def)

definition open_ranges :: "commit_sync \<Rightarrow> (commit_index \<times> commit_index) set" where
  "open_ranges cs = set (cs_pending_fetches cs) \<union> set (cs_inflight_fetches cs)"

definition scheduled_to :: "commit_sync \<Rightarrow> commit_index" where
  "scheduled_to cs = (case cs_highest_scheduled_index cs of None \<Rightarrow> 0 | Some i \<Rightarrow> i)"

definition sync_covered :: "commit_sync \<Rightarrow> bool" where
  "sync_covered cs \<longleftrightarrow>
     (\<forall>i. cs_synced_commit_index cs < i \<and> i \<le> scheduled_to cs \<longrightarrow>
        in_range (open_ranges cs \<union> fst ` set (cs_fetched_blocks cs)) i) \<and>
     (\<forall>(s, e) \<in> open_ranges cs. e + 1 < 2 ^ 32)"

lemma start_fetches_covered: "sync_covered cs \<Longrightarrow> sync_covered (start_fetches cx cs)"
proof -
  let ?n = "target_parallel_fetches cx cs - length (cs_inflight_fetches cs)"
  have "set (take ?n (cs_pending_fetches cs)) \<union> set (drop ?n (cs_pending_fetches cs)) = set (cs_pending_fetches cs)"
    by (metis append_take_drop_id set_append)
  then have "open_ranges (start_fetches cx cs) = open_ranges cs" by (auto simp: start_fetches_def Let_def open_ranges_def)
  then show "sync_covered cs \<Longrightarrow> sync_covered (start_fetches cx cs)"
    by (simp add: sync_covered_def start_fetches_def Let_def scheduled_to_def)
qed

lemma schedule_ranges_spec:
  assumes "0 < batch" "q + batch < 2 ^ 32" "scheduled_to cs \<le> f + k * batch" "n \<le> (q - f) div batch + 1" "f \<le> q"
    and "cs' = schedule_ranges batch q (map (\<lambda>i. f + i * batch) [k..<n]) cs"
  shows "(\<forall>i. f + k * batch < i \<and> i \<le> scheduled_to cs' \<longrightarrow> in_range (open_ranges cs') i) \<and>
    open_ranges cs \<subseteq> open_ranges cs' \<and> (\<forall>s e. (s, e) \<in> open_ranges cs' \<longrightarrow> (s, e) \<in> open_ranges cs \<or> e \<le> q) \<and>
    scheduled_to cs \<le> scheduled_to cs' \<and>
    cs_inflight_fetches cs' = cs_inflight_fetches cs \<and> cs_fetched_blocks cs' = cs_fetched_blocks cs \<and>
    cs_synced_commit_index cs' = cs_synced_commit_index cs"
  using assms(3,6)
proof (induction "n - k" arbitrary: k cs)
  case (Suc m)
  let ?p = "f + k * batch"
  have k: "k < n" using Suc.hyps(2) by simp
  have "k \<le> (q - f) div batch" using k assms(4) by linarith
  then have "k * batch \<le> q - f" using assms(1) by (simp add: less_eq_div_iff_mult_less_eq)
  then have "?p + batch < 2 ^ 32" using assms(2,5) by linarith
  then have p: "u32_add ?p 1 = ?p + 1" "u32_add ?p batch = ?p + batch" using assms(1) by (simp_all add: u32_add_def)
  have split: "map (\<lambda>i. f + i * batch) [k..<n] = ?p # map (\<lambda>i. f + i * batch) [Suc k..<n]"
    using k by (simp add: upt_conv_Cons)
  show ?case
  proof (cases "?p + batch > q")
    case True
    then have "cs' = cs" using Suc.prems(2) p unfolding split by simp
    with Suc.prems(1) show ?thesis by auto
  next
    case False
    let ?cs = "cs\<lparr> cs_pending_fetches := bs_insert (?p + 1, ?p + batch) (cs_pending_fetches cs),
                  cs_highest_scheduled_index := Some (?p + batch) \<rparr>"
    have "cs' = schedule_ranges batch q (map (\<lambda>i. f + i * batch) [Suc k..<n]) ?cs"
      using Suc.prems(2) p False unfolding split by (simp add: Let_def)
    moreover have "scheduled_to ?cs \<le> f + Suc k * batch" by (simp add: scheduled_to_def)
    ultimately have ih: "(\<forall>i. f + Suc k * batch < i \<and> i \<le> scheduled_to cs' \<longrightarrow> in_range (open_ranges cs') i) \<and>
      open_ranges ?cs \<subseteq> open_ranges cs' \<and> (\<forall>s e. (s, e) \<in> open_ranges cs' \<longrightarrow> (s, e) \<in> open_ranges ?cs \<or> e \<le> q) \<and>
      scheduled_to ?cs \<le> scheduled_to cs' \<and>
      cs_inflight_fetches cs' = cs_inflight_fetches ?cs \<and> cs_fetched_blocks cs' = cs_fetched_blocks ?cs \<and>
      cs_synced_commit_index cs' = cs_synced_commit_index ?cs"
      using Suc.hyps(1) [of "Suc k" ?cs] Suc.hyps(2) by simp
    have ranges: "open_ranges ?cs = insert (?p + 1, ?p + batch) (open_ranges cs)" by (auto simp: open_ranges_def)
    have "(?p + 1, ?p + batch) \<in> open_ranges cs'" using ih unfolding ranges by blast
    then have first: "in_range (open_ranges cs') i" if "?p < i" "i \<le> ?p + batch" for i
      using that unfolding in_range_def by (intro bexI [of _ "(?p + 1, ?p + batch)"]) auto
    have next_eq: "f + Suc k * batch = ?p + batch" by simp
    have "in_range (open_ranges cs') i" if "?p < i" "i \<le> scheduled_to cs'" for i
      using first [of i] ih that unfolding next_eq by (cases "i \<le> ?p + batch") auto
    moreover have "scheduled_to cs \<le> scheduled_to cs'" using ih Suc.prems(1) by (simp add: scheduled_to_def)
    moreover have "\<forall>s e. (s, e) \<in> open_ranges cs' \<longrightarrow> (s, e) \<in> open_ranges cs \<or> e \<le> q"
      using ih False unfolding ranges by (metis insert_iff not_le prod.inject)
    ultimately show ?thesis using ih unfolding ranges by simp
  qed
qed auto

lemma schedule_tick_covered:
  assumes "sync_covered cs" "schedule_tick cx cv ds cs = Inr cs'"
    and "quorum_commit_index cv + pa_commit_sync_batch_size (cx_parameters cx) < 2 ^ 32"
  shows "sync_covered cs'"
proof -
  let ?q = "quorum_commit_index cv" and ?b = "pa_commit_sync_batch_size (cx_parameters cx)"
  let ?synced = "max (cs_synced_commit_index cs) (last_commit_index ds)"
  let ?f = "max ?synced (scheduled_to cs)"
  let ?cs = "cs\<lparr> cs_synced_commit_index := ?synced \<rparr>"
  from assms(2) have b: "0 < ?b" and cs': "cs' = schedule_ranges ?b ?q (stepped_range ?f ?q ?b) ?cs"
    by (auto simp: schedule_tick_def Let_def and_then_eq_Inr scheduled_to_def)
  have same: "open_ranges ?cs = open_ranges cs" "scheduled_to ?cs = scheduled_to cs" by (simp_all add: open_ranges_def scheduled_to_def)
  have keep: "sync_covered ?cs" using assms(1) by (auto simp: sync_covered_def same)
  show ?thesis
  proof (cases "?q < ?f")
    case True
    with cs' keep show ?thesis by (simp add: stepped_range_def)
  next
    case False
    have cs'': "cs' = schedule_ranges ?b ?q (map (\<lambda>i. ?f + i * ?b) [0..<(?q - ?f) div ?b + 1]) ?cs"
      using cs' False by (simp only: stepped_range_def if_False)
    have "scheduled_to ?cs \<le> ?f + 0 * ?b" by (simp add: same)
    from schedule_ranges_spec [OF b assms(3) this order_refl _ cs''] False same
    have ih: "\<forall>i. ?f < i \<and> i \<le> scheduled_to cs' \<longrightarrow> in_range (open_ranges cs') i"
      "open_ranges cs \<subseteq> open_ranges cs'" "\<forall>s e. (s, e) \<in> open_ranges cs' \<longrightarrow> (s, e) \<in> open_ranges cs \<or> e \<le> ?q"
      "cs_fetched_blocks cs' = cs_fetched_blocks cs" "cs_synced_commit_index cs' = ?synced"
      by (simp_all add: not_less)
    have "in_range (open_ranges cs' \<union> fst ` set (cs_fetched_blocks cs)) i" if "?synced < i" "i \<le> scheduled_to cs'" for i
    proof (cases "i \<le> scheduled_to cs")
      case True
      with keep that have "in_range (open_ranges cs \<union> fst ` set (cs_fetched_blocks cs)) i" by (simp add: sync_covered_def same)
      with ih(2) show ?thesis by (auto simp: in_range_def)
    next
      case False
      with that ih(1) show ?thesis by simp
    qed
    moreover have "e + 1 < 2 ^ 32" if "(s, e) \<in> open_ranges cs'" for s e
    proof (cases "(s, e) \<in> open_ranges cs")
      case True
      with assms(1) show ?thesis by (auto simp: sync_covered_def)
    next
      case False
      with ih(3) that have "e \<le> ?q" by auto
      with b assms(3) show ?thesis by linarith
    qed
    ultimately show ?thesis using ih(4,5) by (auto simp: sync_covered_def)
  qed
qed

text \<open>Sending fetched blocks drops a range only when it is synced, and syncs an index only when it was fetched.\<close>

lemma send_fetched_covered:
  assumes "send_fetched dispatch fetched synced core = (Some (fetched', synced'), core')"
  shows "synced \<le> synced' \<and> (\<forall>i > synced'. in_range (fst ` set fetched) i \<longrightarrow> in_range (fst ` set fetched') i) \<and>
    (\<forall>i. synced < i \<and> i \<le> synced' \<longrightarrow> in_range (fst ` set fetched) i)"
  using assms
proof (induction dispatch fetched synced core rule: send_fetched.induct)
  case (2 dispatch start e blocks fetched synced core)
  have le: "start \<le> synced + 1" if "start \<le> u32_add synced 1"
    using that by (metis le_trans mod_less_eq_dividend u32_add_def)
  show ?case
  proof (cases "start \<le> u32_add synced 1 \<and> \<not> e \<le> synced")
    case False
    with 2 show ?thesis by (auto split: if_splits)
  next
    case True
    obtain r core1 where d: "dispatch blocks core = (r, core1)" by fastforce
    with True 2(3) obtain refs where r: "r = Some refs" by (cases r) auto
    have "synced < e" using True by simp
    then have mx: "max synced e = e" by simp
    have "send_fetched dispatch fetched e core1 = (Some (fetched', synced'), core')" using 2(3) True d r mx by simp
    with 2(2) True d r mx have ih: "e \<le> synced' \<and>
        (\<forall>i > synced'. in_range (fst ` set fetched) i \<longrightarrow> in_range (fst ` set fetched') i) \<and>
        (\<forall>i. e < i \<and> i \<le> synced' \<longrightarrow> in_range (fst ` set fetched) i)" by simp
    have "start \<le> i \<and> i \<le> e \<or> e < i" if "synced < i" for i using le True that by linarith
    with ih \<open>synced < e\<close> show ?thesis by auto
  qed
qed simp

lemma handle_fetched_covered:
  assumes "sync_covered cs" "handle_fetched dispatch ds i commits blocks cs core = Inr (Some cs', core')"
    and "i < length (cs_inflight_fetches cs)" "cs_inflight_fetches cs ! i = (s, e)"
    and "tc_index (hd commits) = s" "tc_index (last commits) \<le> e"
  shows "sync_covered cs'"
proof -
  let ?rest = "take i (cs_inflight_fetches cs) @ drop (Suc i) (cs_inflight_fetches cs)"
  let ?top = "tc_index (last commits)"
  let ?synced = "max (cs_synced_commit_index cs) (last_commit_index ds)"
  let ?pending = "if ?top < e then bs_insert (u32_add ?top 1, e) (cs_pending_fetches cs) else cs_pending_fetches cs"
  let ?fetched = "if ?synced < ?top then bm_insert (s, ?top) blocks (cs_fetched_blocks cs) else cs_fetched_blocks cs"
  from assms(2-5) obtain fetched' synced' where
    send: "send_fetched dispatch ?fetched ?synced core = (Some (fetched', synced'), core')" and
    cs': "cs' = cs\<lparr> cs_inflight_fetches := ?rest, cs_pending_fetches := ?pending, cs_fetched_blocks := fetched',
      cs_synced_commit_index := synced' \<rparr>"
    by (auto simp: handle_fetched_def Let_def and_then_eq_Inr cong: if_cong split: prod.split_asm option.split_asm)
  have inflight: "set (cs_inflight_fetches cs) = insert (s, e) (set ?rest)"
    using arg_cong [OF id_take_nth_drop [OF assms(3)], of set] assms(4) by simp
  have e: "e + 1 < 2 ^ 32" and bounds: "\<forall>(s, e) \<in> open_ranges cs. e + 1 < 2 ^ 32"
    using assms(1) inflight by (auto simp: sync_covered_def open_ranges_def)
  then have u: "u32_add ?top 1 = ?top + 1" using assms(6) by (simp add: u32_add_def)
  note sent = send_fetched_covered [OF send]
  have "in_range (open_ranges cs' \<union> fst ` set (cs_fetched_blocks cs')) j" if j: "synced' < j" "j \<le> scheduled_to cs'" for j
  proof -
    have "cs_synced_commit_index cs < j" "j \<le> scheduled_to cs" "?synced < j"
      using j sent by (auto simp: cs' scheduled_to_def)
    with assms(1) have "in_range (open_ranges cs \<union> fst ` set (cs_fetched_blocks cs)) j" by (simp add: sync_covered_def)
    then consider "in_range (set (cs_pending_fetches cs) \<union> set ?rest) j" | "s \<le> j \<and> j \<le> e" | "in_range (fst ` set (cs_fetched_blocks cs)) j"
      unfolding open_ranges_def inflight by auto
    then show ?thesis
    proof cases
      case 1
      then show ?thesis by (auto simp: cs' open_ranges_def)
    next
      case 2
      show ?thesis
      proof (cases "j \<le> ?top")
        case True
        then have "in_range (fst ` set ?fetched) j" using 2 \<open>?synced < j\<close> by simp
        with sent j show ?thesis by (auto simp: cs')
      next
        case False
        with 2 u show ?thesis by (auto simp: cs' open_ranges_def)
      qed
    next
      case 3
      then have "in_range (fst ` set ?fetched) j" by simp
      with sent j show ?thesis by (auto simp: cs')
    qed
  qed
  moreover have "\<forall>(s, e) \<in> open_ranges cs'. e + 1 < 2 ^ 32"
    using bounds e unfolding open_ranges_def inflight cs' by auto
  ultimately show ?thesis by (simp add: sync_covered_def cs')
qed

lemma sync_reachable_covered:
  assumes "sync_reachable cry de sv dispatch cs core" "committee_wf (cx_committee (sv_context sv))"
  shows "sync_covered cs"
  using assms(1)
proof induction
  case (sync_begin ds core)
  then show ?case by (simp add: sync_covered_def commit_sync_start_def scheduled_to_def open_ranges_def)
next
  case (sync_tick cs core cv ds cs')
  from schedule_tick_covered [OF sync_tick.IH sync_tick.hyps(3,2)] show ?case by (rule start_fetches_covered)
next
  case (sync_fetched cs core i attempts fs e commits blocks fs' ds cs' core')
  obtain a b where ab: "cs_inflight_fetches cs ! i = (a, b)" by fastforce
  have "(a, b) \<in> open_ranges cs" using sync_fetched.hyps(2) ab nth_mem by (fastforce simp: open_ranges_def)
  with sync_fetched.IH have b: "b + 1 < 2 ^ 32" by (auto simp: sync_covered_def)
  from fetch_loop_result [OF sync_fetched.hyps(3)] obtain peer scs sbs where
    v: "verify_commits cry de sv peer a b scs sbs = Inr (Inr commits)" unfolding ab fst_conv snd_conv by blast
  from verify_commits_spec [OF assms(2) refl b, of cry de peer a scs sbs]
  have c: "commits \<noteq> []" "commit_chain a (map (\<lambda>c. (tc_digest c, tc_inner c)) commits)" "tc_index (last commits) \<le> b"
    unfolding v by simp_all
  then have "tc_index (hd commits) = a"
    by (cases commits) (auto simp: commit_chain_def tc_defs upt_conv_Cons simp del: upt_Suc)
  with handle_fetched_covered [OF sync_fetched.IH sync_fetched.hyps(4,2) ab] c(3) show ?case by (intro start_fetches_covered) simp
qed

section \<open>Properties\<close>

text \<open>C34: The quorum commit index is the largest index that a quorum has reached: the authorities whose highest
  voted commit is at least that index hold a quorum of stake, and for no larger index do they.\<close>

theorem quorum_commit_index_is_the_largest:
  assumes "committee_wf (cx_committee (cv_context cv))"
    and "length (cv_highest_voted_commits cv) = committee_size (cx_committee (cv_context cv))"
  shows "reached_quorum (cx_committee (cv_context cv)) (stake_of (cx_committee (cv_context cv)) (voters_from cv i)) \<longleftrightarrow>
    i \<le> quorum_commit_index cv"
proof -
  let ?cm = "cx_committee (cv_context cv)"
  have ok: "monitor_ok cv" using assms by (simp add: monitor_ok_def)
  note spec = quorum_commit_index_spec [OF ok refl]
  have "voters_from cv (quorum_commit_index cv) \<subseteq> voters_from cv i" "voters_from cv i \<subseteq> members ?cm" if "i \<le> quorum_commit_index cv"
    using that by (auto simp: voters_from_def)
  then have "reached_quorum ?cm (stake_of ?cm (voters_from cv i))" if "i \<le> quorum_commit_index cv"
    using spec that quorum_thr.reached_mono [of "voters_from cv (quorum_commit_index cv)" "voters_from cv i" ?cm]
    by (simp add: quorum_is_threshold_def)
  with spec show ?thesis by (meson not_le)
qed

theorem quorum_commit_index_is_the_largest_witness:
  "5 \<le> quorum_commit_index \<lparr> cv_context = ex_context, cv_highest_voted_commits = [5, 9, 0, 7] \<rparr> \<and>
   \<not> 6 \<le> quorum_commit_index \<lparr> cv_context = ex_context, cv_highest_voted_commits = [5, 9, 0, 7] \<rparr>"
proof -
  let ?cv = "\<lparr> cv_context = ex_context, cv_highest_voted_commits = [5, 9, 0, 7] \<rparr>"
  have cm: "cx_committee (cv_context ?cv) = ex_committee" by (simp add: ex_context_def)
  have lt: "a < 4 \<longleftrightarrow> a = 0 \<or> a = 1 \<or> a = 2 \<or> a = 3" for a :: nat by auto
  have "voters_from ?cv 5 = {0, 1, 3}" "voters_from ?cv 6 = {1, 3}"
    unfolding voters_from_def cm ex_members lt by auto
  then have "stake_of ex_committee (voters_from ?cv 5) = 3" "stake_of ex_committee (voters_from ?cv 6) = 2"
    by (simp_all add: ex_stake_of)
  then show ?thesis
    using quorum_commit_index_is_the_largest [of ?cv 5] quorum_commit_index_is_the_largest [of ?cv 6]
    unfolding cm ex_thresholds by simp
qed

text \<open>C35: What a fetch of commits returns to the scheduling loop is certified: the commits are non-empty, numbered from the
  start of the range and not beyond its end, each names the digest of the one before, a quorum of stake has voted for the last
  in blocks that all passed the verifier, and the blocks are those the commits name, in their order.\<close>

theorem fetched_commits_are_certified:
  assumes "fetch_loop cry de sv start end_index attempts fs = Inr (Some (e, commits, blocks), fs')"
    and "committee_wf (cx_committee (sv_context sv))" "end_index + 1 < 2 ^ 32"
  shows "commits \<noteq> [] \<and> commit_chain start (map (\<lambda>c. (tc_digest c, tc_inner c)) commits) \<and> tc_index (last commits) \<le> end_index \<and>
    (\<exists>sbs. (\<forall>s \<in> set sbs. \<exists>sb. de_signed_block de s = Some sb \<and> verify cry sv sb = Inr ()) \<and>
      reached_quorum (cx_committee (sv_context sv))
        (stake_of (cx_committee (sv_context sv)) (commit_voters de (tc_reference (last commits)) sbs))) \<and>
    map vb_reference blocks = concat (map tc_blocks commits)"
proof -
  from fetch_loop_result [OF assms(1)] obtain peer scs sbs where
    v: "verify_commits cry de sv peer start end_index scs sbs = Inr (Inr commits)"
    and "map vb_reference blocks = concat (map tc_blocks commits)" by blast
  moreover from verify_commits_spec [OF assms(2) refl assms(3), of cry de peer start scs sbs]
  have "commits \<noteq> []" "commit_chain start (map (\<lambda>c. (tc_digest c, tc_inner c)) commits)" "tc_index (last commits) \<le> end_index"
    "(\<forall>s \<in> set sbs. \<exists>sb. de_signed_block de s = Some sb \<and> verify cry sv sb = Inr ()) \<and>
      reached_quorum (cx_committee (sv_context sv))
        (stake_of (cx_committee (sv_context sv)) (commit_voters de (tc_reference (last commits)) sbs))"
    unfolding v by simp_all
  ultimately show ?thesis by blast
qed

text \<open>Blocks of three authors of the example that vote for its first commit.\<close>

definition ex_certified_commit :: commit where
  "ex_certified_commit = Commit_new 1 0 5 (BlockRef 1 0 0) []"

definition ex_commit_vote :: commit_vote where
  "ex_commit_vote = CommitRef 1 (cy_hash ex_crypto [])"

definition ex_vote :: "authority_index \<Rightarrow> block" where
  "ex_vote a = V1 (block_v1_new 0 1 a 5 (map (\<lambda>i. vb_reference (ex_genesis ! i)) [a, (a + 1) mod 4, (a + 2) mod 4]) []
     [ex_commit_vote] [])"

definition ex_vote_signed :: "authority_index \<Rightarrow> signed_block" where
  "ex_vote_signed a = \<lparr> sb_inner = ex_vote a, sb_signature = [ucast (cy_hash ex_crypto (ex_block_bytes (ex_vote a)))] \<rparr>"

definition ex_vote_decoder :: decoder where
  "ex_vote_decoder = \<lparr> de_signed_block = \<lambda>s. Some (ex_vote_signed (length s)), de_commit = \<lambda>s. Some ex_certified_commit \<rparr>"

lemma ex_vote_verifies:
  assumes "a < 3"
  shows "verify ex_crypto ex_verifier (ex_vote_signed a) = Inr ()"
proof -
  have a: "a = 0 \<or> a = 1 \<or> a = 2" using assms by auto
  have g: "br_author (vb_reference (ex_genesis ! i)) = i" "br_round (vb_reference (ex_genesis ! i)) = 0"
    "vb_reference (ex_genesis ! i) \<in> vb_reference ` set ex_genesis" if "i < 4" for i
    using ex_genesis_nth [OF that] that by auto
  have ctx: "cx_committee (sv_context ex_verifier) = ex_committee" by (simp add: ex_verifier_def ex_context_def)
  have epoch: "cm_epoch ex_committee = 0" by (simp add: ex_committee_def)
  have "parents (ex_vote a) = (\<lambda>i. vb_reference (ex_genesis ! i)) ` {a, (a + 1) mod 4, (a + 2) mod 4}"
    using g [of 0] g [of 1] g [of 2] g [of 3] g [of "Suc (Suc 0)"] g [of "Suc (Suc (Suc 0))"] a by (auto simp: parents_def ex_vote_def block_v1_new_def)
  then have "br_author ` parents (ex_vote a) = {a, (a + 1) mod 4, (a + 2) mod 4}"
    using g [of 0] g [of 1] g [of 2] g [of 3] g [of "Suc (Suc 0)"] g [of "Suc (Suc (Suc 0))"] a by auto
  then have wf: "block_well_formed ex_committee (set (map vb_reference ex_genesis)) (ex_vote a)"
    using g [of 0] g [of 1] g [of 2] g [of 3] g [of "Suc (Suc 0)"] g [of "Suc (Suc (Suc 0))"] a epoch
    by (elim disjE) (simp_all add: block_well_formed_def ex_vote_def block_v1_new_def ex_members ex_stake_of ex_thresholds card_insert_if)
  have "verify_signature ex_crypto ex_committee (ex_vote_signed a) = Inr ()"
    using ex_signature [of "ex_vote a"] assms
    by (simp add: verify_signature_def Let_def ex_vote_signed_def is_valid_index_def) (simp add: ex_vote_def block_v1_new_def)
  with wf show ?thesis
    using verify_eq [OF ex_committee_wf ctx [symmetric], of ex_crypto "ex_vote_signed a"]
    by (simp add: ex_verifier_def ex_vote_signed_def NoopTransactionVerifier_def)
qed

lemma ex_verify_commits:
  "verify_commits ex_crypto ex_vote_decoder ex_verifier 1 1 9 [[]] [[], [0], [0, 0]] =
     Inr (Inr [TrustedCommit_new_trusted ex_crypto ex_certified_commit []])"
proof -
  have ctx: "cx_committee (sv_context ex_verifier) = ex_committee" by (simp add: ex_verifier_def ex_context_def)
  have v: "verify ex_crypto ex_verifier (ex_vote_signed 0) = Inr ()" "verify ex_crypto ex_verifier (ex_vote_signed (Suc 0)) = Inr ()"
    "verify ex_crypto ex_verifier (ex_vote_signed (Suc (Suc 0))) = Inr ()" by (simp_all add: ex_vote_verifies)
  have sel: "block_author (sb_inner (ex_vote_signed a)) = a" "block_commit_votes (sb_inner (ex_vote_signed a)) = [ex_commit_vote]" for a
    by (simp_all add: ex_vote_signed_def ex_vote_def block_v1_new_def)
  have c: "commit_index_of ex_certified_commit = 1" by (simp add: ex_certified_commit_def)
  have stake: "committee_stake ex_committee i = Inr 1" if "i < 4" for i
    using that by (simp add: committee_stake_valid ex_members) (simp add: ex_committee_def ex_authority_def)
  show ?thesis
    unfolding verify_commits_def ctx
    by (simp add: ex_vote_decoder_def ok_or_def c count_votes_def v sel ctx agg_add_all_def agg_add_def agg_new_def
        ex_commit_vote_def stake bs_insert_def quorum_is_threshold_def ex_thresholds u64_add_def
        agg_reached_threshold_def)
qed

theorem fetched_commits_are_certified_witness:
  "\<exists>commits blocks fs.
     fetch_loop ex_crypto ex_vote_decoder ex_verifier 1 9
       [(0, Inl NetworkRequest, \<lambda>_. Inl NetworkRequest), (1, Inr ([[]], [[], [0], [0, 0]]), \<lambda>_. Inl NetworkRequest)] [(0, 0, 1)] =
       Inr (Some (9, commits, blocks), fs) \<and>
     (\<exists>sbs. (\<forall>s \<in> set sbs. \<exists>sb. de_signed_block ex_vote_decoder s = Some sb \<and> verify ex_crypto ex_verifier sb = Inr ()) \<and>
       reached_quorum ex_committee (stake_of ex_committee (commit_voters ex_vote_decoder (tc_reference (last commits)) sbs)))"
proof -
  let ?commits = "[TrustedCommit_new_trusted ex_crypto ex_certified_commit []]"
  have ctx: "cx_committee (sv_context ex_verifier) = ex_committee" by (simp add: ex_verifier_def ex_context_def)
  have n: "pa_max_blocks_per_fetch (cx_parameters (sv_context ex_verifier)) = 10" by (simp add: ex_verifier_def ex_context_def)
  have "tc_blocks (TrustedCommit_new_trusted ex_crypto ex_certified_commit []) = []" by (simp add: tc_defs ex_certified_commit_def)
  then have run: "fetch_loop ex_crypto ex_vote_decoder ex_verifier 1 9
      [(0, Inl NetworkRequest, \<lambda>_. Inl NetworkRequest), (1, Inr ([[]], [[], [0], [0, 0]]), \<lambda>_. Inl NetworkRequest)] [(0, 0, 1)] =
      Inr (Some (9, ?commits, []), [(1, 0, 1)])"
    by (simp add: fetch_once_def pick_authority_def return_authority_def bs_insert_def ex_verify_commits [simplified] n)
  from fetched_commits_are_certified [OF this]
  have "\<exists>sbs. (\<forall>s \<in> set sbs. \<exists>sb. de_signed_block ex_vote_decoder s = Some sb \<and> verify ex_crypto ex_verifier sb = Inr ()) \<and>
      reached_quorum ex_committee (stake_of ex_committee (commit_voters ex_vote_decoder (tc_reference (last ?commits)) sbs))"
    unfolding ctx by simp
  with run show ?thesis by blast
qed

text \<open>C37: No range of commits is lost: in every state of the scheduling loop, each commit above the synced index and up
  to the highest scheduled index lies in a range that is waiting to be fetched, is being fetched, or is fetched and
  waiting for the ranges before it, whatever the order in which fetches end and however few commits each returns.\<close>

theorem no_commit_range_is_lost:
  assumes "sync_reachable cry de sv dispatch cs core" "committee_wf (cx_committee (sv_context sv))"
    and "cs_highest_scheduled_index cs = Some highest" "cs_synced_commit_index cs < i" "i \<le> highest"
  shows "\<exists>(s, e) \<in> set (cs_pending_fetches cs) \<union> set (cs_inflight_fetches cs) \<union> fst ` set (cs_fetched_blocks cs).
    s \<le> i \<and> i \<le> e"
  using sync_reachable_covered [OF assms(1,2)] assms(3-5)
  by (simp add: sync_covered_def scheduled_to_def open_ranges_def in_range_def)

theorem no_commit_range_is_lost_witness:
  "\<exists>cs. sync_reachable ex_crypto ex_vote_decoder ex_verifier (\<lambda>_ core. (Some [], core)) cs () \<and>
     (\<exists>(s, e) \<in> set (cs_pending_fetches cs) \<union> set (cs_inflight_fetches cs) \<union> fst ` set (cs_fetched_blocks cs). s \<le> 3 \<and> 3 \<le> e)"
proof -
  let ?cv = "\<lparr> cv_context = ex_context, cv_highest_voted_commits = [5, 9, 0, 7] \<rparr>"
  let ?cs = "\<lparr> cs_pending_fetches = [(1, 5)], cs_inflight_fetches = [], cs_fetched_blocks = [],
    cs_highest_scheduled_index = Some 5, cs_synced_commit_index = 0 \<rparr>"
  have ctx: "sv_context ex_verifier = ex_context" "cx_committee ex_context = ex_committee"
    "pa_commit_sync_batch_size (cx_parameters ex_context) = 5" by (simp_all add: ex_verifier_def ex_context_def)
  have votes: "vote_list ?cv = [(5, 1), (9, 1), (0, 1), (7, 1)]"
    by (simp add: committee_authorities_def ex_context_def ex_committee_def ex_authority_def numeral_nat)
  have "cm_quorum_threshold ex_committee = 3" by (simp add: ex_committee_def)
  then have q: "quorum_commit_index ?cv = 5"
    using votes by (simp add: quorum_commit_index_def ctx u64_add_def)
  have "last_commit_index ex_dag = 0" by (simp add: ex_dag_def fresh_state_def last_commit_index_def)
  then have "schedule_tick ex_context ?cv ex_dag (commit_sync_start ex_dag) = Inr ?cs"
    by (simp add: schedule_tick_def Let_def q ctx commit_sync_start_def stepped_range_def u32_add_def bs_insert_def)
  with q have reach: "sync_reachable ex_crypto ex_vote_decoder ex_verifier (\<lambda>_ core. (Some [], core)) (start_fetches ex_context ?cs) ()"
    using sync_tick [OF sync_begin [of ex_crypto ex_vote_decoder ex_verifier "\<lambda>_ core. (Some [], core)" ex_dag "()"],
        of ?cv ex_dag ?cs] unfolding ctx by simp
  have "cs_highest_scheduled_index (start_fetches ex_context ?cs) = Some 5" "cs_synced_commit_index (start_fetches ex_context ?cs) < 3"
    by (simp_all add: start_fetches_def Let_def)
  from no_commit_range_is_lost [OF reach _ this, unfolded ctx, OF ex_committee_wf]
  have "\<exists>(s, e) \<in> set (cs_pending_fetches (start_fetches ex_context ?cs)) \<union> set (cs_inflight_fetches (start_fetches ex_context ?cs)) \<union>
      fst ` set (cs_fetched_blocks (start_fetches ex_context ?cs)). s \<le> 3 \<and> 3 \<le> e" by simp
  with reach show ?thesis by (intro exI [of _ "start_fetches ex_context ?cs"] conjI)
qed

end
