(* ===== verification/Commit_Observer.thy ===== *)
theory Commit_Observer
  imports Leader_Schedule Commit_Sequence
begin

text \<open>
  The commit observer (\<^verbatim>\<open>consensus/core/src/commit_observer.rs\<close>): committed leaders are linearized, and the
  sub-dags are sent to the consumer of consensus output with the current reputation scores. When a validator
  starts, commits that the consumer has not processed are sent again from the store. The schedule that the source shares
  through an \<open>Arc\<close> is an argument, and metrics are left out.
\<close>

section \<open>Sending\<close>

text \<open>The output channel: what was sent, and whether the consumer still holds the receiver.\<close>

record commit_observer =
  ob_sent :: "committed_sub_dag list"
  ob_consumer_alive :: bool

definition sender_send :: "committed_sub_dag \<Rightarrow> commit_observer \<Rightarrow> commit_observer option" where
  "sender_send sd ob = (if ob_consumer_alive ob then Some (ob\<lparr> ob_sent := ob_sent ob @ [sd] \<rparr>) else None)"

fun send_sub_dags ::
  "(authority_index \<times> nat) list \<Rightarrow> committed_sub_dag list \<Rightarrow> committed_sub_dag list \<Rightarrow> commit_observer
     \<Rightarrow> committed_sub_dag list consensus_result \<times> commit_observer" where
  "send_sub_dags scores [] sent ob = (Inr sent, ob)"
| "send_sub_dags scores (sd # sds) sent ob =
     (let sd' = update_scores scores sd in
      case sender_send sd' ob of
        None \<Rightarrow> (Inl Shutdown, ob)
      | Some ob' \<Rightarrow> send_sub_dags scores sds (sent @ [sd']) ob')"

definition observer_handle_commit ::
  "crypto \<Rightarrow> leader_schedule \<Rightarrow> verified_block list \<Rightarrow> commit_observer \<Rightarrow> dag_state
     \<Rightarrow> (committed_sub_dag list consensus_result \<times> commit_observer \<times> dag_state) res" where
  "observer_handle_commit cry ls committed_leaders ob ds =
     and_then (linearizer_handle_commit cry committed_leaders ds) (\<lambda>(sub_dags, ds').
       let (result, ob') = send_sub_dags (lt_reputation_scores_desc (le_leader_swap_table ls)) sub_dags [] ob
       in Inr (result, ob', ds'))"

section \<open>Recovery\<close>

text \<open>The loop over the commits to send again; the last one carries the scores.\<close>

fun resend_commits ::
  "mem_store \<Rightarrow> leader_schedule \<Rightarrow> trusted_commit list \<Rightarrow> commit_index \<Rightarrow> commit_observer \<Rightarrow> commit_observer res" where
  "resend_commits ms ls [] last_sent ob = Inr ob"
| "resend_commits ms ls (c # commits) last_sent ob =
     and_then (assert_that (tc_index c = u32_add last_sent 1) (CommitPanic CommitIndexNotContinuous)) (\<lambda>_.
     and_then (load_committed_subdag_from_store ms c) (\<lambda>sd.
     let sd' = (if commits = [] then update_scores (lt_reputation_scores_desc (le_leader_swap_table ls)) sd else sd) in
     and_then (expect (sender_send sd' ob) (CommitPanic SendFailed)) (\<lambda>ob'.
       resend_commits ms ls commits (u32_add last_sent 1) ob')))"

definition recover_and_send_commits ::
  "mem_store \<Rightarrow> leader_schedule \<Rightarrow> commit_index \<Rightarrow> commit_observer \<Rightarrow> commit_observer res" where
  "recover_and_send_commits ms ls last_processed ob =
     (let last_commit = mem_read_last_commit ms in
      and_then (assert_that (\<forall>c \<in> set_option last_commit. last_processed \<le> tc_index c) (CommitPanic ConsumerAheadOfStore)) (\<lambda>_.
      if map_option tc_index last_commit = Some last_processed then Inr ob
      else
        and_then (mem_scan_commits ms (CommitRange (u32_add last_processed 1) u32_max)) (\<lambda>unsent.
          resend_commits ms ls unsent last_processed ob)))"

definition CommitObserver_new ::
  "mem_store \<Rightarrow> leader_schedule \<Rightarrow> commit_index \<Rightarrow> bool \<Rightarrow> commit_observer res" where
  "CommitObserver_new ms ls last_processed consumer_alive =
     recover_and_send_commits ms ls last_processed \<lparr> ob_sent = [], ob_consumer_alive = consumer_alive \<rparr>"

section \<open>Behaviour\<close>

lemma send_sub_dags_eq:
  "ob_consumer_alive ob \<Longrightarrow> send_sub_dags scores sds sent ob =
     (Inr (sent @ map (update_scores scores) sds), ob\<lparr> ob_sent := ob_sent ob @ map (update_scores scores) sds \<rparr>)"
  by (induction scores sds sent ob rule: send_sub_dags.induct) (auto simp: sender_send_def Let_def)

lemma send_sub_dags_closed:
  "\<not> ob_consumer_alive ob \<Longrightarrow> send_sub_dags scores sds sent ob = (if sds = [] then Inr sent else Inl Shutdown, ob)"
  by (cases sds) (auto simp: sender_send_def)

end
