(* ===== verification/Observer_Properties.thy ===== *)
theory Observer_Properties
  imports Commit_Observer Reputation
begin

text \<open>
  Recovery of consensus output: the sub-dags that a restarted validator sends again, read from the store, are those
  that it sent when it committed them.
\<close>

section \<open>Sub-dags and their commits\<close>

text \<open>A commit records a sub-dag completely, except for the scores that are added when it is sent.\<close>

definition records :: "trusted_commit \<Rightarrow> committed_sub_dag \<Rightarrow> bool" where
  "records c sd \<longleftrightarrow>
     sd = CommittedSubDag_new (tc_leader c) (sd_blocks sd) (tc_timestamp_ms c) (tc_reference c) \<and>
     tc_blocks c = map vb_reference (sd_blocks sd) \<and> tc_leader c \<in> set (tc_blocks c)"

lemma collected_records:
  assumes "collect_sub_dag_and_commit cry ds l = Inr (sd, c)" "vb_reference l \<in> set (tc_blocks c)"
  shows "records c sd"
  using assms
  by (auto simp: collect_sub_dag_and_commit_def Let_def and_then_eq_Inr records_def tc_defs CommittedSubDag_new_def)

lemma extends_leader:
  assumes "extends_by cry ds l sd c"
  shows "vb_reference l \<in> set (tc_blocks c)"
  using assms by (auto simp: extends_by_def sub_dag_of_def)

lemma commit_leaders_records:
  assumes ser: "commits_serialize cry"
  shows "linear_ok ds \<Longrightarrow> leaders_ascend ds ls \<Longrightarrow> last_commit_index ds + length ls < 2 ^ 32 \<Longrightarrow>
    commit_leaders cry ls ds = Inr (sds, ds') \<Longrightarrow>
    \<exists>cs. ds_commits_to_write ds' = ds_commits_to_write ds @ cs \<and> list_all2 records cs sds \<and> ds_store ds' = ds_store ds \<and>
      map tc_index cs = [last_commit_index ds + 1..<last_commit_index ds + 1 + length ls] \<and>
      (\<forall>sd \<in> set sds. \<forall>b \<in> set (sd_blocks sd). dag_lookup ds (vb_reference b) = Some b \<and> 0 < vb_round b)"
proof (induction ls arbitrary: ds sds)
  case (Cons l ls)
  have l: "dag_lookup ds (vb_reference l) = Some l" "last_commit_round ds < vb_round l"
    using Cons.prems(2) by (auto simp: leaders_ascend_def)
  have idx: "last_commit_index ds + 1 < 2 ^ 32" using Cons.prems(3) by simp
  obtain sd c ds1 where step: "collect_sub_dag_and_commit cry ds l = Inr (sd, c)" "extends_by cry ds l sd c"
    "add_commit c ds = Inr ds1" "recorded c ds ds1"
    using commit_leader_step [OF Cons.prems(1) ser l idx] by blast
  note follows = extends_follows [OF step(2) idx] and last = recorded_last [OF step(4,2)]
  obtain rest where rest: "sds = sd # rest" "commit_leaders cry ls ds1 = Inr (rest, ds')"
    using Cons.prems(4) step(1,3) by (auto simp: and_then_eq_Inr)
  have ds1: "linear_ok ds1" "dag_lookup ds1 = dag_lookup ds" using step(4) by (simp_all add: recorded_def)
  have idx1: "last_commit_index ds1 = last_commit_index ds + 1" using last follows(2) by simp
  have store: "ds_store ds1 = ds_store ds" "ds_commits_to_write ds1 = ds_commits_to_write ds @ [c]"
    using add_commit_Inr [OF step(3)] follows(2) by (auto dest: arg_cong [of _ _ ds_store])
  have "leaders_ascend ds1 ls" "last_commit_index ds1 + length ls < 2 ^ 32"
    using Cons.prems(2,3) ds1(2) last idx1 by (auto simp: leaders_ascend_def)
  from Cons.IH [OF ds1(1) this rest(2)] obtain cs where
    cs: "ds_commits_to_write ds' = ds_commits_to_write ds1 @ cs" "list_all2 records cs rest" "ds_store ds' = ds_store ds1"
    "map tc_index cs = [last_commit_index ds1 + 1..<last_commit_index ds1 + 1 + length ls]"
    "\<forall>sd \<in> set rest. \<forall>b \<in> set (sd_blocks sd). dag_lookup ds1 (vb_reference b) = Some b \<and> 0 < vb_round b" by blast
  have rec: "records c sd" using collected_records [OF step(1) extends_leader [OF step(2)]] .
  have pos: "dag_lookup ds (vb_reference b) = Some b \<and> 0 < vb_round b" if "b \<in> set (sd_blocks sd)" for b
  proof
    show "dag_lookup ds (vb_reference b) = Some b" using step(2) that by (simp add: extends_by_def)
    have "vb_reference b \<in> sub_dag_of ds (vb_reference l)" using step(2) that by (auto simp: extends_by_def)
    then have "(vb_reference l, vb_reference b) \<in> {(q, a) \<in> dag_edges ds. uncommitted ds a}\<^sup>*" by (simp add: sub_dag_of_def)
    then have "vb_reference b = vb_reference l \<or> uncommitted ds (vb_reference b)" by (rule rtranclE) auto
    moreover have "0 < vb_round b" if "vb_reference b = vb_reference l"
      using arg_cong [OF that, of br_round] l(2) by simp
    ultimately show "0 < vb_round b" by (auto simp: uncommitted_def)
  qed
  show ?case
  proof (intro exI [of _ "c # cs"] conjI)
    show "ds_commits_to_write ds' = ds_commits_to_write ds @ c # cs" using cs(1) store(2) by simp
    show "list_all2 records (c # cs) sds" using rec cs(2) rest(1) by simp
    show "ds_store ds' = ds_store ds" using cs(3) store(1) by simp
    show "map tc_index (c # cs) = [last_commit_index ds + 1..<last_commit_index ds + 1 + length (l # ls)]"
      using cs(4) follows(2) idx1 by (simp add: upt_conv_Cons del: upt_Suc)
    show "\<forall>sd \<in> set sds. \<forall>b \<in> set (sd_blocks sd). dag_lookup ds (vb_reference b) = Some b \<and> 0 < vb_round b"
      using pos cs(5) ds1(2) rest(1) by auto
  qed
qed simp

section \<open>What the store holds\<close>

definition holds_blocks :: "mem_store \<Rightarrow> committed_sub_dag \<Rightarrow> bool" where
  "holds_blocks ms sd \<longleftrightarrow> (\<forall>b \<in> set (sd_blocks sd). 0 < vb_round b \<and> mem_block ms (vb_reference b) = Some b)"

text \<open>The store holds the commits of the sub-dags \<open>sds\<close>, numbered from one, and their blocks.\<close>

definition store_holds :: "mem_store \<Rightarrow> committed_sub_dag list \<Rightarrow> bool" where
  "store_holds ms sds \<longleftrightarrow>
     (\<exists>cs. ms_commits ms = map (\<lambda>c. ((tc_index c, tc_digest c), c)) cs \<and> list_all2 records cs sds \<and>
       map tc_index cs = [1..<length cs + 1] \<and> (\<forall>sd \<in> set sds. holds_blocks ms sd))"

lemma store_holds_new: "store_holds MemStore_new []"
  by (simp add: store_holds_def MemStore_new_def)

lemma load_recorded:
  assumes "records c sd" "holds_blocks ms sd"
  shows "load_committed_subdag_from_store ms c = Inr sd"
proof -
  have blocks: "map_res (\<lambda>b. expect b (DagPanic BlockNotFound)) (mem_read_blocks ms (tc_blocks c)) = Inr (sd_blocks sd)"
    using assms by (simp add: map_res_expect mem_read_blocks_def records_def holds_blocks_def mem_block_def)
  let ?hits = "filter (\<lambda>i. vb_reference (sd_blocks sd ! i) = tc_leader c) [0..<length (sd_blocks sd)]"
  have "\<exists>i < length (sd_blocks sd). vb_reference (sd_blocks sd ! i) = tc_leader c"
    using assms(1) by (auto simp: records_def in_set_conv_nth)
  then have "?hits \<noteq> []" by (auto simp: filter_empty_conv)
  then obtain i where i: "last_opt ?hits = Some i" "i \<in> set ?hits" by (cases ?hits rule: rev_cases) auto
  then have "vb_reference (sd_blocks sd ! i) = tc_leader c" by simp
  with i(1) blocks assms(1) show ?thesis
    by (simp add: load_committed_subdag_from_store_def records_def [of c sd])
qed

lemma bm_insert_last: "(\<And>k'. k' \<in> fst ` set m \<Longrightarrow> k' < k) \<Longrightarrow> bm_insert k v m = m @ [(k, v)]"
proof (induction k v m rule: bm_insert.induct)
  case (2 k v k' v' m)
  have less: "k' < k" using "2.prems" by simp
  then have ne: "\<not> k < k'" "k \<noteq> k'" by auto
  have "bm_insert k v m = m @ [(k, v)]"
    by (rule "2.IH" [OF ne]) (simp add: "2.prems")
  with ne show ?case by simp
qed simp

lemma write_commits_append:
  assumes "map tc_index (old @ cs) = [1..<length (old @ cs) + 1]"
    and "ms_commits ms = map (\<lambda>c. ((tc_index c, tc_digest c), c)) old"
  shows "ms_commits (fold mem_write_commit cs ms) = map (\<lambda>c. ((tc_index c, tc_digest c), c)) (old @ cs)"
  using assms
proof (induction cs arbitrary: old ms)
  case (Cons c cs)
  have "sorted_wrt (<) (map tc_index (old @ c # cs))" unfolding Cons.prems(1) by (rule sorted_wrt_upt)
  then have "\<forall>o' \<in> set old. tc_index o' < tc_index c" by (auto simp: sorted_wrt_append)
  then have "bm_insert (tc_index c, tc_digest c) c (ms_commits ms) = ms_commits ms @ [((tc_index c, tc_digest c), c)]"
    unfolding Cons.prems(2) by (intro bm_insert_last) (auto simp: less_prod_def)
  then have "ms_commits (mem_write_commit c ms) = map (\<lambda>c. ((tc_index c, tc_digest c), c)) (old @ [c])"
    using Cons.prems(2) by (simp add: mem_write_commit_def)
  from Cons.IH [OF _ this] Cons.prems(1) show ?case by simp
qed simp

lemma write_blocks_commits: "ms_commits (fold mem_write_block bs ms) = ms_commits ms"
  by (induction bs arbitrary: ms) (simp_all add: mem_write_block_def Let_def)

lemma write_infos_commits: "ms_commits (fold mem_write_commit_info is ms) = ms_commits ms"
  by (induction "is" arbitrary: ms) (simp_all add: mem_write_commit_info_def)

lemma flush_commits:
  assumes "map tc_index (old @ ds_commits_to_write ds) = [1..<length (old @ ds_commits_to_write ds) + 1]"
    and "ms_commits (ds_store ds) = map (\<lambda>c. ((tc_index c, tc_digest c), c)) old"
  shows "ms_commits (ds_store (flush ds)) = map (\<lambda>c. ((tc_index c, tc_digest c), c)) (old @ ds_commits_to_write ds)"
proof -
  have "ms_commits (mem_write (WriteBatch_new bs (ds_commits_to_write ds) infos) (ds_store ds)) =
      map (\<lambda>c. ((tc_index c, tc_digest c), c)) (old @ ds_commits_to_write ds)" for bs infos
    using write_commits_append [OF assms(1), of "fold mem_write_block bs (ds_store ds)"] assms(2)
    by (simp add: mem_write_def WriteBatch_new_def write_blocks_commits write_infos_commits)
  then show ?thesis using assms(2) by (auto simp: flush_def Let_def split: prod.split)
qed

section \<open>Recovery\<close>

text \<open>The last sub-dag carries the current scores.\<close>

fun score_last :: "(authority_index \<times> nat) list \<Rightarrow> committed_sub_dag list \<Rightarrow> committed_sub_dag list" where
  "score_last scores [] = []"
| "score_last scores (sd # sds) = (if sds = [] then [update_scores scores sd] else sd # score_last scores sds)"

lemma resend_commits_eq:
  assumes "list_all2 records cs sds" "\<forall>sd \<in> set sds. holds_blocks ms sd" "ob_consumer_alive ob"
    and "map tc_index cs = [n + 1..<n + 1 + length cs]" "n + length cs < 2 ^ 32"
  shows "resend_commits ms ls cs n ob =
    Inr (ob\<lparr> ob_sent := ob_sent ob @ score_last (lt_reputation_scores_desc (le_leader_swap_table ls)) sds \<rparr>)"
  using assms
proof (induction cs arbitrary: sds n ob)
  case (Cons c cs)
  obtain sd rest where sds: "sds = sd # rest" "records c sd" "list_all2 records cs rest"
    using Cons.prems(1) by (auto simp: list_all2_Cons1)
  have idx: "tc_index c = n + 1" "map tc_index cs = [n + 1 + 1..<n + 1 + 1 + length cs]"
    using Cons.prems(4) by (simp_all add: upt_conv_Cons del: upt_Suc)
  have u: "u32_add n 1 = n + 1" using Cons.prems(5) by (intro u32_add_exact) simp
  have load: "load_committed_subdag_from_store ms c = Inr sd"
    using load_recorded [OF sds(2)] Cons.prems(2) sds(1) by simp
  have len: "cs = [] \<longleftrightarrow> rest = []" using list_all2_lengthD [OF sds(3)] by auto
  let ?sd = "if rest = [] then update_scores (lt_reputation_scores_desc (le_leader_swap_table ls)) sd else sd"
  have "resend_commits ms ls (c # cs) n ob = resend_commits ms ls cs (n + 1) (ob\<lparr> ob_sent := ob_sent ob @ [?sd] \<rparr>)"
    using idx(1) u load Cons.prems(3) len by (simp add: sender_send_def)
  also have "\<dots> = Inr (ob\<lparr> ob_sent := (ob_sent ob @ [?sd]) @ score_last (lt_reputation_scores_desc (le_leader_swap_table ls)) rest \<rparr>)"
    using Cons.IH [OF sds(3), of "ob\<lparr> ob_sent := ob_sent ob @ [?sd] \<rparr>" "n + 1"] Cons.prems(2,3,5) sds(1) idx(2) by simp
  finally show ?case using sds(1) by simp
qed simp

lemma recover_resends:
  assumes "store_holds ms sds" "p \<le> length sds" "length sds + 1 < 2 ^ 32" "ob_consumer_alive ob"
  shows "recover_and_send_commits ms ls p ob =
    Inr (ob\<lparr> ob_sent := ob_sent ob @ score_last (lt_reputation_scores_desc (le_leader_swap_table ls)) (drop p sds) \<rparr>)"
proof -
  from assms(1) obtain cs where cs: "ms_commits ms = map (\<lambda>c. ((tc_index c, tc_digest c), c)) cs" "list_all2 records cs sds"
    "map tc_index cs = [1..<length cs + 1]" "\<forall>sd \<in> set sds. holds_blocks ms sd" by (auto simp: store_holds_def)
  have len: "length cs = length sds" using cs(2) by (rule list_all2_lengthD)
  have nth: "tc_index (cs ! i) = i + 1" if "i < length cs" for i
    using arg_cong [OF cs(3), of "\<lambda>xs. xs ! i"] that by (simp del: upt_Suc)
  have last: "last_opt (ms_commits ms) = (if cs = [] then None else Some ((length cs, tc_digest (last cs)), last cs))"
    using nth [of "length cs - 1"] unfolding cs(1) by (cases cs rule: rev_cases) (simp_all add: nth_append)
  have last_idx: "tc_index (last cs) = length cs" if "cs \<noteq> []" using nth [of "length cs - 1"] that by (simp add: last_conv_nth)
  have u: "u32_add p 1 = p + 1" using assms(2,3) by (intro u32_add_exact) simp
  have "filter (\<lambda>c. p + 1 \<le> tc_index c \<and> tc_index c < u32_max) cs = drop p cs"
  proof -
    have "tc_index c \<le> p" if "c \<in> set (take p cs)" for c
      using that nth by (auto simp: in_set_conv_nth)
    moreover have "p + 1 \<le> tc_index c \<and> tc_index c < u32_max" if "c \<in> set (drop p cs)" for c
      using that nth len assms(3) by (auto simp: in_set_conv_nth u32_max_def)
    ultimately have "filter (\<lambda>c. p + 1 \<le> tc_index c \<and> tc_index c < u32_max) (take p cs @ drop p cs) = [] @ drop p cs"
      unfolding filter_append by (intro arg_cong2 [of _ _ _ _ "(@)"]) (fastforce simp: filter_empty_conv filter_id_conv)+
    then show ?thesis by simp
  qed
  moreover have "(p + 1, digest_min) \<le> (tc_index c, tc_digest c) \<and> (tc_index c, tc_digest c) < (u32_max, digest_min) \<longleftrightarrow>
      p + 1 \<le> tc_index c \<and> tc_index c < u32_max" for c
    by (auto simp: less_eq_prod_def less_prod_def digest_min_def)
  ultimately have scan: "mem_scan_commits ms (CommitRange (u32_add p 1) u32_max) = Inr (drop p cs)"
    using assms(2,3) u len unfolding mem_scan_commits_def cs(1)
    by (simp add: filter_map comp_def u32_max_def)
  have idx: "map tc_index (drop p cs) = [p + 1..<p + 1 + length (drop p cs)]"
    using nth assms(2) len by (intro nth_equalityI) (auto simp del: upt_Suc)
  have resend: "resend_commits ms ls (drop p cs) p ob =
      Inr (ob\<lparr> ob_sent := ob_sent ob @ score_last (lt_reputation_scores_desc (le_leader_swap_table ls)) (drop p sds) \<rparr>)"
  proof (rule resend_commits_eq)
    show "list_all2 records (drop p cs) (drop p sds)" using cs(2) by (rule list_all2_dropI)
    show "\<forall>sd \<in> set (drop p sds). holds_blocks ms sd" using cs(4) by (meson in_set_dropD)
    show "p + length (drop p cs) < 2 ^ 32" using assms(2,3) len by simp
  qed (use assms(4) idx in auto)
  show ?thesis
  proof (cases "p = length cs \<and> cs \<noteq> []")
    case True
    then show ?thesis using last last_idx len assms(2) by (simp add: recover_and_send_commits_def mem_read_last_commit_def)
  next
    case False
    then show ?thesis using last last_idx len assms(2) scan resend
      by (auto simp: recover_and_send_commits_def mem_read_last_commit_def Let_def)
  qed
qed

section \<open>Committing keeps the store complete\<close>

text \<open>The commits and blocks of \<open>hist\<close> are in the store, and it waits for no commit to be written.\<close>

definition persisted :: "dag_state \<Rightarrow> committed_sub_dag list \<Rightarrow> bool" where
  "persisted ds hist \<longleftrightarrow>
     store_holds (ds_store ds) hist \<and> length hist = last_commit_index ds \<and> ds_commits_to_write ds = []"

lemma stored_lookup:
  assumes "dag_inv ds" "mem_block (ds_store ds) r = Some b"
  shows "dag_lookup ds r = Some b"
proof -
  have sync: "0 < br_round r" "\<And>b'. map_of (ds_recent_blocks ds) r = Some b' \<Longrightarrow> b = b'"
    using dag_invD(3) [OF assms(1)] assms(2) unfolding cache_sync_def by blast+
  then show ?thesis
    using assms(2) by (cases "map_of (ds_recent_blocks ds) r") (simp_all add: dag_lookup_def genesis_round_def)
qed

lemma flush_holds_blocks:
  assumes "dag_inv ds" "\<forall>b \<in> set (sd_blocks sd). 0 < vb_round b \<and> dag_lookup ds (vb_reference b) = Some b"
  shows "holds_blocks (ds_store (flush ds)) sd"
  using assms(2) flush_persists(3) [OF assms(1)] by (simp add: holds_blocks_def)

lemma handle_commit_persists:
  assumes "commits_serialize cry" "linear_ok ds" "leaders_ascend ds ls" "last_commit_index ds + length ls < 2 ^ 32"
    and "persisted ds hist" "linearizer_handle_commit cry ls ds = Inr (sds, ds')"
  shows "persisted ds' (hist @ sds)"
proof -
  from assms(6) obtain ds1 where ds1: "commit_leaders cry ls ds = Inr (sds, ds1)" "ds' = (if sds \<noteq> [] then flush ds1 else ds1)"
    by (auto simp: linearizer_handle_commit_def and_then_eq_Inr)
  from commit_leaders_records [OF assms(1-4) ds1(1)] assms(5) obtain cs where
    cs: "ds_commits_to_write ds1 = cs" "list_all2 records cs sds" "ds_store ds1 = ds_store ds"
    "map tc_index cs = [last_commit_index ds + 1..<last_commit_index ds + 1 + length ls]"
    and blocks: "\<forall>sd \<in> set sds. \<forall>b \<in> set (sd_blocks sd). dag_lookup ds (vb_reference b) = Some b \<and> 0 < vb_round b"
    by (auto simp: persisted_def)
  from assms(5) obtain old where old: "ms_commits (ds_store ds) = map (\<lambda>c. ((tc_index c, tc_digest c), c)) old"
    "list_all2 records old hist" "map tc_index old = [1..<length old + 1]" "\<forall>sd \<in> set hist. holds_blocks (ds_store ds) sd"
    "length hist = last_commit_index ds" by (auto simp: persisted_def store_holds_def)
  have inv: "dag_inv ds" "dag_inv ds1" "dag_lookup ds1 = dag_lookup ds" "last_commit_index ds1 = last_commit_index ds + length ls"
    "length sds = length ls"
    using commit_leaders_spec [OF assms(1-4)] scoring_inv_commits [OF assms(1-4) scoring_inv_empty ds1(1)] ds1(1) assms(2)
    by (auto simp: linear_ok_def)
  have len: "length old = last_commit_index ds" using list_all2_lengthD [OF old(2)] old(5) by simp
  have lcs: "length cs = length ls" using arg_cong [OF cs(4), of length] by (simp del: upt_Suc)
  have idx: "map tc_index (old @ cs) = [1..<length (old @ cs) + 1]"
    using old(3) cs(4) len lcs upt_add_eq_append [of 1 "length old + 1" "length ls"] by (simp del: upt_Suc add: ac_simps)
  show ?thesis
  proof (cases "sds = []")
    case True
    with inv lcs cs ds1(2) assms(5) show ?thesis by (simp add: persisted_def)
  next
    case False
    have hist: "holds_blocks (ds_store (flush ds1)) sd" if "sd \<in> set hist" for sd
      using old(4) that stored_lookup [OF inv(1)] inv(3) by (intro flush_holds_blocks [OF inv(2)]) (auto simp: holds_blocks_def)
    have new: "holds_blocks (ds_store (flush ds1)) sd" if "sd \<in> set sds" for sd
      using blocks that inv(3) by (intro flush_holds_blocks [OF inv(2)]) auto
    have "store_holds (ds_store (flush ds1)) (hist @ sds)" unfolding store_holds_def
    proof (intro exI [of _ "old @ cs"] conjI)
      show "ms_commits (ds_store (flush ds1)) = map (\<lambda>c. ((tc_index c, tc_digest c), c)) (old @ cs)"
        using flush_commits [of old ds1] idx cs(1,3) old(1) by simp
      show "list_all2 records (old @ cs) (hist @ sds)" using old(2) cs(2) by (rule list_all2_appendI)
      show "\<forall>sd \<in> set (hist @ sds). holds_blocks (ds_store (flush ds1)) sd" using hist new by auto
    qed (rule idx)
    moreover have "ds_commits_to_write (flush ds1) = []" by (simp add: flush_def Let_def split: prod.split)
    moreover have "last_commit_index (flush ds1) = last_commit_index ds1" by (simp add: last_commit_index_def)
    ultimately show ?thesis using False ds1(2) inv(4,5) old(5) by (simp add: persisted_def)
  qed
qed

section \<open>Properties\<close>

text \<open>C38: Output survives a restart. After any commits, a validator that restarts with the last commit index \<open>p\<close> its
  consumer has processed reads the later commits from the store without a panic and sends exactly the sub-dags it
  had committed after \<open>p\<close>, in order, each with its leader, blocks, timestamp and reference; only
  the scores are those of the last sub-dag alone.\<close>

theorem restart_resends_committed_sub_dags:
  assumes "commits_serialize cry" "linear_ok ds" "leaders_ascend ds ls" "last_commit_index ds + length ls + 1 < 2 ^ 32"
    and "persisted ds hist" "p \<le> length hist + length ls"
  shows "\<exists>sds ds'. linearizer_handle_commit cry ls ds = Inr (sds, ds') \<and> length sds = length ls \<and> persisted ds' (hist @ sds) \<and>
    CommitObserver_new (ds_store ds') schedule p True =
      Inr \<lparr> ob_sent = score_last (lt_reputation_scores_desc (le_leader_swap_table schedule)) (drop p (hist @ sds)),
            ob_consumer_alive = True \<rparr>"
proof -
  have idx: "last_commit_index ds + length ls < 2 ^ 32" using assms(4) by simp
  from handle_commit_scoring [OF assms(1-3) idx scoring_inv_empty] obtain sds ds' where
    ds': "linearizer_handle_commit cry ls ds = Inr (sds, ds')" "length sds = length ls" by blast
  note kept = handle_commit_persists [OF assms(1-3) idx assms(5) ds'(1)]
  have "length hist = last_commit_index ds" using assms(5) by (simp add: persisted_def)
  then have "CommitObserver_new (ds_store ds') schedule p True =
      Inr \<lparr> ob_sent = score_last (lt_reputation_scores_desc (le_leader_swap_table schedule)) (drop p (hist @ sds)),
            ob_consumer_alive = True \<rparr>"
    using recover_resends [of "ds_store ds'" "hist @ sds" p "\<lparr> ob_sent = [], ob_consumer_alive = True \<rparr>" schedule]
      kept assms(4,6) ds'(2) by (simp add: CommitObserver_new_def persisted_def)
  with ds' kept show ?thesis by blast
qed

lemma accept_all_store:
  "ds_store (accept_all bs ds) = ds_store ds" "ds_commits_to_write (accept_all bs ds) = ds_commits_to_write ds"
  by (induction bs arbitrary: ds) (simp_all add: accepted_state_def)

lemma layered_store: "ms_commits (ds_store (layered n)) = []" "ds_commits_to_write (layered n) = []"
  by (induction n) (simp_all add: accept_all_store ex_dag_def fresh_state_def MemStore_new_def)

theorem restart_resends_committed_sub_dags_witness:
  "\<exists>sds ds'. linearizer_handle_commit ex_crypto [ex_layer 1 ! 1, ex_layer 4 ! 0] (layered 6) = Inr (sds, ds') \<and> length sds = 2 \<and>
     CommitObserver_new (ds_store ds') (LeaderSchedule_new None ex_context LeaderSwapTable_default) 1 True =
       Inr \<lparr> ob_sent = score_last [] (drop 1 sds), ob_consumer_alive = True \<rparr>"
proof -
  have "persisted (layered 6) []"
    by (simp add: persisted_def last_commit_index_def store_holds_def layered_store)
  from restart_resends_committed_sub_dags [OF ex_commits_serialize layered_linear_ok ex_leaders_ascend _ this,
      of 1 "LeaderSchedule_new None ex_context LeaderSwapTable_default"] show ?thesis
    by (auto simp: last_commit_index_def LeaderSchedule_new_def LeaderSwapTable_default_def)
qed

end
