(* ===== verification/Authority_Service.thy ===== *)
theory Authority_Service
  imports Commit_Syncer
begin

text \<open>
  What a validator answers to its peers (\<^verbatim>\<open>consensus/core/src/authority_service.rs\<close>): it receives blocks, serves blocks
  and commits, and streams its own blocks. \<open>dispatch\<close> is the handle to the core thread; its first argument is the time at which
  the blocks are handed over. The DAG is shared with the core and an argument of each request.
\<close>

record authority_service =
  as_context :: epoch_context
  as_commit_vote_monitor :: commit_vote_monitor
  as_block_verifier :: signed_block_verifier
  as_synchronizer :: sync_state

definition commit_lag_multiplier :: nat where "commit_lag_multiplier = 5"

section \<open>Received blocks\<close>

text \<open>The checks on a received block, before votes are observed.\<close>

definition check_received_block ::
  "crypto \<Rightarrow> decoder \<Rightarrow> authority_service \<Rightarrow> timestamp_ms \<Rightarrow> authority_index \<Rightarrow> byte list \<Rightarrow> verified_block consensus_result" where
  "check_received_block cry de svc now peer serialized_block =
     and_then (ok_or (de_signed_block de serialized_block) MalformedBlock) (\<lambda>signed_block.
     let author = block_author (sb_inner signed_block) in
     if peer \<noteq> author then Inl (UnexpectedAuthority author peer)
     else and_then (verify cry (as_block_verifier svc) signed_block) (\<lambda>_.
       let b = VerifiedBlock_new_verified cry signed_block serialized_block in
       if vb_timestamp_ms b - now > pa_max_forward_time_drift_ms (cx_parameters (as_context svc))
       then Inl (BlockRejected (vb_reference b)) else Inr b))"

text \<open>Whether the local commits lag too far behind those of a quorum.\<close>

definition commit_lagging :: "authority_service \<Rightarrow> dag_state \<Rightarrow> bool" where
  "commit_lagging svc ds \<longleftrightarrow>
     u32_add (last_commit_index ds)
       (u32_mul (pa_commit_sync_batch_size (cx_parameters (as_context svc))) commit_lag_multiplier)
     < quorum_commit_index (as_commit_vote_monitor svc)"

definition handle_send_block ::
  "crypto \<Rightarrow> decoder \<Rightarrow> (timestamp_ms \<Rightarrow> verified_block list \<Rightarrow> 'c \<Rightarrow> block_ref list option \<times> 'c) \<Rightarrow> timestamp_ms \<Rightarrow> dag_state
     \<Rightarrow> authority_index \<Rightarrow> byte list \<Rightarrow> authority_service \<Rightarrow> 'c \<Rightarrow> (unit consensus_result \<times> authority_service \<times> 'c) res" where
  "handle_send_block cry de dispatch now ds peer serialized_block svc core =
     and_then (committee_authority (cx_committee (as_context svc)) peer) (\<lambda>_.
       case check_received_block cry de svc now peer serialized_block of
         Inl e \<Rightarrow> Inr (Inl e, svc, core)
       | Inr b \<Rightarrow>
           let forward_time_drift = vb_timestamp_ms b - now in
           and_then (observe b (as_commit_vote_monitor svc)) (\<lambda>cv.
           let svc = svc\<lparr> as_commit_vote_monitor := cv \<rparr> in
           if commit_lagging svc ds then Inr (Inl (BlockRejected (vb_reference b)), svc, core)
           else
             case dispatch (now + forward_time_drift) [b] core of
               (None, core) \<Rightarrow> Inr (Inl Shutdown, svc, core)
             | (Some missing_ancestors, core) \<Rightarrow>
                 if missing_ancestors = [] then Inr (Inr (), svc, core)
                 else and_then (handle_fetch_command (as_context svc) missing_ancestors peer (as_synchronizer svc))
                        (\<lambda>(_, st). Inr (Inr (), svc\<lparr> as_synchronizer := st \<rparr>, core))))"

section \<open>Streams of blocks\<close>

text \<open>What \<open>recv\<close> of a broadcast receiver gives.\<close>

datatype recv_result = Received verified_block | Lagged nat | Closed

text \<open>
  A poll of the stream takes from the receiver until there is a block or the channel is closed. \<open>None\<close> is a pending
  poll, \<open>Some None\<close> the end of the stream.
\<close>

fun poll_next :: "recv_result list \<Rightarrow> verified_block option option \<times> recv_result list" where
  "poll_next [] = (None, [])"
| "poll_next (Received b # rx) = (Some (Some b), rx)"
| "poll_next (Closed # rx) = (Some None, rx)"
| "poll_next (Lagged n # rx) = poll_next rx"

record block_stream =
  st_missed :: "byte list list"
  st_receiver :: "recv_result list"

definition stream_next :: "block_stream \<Rightarrow> byte list option option \<times> block_stream" where
  "stream_next s =
     (case st_missed s of
        bytes # missed \<Rightarrow> (Some (Some bytes), s\<lparr> st_missed := missed \<rparr>)
      | [] \<Rightarrow> (let (item, rx) = poll_next (st_receiver s)
               in (map_option (map_option vb_serialized) item, s\<lparr> st_receiver := rx \<rparr>)))"

definition handle_subscribe_blocks ::
  "epoch_context \<Rightarrow> dag_state \<Rightarrow> recv_result list \<Rightarrow> round \<Rightarrow> block_stream res" where
  "handle_subscribe_blocks cx ds rx_block_broadcaster last_received =
     and_then (get_cached_blocks ds (cx_own_index cx) (u32_add last_received 1)) (\<lambda>missed.
       Inr \<lparr> st_missed = map vb_serialized missed, st_receiver = rx_block_broadcaster \<rparr>)"

section \<open>Requests for blocks\<close>

fun check_requested_refs :: "committee \<Rightarrow> block_ref list \<Rightarrow> unit consensus_result" where
  "check_requested_refs cm [] = Inr ()"
| "check_requested_refs cm (r # refs) =
     (if \<not> is_valid_index cm (br_author r) then Inl (InvalidAuthorityIndex (br_author r) (committee_size cm))
      else if br_round r = genesis_round then Inl UnexpectedGenesisBlockRequested
      else check_requested_refs cm refs)"

text \<open>The first \<open>n\<close> references to blocks after the rounds that the peer has accepted.\<close>

fun newer_refs :: "round list \<Rightarrow> nat \<Rightarrow> block_ref list \<Rightarrow> block_ref list res" where
  "newer_refs rounds n [] = Inr []"
| "newer_refs rounds n (r # refs) =
     (if n = 0 then Inr []
      else and_then (vec_get rounds (br_author r)) (\<lambda>accepted.
        if accepted < br_round r
        then and_then (newer_refs rounds (n - 1) refs) (\<lambda>rs. Inr (r # rs))
        else newer_refs rounds n refs))"

definition service_max_additional_blocks :: nat where "service_max_additional_blocks = 10"

definition handle_fetch_blocks ::
  "epoch_context \<Rightarrow> dag_state \<Rightarrow> authority_index \<Rightarrow> block_ref list \<Rightarrow> round list \<Rightarrow> byte list list consensus_result res" where
  "handle_fetch_blocks cx ds peer block_refs highest_accepted_rounds =
     (let cm = cx_committee cx in
      if length block_refs > pa_max_blocks_per_fetch (cx_parameters cx)
      then Inr (Inl (TooManyFetchBlocksRequested peer))
      else if highest_accepted_rounds \<noteq> [] \<and> length highest_accepted_rounds \<noteq> committee_size cm
      then Inr (Inl (InvalidSizeOfHighestAcceptedRounds (length highest_accepted_rounds) (committee_size cm)))
      else
        case check_requested_refs cm block_refs of
          Inl e \<Rightarrow> Inr (Inl e)
        | Inr _ \<Rightarrow>
            let blocks = List.map_filter id (get_blocks ds block_refs) in
            and_then
              (if highest_accepted_rounds = [] then Inr []
               else and_then (newer_refs highest_accepted_rounds service_max_additional_blocks
                                (concat (map vb_ancestors blocks))) (\<lambda>all_ancestors.
                      Inr (if all_ancestors = [] then [] else List.map_filter id (get_blocks ds all_ancestors))))
              (\<lambda>ancestor_blocks. Inr (Inr (map vb_serialized (blocks @ ancestor_blocks)))))"

section \<open>Requests for commits\<close>

text \<open>
  The loop that drops commits from the back until a quorum has voted for the last one. \<open>commits\<close> is in reverse order.
\<close>

fun certified_commits ::
  "committee \<Rightarrow> mem_store \<Rightarrow> trusted_commit list \<Rightarrow> (trusted_commit list \<times> block_ref list) res" where
  "certified_commits cm store [] = Inr ([], [])"
| "certified_commits cm store (c # commits) =
     (let votes = mem_read_commit_votes store (tc_index c) in
      and_then (agg_add_all quorum_is_threshold cm (map br_author votes) agg_new) (\<lambda>agg.
        if agg_reached_threshold quorum_is_threshold cm agg then Inr (c # commits, votes)
        else certified_commits cm store commits))"

definition handle_fetch_commits ::
  "epoch_context \<Rightarrow> mem_store \<Rightarrow> commit_index \<Rightarrow> commit_index \<Rightarrow> (trusted_commit list \<times> verified_block list) res" where
  "handle_fetch_commits cx store start end_index =
     (let exclusive_end =
        min (u32_add end_index 1) (u32_add start (pa_commit_sync_batch_size (cx_parameters cx))) in
      and_then (mem_scan_commits store (CommitRange start exclusive_end)) (\<lambda>commits.
      and_then (certified_commits (cx_committee cx) store (rev commits)) (\<lambda>(certified, votes).
        Inr (rev certified, List.map_filter id (mem_read_blocks store votes)))))"

end
