(* ===== verification/Tonic_Network.thy ===== *)
theory Tonic_Network
  imports Authority_Service
begin

text \<open>
  The requests between validators over tonic (\<^verbatim>\<open>consensus/core/src/network/tonic_network.rs\<close>): the client, the pool of its
  connections, the proxy that hands requests to the authority service, and the check of an incoming connection.
  Sockets, TLS and HTTP are outside of the model: what a connection, a call or a stream gives is an argument. \<open>en_ref\<close> and \<open>de_ref\<close>
  are the \<open>bcs\<close> encoding of a block reference.
\<close>

definition max_fetch_response_bytes :: nat where "max_fetch_response_bytes = 4 * 1024 * 1024"

definition max_total_fetched_bytes :: nat where "max_total_fetched_bytes = 128 * 1024 * 1024"

text \<open>The codes of a status that the code looks at or sets.\<close>

datatype tonic_code = DeadlineExceeded | Internal | InvalidArgument | OtherCode

section \<open>Addresses\<close>

text \<open>
  The protocols of a multiaddress that the code looks at, in the order its iterator gives them. An IP address stands for its
  text and a port is printed in decimal.
\<close>

datatype protocol = Ip4 string | Ip6 string | Dns string | Tcp nat | Udp nat | OtherProtocol

fun show_nat :: "nat \<Rightarrow> string" where
  "show_nat n = (if n < 10 then [char_of (48 + n)] else show_nat (n div 10) @ [char_of (48 + n mod 10)])"

declare show_nat.simps [simp del]

fun to_host_port_str :: "protocol list \<Rightarrow> string option" where
  "to_host_port_str (Ip4 ipaddr # Udp port # _) = Some (ipaddr @ '':'' @ show_nat port)"
| "to_host_port_str (Ip6 ipaddr # Udp port # _) = Some (ipaddr @ '':'' @ show_nat port)"
| "to_host_port_str (Dns hostname # Udp port # _) = Some (hostname @ '':'' @ show_nat port)"
| "to_host_port_str _ = None"

datatype socket_addr = SocketAddrV4 string nat | SocketAddrV6 string nat

fun to_socket_addr :: "protocol list \<Rightarrow> socket_addr option" where
  "to_socket_addr (Ip4 ipaddr # Udp port # _) = Some (SocketAddrV4 ipaddr port)"
| "to_socket_addr (Ip4 ipaddr # Tcp port # _) = Some (SocketAddrV4 ipaddr port)"
| "to_socket_addr (Ip6 ipaddr # Udp port # _) = Some (SocketAddrV6 ipaddr port)"
| "to_socket_addr (Ip6 ipaddr # Tcp port # _) = Some (SocketAddrV6 ipaddr port)"
| "to_socket_addr _ = None"

section \<open>Connections of the client\<close>

text \<open>
  The attempts to connect to an address: the time after each and the channel it gave. The loop has not ended
  when the attempts are used up.
\<close>

fun connect_loop :: "timestamp_ms \<Rightarrow> (timestamp_ms \<times> 'ch option) list \<Rightarrow> 'ch consensus_result option" where
  "connect_loop deadline [] = None"
| "connect_loop deadline ((now, Some channel) # attempts) = Some (Inr channel)"
| "connect_loop deadline ((now, None) # attempts) =
     (if deadline \<le> now then Some (Inl NetworkClientConnection) else connect_loop deadline attempts)"

text \<open>
  \<open>channels\<close> is the pool when it is read and \<open>channels'\<close> the pool when it is written, after the connection was made: another call may
  have put a channel to the peer there in between, which then counts. \<open>protocols\<close> splits an address, \<open>valid_uri\<close> says
  whether the endpoint can be built from a text; the code unwraps the latter.
\<close>

definition get_channel ::
  "committee \<Rightarrow> (string \<Rightarrow> protocol list) \<Rightarrow> (string \<Rightarrow> bool) \<Rightarrow> timestamp_ms \<Rightarrow> (timestamp_ms \<times> 'ch option) list \<Rightarrow> authority_index
     \<Rightarrow> (authority_index \<times> 'ch) list \<Rightarrow> (authority_index \<times> 'ch) list
     \<Rightarrow> ('ch consensus_result option \<times> (authority_index \<times> 'ch) list) res" where
  "get_channel cm protocols valid_uri deadline attempts peer channels channels' =
     (case map_of channels peer of
        Some channel \<Rightarrow> Inr (Some (Inr channel), channels)
      | None \<Rightarrow>
          and_then (committee_authority cm peer) (\<lambda>authority.
            case to_host_port_str (protocols (au_address authority)) of
              None \<Rightarrow> Inr (Some (Inl NetworkConfig), channels)
            | Some address \<Rightarrow>
                and_then (assert_that (valid_uri (''https://'' @ address)) InvalidAddress) (\<lambda>_.
                  case connect_loop deadline attempts of
                    Some (Inr channel) \<Rightarrow>
                      (case map_of channels' peer of
                         Some other \<Rightarrow> Inr (Some (Inr other), channels')
                       | None \<Rightarrow> Inr (Some (Inr channel), bm_insert peer channel channels'))
                  | result \<Rightarrow> Inr (result, channels'))))"

section \<open>Calls of the client\<close>

definition tonic_send_block :: "'ch consensus_result \<Rightarrow> (byte list \<Rightarrow> tonic_code + unit) \<Rightarrow> verified_block \<Rightarrow> unit consensus_result" where
  "tonic_send_block channel call b =
     and_then channel (\<lambda>_. case call (vb_serialized b) of Inl _ \<Rightarrow> Inl NetworkRequest | Inr _ \<Rightarrow> Inr ())"

text \<open>Errors in the stream are left out of what the caller sees.\<close>

definition tonic_subscribe_blocks ::
  "'ch consensus_result \<Rightarrow> (round \<Rightarrow> tonic_code + (tonic_code + byte list) list) \<Rightarrow> round \<Rightarrow> byte list list consensus_result" where
  "tonic_subscribe_blocks channel call last_received =
     and_then channel (\<lambda>_.
       case call last_received of
         Inl _ \<Rightarrow> Inl NetworkRequest
       | Inr responses \<Rightarrow> Inr (List.map_filter (\<lambda>r. case r of Inr b \<Rightarrow> Some b | Inl _ \<Rightarrow> None) responses))"

text \<open>The messages of the stream that answers \<open>fetch_blocks\<close>; the stream ends with the list.\<close>

datatype stream_message = FetchBlocksResponse "byte list list" | StreamFailed tonic_code

definition fetch_error :: "tonic_code \<Rightarrow> consensus_error" where
  "fetch_error code = (if code = DeadlineExceeded then NetworkRequestTimeout else NetworkRequest)"

fun fetch_stream :: "stream_message list \<Rightarrow> byte list list \<Rightarrow> nat \<Rightarrow> byte list list consensus_result" where
  "fetch_stream [] blocks total_fetched_bytes = Inr blocks"
| "fetch_stream (FetchBlocksResponse bs # messages) blocks total_fetched_bytes =
     (let total_fetched_bytes = total_fetched_bytes + sum_list (map length bs) in
      if total_fetched_bytes > max_total_fetched_bytes then Inr (blocks @ bs)
      else fetch_stream messages (blocks @ bs) total_fetched_bytes)"
| "fetch_stream (StreamFailed code # messages) blocks total_fetched_bytes =
     (if blocks = [] then Inl (fetch_error code) else Inr blocks)"

definition tonic_fetch_blocks ::
  "'ch consensus_result \<Rightarrow> (block_ref \<Rightarrow> byte list option) \<Rightarrow> (byte list list \<Rightarrow> round list \<Rightarrow> tonic_code + stream_message list)
     \<Rightarrow> block_ref list \<Rightarrow> round list \<Rightarrow> byte list list consensus_result" where
  "tonic_fetch_blocks channel en_ref call block_refs highest_accepted_rounds =
     and_then channel (\<lambda>_.
       case call (List.map_filter en_ref block_refs) highest_accepted_rounds of
         Inl code \<Rightarrow> Inl (fetch_error code)
       | Inr messages \<Rightarrow> fetch_stream messages [] 0)"

definition tonic_fetch_commits ::
  "'ch consensus_result \<Rightarrow> (commit_index \<Rightarrow> commit_index \<Rightarrow> tonic_code + byte list list \<times> byte list list)
     \<Rightarrow> commit_index \<Rightarrow> commit_index \<Rightarrow> (byte list list \<times> byte list list) consensus_result" where
  "tonic_fetch_commits channel call start end_index =
     and_then channel (\<lambda>_. case call start end_index of Inl _ \<Rightarrow> Inl NetworkRequest | Inr response \<Rightarrow> Inr response)"

section \<open>The proxy of the service\<close>

text \<open>Every request carries the authority of its connection; one without is refused.\<close>

definition proxy_send_block ::
  "crypto \<Rightarrow> decoder \<Rightarrow> (timestamp_ms \<Rightarrow> verified_block list \<Rightarrow> 'c \<Rightarrow> block_ref list option \<times> 'c) \<Rightarrow> timestamp_ms \<Rightarrow> dag_state
     \<Rightarrow> authority_index option \<Rightarrow> byte list \<Rightarrow> authority_service \<Rightarrow> 'c \<Rightarrow> ((tonic_code + unit) \<times> authority_service \<times> 'c) res" where
  "proxy_send_block cry de dispatch now ds peer_info block svc core =
     (case peer_info of
        None \<Rightarrow> Inr (Inl Internal, svc, core)
      | Some peer \<Rightarrow>
          and_then (handle_send_block cry de dispatch now ds peer block svc core) (\<lambda>(result, svc, core).
            Inr (case result of Inl _ \<Rightarrow> Inl InvalidArgument | Inr _ \<Rightarrow> Inr (), svc, core)))"

text \<open>The first item of the request stream: the request, an error, or nothing.\<close>

definition proxy_subscribe_blocks ::
  "epoch_context \<Rightarrow> dag_state \<Rightarrow> recv_result list \<Rightarrow> authority_index option \<Rightarrow> (tonic_code + round) option
     \<Rightarrow> (tonic_code + block_stream) res" where
  "proxy_subscribe_blocks cx ds rx_block_broadcaster peer_info first_request =
     (case peer_info of
        None \<Rightarrow> Inr (Inl Internal)
      | Some peer \<Rightarrow>
          (case first_request of
             Some (Inr last_received) \<Rightarrow>
               and_then (handle_subscribe_blocks cx ds rx_block_broadcaster last_received) (\<lambda>stream. Inr (Inr stream))
           | _ \<Rightarrow> Inr (Inl InvalidArgument)))"

text \<open>The blocks of an answer, in chunks that are within the limit or of one block.\<close>

fun chunk_loop :: "nat \<Rightarrow> byte list list \<Rightarrow> byte list list list \<Rightarrow> byte list list \<Rightarrow> nat \<Rightarrow> byte list list list" where
  "chunk_loop chunk_limit [] chunks chunk chunk_size = (if chunk \<noteq> [] then chunks @ [chunk] else chunks)"
| "chunk_loop chunk_limit (block # blocks) chunks chunk chunk_size =
     (if chunk \<noteq> [] \<and> chunk_size + length block > chunk_limit
      then chunk_loop chunk_limit blocks (chunks @ [chunk]) [block] (length block)
      else chunk_loop chunk_limit blocks chunks (chunk @ [block]) (chunk_size + length block))"

definition chunk_blocks :: "byte list list \<Rightarrow> nat \<Rightarrow> byte list list list" where
  "chunk_blocks blocks chunk_limit = chunk_loop chunk_limit blocks [] [] 0"

definition proxy_fetch_blocks ::
  "(byte list \<Rightarrow> block_ref option) \<Rightarrow> epoch_context \<Rightarrow> dag_state \<Rightarrow> authority_index option \<Rightarrow> byte list list \<Rightarrow> round list
     \<Rightarrow> (tonic_code + byte list list list) res" where
  "proxy_fetch_blocks de_ref cx ds peer_info block_refs highest_accepted_rounds =
     (case peer_info of
        None \<Rightarrow> Inr (Inl Internal)
      | Some peer \<Rightarrow>
          and_then (handle_fetch_blocks cx ds peer (List.map_filter de_ref block_refs) highest_accepted_rounds) (\<lambda>result.
            Inr (case result of
                   Inl _ \<Rightarrow> Inl Internal
                 | Inr blocks \<Rightarrow> Inr (chunk_blocks blocks max_fetch_response_bytes))))"

definition proxy_fetch_commits ::
  "epoch_context \<Rightarrow> mem_store \<Rightarrow> authority_index option \<Rightarrow> commit_index \<Rightarrow> commit_index
     \<Rightarrow> (tonic_code + byte list list \<times> byte list list) res" where
  "proxy_fetch_commits cx store peer_info start end_index =
     (case peer_info of
        None \<Rightarrow> Inr (Inl Internal)
      | Some peer \<Rightarrow>
          and_then (handle_fetch_commits cx store start end_index) (\<lambda>(commits, certifier_blocks).
            Inr (Inr (map tc_serialized commits, map vb_serialized certifier_blocks))))"

section \<open>Incoming connections\<close>

text \<open>
  The keys that the TLS server lets in (\<^verbatim>\<open>consensus/core/src/network/tonic_tls.rs\<close>), and the server name that
  ties the certificates to the epoch.
\<close>

definition AllowedPublicKeys_new :: "epoch_context \<Rightarrow> byte list set" where
  "AllowedPublicKeys_new cx = set (map (\<lambda>(_, a). au_network_key a) (committee_authorities (cx_committee cx)))"

definition allowed :: "byte list set \<Rightarrow> byte list \<Rightarrow> bool" where
  "allowed ks key = (key \<in> ks)"

definition certificate_server_name :: "epoch_context \<Rightarrow> string" where
  "certificate_server_name cx = ''consensus_epoch_'' @ show_nat (cm_epoch (cx_committee cx))"

text \<open>The index of each network key; of authorities with the same key the last one counts.\<close>

definition ConnectionsInfo_new :: "epoch_context \<Rightarrow> byte list \<Rightarrow> authority_index option" where
  "ConnectionsInfo_new cx =
     map_of (rev (map (\<lambda>(index, authority). (au_network_key authority, index)) (committee_authorities (cx_committee cx))))"

text \<open>The certificates of a TLS stream decide which authority its requests are from.\<close>

definition accept_connection ::
  "(byte list \<Rightarrow> authority_index option) \<Rightarrow> ('cert \<Rightarrow> byte list option) \<Rightarrow> 'cert list option \<Rightarrow> authority_index consensus_result" where
  "accept_connection connections_info public_key_from_certificate peer_certificates =
     (case peer_certificates of
        Some [cert] \<Rightarrow>
          (case public_key_from_certificate cert of
             None \<Rightarrow> Inl NetworkServerConnection
           | Some key \<Rightarrow> ok_or (connections_info key) NetworkServerConnection)
      | _ \<Rightarrow> Inl NetworkServerConnection)"

section \<open>Behaviour\<close>

lemma chunk_loop_concat: "concat (chunk_loop limit blocks chunks chunk sz) = concat chunks @ chunk @ blocks"
  by (induction limit blocks chunks chunk sz rule: chunk_loop.induct) auto

lemma chunk_loop_sizes:
  "sz = sum_list (map length chunk) \<Longrightarrow> chunk = [] \<or> length chunk = 1 \<or> sz \<le> limit \<Longrightarrow>
     \<forall>c \<in> set chunks. c \<noteq> [] \<and> (length c = 1 \<or> sum_list (map length c) \<le> limit) \<Longrightarrow>
     \<forall>c \<in> set (chunk_loop limit blocks chunks chunk sz). c \<noteq> [] \<and> (length c = 1 \<or> sum_list (map length c) \<le> limit)"
proof (induction limit blocks chunks chunk sz rule: chunk_loop.induct)
  case (2 limit block blocks chunks chunk sz)
  show ?case
  proof (cases "chunk \<noteq> [] \<and> sz + length block > limit")
    case True
    have "\<forall>c \<in> set (chunks @ [chunk]). c \<noteq> [] \<and> (length c = 1 \<or> sum_list (map length c) \<le> limit)"
      using 2(3,4,5) True by simp
    from 2(1) [OF True _ _ this] True show ?thesis by simp
  next
    case False
    have "chunk @ [block] = [] \<or> length (chunk @ [block]) = 1 \<or> sz + length block \<le> limit" using False by auto
    with 2(2) [OF False _ this 2(5)] 2(3) False show ?thesis by auto
  qed
qed auto

text \<open>
  The chunks hold all blocks in their order, none is empty, and each fits into one message unless it is a single block
  that does not.
\<close>

lemma chunk_blocks_complete:
  "concat (chunk_blocks blocks limit) = blocks"
  "c \<in> set (chunk_blocks blocks limit) \<Longrightarrow> c \<noteq> [] \<and> (length c = 1 \<or> sum_list (map length c) \<le> limit)"
  using chunk_loop_concat [of limit blocks "[]" "[]" 0] chunk_loop_sizes [of 0 "[]" limit "[]" blocks]
  by (auto simp: chunk_blocks_def)

text \<open>The client returns the blocks of the first messages, in their order, and an error only when it has none.\<close>

lemma fetch_stream_prefix:
  "fetch_stream (map FetchBlocksResponse chunks @ rest) blocks fetched = Inr result \<Longrightarrow>
     rest = [] \<or> (\<exists>code. rest = [StreamFailed code]) \<Longrightarrow> \<exists>k \<le> length chunks. result = blocks @ concat (take k chunks)"
proof (induction chunks arbitrary: blocks fetched)
  case Nil
  then show ?case by (auto split: if_splits)
next
  case (Cons c chunks)
  show ?case
  proof (cases "fetched + sum_list (map length c) > max_total_fetched_bytes")
    case True
    with Cons.prems(1) show ?thesis by (intro exI [of _ 1]) simp
  next
    case False
    with Cons.prems(1) have "fetch_stream (map FetchBlocksResponse chunks @ rest) (blocks @ c) (fetched + sum_list (map length c)) = Inr result"
      by simp
    from Cons.IH [OF this Cons.prems(2)] obtain k where "k \<le> length chunks" "result = (blocks @ c) @ concat (take k chunks)" by blast
    then show ?thesis by (intro exI [of _ "Suc k"]) simp
  qed
qed

lemma fetch_stream_complete:
  "fetch_stream (map FetchBlocksResponse chunks) blocks fetched = Inr result \<Longrightarrow> fetched = sum_list (map length blocks) \<Longrightarrow>
     sum_list (map length result) \<le> max_total_fetched_bytes \<Longrightarrow> result = blocks @ concat chunks"
proof (induction chunks arbitrary: blocks fetched)
  case (Cons c chunks)
  have "fetched + sum_list (map length c) \<le> max_total_fetched_bytes"
    using Cons.prems by (auto simp: Let_def split: if_splits)
  with Cons.prems(1) have "fetch_stream (map FetchBlocksResponse chunks) (blocks @ c) (fetched + sum_list (map length c)) = Inr result"
    by simp
  from Cons.IH [OF this] Cons.prems(2,3) show ?case by simp
qed simp

lemma fetch_stream_error:
  "fetch_stream (map FetchBlocksResponse chunks @ rest) blocks fetched = Inl e \<Longrightarrow> \<forall>c \<in> set chunks. c \<noteq> [] \<Longrightarrow>
     rest = [] \<or> (\<exists>code. rest = [StreamFailed code]) \<Longrightarrow> chunks = [] \<and> blocks = [] \<and> rest \<noteq> []"
proof (induction chunks arbitrary: blocks fetched)
  case (Cons c chunks)
  have "fetched + sum_list (map length c) \<le> max_total_fetched_bytes"
    using Cons.prems(1) by (auto simp: Let_def split: if_splits)
  with Cons.prems(1) have "fetch_stream (map FetchBlocksResponse chunks @ rest) (blocks @ c) (fetched + sum_list (map length c)) = Inl e" by simp
  from Cons.IH [OF this] Cons.prems(2,3) show ?case by auto
qed (auto split: if_splits)

text \<open>A connection that is accepted is one of the authority whose key it proves.\<close>

lemma accepted_connection_has_key:
  assumes "accept_connection (ConnectionsInfo_new cx) key_of (Some [cert]) = Inr index"
  shows "index < committee_size (cx_committee cx) \<and> key_of cert = Some (au_network_key (cm_authorities (cx_committee cx) ! index))"
proof -
  from assms obtain key where key: "key_of cert = Some key" and "ConnectionsInfo_new cx key = Some index"
    by (auto simp: accept_connection_def ok_or_def split: option.splits)
  then have "(key, index) \<in> set (map (\<lambda>(index, authority). (au_network_key authority, index)) (committee_authorities (cx_committee cx)))"
    unfolding ConnectionsInfo_new_def using map_of_SomeD set_rev by metis
  with key show ?thesis by (auto simp: committee_authorities_def committee_size_def in_set_enumerate_eq)
qed

text \<open>The keys that TLS lets in are those that the lookup of the authority knows.\<close>

lemma allowed_iff_known: "allowed (AllowedPublicKeys_new cx) key \<longleftrightarrow> (\<exists>index. ConnectionsInfo_new cx key = Some index)"
proof -
  have "(\<exists>index. ConnectionsInfo_new cx key = Some index) \<longleftrightarrow> key \<in> dom (ConnectionsInfo_new cx)" by blast
  then show ?thesis unfolding allowed_def AllowedPublicKeys_new_def ConnectionsInfo_new_def
    by (simp add: dom_map_of_conv_image_fst image_comp case_prod_unfold)
qed

text \<open>Server names of different epochs differ: decimal numerals are read back by \<open>read_nat\<close>.\<close>

definition read_nat :: "string \<Rightarrow> nat" where
  "read_nat cs = foldl (\<lambda>n c. 10 * n + (of_char c - 48)) 0 cs"

lemma read_show_nat: "read_nat (show_nat n) = n"
proof (induction n rule: show_nat.induct)
  case (1 n)
  have digit: "of_char (char_of (48 + d) :: char) = 48 + d" if "d < 10" for d :: nat using that by simp
  show ?case
  proof (cases "n < 10")
    case True
    then show ?thesis using digit [OF True] by (simp add: show_nat.simps [of n] read_nat_def)
  next
    case False
    have "read_nat (show_nat n) = 10 * read_nat (show_nat (n div 10)) + n mod 10"
      using False digit [of "n mod 10"] by (subst show_nat.simps) (simp add: read_nat_def)
    then show ?thesis using 1 [OF False] by simp
  qed
qed

lemma server_name_of_epoch:
  "certificate_server_name cx = certificate_server_name cx' \<longleftrightarrow> cm_epoch (cx_committee cx) = cm_epoch (cx_committee cx')"
  unfolding certificate_server_name_def using read_show_nat by (metis same_append_eq)

text \<open>A channel is made once: later calls for the peer find it.\<close>

lemma channel_is_kept:
  "get_channel cm protocols valid_uri deadline attempts peer channels channels' = Inr (Some (Inr channel), pool) \<Longrightarrow>
     map_of pool peer = Some channel"
  by (auto simp: get_channel_def and_then_eq_Inr split: option.splits sum.splits)

lemma connect_loop_ends:
  "(now, None) \<in> set attempts \<Longrightarrow> deadline \<le> now \<Longrightarrow> connect_loop deadline attempts \<noteq> None"
  by (induction deadline attempts rule: connect_loop.induct) auto

end
