(* ===== verification/Anemo_Network.thy ===== *)
theory Anemo_Network
  imports Authority_Service
begin

text \<open>
  The requests between validators over anemo (\<^verbatim>\<open>consensus/core/src/network/anemo_network.rs\<close>), the transport without streams, and the
  filter on the epoch of a request (\<^verbatim>\<open>consensus/core/src/network/epoch_filter.rs\<close>). As for tonic, what the transport gives is an
  argument. A peer is identified by the bytes of its network key. The network is set when a client is asked for.
\<close>

type_synonym peer_id = "byte list"

text \<open>The codes of a status that the code looks at or sets.\<close>

datatype anemo_code = BadRequest | RequestTimeout | InternalServerError | OtherStatus

section \<open>The client\<close>

text \<open>
  What the loop that waits for a connection sees: a new peer, with whether the network now has the peer that is waited for, the end
  of the subscription or a lag in it, other events, and the end of the timeout. The loop has not ended when the events are used up.
\<close>

datatype peer_event = NewPeer peer_id bool | EventsClosed | EventsLagged bool | OtherEvent | TimeoutElapsed

fun wait_for_peer :: "peer_id \<Rightarrow> peer_event list \<Rightarrow> unit consensus_result option" where
  "wait_for_peer peer [] = None"
| "wait_for_peer peer (NewPeer pid has_peer # events) =
     (if pid = peer \<and> has_peer then Some (Inr ()) else wait_for_peer peer events)"
| "wait_for_peer peer (EventsClosed # events) = Some (Inl Shutdown)"
| "wait_for_peer peer (EventsLagged has_peer # events) = (if has_peer then Some (Inr ()) else wait_for_peer peer events)"
| "wait_for_peer peer (OtherEvent # events) = wait_for_peer peer events"
| "wait_for_peer peer (TimeoutElapsed # events) = Some (Inl PeerDisconnected)"

definition anemo_get_client ::
  "epoch_context \<Rightarrow> (peer_id \<Rightarrow> bool) \<Rightarrow> (peer_id \<Rightarrow> bool) \<Rightarrow> bool \<Rightarrow> peer_event list \<Rightarrow> authority_index \<Rightarrow> unit consensus_result option res" where
  "anemo_get_client cx connected known subscribed events peer =
     and_then (committee_authority (cx_committee cx) peer) (\<lambda>authority.
       let peer_id = au_network_key authority in
       Inr (if connected peer_id then Some (Inr ())
            else if \<not> known peer_id then Some (Inl UnknownNetworkPeer)
            else if \<not> subscribed then Some (Inl NetworkClientConnection)
            else wait_for_peer peer_id events))"

definition anemo_send_block :: "unit consensus_result \<Rightarrow> (byte list \<Rightarrow> anemo_code + unit) \<Rightarrow> verified_block \<Rightarrow> unit consensus_result" where
  "anemo_send_block client call b =
     and_then client (\<lambda>_. case call (vb_serialized b) of Inl _ \<Rightarrow> Inl NetworkRequest | Inr _ \<Rightarrow> Inr ())"

definition anemo_fetch_blocks ::
  "unit consensus_result \<Rightarrow> (block_ref \<Rightarrow> byte list option) \<Rightarrow> (byte list list \<Rightarrow> round list \<Rightarrow> anemo_code + byte list list)
     \<Rightarrow> block_ref list \<Rightarrow> round list \<Rightarrow> byte list list consensus_result" where
  "anemo_fetch_blocks client en_ref call block_refs highest_accepted_rounds =
     and_then client (\<lambda>_.
       case call (List.map_filter en_ref block_refs) highest_accepted_rounds of
         Inl code \<Rightarrow> Inl (if code = RequestTimeout then NetworkRequestTimeout else NetworkRequest)
       | Inr blocks \<Rightarrow> Inr blocks)"

definition anemo_fetch_commits ::
  "unit consensus_result \<Rightarrow> (commit_index \<Rightarrow> commit_index \<Rightarrow> anemo_code + byte list list \<times> byte list list)
     \<Rightarrow> commit_index \<Rightarrow> commit_index \<Rightarrow> (byte list list \<times> byte list list) consensus_result" where
  "anemo_fetch_commits client call start end_index =
     and_then client (\<lambda>_. case call start end_index of Inl _ \<Rightarrow> Inl NetworkRequest | Inr response \<Rightarrow> Inr response)"

section \<open>The proxy of the service\<close>

text \<open>The index of each network key; of authorities with the same key the last one counts.\<close>

definition peer_map :: "epoch_context \<Rightarrow> peer_id \<Rightarrow> authority_index option" where
  "peer_map cx =
     map_of (rev (map (\<lambda>(index, authority). (au_network_key authority, index)) (committee_authorities (cx_committee cx))))"

definition requesting_peer :: "epoch_context \<Rightarrow> peer_id option \<Rightarrow> anemo_code + authority_index" where
  "requesting_peer cx peer_id =
     (case peer_id of None \<Rightarrow> Inl BadRequest | Some pid \<Rightarrow> ok_or (peer_map cx pid) BadRequest)"

definition anemo_proxy_send_block ::
  "crypto \<Rightarrow> decoder \<Rightarrow> (timestamp_ms \<Rightarrow> verified_block list \<Rightarrow> 'c \<Rightarrow> block_ref list option \<times> 'c) \<Rightarrow> timestamp_ms \<Rightarrow> dag_state
     \<Rightarrow> epoch_context \<Rightarrow> peer_id option \<Rightarrow> byte list \<Rightarrow> authority_service \<Rightarrow> 'c \<Rightarrow> ((anemo_code + unit) \<times> authority_service \<times> 'c) res" where
  "anemo_proxy_send_block cry de dispatch now ds cx peer_id block svc core =
     (case requesting_peer cx peer_id of
        Inl code \<Rightarrow> Inr (Inl code, svc, core)
      | Inr index \<Rightarrow>
          and_then (handle_send_block cry de dispatch now ds index block svc core) (\<lambda>(result, svc, core).
            Inr (case result of Inl _ \<Rightarrow> Inl BadRequest | Inr _ \<Rightarrow> Inr (), svc, core)))"

definition anemo_proxy_fetch_blocks ::
  "(byte list \<Rightarrow> block_ref option) \<Rightarrow> epoch_context \<Rightarrow> dag_state \<Rightarrow> peer_id option \<Rightarrow> byte list list \<Rightarrow> round list
     \<Rightarrow> (anemo_code + byte list list) res" where
  "anemo_proxy_fetch_blocks de_ref cx ds peer_id block_refs highest_accepted_rounds =
     (case requesting_peer cx peer_id of
        Inl code \<Rightarrow> Inr (Inl code)
      | Inr index \<Rightarrow>
          and_then (handle_fetch_blocks cx ds index (List.map_filter de_ref block_refs) highest_accepted_rounds) (\<lambda>result.
            Inr (case result of Inl _ \<Rightarrow> Inl BadRequest | Inr blocks \<Rightarrow> Inr blocks)))"

definition anemo_proxy_fetch_commits ::
  "epoch_context \<Rightarrow> mem_store \<Rightarrow> peer_id option \<Rightarrow> commit_index \<Rightarrow> commit_index \<Rightarrow> (anemo_code + byte list list \<times> byte list list) res" where
  "anemo_proxy_fetch_commits cx store peer_id start end_index =
     (case requesting_peer cx peer_id of
        Inl code \<Rightarrow> Inr (Inl code)
      | Inr index \<Rightarrow>
          and_then (handle_fetch_commits cx store start end_index) (\<lambda>(commits, certifier_blocks).
            Inr (Inr (map tc_serialized commits, map vb_serialized certifier_blocks))))"

section \<open>The epoch filter\<close>

text \<open>A request passes when its epoch header is the epoch of the validator.\<close>

definition authorize :: "string \<Rightarrow> string option \<Rightarrow> anemo_code + unit" where
  "authorize allowed_epoch epoch_header =
     and_then (ok_or epoch_header BadRequest) (\<lambda>epoch. if allowed_epoch = epoch then Inr () else Inl BadRequest)"

section \<open>Behaviour\<close>

text \<open>The proxy takes a request for one of the authority that owns the key of the connection.\<close>

lemma requesting_peer_has_key:
  assumes "requesting_peer cx (Some pid) = Inr index"
  shows "index < committee_size (cx_committee cx) \<and> au_network_key (cm_authorities (cx_committee cx) ! index) = pid"
proof -
  from assms have "peer_map cx pid = Some index" by (auto simp: requesting_peer_def ok_or_def split: option.splits)
  then have "(pid, index) \<in> set (map (\<lambda>(index, authority). (au_network_key authority, index)) (committee_authorities (cx_committee cx)))"
    unfolding peer_map_def using map_of_SomeD set_rev by metis
  then show ?thesis by (auto simp: committee_authorities_def committee_size_def in_set_enumerate_eq)
qed

text \<open>The wait for a connection ends at the latest with its timeout.\<close>

lemma wait_for_peer_ends: "TimeoutElapsed \<in> set events \<Longrightarrow> wait_for_peer peer events \<noteq> None"
  by (induction peer events rule: wait_for_peer.induct) auto

end
