(* ===== verification/Service_Properties.thy ===== *)
theory Service_Properties
  imports Tonic_Network Anemo_Network Synchronizer_Properties Commit_Sync_Properties
begin

text \<open>
  What a validator serves passes the checks of the validator that asked for it: the handlers of the authority
  service behind the proxy of the network on one side, the client, the synchronizer and the commit syncer on the other.
\<close>

section \<open>Served blocks\<close>

lemma set_map_filter_id [simp]: "set (List.map_filter id xs) = {x. Some x \<in> set xs}"
  by (induction xs) (auto simp: map_filter_simps split: option.splits)

lemma length_map_filter_id: "length (List.map_filter id xs) \<le> length xs"
  by (induction xs) (auto simp: map_filter_simps split: option.splits)

lemma check_requested_refs_Inr:
  "check_requested_refs cm refs = Inr () \<longleftrightarrow> (\<forall>r \<in> set refs. br_author r \<in> members cm \<and> br_round r \<noteq> 0)"
  by (induction cm refs rule: check_requested_refs.induct) (auto simp: is_valid_index_def members_eq genesis_round_def)

lemma newer_refs_total:
  "\<forall>r \<in> set refs. br_author r < length rounds \<Longrightarrow>
     \<exists>rs. newer_refs rounds n refs = Inr rs \<and> length rs \<le> n \<and> set rs \<subseteq> {r \<in> set refs. rounds ! br_author r < br_round r}"
proof (induction rounds n refs rule: newer_refs.induct)
  case (2 rounds n r refs)
  show ?case
  proof (cases "n = 0")
    case False
    note bound = 2(3)
    show ?thesis
    proof (cases "rounds ! br_author r < br_round r")
      case True
      then obtain rs where "newer_refs rounds (n - 1) refs = Inr rs" "length rs \<le> n - 1"
        "set rs \<subseteq> {r \<in> set refs. rounds ! br_author r < br_round r}"
        using 2(1) [OF False, of "rounds ! br_author r"] bound by auto
      with True False bound show ?thesis by auto
    next
      case below: False
      then obtain rs where "newer_refs rounds n refs = Inr rs" "length rs \<le> n"
        "set rs \<subseteq> {r \<in> set refs. rounds ! br_author r < br_round r}"
        using 2(2) [OF False, of "rounds ! br_author r"] bound by auto
      with below False bound show ?thesis by auto
    qed
  qed simp
qed simp

text \<open>Blocks that decode, pass the verifier and are not from the future are the result of the synchronizer's loop.\<close>

lemma sync_verify_served:
  "\<forall>b \<in> set bs. block_decodes cry de b \<and> verify cry sv (vb_signed b) = Inr () \<and> vb_timestamp_ms b \<le> now \<Longrightarrow>
     sync_verify_blocks cry de sv now (map vb_serialized bs) = Inr bs"
proof (induction bs)
  case (Cons b bs)
  have "VerifiedBlock_new_verified cry (vb_signed b) (vb_serialized b) = b"
    using Cons.prems by (cases b) (simp add: VerifiedBlock_new_verified_def block_decodes_def)
  with Cons show ?case by (auto simp: block_decodes_def ok_or_def Let_def)
qed simp

lemma check_served:
  assumes ok: "\<forall>b \<in> set (bs @ as). block_decodes cry de b \<and> verify cry sv (vb_signed b) = Inr () \<and> vb_timestamp_ms b \<le> now"
    and len: "length bs \<le> length (bg_block_refs g)" "length as \<le> max_additional_blocks"
    and bs: "\<forall>b \<in> set bs. vb_reference b \<in> set (bg_block_refs g)"
    and as: "\<forall>a \<in> set as. \<exists>b \<in> set bs. vb_reference a \<in> set (vb_ancestors b)"
  shows "check_fetched_blocks cry de sv now g (map vb_serialized (bs @ as)) = Inr (bs @ as)"
proof -
  let ?ancestors = "bs_extend (concat (map vb_ancestors (filter (\<lambda>b. vb_reference b \<in> set (bg_block_refs g)) (bs @ as)))) []"
  have "List.find (\<lambda>b. vb_reference b \<notin> set (bg_block_refs g) \<and> vb_reference b \<notin> set ?ancestors) (bs @ as) = None"
    unfolding find_None_iff using bs as by fastforce
  then show ?thesis
    using sync_verify_served [OF ok] len by (simp only: check_fetched_blocks_def Let_def and_then_Inr option.case) simp
qed

text \<open>The answer of the service: the requested blocks it has, and ancestors that they name.\<close>

lemma served_blocks:
  assumes "dag_inv ds" "dag_causal ds" "cx_committee (ds_context ds) = cx_committee cx"
    and "length (bg_block_refs g) \<le> pa_max_blocks_per_fetch (cx_parameters cx)"
    and "\<forall>r \<in> set (bg_block_refs g). br_author r \<in> members (cx_committee cx) \<and> br_round r \<noteq> 0"
    and "rounds = [] \<or> length rounds = committee_size (cx_committee cx)"
  shows "\<exists>bs as. handle_fetch_blocks cx ds peer (bg_block_refs g) rounds = Inr (Inr (map vb_serialized (bs @ as))) \<and>
    (\<forall>b \<in> set (bs @ as). dag_lookup ds (vb_reference b) = Some b \<and> br_round (vb_reference b) \<noteq> 0) \<and>
    length bs \<le> length (bg_block_refs g) \<and> length as \<le> max_additional_blocks \<and>
    (\<forall>b \<in> set bs. vb_reference b \<in> set (bg_block_refs g)) \<and>
    (\<forall>a \<in> set as. \<exists>b \<in> set bs. vb_reference a \<in> set (vb_ancestors b)) \<and>
    (\<forall>r \<in> set (bg_block_refs g). \<forall>b. dag_lookup ds r = Some b \<longrightarrow> b \<in> set bs)"
proof -
  let ?refs = "bg_block_refs g"
  let ?bs = "List.map_filter id (map (dag_lookup ds) ?refs)"
  have bs: "vb_reference b \<in> set ?refs \<and> dag_lookup ds (vb_reference b) = Some b" if "b \<in> set ?bs" for b
    using that dag_lookup_ref(1) [OF assms(1)] by force
  have named: "dag_lookup ds a \<noteq> None \<and> br_author a < committee_size (cx_committee cx)"
    if "a \<in> set (concat (map vb_ancestors ?bs))" for a
  proof -
    from that obtain b where "b \<in> set ?bs" "a \<in> set (vb_ancestors b)" by auto
    with bs [of b] assms(2) have "dag_lookup ds a \<noteq> None" by (auto simp: dag_causal_def)
    then show ?thesis using dag_lookup_ref(2) [OF assms(1), of a] assms(3) by auto
  qed
  obtain newer where newer: "(if rounds = [] then Inr [] else newer_refs rounds service_max_additional_blocks (concat (map vb_ancestors ?bs))) = Inr newer"
    and few: "length newer \<le> max_additional_blocks"
    and later: "\<And>a. a \<in> set newer \<Longrightarrow> a \<in> set (concat (map vb_ancestors ?bs)) \<and> br_round a \<noteq> 0"
  proof (cases "rounds = []")
    case False
    with assms(6) named have "\<forall>r \<in> set (concat (map vb_ancestors ?bs)). br_author r < length rounds" by auto
    from newer_refs_total [OF this, of service_max_additional_blocks] obtain rs where
      rs: "newer_refs rounds service_max_additional_blocks (concat (map vb_ancestors ?bs)) = Inr rs" "length rs \<le> service_max_additional_blocks"
      "set rs \<subseteq> {r \<in> set (concat (map vb_ancestors ?bs)). rounds ! br_author r < br_round r}" by blast
    have "length rs \<le> max_additional_blocks"
      using rs(2) by (simp add: service_max_additional_blocks_def max_additional_blocks_def)
    moreover have "a \<in> set (concat (map vb_ancestors ?bs)) \<and> br_round a \<noteq> 0" if "a \<in> set rs" for a
      using subsetD [OF rs(3) that] by simp
    ultimately show ?thesis using that [of rs] False rs(1) by simp
  qed simp
  let ?as = "List.map_filter id (map (dag_lookup ds) newer)"
  have as: "vb_reference a \<in> set newer \<and> dag_lookup ds (vb_reference a) = Some a" if "a \<in> set ?as" for a
    using that dag_lookup_ref(1) [OF assms(1)] by force
  have served: "handle_fetch_blocks cx ds peer ?refs rounds = Inr (Inr (map vb_serialized (?bs @ ?as)))"
    using assms(4,5,6) newer check_requested_refs_Inr [of "cx_committee cx" ?refs]
    by (auto simp: handle_fetch_blocks_def Let_def get_blocks_eq map_filter_simps split: if_splits sum.splits)
  have "\<forall>b \<in> set (?bs @ ?as). dag_lookup ds (vb_reference b) = Some b \<and> br_round (vb_reference b) \<noteq> 0"
    using bs as later assms(5) by (metis Un_iff set_append)
  moreover have "\<forall>a \<in> set ?as. \<exists>b \<in> set ?bs. vb_reference a \<in> set (vb_ancestors b)" using as later by fastforce
  moreover have "length ?bs \<le> length ?refs" "length ?as \<le> max_additional_blocks"
    using few length_map_filter_id [of "map (dag_lookup ds) ?refs"] length_map_filter_id [of "map (dag_lookup ds) newer"] by auto
  moreover have "\<forall>r \<in> set ?refs. \<forall>b. dag_lookup ds r = Some b \<longrightarrow> b \<in> set ?bs" by force
  ultimately show ?thesis using served bs by blast
qed

text \<open>
  A prefix of an answer passes as well: additional ancestors come after all the blocks that name them.
\<close>

lemma check_served_prefix:
  assumes ok: "\<forall>b \<in> set (bs @ as). block_decodes cry de b \<and> verify cry sv (vb_signed b) = Inr () \<and> vb_timestamp_ms b \<le> now"
    and len: "length bs \<le> length (bg_block_refs g)" "length as \<le> max_additional_blocks"
    and bs: "\<forall>b \<in> set bs. vb_reference b \<in> set (bg_block_refs g)"
    and as: "\<forall>a \<in> set as. \<exists>b \<in> set bs. vb_reference a \<in> set (vb_ancestors b)"
  shows "check_fetched_blocks cry de sv now g (map vb_serialized (take m (bs @ as))) = Inr (take m (bs @ as))"
proof -
  have split: "take m (bs @ as) = take m bs @ take (m - length bs) as" by simp
  have "\<forall>a \<in> set (take (m - length bs) as). \<exists>b \<in> set (take m bs). vb_reference a \<in> set (vb_ancestors b)"
    using as by (cases "m \<le> length bs") (auto dest: in_set_takeD)
  moreover have "\<forall>b \<in> set (take m bs @ take (m - length bs) as). block_decodes cry de b \<and> verify cry sv (vb_signed b) = Inr () \<and>
      vb_timestamp_ms b \<le> now" using ok by (auto dest: in_set_takeD)
  ultimately show ?thesis unfolding split using len bs by (intro check_served) (auto dest: in_set_takeD)
qed

text \<open>
  A request over tonic to a validator. The stream of the answer may break off with an error after any number of messages; when the
  server panics the call fails.
\<close>

definition delivered :: "nat \<Rightarrow> tonic_code \<Rightarrow> byte list list list \<Rightarrow> stream_message list" where
  "delivered n code chunks =
     map FetchBlocksResponse (take n chunks) @ (if n < length chunks then [StreamFailed code] else [])"

definition tonic_call ::
  "(byte list \<Rightarrow> block_ref option) \<Rightarrow> epoch_context \<Rightarrow> dag_state \<Rightarrow> authority_index \<Rightarrow> nat \<Rightarrow> tonic_code
     \<Rightarrow> byte list list \<Rightarrow> round list \<Rightarrow> tonic_code + stream_message list" where
  "tonic_call de_ref cx ds peer n code block_refs rounds =
     (case proxy_fetch_blocks de_ref cx ds (Some peer) block_refs rounds of
        Inl _ \<Rightarrow> Inl OtherCode
      | Inr (Inl c) \<Rightarrow> Inl c
      | Inr (Inr chunks) \<Rightarrow> Inr (delivered n code chunks))"

lemma refs_round_trip: "\<forall>r. \<exists>s. en_ref r = Some s \<and> de_ref s = Some r \<Longrightarrow> List.map_filter de_ref (List.map_filter en_ref refs) = refs"
proof (induction refs)
  case (Cons r refs)
  moreover obtain s where "en_ref r = Some s" "de_ref s = Some r" using Cons.prems by blast
  ultimately show ?case by (simp add: map_filter_simps)
qed (simp add: map_filter_simps)

lemma nonempty_chunks: "\<forall>c \<in> set chunks. c \<noteq> [] \<Longrightarrow> length chunks \<le> length (concat chunks)"
proof (induction chunks)
  case (Cons c chunks)
  then show ?case by (cases c) auto
qed simp

text \<open>What the client makes of an answer: a prefix of the served blocks, and all of them when nothing cuts it short.\<close>

lemma fetched_over_tonic:
  assumes refs: "\<forall>r. \<exists>s. en_ref r = Some s \<and> de_ref s = Some r"
    and served: "handle_fetch_blocks cx ds peer refs rounds = Inr (Inr bytes)"
    and result_def: "result = tonic_fetch_blocks (Inr ()) en_ref (tonic_call de_ref cx ds peer n code) refs rounds"
  shows "result = Inl e \<Longrightarrow> n = 0"
    and "result = Inr got \<Longrightarrow> \<exists>m. got = take m bytes"
    and "result = Inr got \<Longrightarrow> length bytes \<le> n \<Longrightarrow> sum_list (map length got) \<le> max_total_fetched_bytes \<Longrightarrow> got = bytes"
proof -
  let ?chunks = "chunk_blocks bytes max_fetch_response_bytes"
  let ?rest = "if n < length ?chunks then [StreamFailed code] else []"
  have chunks: "concat ?chunks = bytes" "\<forall>c \<in> set ?chunks. c \<noteq> []" using chunk_blocks_complete by blast+
  have result: "result = fetch_stream (map FetchBlocksResponse (take n ?chunks) @ ?rest) [] 0"
    unfolding result_def tonic_fetch_blocks_def tonic_call_def proxy_fetch_blocks_def
    by (simp add: refs_round_trip [OF refs] served delivered_def)
  have rest: "?rest = [] \<or> (\<exists>code. ?rest = [StreamFailed code])" by simp
  have cut: "\<forall>c \<in> set (take n ?chunks). c \<noteq> []" using chunks(2) by (auto dest: in_set_takeD)
  show "n = 0" if "result = Inl e"
    using fetch_stream_error [OF that [unfolded result] cut rest] by (cases "n < length ?chunks") auto
  show "\<exists>m. got = take m bytes" if got: "result = Inr got"
  proof -
    obtain k where "got = concat (take k (take n ?chunks))" using fetch_stream_prefix [OF got [unfolded result] rest] by auto
    then have "bytes = got @ concat (drop (min k n) ?chunks)"
      using chunks(1) by (metis append_take_drop_id concat_append take_take)
    then show ?thesis by (metis append_eq_conv_conj)
  qed
  show "got = bytes" if got: "result = Inr got" and n: "length bytes \<le> n" and fits: "sum_list (map length got) \<le> max_total_fetched_bytes"
  proof -
    have "length ?chunks \<le> n" using nonempty_chunks [OF chunks(2)] chunks(1) n by simp
    then have "fetch_stream (map FetchBlocksResponse ?chunks) [] 0 = Inr got" using got result by simp
    from fetch_stream_complete [OF this _ fits] chunks(1) show ?thesis by simp
  qed
qed

section \<open>Served commits\<close>

text \<open>
  What the answer to a request for commits is made of: stored commits that decode, and for each the stored blocks whose
  votes are recorded for its index. The votes are for this commit, and the blocks pass the verifier of the requester.
\<close>

definition servable :: "crypto \<Rightarrow> decoder \<Rightarrow> signed_block_verifier \<Rightarrow> mem_store \<Rightarrow> trusted_commit list \<Rightarrow> bool" where
  "servable cry de sv ms cs \<longleftrightarrow>
     (\<forall>c \<in> set cs. commit_decodes cry de c \<and>
        (\<forall>r \<in> set (mem_read_commit_votes ms (tc_index c)). \<exists>b. mem_block ms r = Some b \<and> vb_reference b = r \<and>
           block_decodes cry de b \<and> verify cry sv (vb_signed b) = Inr () \<and> tc_reference c \<in> set (vb_commit_votes b)))"

abbreviation voters_of :: "mem_store \<Rightarrow> trusted_commit \<Rightarrow> authority_index set" where
  "voters_of ms c \<equiv> br_author ` set (mem_read_commit_votes ms (tc_index c))"

lemma servable_voters:
  assumes "servable cry de sv ms cs" "committee_wf cm" "cm = cx_committee (sv_context sv)" "c \<in> set cs"
  shows "voters_of ms c \<subseteq> members cm"
proof
  fix a assume "a \<in> voters_of ms c"
  then obtain b where "vb_author b = a" "verify cry sv (vb_signed b) = Inr ()"
    using assms(1,4) unfolding servable_def by fastforce
  then show "a \<in> members cm" using verify_eq [OF assms(2,3)] by (simp add: block_well_formed_def vb_author_def vb_inner_def)
qed

lemma certified_commits_spec:
  assumes "committee_wf cm" "\<forall>c \<in> set cs. voters_of ms c \<subseteq> members cm"
  shows "\<exists>m votes. certified_commits cm ms cs = Inr (drop m cs, votes) \<and>
    (\<forall>c \<in> set (take m cs). \<not> reached_quorum cm (stake_of cm (voters_of ms c))) \<and>
    (drop m cs \<noteq> [] \<longrightarrow> votes = mem_read_commit_votes ms (tc_index (hd (drop m cs))) \<and>
       reached_quorum cm (stake_of cm (voters_of ms (hd (drop m cs)))))"
  using assms(2)
proof (induction cs)
  case (Cons c cs)
  let ?votes = "mem_read_commit_votes ms (tc_index c)"
  have "set (map br_author ?votes) \<subseteq> members cm" using Cons.prems by simp
  from agg_add_all_spec [OF assms(1) agg_inv_new this, of quorum_is_threshold] obtain agg where
    agg: "agg_add_all quorum_is_threshold cm (map br_author ?votes) agg_new = Inr agg" "agg_inv cm agg"
    "set (sa_votes agg) = voters_of ms c" by (auto simp: agg_new_def)
  then have reached: "agg_reached_threshold quorum_is_threshold cm agg \<longleftrightarrow> reached_quorum cm (stake_of cm (voters_of ms c))"
    by (simp add: agg_reached_threshold_def quorum_is_threshold_def agg_inv_def)
  show ?case
  proof (cases "reached_quorum cm (stake_of cm (voters_of ms c))")
    case True
    with agg(1) reached show ?thesis by (intro exI [of _ 0] exI [of _ ?votes]) simp
  next
    case False
    obtain m votes where "certified_commits cm ms cs = Inr (drop m cs, votes)"
      "\<forall>c \<in> set (take m cs). \<not> reached_quorum cm (stake_of cm (voters_of ms c))"
      "drop m cs \<noteq> [] \<longrightarrow> votes = mem_read_commit_votes ms (tc_index (hd (drop m cs))) \<and>
         reached_quorum cm (stake_of cm (voters_of ms (hd (drop m cs))))"
      using Cons.IH Cons.prems by auto
    with False agg(1) reached show ?thesis by (intro exI [of _ "Suc m"] exI [of _ votes]) simp
  qed
qed simp

abbreviation parsed :: "trusted_commit list \<Rightarrow> (digest \<times> commit) list" where
  "parsed cs \<equiv> map (\<lambda>c. (tc_digest c, tc_inner c)) cs"

lemma commit_chain_iff:
  "commit_chain start cs \<longleftrightarrow> (\<forall>i < length cs. commit_index_of (snd (cs ! i)) = start + i) \<and>
     (\<forall>i. Suc i < length cs \<longrightarrow> commit_previous_digest (snd (cs ! Suc i)) = fst (cs ! i))"
  unfolding commit_chain_def list_eq_iff_nth_eq by (auto simp: less_diff_conv)

lemma commit_chain_append: "commit_chain start (xs @ ys) \<Longrightarrow> commit_chain start xs"
  unfolding commit_chain_iff length_append by (metis Suc_lessD nth_append trans_less_add1)

lemma commit_chain_step:
  assumes chain: "commit_chain start (acc @ (d, c) # rest)"
  shows "case last_opt acc of None \<Rightarrow> commit_index_of c = start
    | Some (d', c') \<Rightarrow> commit_index_of c = commit_index_of c' + 1 \<and> commit_previous_digest c = d'"
proof (cases acc rule: rev_cases)
  case Nil
  with chain show ?thesis by (auto simp: last_opt_def commit_chain_iff)
next
  case (snoc ds dc)
  obtain d' c' where dc: "dc = (d', c')" by fastforce
  let ?cs = "acc @ (d, c) # rest"
  have nth: "?cs ! length ds = (d', c')" "?cs ! Suc (length ds) = (d, c)" using snoc dc by (simp_all add: nth_append)
  have len: "length ds < length ?cs" "Suc (length ds) < length ?cs" using snoc by simp_all
  from chain len have "commit_index_of c' = start + length ds" "commit_index_of c = start + Suc (length ds)"
    "commit_previous_digest c = d'"
    unfolding commit_chain_iff using nth by (metis snd_conv fst_conv)+
  with snoc dc show ?thesis by (simp add: last_opt_def)
qed

lemma parse_served:
  assumes "end_index + 1 < 2 ^ 32"
  shows "\<forall>c \<in> set cs. commit_decodes cry de c \<and> tc_index c \<le> end_index \<Longrightarrow> commit_chain start (acc @ parsed cs) \<Longrightarrow>
    \<forall>(d, c) \<in> set acc. commit_index_of c \<le> end_index \<Longrightarrow>
    parse_commits cry de peer start end_index (map tc_serialized cs) acc = Inr (acc @ parsed cs)"
proof (induction cs arbitrary: acc)
  case (Cons c cs)
  have c: "de_commit de (tc_serialized c) = Some (tc_inner c)" "cy_hash cry (tc_serialized c) = tc_digest c"
    "commit_index_of (tc_inner c) \<le> end_index"
    using Cons.prems(1) by (auto simp: commit_decodes_def tc_defs)
  have step: "case last_opt acc of None \<Rightarrow> commit_index_of (tc_inner c) = start
    | Some (d', c') \<Rightarrow> commit_index_of (tc_inner c) = u32_add (commit_index_of c') 1 \<and> commit_previous_digest (tc_inner c) = d'"
  proof (cases "last_opt acc")
    case (Some dc)
    obtain d' c' where dc: "dc = (d', c')" by fastforce
    then have "(d', c') \<in> set acc" using Some by (auto simp: last_opt_Some)
    then have "u32_add (commit_index_of c') 1 = commit_index_of c' + 1" using Cons.prems(3) assms by (intro u32_add_exact) auto
    then show ?thesis using commit_chain_step [of start acc "tc_digest c" "tc_inner c" "parsed cs"] Cons.prems(2) Some dc by simp
  qed (use commit_chain_step [of start acc "tc_digest c" "tc_inner c" "parsed cs"] Cons.prems(2) in simp)
  have "parse_commits cry de peer start end_index (map tc_serialized cs) (acc @ [(tc_digest c, tc_inner c)]) =
      Inr ((acc @ [(tc_digest c, tc_inner c)]) @ parsed cs)"
    using Cons.prems c(3) by (intro Cons.IH) auto
  with c step show ?case by (cases "last_opt acc") (auto simp: ok_or_def Let_def)
qed simp

lemma tally_served:
  assumes wf: "committee_wf cm" "cm = cx_committee (sv_context sv)"
  shows "\<forall>s \<in> set sers. \<exists>sb. de_signed_block de s = Some sb \<and> verify cry sv sb = Inr () \<Longrightarrow> agg_inv cm agg \<Longrightarrow>
    \<exists>agg'. tally_commit_votes cry de sv r sers agg = Inr (Inr agg') \<and> agg_inv cm agg' \<and>
      set (sa_votes agg') = set (sa_votes agg) \<union> commit_voters de r sers"
proof (induction sers arbitrary: agg)
  case (Cons s sers)
  then obtain sb where sb: "de_signed_block de s = Some sb" "verify cry sv sb = Inr ()" by auto
  then obtain counted where counted: "count_votes cry de sv r s agg = Inr counted" by (simp add: count_votes_def ok_or_def)
  from count_votes_spec [OF wf Cons.prems(2) counted] sb obtain agg1 where
    one: "counted = Inr agg1" "agg_inv cm agg1" "set (sa_votes agg1) = set (sa_votes agg) \<union> commit_voters de r [s]" by auto
  from Cons.IH [OF _ one(2)] Cons.prems(1) obtain agg' where "tally_commit_votes cry de sv r sers agg1 = Inr (Inr agg')"
    "agg_inv cm agg'" "set (sa_votes agg') = set (sa_votes agg1) \<union> commit_voters de r sers" by auto
  with counted one sb(1) show ?case by auto
qed simp

text \<open>A chain of decoding commits with a quorum of votes for the last one passes the check of the requester.\<close>

lemma verify_served:
  assumes wf: "committee_wf cm" "cm = cx_committee (sv_context sv)" and e: "end_index + 1 < 2 ^ 32"
    and cs: "cs \<noteq> []" "\<forall>c \<in> set cs. commit_decodes cry de c \<and> tc_index c \<le> end_index" "commit_chain start (parsed cs)"
    and blocks: "\<forall>b \<in> set blocks. block_decodes cry de b \<and> verify cry sv (vb_signed b) = Inr () \<and>
      tc_reference (last cs) \<in> set (vb_commit_votes b)"
    and quorum: "reached_quorum cm (stake_of cm (vb_author ` set blocks))"
  shows "verify_commits cry de sv peer start end_index (map tc_serialized cs) (map vb_serialized blocks) = Inr (Inr cs)"
proof -
  let ?ref = "tc_reference (last cs)" and ?sers = "map vb_serialized blocks"
  have parse: "parse_commits cry de peer start end_index (map tc_serialized cs) [] = Inr (parsed cs)"
    using parse_served [OF e, of cs cry de start "[]" peer] cs by simp
  have last: "last_opt (parsed cs) = Some (tc_digest (last cs), tc_inner (last cs))" using cs(1) by (simp add: last_opt_def last_map)
  have "\<forall>s \<in> set ?sers. \<exists>sb. de_signed_block de s = Some sb \<and> verify cry sv sb = Inr ()"
    using blocks by (auto simp: block_decodes_def)
  from tally_served [OF wf this agg_inv_new, of ?ref] obtain agg where
    agg: "tally_commit_votes cry de sv ?ref ?sers agg_new = Inr (Inr agg)" "agg_inv cm agg" "set (sa_votes agg) = commit_voters de ?ref ?sers"
    by (auto simp: agg_new_def)
  have "vb_author ` set blocks \<subseteq> commit_voters de ?ref ?sers"
  proof clarify
    fix b assume b: "b \<in> set blocks"
    then have "de_signed_block de (vb_serialized b) = Some (vb_signed b)" "?ref \<in> set (vb_commit_votes b)"
      using blocks by (auto simp: block_decodes_def)
    with b show "vb_author b \<in> commit_voters de ?ref ?sers"
      by (force simp: commit_voters_def vb_author_def vb_commit_votes_def vb_inner_def)
  qed
  moreover have "commit_voters de ?ref ?sers \<subseteq> members cm" using agg(2,3) by (simp add: agg_inv_def)
  ultimately have "stake_of cm (vb_author ` set blocks) \<le> sa_stake agg" using agg(2,3) stake_of_mono by (metis agg_inv_def)
  then have reached: "agg_reached_threshold quorum_is_threshold cm agg"
    using quorum by (simp add: agg_reached_threshold_def quorum_is_threshold_def reached_quorum_def)
  have same: "TrustedCommit_new_trusted cry (tc_inner c) (tc_serialized c) = c" if "c \<in> set cs" for c
    using cs(2) that by (cases c) (auto simp: TrustedCommit_new_trusted_def commit_decodes_def)
  have "map (\<lambda>((_, c), s). TrustedCommit_new_trusted cry c s) (zip (parsed cs) (map tc_serialized cs)) = cs"
    using same by (intro nth_equalityI) simp_all
  with parse last agg(1) reached wf(2) show ?thesis by (simp add: verify_commits_def tc_defs)
qed

text \<open>The scanned commits are before the end of the range.\<close>

lemma scanned_commits:
  assumes inv: "mem_inv ms" and scan: "mem_scan_commits ms (CommitRange start e) = Inr cs" and c: "c \<in> set cs"
  shows "tc_index c < e"
proof -
  from scan c obtain k where "(k, c) \<in> set (ms_commits ms)" "k < (e, digest_min)"
    by (auto simp: mem_scan_commits_def and_then_eq_Inr)
  moreover have "k = (tc_index c, tc_digest c)"
    using inv calculation(1) by (cases k) (auto simp: mem_inv_def bm_wf_def intro: map_of_is_SomeI)
  ultimately show ?thesis by (auto simp: digest_min_def)
qed

lemma scanned_range:
  assumes "end_index + 1 < 2 ^ 32"
  shows "min (u32_add end_index 1) b \<le> end_index + 1"
  using u32_add_exact [of end_index 1] assms by simp

section \<open>Properties\<close>

text \<open>C33: an honest validator that is asked for blocks is never taken for a faulty one. The request of the synchronizer goes through the tonic
  client and the proxy to \<open>AuthorityService::handle_fetch_blocks\<close>, and the answer comes back in chunks that may break off anywhere or exceed the limit on
  fetched bytes. When the request is within the limits, names no genesis block, and sends the accepted rounds of every authority or
  none, and when the blocks of the server's DAG decode from their bytes, verify, and are not from the future, the client fails only when
  the stream breaks off at once; otherwise what it returns passes the checks of \<open>process_fetched_blocks\<close>. When nothing is cut off the
  requester gets every requested block that the server has.\<close>

theorem served_blocks_are_accepted:
  assumes "dag_inv ds" "dag_causal ds" "cx_committee (ds_context ds) = cx_committee cx"
    and "\<forall>r b. dag_lookup ds r = Some b \<and> br_round r \<noteq> 0 \<longrightarrow>
      block_decodes cry de b \<and> verify cry sv (vb_signed b) = Inr () \<and> vb_timestamp_ms b \<le> now"
    and "length (bg_block_refs g) \<le> pa_max_blocks_per_fetch (cx_parameters cx)"
    and "\<forall>r \<in> set (bg_block_refs g). br_author r \<in> members (cx_committee cx) \<and> br_round r \<noteq> 0"
    and "rounds = [] \<or> length rounds = committee_size (cx_committee cx)"
    and "\<forall>r. \<exists>s. en_ref r = Some s \<and> de_ref s = Some r"
  shows "case tonic_fetch_blocks (Inr ()) en_ref (tonic_call de_ref cx ds peer n code) (bg_block_refs g) rounds of
      Inl e \<Rightarrow> n = 0
    | Inr bytes \<Rightarrow> \<exists>blocks. check_fetched_blocks cry de sv now g bytes = Inr blocks \<and>
        (length (bg_block_refs g) + max_additional_blocks \<le> n \<and> sum_list (map length bytes) \<le> max_total_fetched_bytes \<longrightarrow>
          (\<forall>r \<in> set (bg_block_refs g). \<forall>b. dag_lookup ds r = Some b \<longrightarrow> b \<in> set blocks))"
proof -
  from served_blocks [OF assms(1-3,5-7)] obtain bs as where
    served: "handle_fetch_blocks cx ds peer (bg_block_refs g) rounds = Inr (Inr (map vb_serialized (bs @ as)))"
    and known: "\<forall>b \<in> set (bs @ as). dag_lookup ds (vb_reference b) = Some b \<and> br_round (vb_reference b) \<noteq> 0"
    and len: "length bs \<le> length (bg_block_refs g)" "length as \<le> max_additional_blocks"
    and bs: "\<forall>b \<in> set bs. vb_reference b \<in> set (bg_block_refs g)"
    and as: "\<forall>a \<in> set as. \<exists>b \<in> set bs. vb_reference a \<in> set (vb_ancestors b)"
    and all: "\<forall>r \<in> set (bg_block_refs g). \<forall>b. dag_lookup ds r = Some b \<longrightarrow> b \<in> set bs" by blast
  have ok: "\<forall>b \<in> set (bs @ as). block_decodes cry de b \<and> verify cry sv (vb_signed b) = Inr () \<and> vb_timestamp_ms b \<le> now"
    using known assms(4) by blast
  note fetched = fetched_over_tonic [OF assms(8) served refl, of n code]
  note check = check_served_prefix [OF ok len bs as]
  show ?thesis
  proof (cases "tonic_fetch_blocks (Inr ()) en_ref (tonic_call de_ref cx ds peer n code) (bg_block_refs g) rounds")
    case (Inl e)
    with fetched(1) [OF Inl] show ?thesis by simp
  next
    case (Inr bytes)
    then obtain m where m: "bytes = map vb_serialized (take m (bs @ as))" using fetched(2) by (metis take_map)
    have "check_fetched_blocks cry de sv now g bytes = Inr (take m (bs @ as))" unfolding m by (rule check)
    moreover have "set bs \<subseteq> set (take m (bs @ as))"
      if "length (bg_block_refs g) + max_additional_blocks \<le> n" "sum_list (map length bytes) \<le> max_total_fetched_bytes"
    proof -
      have "bytes = map vb_serialized (bs @ as)" using fetched(3) [OF Inr _ that(2)] len that(1) by simp
      then have "take m (bs @ as) = bs @ as" using m by (metis length_map take_all_iff take_map length_take min.absorb_iff2 nle_le)
      then show ?thesis by simp
    qed
    ultimately show ?thesis using Inr all by auto
  qed
qed

lemma ex_dag_genesis_ancestors: "dag_lookup ex_dag r = Some b \<Longrightarrow> vb_ancestors b = []"
  using genesis_lookup [OF dag_invD(1) [OF ex_dag_inv], of r b]
  by (simp add: ex_dag_lookup split: if_splits) (simp add: ex_dag_def fresh_state_def)

lemma ex_served_dag:
  "dag_inv (accepted_state ex_verified ex_dag)" "dag_causal (accepted_state ex_verified ex_dag)"
  "dag_lookup (accepted_state ex_verified ex_dag) = (dag_lookup ex_dag)(vb_reference ex_verified \<mapsto> ex_verified)"
proof -
  let ?b = ex_verified
  have b: "vb_round ?b = 1" "vb_author ?b = 2" by (rule ex_verified_sel)+
  show "dag_inv (accepted_state ?b ex_dag)"
    by (rule accepted_inv) (simp_all add: ex_verified_sel ex_dag_lookup)
  show lookup: "dag_lookup (accepted_state ?b ex_dag) = (dag_lookup ex_dag)(vb_reference ?b \<mapsto> ?b)"
    using b by (intro accepted_lookup) simp
  have anc: "vb_ancestors ?b = map (\<lambda>i. vb_reference (ex_genesis ! i)) [2, 0, 3]"
    by (simp add: ex_verified_def VerifiedBlock_new_verified_def vb_defs ex_signed_def ex_proposal_def block_v1_new_def)
  have "dag_lookup ex_dag (vb_reference (ex_genesis ! i)) \<noteq> None \<and> vb_round (ex_genesis ! i) = 0" if "i < 4" for i
    using ex_genesis_nth [OF that] ex_genesis_known [of "ex_genesis ! i"] that by simp
  then have "\<forall>a \<in> set (vb_ancestors ?b). dag_lookup ex_dag a \<noteq> None \<and> br_round a < 1" unfolding anc by simp
  then show "dag_causal (accepted_state ?b ex_dag)"
    using b ex_dag_genesis_ancestors unfolding dag_causal_def lookup by (auto split: if_splits)
qed

text \<open>An encoding of references for the example: the round and the author in unary, then the bits of the digest.\<close>

definition ex_en_ref :: "block_ref \<Rightarrow> byte list option" where
  "ex_en_ref r = Some (replicate (br_round r) 0 @ 1 # replicate (br_author r) 0 @ 1 #
     map (\<lambda>i. of_bool (bit (br_digest r) i)) [0..<256])"

definition ex_de_ref :: "byte list \<Rightarrow> block_ref option" where
  "ex_de_ref bytes =
     (let rest = dropWhile (\<lambda>x. x = 0) bytes; tail = drop 1 rest; rest' = dropWhile (\<lambda>x. x = 0) tail in
      Some (BlockRef (length bytes - length rest) (length tail - length rest') (horner_sum of_bool 2 (map (\<lambda>x. x = 1) (drop 1 rest')))))"

lemma ex_refs: "\<exists>s. ex_en_ref r = Some s \<and> ex_de_ref s = Some r"
proof -
  have "dropWhile (\<lambda>x. x = 0) (replicate k 0 @ 1 # bytes) = 1 # bytes" for k and bytes :: "byte list" by (induction k) simp_all
  moreover have "horner_sum of_bool 2 (map (bit d) [0..<256]) = d" for d :: digest
    by (simp add: horner_sum_bit_eq_take_bit take_bit_word_eq_self)
  ultimately show ?thesis by (cases r) (simp add: ex_en_ref_def ex_de_ref_def Let_def comp_def)
qed

theorem served_blocks_are_accepted_witness:
  "\<exists>bytes blocks. tonic_fetch_blocks (Inr ()) ex_en_ref (tonic_call ex_de_ref ex_context (accepted_state ex_verified ex_dag) 1 11 OtherCode)
      [vb_reference ex_verified] [0, 0, 0, 0] = Inr bytes \<and>
    check_fetched_blocks ex_crypto ex_signed_decoder ex_verifier 9 \<lparr> bg_block_refs = [vb_reference ex_verified], bg_peer = 2 \<rparr> bytes =
      Inr blocks \<and> ex_verified \<in> set blocks"
proof -
  let ?ds = "accepted_state ex_verified ex_dag" and ?g = "\<lparr> bg_block_refs = [vb_reference ex_verified], bg_peer = 2 \<rparr>"
  let ?fetch = "tonic_fetch_blocks (Inr ()) ex_en_ref (tonic_call ex_de_ref ex_context ?ds 1 11 OtherCode) [vb_reference ex_verified] [0, 0, 0, 0]"
  have only: "b = ex_verified" if "dag_lookup ?ds r = Some b" "br_round r \<noteq> 0" for r b
    using that by (auto simp: ex_served_dag(3) ex_dag_lookup split: if_splits)
  have "block_decodes ex_crypto ex_signed_decoder ex_verified \<and> verify ex_crypto ex_verifier (vb_signed ex_verified) = Inr () \<and>
      vb_timestamp_ms ex_verified \<le> 9"
    using ex_signed_verifies
    by (simp add: block_decodes_def ex_signed_decoder_def ex_verified_def VerifiedBlock_new_verified_def vb_defs ex_signed_def
        ex_proposal_def block_v1_new_def)
  with only have served: "\<forall>r b. dag_lookup ?ds r = Some b \<and> br_round r \<noteq> 0 \<longrightarrow> block_decodes ex_crypto ex_signed_decoder b \<and>
      verify ex_crypto ex_verifier (vb_signed b) = Inr () \<and> vb_timestamp_ms b \<le> 9"
    by metis
  have cm: "cx_committee (ds_context ?ds) = cx_committee ex_context" by (simp add: ex_dag_def fresh_state_def)
  have req: "length (bg_block_refs ?g) \<le> pa_max_blocks_per_fetch (cx_parameters ex_context)"
    "\<forall>r \<in> set (bg_block_refs ?g). br_author r \<in> members (cx_committee ex_context) \<and> br_round r \<noteq> 0"
    "[0, 0, 0, 0] = ([] :: round list) \<or> length [0, 0, 0, 0 :: round] = committee_size (cx_committee ex_context)"
    using ex_verified_sel by (auto simp: ex_context_def members_eq committee_size_def ex_committee_def)
  have refs: "\<forall>r. \<exists>s. ex_en_ref r = Some s \<and> ex_de_ref s = Some r" using ex_refs by blast
  have "dag_lookup ?ds (vb_reference ex_verified) = Some ex_verified" by (simp add: ex_served_dag(3))
  moreover have "sum_list (map length bytes) \<le> max_total_fetched_bytes" if fetched: "?fetch = Inr bytes" for bytes
  proof -
    from served_blocks [OF ex_served_dag(1,2) cm req, of 1] obtain bs as where
      served: "handle_fetch_blocks ex_context ?ds 1 (bg_block_refs ?g) [0, 0, 0, 0] = Inr (Inr (map vb_serialized (bs @ as)))"
      and known: "\<forall>b \<in> set (bs @ as). dag_lookup ?ds (vb_reference b) = Some b \<and> br_round (vb_reference b) \<noteq> 0" by blast
    note answer = served [unfolded blocks_guard.simps]
    have "\<forall>b \<in> set (bs @ as). b = ex_verified" using known only by blast
    moreover have "vb_serialized ex_verified = []" by (simp add: ex_verified_def VerifiedBlock_new_verified_def)
    ultimately have "\<forall>b \<in> set (bs @ as). vb_serialized b = []" by metis
    moreover obtain m where "bytes = take m (map vb_serialized (bs @ as))" using fetched_over_tonic(2) [OF refs answer refl fetched] by blast
    ultimately have "\<forall>x \<in> set bytes. x = []" by (auto dest: in_set_takeD)
    then show ?thesis by (induction bytes) simp_all
  qed
  ultimately show ?thesis
    using served_blocks_are_accepted [OF ex_served_dag(1,2) cm served req refs, of 11 1 OtherCode]
    by (cases ?fetch) (auto simp: max_additional_blocks_def)
qed



text \<open>A store with the first commit and three blocks that vote for it.\<close>

definition ex_voting_block :: "authority_index \<Rightarrow> verified_block" where
  "ex_voting_block a = VerifiedBlock_new_verified ex_crypto (ex_vote_signed a) (replicate a 0)"

definition ex_stored_commit :: trusted_commit where
  "ex_stored_commit = TrustedCommit_new_trusted ex_crypto ex_certified_commit []"

definition ex_serving_store :: mem_store where
  "ex_serving_store = mem_write (WriteBatch_new [ex_voting_block 0, ex_voting_block 1, ex_voting_block 2] [ex_stored_commit] []) MemStore_new"

lemma ex_voting_block_sel:
  "vb_author (ex_voting_block a) = a" "vb_round (ex_voting_block a) = 1" "vb_signed (ex_voting_block a) = ex_vote_signed a"
  "vb_commit_votes (ex_voting_block a) = [tc_reference ex_stored_commit]" "tc_index ex_stored_commit = 1"
  "block_decodes ex_crypto ex_vote_decoder (ex_voting_block a)" "commit_decodes ex_crypto ex_vote_decoder ex_stored_commit"
  by (simp_all add: ex_voting_block_def VerifiedBlock_new_verified_def vb_defs ex_vote_signed_def ex_vote_def block_v1_new_def
      ex_commit_vote_def ex_stored_commit_def TrustedCommit_new_trusted_def tc_defs ex_certified_commit_def block_decodes_def
      commit_decodes_def ex_vote_decoder_def)

lemma written_votes:
  "set (ms_commit_votes (mem_write_block b ms)) =
     (\<lambda>v. (cr_index v, cr_digest v, vb_reference b)) ` set (vb_commit_votes b) \<union> set (ms_commit_votes ms)"
  "ms_commit_votes (mem_write_commit c ms) = ms_commit_votes ms" "ms_commits (mem_write_block b ms) = ms_commits ms"
  by (simp_all add: mem_write_block_def mem_write_commit_def Let_def)

lemma ex_serving_votes:
  "set (mem_read_commit_votes ex_serving_store 1) = vb_reference ` {ex_voting_block 0, ex_voting_block 1, ex_voting_block 2}"
proof -
  let ?d = "tc_digest ex_stored_commit"
  have ref: "tc_reference ex_stored_commit = CommitRef 1 ?d" using ex_voting_block_sel(5) by (simp add: tc_defs)
  have votes: "set (ms_commit_votes ex_serving_store) =
      {(1, ?d, vb_reference (ex_voting_block 0)), (1, ?d, vb_reference (ex_voting_block 1)), (1, ?d, vb_reference (ex_voting_block 2))}"
    by (simp add: ex_serving_store_def mem_write_def WriteBatch_new_def mem_write_frames written_votes ex_voting_block_sel(4) ref
        MemStore_new_def insert_commute)
  have "vb_reference (ex_voting_block a) \<le> BlockRef u32_max u32_max digest_max \<and> BlockRef 0 0 digest_min \<le> vb_reference (ex_voting_block a)"
    for a
    using ex_voting_block_sel(2) [of a] vb_reference_sel(1) [of "ex_voting_block a"]
    by (simp add: block_ref_less_eq u32_max_def)
  then show ?thesis
    by (auto simp: mem_read_commit_votes_def votes)
qed

lemma ex_voting_block_ref: "vb_reference (ex_voting_block a) = vb_reference (ex_voting_block b) \<longleftrightarrow> a = b"
  by (metis ex_voting_block_sel(1) vb_reference_sel(2))

lemma ex_serving_block: "a < 3 \<Longrightarrow> mem_block ex_serving_store (vb_reference (ex_voting_block a)) = Some (ex_voting_block a)"
proof -
  assume "a < 3"
  then have "a = 0 \<or> a = 1 \<or> a = 2" by auto
  then show ?thesis
    by (elim disjE) (simp_all add: ex_serving_store_def mem_block_write WriteBatch_new_def block_entries_def ex_voting_block_ref)
qed

lemma ex_serving_scan: "mem_scan_commits ex_serving_store (CommitRange 1 6) = Inr [ex_stored_commit]"
proof -
  have "ms_commits ex_serving_store = [((1, tc_digest ex_stored_commit), ex_stored_commit)]"
    by (simp add: ex_serving_store_def mem_write_def WriteBatch_new_def mem_write_commit_def written_votes ex_voting_block_sel(5)
        MemStore_new_def)
  then show ?thesis by (simp add: mem_scan_commits_def)
qed


end
