(* ===== verification/Leader_Timeout.thy ===== *)
theory Leader_Timeout
  imports Consensus_Types
begin

text \<open>
  The task that asks the core for a block when the leader of a round is late
  (\<^verbatim>\<open>consensus/core/src/leader_timeout.rs\<close>). Each branch of its \<open>select!\<close> is an event; a branch is taken only when
  it is enabled. \<open>dispatch\<close> is the call \<open>new_block\<close> of the core thread, at a time, and tells whether the core is still running.
\<close>

record leader_timeout_task =
  lo_leader_timeout :: nat
  lo_min_round_delay :: nat
  lo_leader_round :: round
  lo_min_leader_round_timed_out :: bool
  lo_max_leader_round_timed_out :: bool
  lo_min_leader_timeout :: timestamp_ms
  lo_max_leader_timeout :: timestamp_ms

text \<open>The start of the task and of its loop at time \<open>now\<close>, when the signalled round is \<open>rnd\<close>.\<close>

definition LeaderTimeoutTask_start :: "epoch_context \<Rightarrow> timestamp_ms \<Rightarrow> round \<Rightarrow> leader_timeout_task" where
  "LeaderTimeoutTask_start cx now rnd =
     (let leader_timeout = pa_leader_timeout_ms (cx_parameters cx);
          min_round_delay = pa_min_round_delay_ms (cx_parameters cx) in
      \<lparr> lo_leader_timeout = leader_timeout, lo_min_round_delay = min_round_delay, lo_leader_round = rnd,
        lo_min_leader_round_timed_out = False, lo_max_leader_round_timed_out = False,
        lo_min_leader_timeout = now + min_round_delay, lo_max_leader_timeout = now + leader_timeout \<rparr>)"

datatype timeout_event = MinTimeout | MaxTimeout | NewRound round | StopTask

fun enabled :: "timestamp_ms \<Rightarrow> leader_timeout_task \<Rightarrow> timeout_event \<Rightarrow> bool" where
  "enabled now t MinTimeout \<longleftrightarrow> lo_min_leader_timeout t \<le> now \<and> \<not> lo_min_leader_round_timed_out t"
| "enabled now t MaxTimeout \<longleftrightarrow> lo_max_leader_timeout t \<le> now \<and> \<not> lo_max_leader_round_timed_out t"
| "enabled now t (NewRound rnd) \<longleftrightarrow> True"
| "enabled now t StopTask \<longleftrightarrow> True"

text \<open>One iteration of the loop. The task has ended when the result is \<open>None\<close>.\<close>

fun timeout_step ::
  "(timestamp_ms \<Rightarrow> round \<Rightarrow> bool \<Rightarrow> 'c \<Rightarrow> bool \<times> 'c) \<Rightarrow> timestamp_ms \<Rightarrow> timeout_event \<Rightarrow> leader_timeout_task \<Rightarrow> 'c
     \<Rightarrow> leader_timeout_task option \<times> 'c" where
  "timeout_step dispatch now MinTimeout t core =
     (let (running, core) = dispatch now (lo_leader_round t) False core
      in (if running then Some (t\<lparr> lo_min_leader_round_timed_out := True \<rparr>) else None, core))"
| "timeout_step dispatch now MaxTimeout t core =
     (let (running, core) = dispatch now (lo_leader_round t) True core
      in (if running then Some (t\<lparr> lo_max_leader_round_timed_out := True \<rparr>) else None, core))"
| "timeout_step dispatch now (NewRound rnd) t core =
     (Some (t\<lparr> lo_leader_round := rnd,
              lo_min_leader_round_timed_out := False, lo_max_leader_round_timed_out := False,
              lo_min_leader_timeout := now + lo_min_round_delay t,
              lo_max_leader_timeout := now + lo_leader_timeout t \<rparr>), core)"
| "timeout_step dispatch now StopTask t core = (None, core)"

text \<open>The loop on a sequence of events with their times; an event whose branch is disabled does nothing.\<close>

fun timeout_run ::
  "(timestamp_ms \<Rightarrow> round \<Rightarrow> bool \<Rightarrow> 'c \<Rightarrow> bool \<times> 'c) \<Rightarrow> (timestamp_ms \<times> timeout_event) list \<Rightarrow> leader_timeout_task \<Rightarrow> 'c
     \<Rightarrow> leader_timeout_task option \<times> 'c" where
  "timeout_run dispatch [] t core = (Some t, core)"
| "timeout_run dispatch ((now, e) # events) t core =
     (if \<not> enabled now t e then timeout_run dispatch events t core
      else case timeout_step dispatch now e t core of
             (None, core) \<Rightarrow> (None, core)
           | (Some t, core) \<Rightarrow> timeout_run dispatch events t core)"

end
