(* ===== verification/Timeout_Properties.thy ===== *)
theory Timeout_Properties
  imports Leader_Timeout Dag_Start
begin

text \<open>
  When the leader timeout task asks for a block, over all sequences of timers and signals.
\<close>

text \<open>A dispatcher that keeps the calls it gets.\<close>

type_synonym timeout_call = "timestamp_ms \<times> round \<times> bool"

definition record_call :: "timestamp_ms \<Rightarrow> round \<Rightarrow> bool \<Rightarrow> timeout_call list \<Rightarrow> bool \<times> timeout_call list" where
  "record_call now rnd force calls = (True, calls @ [(now, rnd, force)])"

text \<open>The rounds that are signalled, with their times.\<close>

fun signalled :: "(timestamp_ms \<times> timeout_event) list \<Rightarrow> (timestamp_ms \<times> round) list" where
  "signalled [] = []"
| "signalled ((now, NewRound rnd) # events) = (now, rnd) # signalled events"
| "signalled (_ # events) = signalled events"

definition delay_of :: "leader_timeout_task \<Rightarrow> bool \<Rightarrow> nat" where
  "delay_of t force = (if force then lo_leader_timeout t else lo_min_round_delay t)"

text \<open>
  The invariant of the loop: the timers count from the signal of the current round, each call is for a round that was
  signalled and comes late enough, none is made twice, and the flags tell which calls were made for the current round.
\<close>

definition calls_ok :: "(timestamp_ms \<times> round) set \<Rightarrow> (bool \<Rightarrow> nat) \<Rightarrow> timeout_call list \<Rightarrow> bool" where
  "calls_ok sigs delay calls \<longleftrightarrow>
     distinct (map snd calls) \<and> (\<forall>now rnd force. (now, rnd, force) \<in> set calls \<longrightarrow> (\<exists>s. (s, rnd) \<in> sigs \<and> s + delay force \<le> now))"

definition timeout_inv :: "(timestamp_ms \<times> round) set \<Rightarrow> leader_timeout_task \<Rightarrow> timeout_call list \<Rightarrow> bool" where
  "timeout_inv sigs t calls \<longleftrightarrow>
     calls_ok sigs (delay_of t) calls \<and>
     (\<exists>s. (s, lo_leader_round t) \<in> sigs \<and> lo_min_leader_timeout t = s + delay_of t False \<and> lo_max_leader_timeout t = s + delay_of t True) \<and>
     (\<forall>rnd force. (rnd, force) \<in> snd ` set calls \<longrightarrow> rnd \<le> lo_leader_round t) \<and>
     (lo_min_leader_round_timed_out t \<longleftrightarrow> (lo_leader_round t, False) \<in> snd ` set calls) \<and>
     (lo_max_leader_round_timed_out t \<longleftrightarrow> (lo_leader_round t, True) \<in> snd ` set calls)"

lemma calls_ok_mono: "calls_ok sigs delay calls \<Longrightarrow> sigs \<subseteq> sigs' \<Longrightarrow> calls_ok sigs' delay calls"
  unfolding calls_ok_def by blast

lemma calls_ok_add:
  assumes "calls_ok sigs delay calls" "(rnd, force) \<notin> snd ` set calls" "(s, rnd) \<in> sigs" "s + delay force \<le> now"
  shows "calls_ok sigs delay (calls @ [(now, rnd, force)])"
  using assms unfolding calls_ok_def by auto

lemma timer_call:
  assumes inv: "timeout_inv sigs t calls" and e: "e = (if force then MaxTimeout else MinTimeout)" "enabled now t e"
  shows "\<exists>t'. timeout_step record_call now e t calls = (Some t', calls @ [(now, lo_leader_round t, force)]) \<and>
    timeout_inv sigs t' (calls @ [(now, lo_leader_round t, force)]) \<and> delay_of t' = delay_of t \<and> lo_leader_round t' = lo_leader_round t"
proof -
  let ?t = "if force then t\<lparr> lo_max_leader_round_timed_out := True \<rparr> else t\<lparr> lo_min_leader_round_timed_out := True \<rparr>"
  let ?calls = "calls @ [(now, lo_leader_round t, force)]"
  obtain s where s: "(s, lo_leader_round t) \<in> sigs" "lo_min_leader_timeout t = s + delay_of t False" "lo_max_leader_timeout t = s + delay_of t True"
    using inv by (auto simp: timeout_inv_def)
  have keep: "delay_of ?t = delay_of t" "lo_leader_round ?t = lo_leader_round t"
    "lo_min_leader_timeout ?t = lo_min_leader_timeout t" "lo_max_leader_timeout ?t = lo_max_leader_timeout t"
    by (auto simp: delay_of_def)
  have "calls_ok sigs (delay_of t) ?calls"
    using inv e s by (intro calls_ok_add) (auto simp: timeout_inv_def split: if_splits)
  then have "timeout_inv sigs ?t ?calls" using inv s unfolding timeout_inv_def keep by auto
  moreover have "timeout_step record_call now e t calls = (Some ?t, ?calls)" by (simp add: e(1) record_call_def)
  ultimately show ?thesis using keep by blast
qed

lemma round_reset:
  assumes inv: "timeout_inv sigs t calls" and later: "lo_leader_round t < rnd"
  shows "\<exists>t'. timeout_step record_call now (NewRound rnd) t calls = (Some t', calls) \<and>
    timeout_inv (insert (now, rnd) sigs) t' calls \<and> delay_of t' = delay_of t \<and> lo_leader_round t' = rnd"
proof -
  obtain t' where t': "timeout_step record_call now (NewRound rnd) t calls = (Some t', calls)" by simp
  then have keep: "delay_of t' = delay_of t" "lo_leader_round t' = rnd" "\<not> lo_min_leader_round_timed_out t'"
    "\<not> lo_max_leader_round_timed_out t'" "lo_min_leader_timeout t' = now + delay_of t False"
    "lo_max_leader_timeout t' = now + delay_of t True"
    by (auto simp: delay_of_def)
  have "calls_ok (insert (now, rnd) sigs) (delay_of t) calls"
    using inv calls_ok_mono [of sigs "delay_of t" calls "insert (now, rnd) sigs"] by (auto simp: timeout_inv_def)
  moreover have "r < rnd" if "(r, force) \<in> snd ` set calls" for r force
    using inv later that unfolding timeout_inv_def by (meson le_less_trans)
  ultimately have "timeout_inv (insert (now, rnd) sigs) t' calls"
    using keep(3,4) unfolding timeout_inv_def keep(1,2,5,6) by (auto intro: less_imp_le)
  with t' keep show ?thesis by blast
qed

lemma timeout_run_calls:
  assumes "timeout_run record_call events t calls = (t', calls')" "timeout_inv sigs t calls"
    and "sorted_wrt (<) (lo_leader_round t # map snd (signalled events))"
  shows "calls_ok (sigs \<union> set (signalled events)) (delay_of t) calls' \<and>
    (\<forall>t1. t' = Some t1 \<longrightarrow> timeout_inv (sigs \<union> set (signalled events)) t1 calls')"
  using assms
proof (induction events arbitrary: t calls sigs)
  case (Cons e events)
  obtain now ev where e: "e = (now, ev)" by fastforce
  have sub: "calls_ok (sigs \<union> set (signalled (e # events))) (delay_of t) calls"
    using Cons.prems(2) calls_ok_mono [of sigs "delay_of t" calls] by (auto simp: timeout_inv_def)
  show ?case
  proof (cases "enabled now t ev")
    case off: False
    then have "signalled (e # events) = signalled events" by (cases ev) (simp_all add: e)
    with off Cons.IH [OF _ Cons.prems(2)] Cons.prems(1,3) show ?thesis by (simp add: e)
  next
    case on: True
    show ?thesis
    proof (cases ev)
      case (NewRound rnd)
      have later: "lo_leader_round t < rnd" using Cons.prems(3) by (simp add: e NewRound)
      obtain t1 where t1: "timeout_step record_call now ev t calls = (Some t1, calls)" "timeout_inv (insert (now, rnd) sigs) t1 calls"
        "delay_of t1 = delay_of t" "lo_leader_round t1 = rnd"
        using round_reset [OF Cons.prems(2) later] NewRound by blast
      with Cons.IH [OF _ t1(2)] Cons.prems(1,3) on show ?thesis by (auto simp: e NewRound)
    next
      case StopTask
      with Cons.prems(1) sub show ?thesis by (auto simp: e)
    next
      case MinTimeout
      obtain t1 where t1: "timeout_step record_call now ev t calls = (Some t1, calls @ [(now, lo_leader_round t, False)])"
        "timeout_inv sigs t1 (calls @ [(now, lo_leader_round t, False)])" "delay_of t1 = delay_of t" "lo_leader_round t1 = lo_leader_round t"
        using timer_call [OF Cons.prems(2), of ev False now] MinTimeout on by auto
      with Cons.IH [OF _ t1(2)] Cons.prems(1,3) on MinTimeout show ?thesis by (auto simp: e)
    next
      case MaxTimeout
      obtain t1 where t1: "timeout_step record_call now ev t calls = (Some t1, calls @ [(now, lo_leader_round t, True)])"
        "timeout_inv sigs t1 (calls @ [(now, lo_leader_round t, True)])" "delay_of t1 = delay_of t" "lo_leader_round t1 = lo_leader_round t"
        using timer_call [OF Cons.prems(2), of ev True now] MaxTimeout on by auto
      with Cons.IH [OF _ t1(2)] Cons.prems(1,3) on MaxTimeout show ?thesis by (auto simp: e)
    qed
  qed
qed (auto simp: timeout_inv_def)

section \<open>Properties\<close>

text \<open>C40: however timers and signals interleave, and as long as the signalled rounds increase, the leader timeout task asks for a block at
  most once without and at most once with force in each round. A call is for a round that was signalled, comes no earlier than the
  minimum round delay after the signal, and a forced one no earlier than the leader timeout after it. While the task runs, the forced call
  for the current round has been made exactly when its timer is switched off; so a round without the call still has its timer.\<close>

theorem leader_timeout_calls_once:
  assumes "timeout_run record_call events (LeaderTimeoutTask_start cx start rnd) [] = (t, calls)"
    and "sorted_wrt (<) (rnd # map snd (signalled events))"
  shows "distinct (map snd calls) \<and>
    (\<forall>(now, r, force) \<in> set calls. \<exists>s. (s, r) \<in> set ((start, rnd) # signalled events) \<and>
      s + (if force then pa_leader_timeout_ms (cx_parameters cx) else pa_min_round_delay_ms (cx_parameters cx)) \<le> now) \<and>
    (\<forall>t1. t = Some t1 \<longrightarrow>
      (lo_max_leader_round_timed_out t1 \<longleftrightarrow> (lo_leader_round t1, True) \<in> snd ` set calls) \<and>
      (\<forall>now. lo_max_leader_timeout t1 \<le> now \<longrightarrow> enabled now t1 MaxTimeout \<or> (lo_leader_round t1, True) \<in> snd ` set calls))"
proof -
  let ?t = "LeaderTimeoutTask_start cx start rnd"
  have inv: "timeout_inv {(start, rnd)} ?t []"
    by (simp add: timeout_inv_def calls_ok_def delay_of_def LeaderTimeoutTask_start_def Let_def)
  have delay: "delay_of ?t = (\<lambda>force. if force then pa_leader_timeout_ms (cx_parameters cx) else pa_min_round_delay_ms (cx_parameters cx))"
    by (auto simp: delay_of_def LeaderTimeoutTask_start_def Let_def)
  have "lo_leader_round ?t = rnd" by (simp add: LeaderTimeoutTask_start_def Let_def)
  note run = timeout_run_calls [OF assms(1) inv, unfolded this delay, OF assms(2)]
  have sigs: "{(start, rnd)} \<union> set (signalled events) = set ((start, rnd) # signalled events)" by simp
  have "distinct (map snd calls)" "\<forall>now r force. (now, r, force) \<in> set calls \<longrightarrow> (\<exists>s. (s, r) \<in> set ((start, rnd) # signalled events) \<and>
      s + (if force then pa_leader_timeout_ms (cx_parameters cx) else pa_min_round_delay_ms (cx_parameters cx)) \<le> now)"
    using run unfolding calls_ok_def sigs by blast+
  moreover have "lo_max_leader_round_timed_out t1 \<longleftrightarrow> (lo_leader_round t1, True) \<in> snd ` set calls" if "t = Some t1" for t1
    using run that unfolding timeout_inv_def by blast
  ultimately show ?thesis by fastforce
qed

definition ex_timeout_events :: "(timestamp_ms \<times> timeout_event) list" where
  "ex_timeout_events = [(0, MinTimeout), (9, MinTimeout), (100, NewRound 2), (200, MaxTimeout), (350, MaxTimeout), (360, MaxTimeout)]"

theorem leader_timeout_calls_once_witness:
  "\<exists>t calls. timeout_run record_call ex_timeout_events (LeaderTimeoutTask_start ex_context 0 1) [] = (t, calls) \<and>
    calls = [(0, 1, False), (350, 2, True)] \<and> distinct (map snd calls)"
proof -
  obtain t calls where run: "timeout_run record_call ex_timeout_events (LeaderTimeoutTask_start ex_context 0 1) [] = (t, calls)"
    by fastforce
  then have "calls = [(0, 1, False), (350, 2, True)]"
    by (auto simp: ex_timeout_events_def LeaderTimeoutTask_start_def ex_context_def record_call_def)
  moreover have "sorted_wrt (<) (1 # map snd (signalled ex_timeout_events))" by (simp add: ex_timeout_events_def)
  ultimately show ?thesis using leader_timeout_calls_once [OF run] run by blast
qed

end
