(* ===== verification/Validator_Core.thy ===== *)
theory Validator_Core
  imports Commit_Observer Universal_Committer Block_Manager Threshold_Clock Transactions
begin

text \<open>
  The core of a validator (\<^verbatim>\<open>consensus/core/src/core.rs\<close>): it accepts blocks through the block manager, advances the
  threshold clock, commits what the committer decides, and proposes blocks. The components that the source
  shares through \<open>Arc\<close> are fields of the one record \<open>core_state\<close>. Each reading of the clock is an argument, \<open>check\<close> is the
  verifier's check of a block against its ancestors, and metrics are left out.
\<close>

section \<open>Signals\<close>

text \<open>The channels on which the core announces blocks and rounds; \<open>sg_subscribed\<close> tells whether anyone receives blocks.\<close>

record core_signals =
  sg_context :: epoch_context
  sg_block_broadcast :: "verified_block list"
  sg_subscribed :: bool
  sg_new_round :: round

definition CoreSignals_new :: "epoch_context \<Rightarrow> bool \<Rightarrow> core_signals" where
  "CoreSignals_new cx subscribed =
     \<lparr> sg_context = cx, sg_block_broadcast = [], sg_subscribed = subscribed, sg_new_round = 0 \<rparr>"

definition signal_new_block :: "verified_block \<Rightarrow> core_signals \<Rightarrow> unit consensus_result \<times> core_signals" where
  "signal_new_block b sg =
     (if committee_size (cx_committee (sg_context sg)) > 1 then
        if sg_subscribed sg then (Inr (), sg\<lparr> sg_block_broadcast := sg_block_broadcast sg @ [b] \<rparr>)
        else (Inl Shutdown, sg)
      else (Inr (), sg))"

definition signal_new_round :: "round \<Rightarrow> core_signals \<Rightarrow> core_signals" where
  "signal_new_round rnd sg = sg\<lparr> sg_new_round := rnd \<rparr>"

section \<open>State\<close>

definition num_leaders_per_round :: nat where "num_leaders_per_round = 1"

definition max_commit_votes_per_block :: nat where "max_commit_votes_per_block = 100"

text \<open>\<open>kr_acked\<close> are the acknowledgements sent for transactions that were included in a block.\<close>

record core_state =
  kr_context :: epoch_context
  kr_threshold_clock :: threshold_clock
  kr_transaction_consumer :: transaction_consumer
  kr_block_manager :: block_manager
  kr_committer :: universal_committer
  kr_last_proposed_block :: verified_block
  kr_last_included_ancestors :: "block_ref option list"
  kr_last_decided_leader :: slot
  kr_leader_schedule :: leader_schedule
  kr_commit_observer :: commit_observer
  kr_signals :: core_signals
  kr_block_signer :: "byte list"
  kr_dag_state :: dag_state
  kr_acked :: "nat list"

definition last_proposed_timestamp_ms :: "core_state \<Rightarrow> timestamp_ms" where
  "last_proposed_timestamp_ms k = vb_timestamp_ms (kr_last_proposed_block k)"

definition last_proposed_round :: "core_state \<Rightarrow> round" where
  "last_proposed_round k = vb_round (kr_last_proposed_block k)"

section \<open>Leaders of a round\<close>

definition leaders :: "rand \<Rightarrow> core_state \<Rightarrow> round \<Rightarrow> slot list res" where
  "leaders rand k rnd =
     and_then (get_leaders (elect_leader rand (kr_leader_schedule k)) (kr_committer k) rnd) (\<lambda>authorities.
       Inr (map (Slot rnd) authorities))"

definition first_leader :: "rand \<Rightarrow> core_state \<Rightarrow> round \<Rightarrow> authority_index res" where
  "first_leader rand k rnd =
     and_then (leaders rand k rnd) (\<lambda>slots.
     and_then (expect (first_opt slots) (CorePanic NoLeaderForRound)) (\<lambda>s. Inr (slot_authority s)))"

fun all_cached :: "dag_state \<Rightarrow> slot list \<Rightarrow> bool res" where
  "all_cached ds [] = Inr True"
| "all_cached ds (s # slots) =
     and_then (contains_cached_block_at_slot ds s) (\<lambda>found. if found then all_cached ds slots else Inr False)"

definition leaders_exist :: "rand \<Rightarrow> core_state \<Rightarrow> round \<Rightarrow> bool res" where
  "leaders_exist rand k rnd = and_then (leaders rand k rnd) (all_cached (kr_dag_state k))"

section \<open>Accepted blocks\<close>

definition add_accepted_blocks :: "verified_block list \<Rightarrow> core_state \<Rightarrow> core_state res" where
  "add_accepted_blocks accepted k =
     and_then (clock_add_blocks (cx_committee (kr_context k)) (map vb_reference accepted) (kr_threshold_clock k))
       (\<lambda>(new_round, clock).
         Inr (k\<lparr> kr_threshold_clock := clock,
                 kr_signals := (case new_round of
                   Some rnd \<Rightarrow> signal_new_round rnd (kr_signals k) | None \<Rightarrow> kr_signals k) \<rparr>))"

section \<open>Proposing\<close>

definition ancestors_to_propose :: "round \<Rightarrow> core_state \<Rightarrow> (verified_block list \<times> core_state) res" where
  "ancestors_to_propose clock_round k =
     (let cm = cx_committee (kr_context k) in
      and_then (get_last_cached_block_per_authority (kr_dag_state k) clock_round) (\<lambda>last_blocks.
      and_then (assert_that (length last_blocks = committee_size cm) (CorePanic AncestorsCommitteeMismatch)) (\<lambda>_.
      and_then (filter_res (\<lambda>b. and_then (vec_get (kr_last_included_ancestors k) (vb_author b)) (\<lambda>included.
                   Inr (case included of Some r \<Rightarrow> br_round r < vb_round b | None \<Rightarrow> True)))
                 (filter (\<lambda>b. vb_author b \<noteq> cx_own_index (kr_context k)) last_blocks)) (\<lambda>others.
      let ancestors = kr_last_proposed_block k # others in
      and_then (for_each (\<lambda>b included. vec_set included (vb_author b) (Some (vb_reference b))) ancestors
                 (kr_last_included_ancestors k)) (\<lambda>included.
      and_then (agg_add_all quorum_is_threshold cm
                 (map vb_author (filter (\<lambda>b. vb_round b = u32_sub clock_round 1) ancestors)) agg_new) (\<lambda>quorum.
      and_then (assert_that (agg_reached_threshold quorum_is_threshold cm quorum) (CorePanic ProposalWithoutQuorum)) (\<lambda>_.
        Inr (ancestors, k\<lparr> kr_last_included_ancestors := included \<rparr>))))))))"

text \<open>The readings of the clock by one proposal: for the delay since the last one, for the block, and by the block manager.\<close>

record proposal_clock =
  pk_delay :: timestamp_ms
  pk_now :: timestamp_ms
  pk_accept :: timestamp_ms

definition ready_to_propose :: "rand \<Rightarrow> bool \<Rightarrow> timestamp_ms \<Rightarrow> round \<Rightarrow> core_state \<Rightarrow> bool res" where
  "ready_to_propose rand force now quorum_round k =
     (if force then Inr True
      else and_then (leaders_exist rand k quorum_round) (\<lambda>exist.
             Inr (exist \<and> \<not> now - last_proposed_timestamp_ms k < pa_min_round_delay_ms (cx_parameters (kr_context k)))))"

definition try_new_block ::
  "crypto \<Rightarrow> rand \<Rightarrow> (verified_block \<Rightarrow> verified_block list \<Rightarrow> unit consensus_result res) \<Rightarrow> proposal_clock \<Rightarrow> bool
     \<Rightarrow> core_state \<Rightarrow> (verified_block option \<times> core_state) res" where
  "try_new_block cry rand check clk force k =
     (let clock_round = clock_get_round (kr_threshold_clock k);
          quorum_round = clock_round - 1;
          cm = cx_committee (kr_context k) in
      if clock_round \<le> last_proposed_round k then Inr (None, k)
      else and_then (ready_to_propose rand force (pk_delay clk) quorum_round k) (\<lambda>ready.
      if \<not> ready then Inr (None, k)
      else
        and_then (first_leader rand k quorum_round) (\<lambda>leader.
        and_then (committee_authority cm leader) (\<lambda>_.
        and_then (ancestors_to_propose clock_round k) (\<lambda>(ancestors, k).
        and_then (assert_that (\<forall>b \<in> set ancestors. vb_timestamp_ms b \<le> pk_now clk) (CorePanic AncestorFromTheFuture)) (\<lambda>_.
        let (transactions, acks, consumer) = next_transactions (kr_transaction_consumer k);
            (commit_votes, ds) = take_commit_votes max_commit_votes_per_block (kr_dag_state k);
            block = V1 (block_v1_new (cm_epoch cm) clock_round (cx_own_index (kr_context k)) (pk_now clk)
                          (map vb_reference ancestors) transactions commit_votes []) in
        and_then (case SignedBlock_new cry block (kr_block_signer k) of
                    Inl _ \<Rightarrow> Inl (CorePanic BlockSigningFailed) | Inr sb \<Rightarrow> Inr sb) (\<lambda>signed_block.
        and_then (expect (cy_bcs_signed_block cry signed_block) (CorePanic BlockSerializationFailed)) (\<lambda>serialized.
        let verified_block = VerifiedBlock_new_verified cry signed_block serialized in
        and_then (try_accept_blocks check (pk_accept clk) [verified_block] (kr_block_manager k, ds))
          (\<lambda>((accepted, missing), (manager, ds)).
        and_then (assert_that (length accepted = 1) (CorePanic OwnBlockNotAccepted)) (\<lambda>_.
        and_then (assert_that (missing = []) (CorePanic OwnBlockMissingAncestors)) (\<lambda>_.
        and_then (add_accepted_blocks [verified_block]
                   (k\<lparr> kr_transaction_consumer := consumer, kr_block_manager := manager, kr_dag_state := ds \<rparr>)) (\<lambda>k.
          Inr (Some verified_block,
               k\<lparr> kr_dag_state := flush (kr_dag_state k), kr_last_proposed_block := verified_block,
                  kr_acked := kr_acked k @ acks \<rparr>)))))))))))))"

section \<open>Committing\<close>

text \<open>
  The round of the loop with a leader schedule: whether the loop ends, and the result so far.
\<close>

type_synonym commit_loop = "bool \<times> committed_sub_dag list consensus_result \<times> core_state"

text \<open>The schedule changes when enough commits were made under the current one.\<close>

definition change_schedule_when_due :: "rand \<Rightarrow> core_state \<Rightarrow> (nat \<times> core_state) res" where
  "change_schedule_when_due rand k =
     and_then (commits_until_leader_schedule_update (kr_leader_schedule k) (kr_dag_state k)) (\<lambda>until.
       if until = 0 then
         and_then (update_leader_schedule rand (kr_leader_schedule k) (kr_dag_state k)) (\<lambda>(ls, ds).
         and_then (commits_until_leader_schedule_update ls ds) (\<lambda>until'.
           Inr (until', k\<lparr> kr_leader_schedule := ls, kr_dag_state := ds \<rparr>)))
       else Inr (until, k))"

definition sequence_leaders ::
  "nat \<Rightarrow> decided_leader list \<Rightarrow> decided_leader \<Rightarrow> (verified_block list \<times> slot) res" where
  "sequence_leaders commits_until_update decided last_decided =
     (let sequenced = List.map_filter into_committed_block decided in
      if length sequenced \<ge> commits_until_update then
        let sequenced = take commits_until_update sequenced in
        and_then (expect (last_opt sequenced) (CorePanic NoCommitBeforeUpdate)) (\<lambda>l.
          Inr (sequenced, slot_of (vb_reference l)))
      else Inr (sequenced, decided_slot last_decided))"

definition commit_step :: "crypto \<Rightarrow> rand \<Rightarrow> commit_loop \<Rightarrow> commit_loop res" where
  "commit_step cry rand = (\<lambda>(_, result, k).
     and_then (change_schedule_when_due rand k) (\<lambda>(commits_until_update, k).
     and_then (assert_that (commits_until_update > 0) (CorePanic NoCommitBeforeUpdate)) (\<lambda>_.
     and_then (try_decide (elect_leader rand (kr_leader_schedule k)) (kr_committer k) (kr_dag_state k)
                 (kr_last_decided_leader k)) (\<lambda>decided.
       case last_opt decided of
         None \<Rightarrow> Inr (True, result, k)
       | Some last_decided \<Rightarrow>
           and_then (sequence_leaders commits_until_update decided last_decided) (\<lambda>(sequenced, s).
           let k = k\<lparr> kr_last_decided_leader := s \<rparr> in
           if sequenced = [] then Inr (True, result, k)
           else
             and_then (observer_handle_commit cry (kr_leader_schedule k) sequenced (kr_commit_observer k) (kr_dag_state k))
               (\<lambda>(sent, observer, ds).
                 case sent of
                   Inl e \<Rightarrow> Inr (True, Inl e, k\<lparr> kr_commit_observer := observer, kr_dag_state := ds \<rparr>)
                 | Inr subdags \<Rightarrow>
                     Inr (False, and_then result (\<lambda>committed. Inr (committed @ subdags)),
                          k\<lparr> kr_commit_observer := observer,
                             kr_dag_state := add_unscored_committed_subdags subdags ds \<rparr>)))))))"

definition try_commit ::
  "crypto \<Rightarrow> rand \<Rightarrow> core_state \<Rightarrow> (committed_sub_dag list consensus_result \<times> core_state) res" where
  "try_commit cry rand k =
     (if \<not> pc_mysticeti_leader_scoring_and_schedule (cx_protocol_config (kr_context k)) then
        and_then (try_decide (elect_leader rand (kr_leader_schedule k)) (kr_committer k) (kr_dag_state k)
                    (kr_last_decided_leader k)) (\<lambda>decided.
        let k = (case last_opt decided of
                   Some l \<Rightarrow> k\<lparr> kr_last_decided_leader := decided_slot l \<rparr> | None \<Rightarrow> k);
            committed = List.map_filter into_committed_block decided in
        and_then (observer_handle_commit cry (kr_leader_schedule k) committed (kr_commit_observer k) (kr_dag_state k))
          (\<lambda>(sent, observer, ds).
            Inr (sent, k\<lparr> kr_commit_observer := observer, kr_dag_state := ds \<rparr>)))
      else
        and_then (while_res (\<lambda>(stop, _, _). \<not> stop) (commit_step cry rand) (False, Inr [], k))
          (\<lambda>(_, result, k). Inr (result, k)))"

section \<open>Entry points\<close>

definition try_propose ::
  "crypto \<Rightarrow> rand \<Rightarrow> (verified_block \<Rightarrow> verified_block list \<Rightarrow> unit consensus_result res) \<Rightarrow> proposal_clock \<Rightarrow> bool
     \<Rightarrow> core_state \<Rightarrow> (verified_block option consensus_result \<times> core_state) res" where
  "try_propose cry rand check clk force k =
     and_then (try_new_block cry rand check clk force k) (\<lambda>(proposed, k).
       case proposed of
         None \<Rightarrow> Inr (Inr None, k)
       | Some b \<Rightarrow>
           (case signal_new_block b (kr_signals k) of
              (Inl e, signals) \<Rightarrow> Inr (Inl e, k\<lparr> kr_signals := signals \<rparr>)
            | (Inr _, signals) \<Rightarrow>
                and_then (try_commit cry rand (k\<lparr> kr_signals := signals \<rparr>)) (\<lambda>(result, k).
                  Inr (and_then result (\<lambda>_. Inr (Some b)), k))))"

definition new_block ::
  "crypto \<Rightarrow> rand \<Rightarrow> (verified_block \<Rightarrow> verified_block list \<Rightarrow> unit consensus_result res) \<Rightarrow> proposal_clock \<Rightarrow> round \<Rightarrow> bool
     \<Rightarrow> core_state \<Rightarrow> (verified_block option consensus_result \<times> core_state) res" where
  "new_block cry rand check clk rnd force k =
     (if last_proposed_round k < rnd then try_propose cry rand check clk force k else Inr (Inr None, k))"

definition add_blocks ::
  "crypto \<Rightarrow> rand \<Rightarrow> (verified_block \<Rightarrow> verified_block list \<Rightarrow> unit consensus_result res) \<Rightarrow> timestamp_ms \<Rightarrow> proposal_clock
     \<Rightarrow> verified_block list \<Rightarrow> core_state \<Rightarrow> (block_ref list consensus_result \<times> core_state) res" where
  "add_blocks cry rand check now clk blocks k =
     and_then (try_accept_blocks check now blocks (kr_block_manager k, kr_dag_state k))
       (\<lambda>((accepted, missing), (manager, ds)).
     let k = k\<lparr> kr_block_manager := manager, kr_dag_state := ds \<rparr> in
     if accepted = [] then Inr (Inr missing, k)
     else
       and_then (add_accepted_blocks accepted k) (\<lambda>k.
       and_then (try_commit cry rand k) (\<lambda>(committed, k).
         case committed of
           Inl e \<Rightarrow> Inr (Inl e, k)
         | Inr _ \<Rightarrow>
             and_then (try_propose cry rand check clk False k) (\<lambda>(proposed, k).
               Inr (and_then proposed (\<lambda>_. Inr missing), k)))))"

definition get_missing_blocks :: "core_state \<Rightarrow> block_ref list" where
  "get_missing_blocks k = missing_blocks (kr_block_manager k)"

text \<open>\<open>unwrap\<close> of the result of an operation of the core.\<close>

definition unwrap_result :: "('a consensus_result \<times> core_state) res \<Rightarrow> ('a \<times> core_state) res" where
  "unwrap_result m =
     and_then m (\<lambda>(result, k). case result of Inl _ \<Rightarrow> Inl (CorePanic RecoveryFailed) | Inr x \<Rightarrow> Inr (x, k))"

definition recover ::
  "crypto \<Rightarrow> rand \<Rightarrow> (verified_block \<Rightarrow> verified_block list \<Rightarrow> unit consensus_result res) \<Rightarrow> proposal_clock
     \<Rightarrow> core_state \<Rightarrow> core_state res" where
  "recover cry rand check clk k =
     and_then (get_last_cached_block_per_authority (kr_dag_state k) u32_max) (\<lambda>_.
     and_then (last_quorum (kr_dag_state k)) (\<lambda>quorum.
     and_then (add_accepted_blocks quorum k) (\<lambda>k.
     and_then (unwrap_result (try_commit cry rand k)) (\<lambda>(_, k).
     and_then (unwrap_result (try_propose cry rand check clk True k)) (\<lambda>(proposed, k).
       case proposed of
         Some _ \<Rightarrow> Inr k
       | None \<Rightarrow>
           and_then (assert_that (last_proposed_round k > genesis_round) (CorePanic NoBlockProposedInRecovery)) (\<lambda>_.
           case signal_new_block (kr_last_proposed_block k) (kr_signals k) of
             (Inl _, _) \<Rightarrow> Inl (CorePanic RecoveryFailed)
           | (Inr _, signals) \<Rightarrow> Inr (k\<lparr> kr_signals := signals \<rparr>)))))))"

definition Core_new ::
  "crypto \<Rightarrow> rand \<Rightarrow> (verified_block \<Rightarrow> verified_block list \<Rightarrow> unit consensus_result res) \<Rightarrow> proposal_clock
     \<Rightarrow> epoch_context \<Rightarrow> leader_schedule \<Rightarrow> transaction_consumer \<Rightarrow> block_manager \<Rightarrow> commit_observer \<Rightarrow> core_signals
     \<Rightarrow> byte list \<Rightarrow> dag_state \<Rightarrow> core_state res" where
  "Core_new cry rand check clk cx ls consumer manager observer signals signer ds =
     and_then (last_commit_leader ds) (\<lambda>last_decided.
     and_then (universal_committer_build
                (with_pipeline True (with_number_of_leaders num_leaders_per_round (UniversalCommitterBuilder_new cx)))) (\<lambda>committer.
     and_then (get_last_block_for_authority ds (cx_own_index cx)) (\<lambda>last_block.
     and_then (for_each (\<lambda>r included. vec_set included (br_author r) (Some r)) (vb_ancestors last_block)
                (replicate (committee_size (cx_committee cx)) None)) (\<lambda>included.
       recover cry rand check clk
         \<lparr> kr_context = cx, kr_threshold_clock = ThresholdClock_new 0, kr_transaction_consumer = consumer,
           kr_block_manager = manager, kr_committer = committer, kr_last_proposed_block = last_block,
           kr_last_included_ancestors = included, kr_last_decided_leader = last_decided, kr_leader_schedule = ls,
           kr_commit_observer = observer, kr_signals = signals, kr_block_signer = signer, kr_dag_state = ds,
           kr_acked = [] \<rparr>))))"

end
