(* ===== verification/Proposal_Properties.thy ===== *)
theory Proposal_Properties
  imports Validator_Core Manager_Properties
begin

text \<open>
  What the blocks are that the core proposes: the ancestors it chooses, and that peers accept the block.
\<close>

section \<open>Last blocks of each authority\<close>

definition last_blocks_ok :: "dag_state \<Rightarrow> round \<Rightarrow> verified_block list \<Rightarrow> bool" where
  "last_blocks_ok ds end_round bs \<longleftrightarrow>
     length bs = num_authorities ds \<and>
     (\<forall>i < num_authorities ds. vb_author (bs ! i) = i \<and> vb_round (bs ! i) < end_round \<and>
        dag_lookup ds (vb_reference (bs ! i)) = Some (bs ! i))"

lemma genesis_map_of:
  assumes "genesis_wf ds" "(r, b) \<in> set (ds_genesis ds)"
  shows "map_of (ds_genesis ds) r = Some b"
proof -
  from assms(1) have "distinct (map br_author (map fst (ds_genesis ds)))"
    by (simp add: genesis_wf_def comp_def)
  then have "distinct (map fst (ds_genesis ds))" using distinct_map by blast
  with assms(2) show ?thesis by simp
qed

lemma genesis_last_blocks:
  assumes "genesis_wf ds" "0 < end_round"
  shows "last_blocks_ok ds end_round (map snd (ds_genesis ds))"
proof -
  have authors: "map (br_author \<circ> fst) (ds_genesis ds) = [0..<num_authorities ds]"
    using assms(1) by (simp add: genesis_wf_def)
  from arg_cong [OF this, of length] have len: "length (ds_genesis ds) = num_authorities ds" by simp
  have "vb_author (snd (ds_genesis ds ! i)) = i \<and> vb_round (snd (ds_genesis ds ! i)) < end_round \<and>
      dag_lookup ds (vb_reference (snd (ds_genesis ds ! i))) = Some (snd (ds_genesis ds ! i))"
    if i: "i < num_authorities ds" for i
  proof -
    obtain r b where rb: "ds_genesis ds ! i = (r, b)" by fastforce
    then have mem: "(r, b) \<in> set (ds_genesis ds)" using i len by (metis nth_mem)
    from arg_cong [OF authors, of "\<lambda>l. l ! i"] i len rb have "br_author r = i" by simp
    moreover from genesis_lookup [OF assms(1) genesis_map_of [OF assms(1) mem]]
    have "vb_reference b = r" "br_round r = 0" by simp_all
    ultimately show ?thesis
      using rb assms(2) genesis_map_of [OF assms(1) mem]
      by (auto simp: dag_lookup_def genesis_round_def simp flip: vb_reference_sel)
  qed
  with len show ?thesis by (simp add: last_blocks_ok_def)
qed

lemma last_cached_step_ok:
  assumes inv: "dag_inv ds" and mem: "(i, refs) \<in> set (List.enumerate 0 (ds_recent_refs ds))"
    and ok: "last_blocks_ok ds end_round bs" and step: "last_cached_step ds end_round (i, refs) bs = Inr bs'"
  shows "last_blocks_ok ds end_round bs'"
proof -
  have i: "i < num_authorities ds" "refs = ds_recent_refs ds ! i"
    using mem inv by (auto simp: in_set_enumerate_eq dag_inv_def cache_wf_def)
  have same: "bs' = bs \<or> (\<exists>r b. r \<in> set refs \<and> r < BlockRef end_round i digest_min \<and>
      map_of (ds_recent_blocks ds) r = Some b \<and> bs' = bs[i := b])"
    using step i(1)
    by (auto simp: last_cached_step_def and_then_eq_Inr to_authority_index_def last_opt_def
        split: if_splits dest!: last_in_set)
  then show ?thesis
  proof (elim disjE exE conjE)
    fix r b assume r: "r \<in> set refs" "r < BlockRef end_round i digest_min" "map_of (ds_recent_blocks ds) r = Some b"
      and bs': "bs' = bs[i := b]"
    have "br_author r = i" using r(1) i cache_refs(1) [OF dag_invD(2) [OF inv] i(1)] by simp
    moreover have "vb_reference b = r" "0 < br_round r" using cache_lookup [OF dag_invD(2) [OF inv] r(3)] by simp_all
    moreover have "br_round r < end_round"
      using r(2) \<open>br_author r = i\<close> by (cases r) (auto simp: block_ref_less block_ref_less_eq digest_min_def)
    moreover have "dag_lookup ds r = Some b"
      using r(3) \<open>0 < br_round r\<close> by (simp add: dag_lookup_def genesis_round_def)
    ultimately have "vb_author b = i \<and> vb_round b < end_round \<and> dag_lookup ds (vb_reference b) = Some b" by auto
    with ok bs' i(1) show ?thesis by (simp add: last_blocks_ok_def nth_list_update)
  qed (use ok in simp)
qed

lemma last_cached_blocks_ok:
  assumes inv: "dag_inv ds" and "get_last_cached_block_per_authority ds end_round = Inr bs"
  shows "last_blocks_ok ds end_round bs"
proof -
  have pos: "0 < end_round"
    using assms(2) by (auto simp: get_last_cached_block_per_authority_def genesis_round_def Let_def split: if_splits)
  note start = genesis_last_blocks [OF dag_invD(1) [OF inv] pos]
  show ?thesis
  proof (cases "end_round = 1")
    case True
    with assms(2) start show ?thesis
      by (auto simp: get_last_cached_block_per_authority_def genesis_round_def Let_def)
  next
    case False
    with assms(2) pos have "for_each (last_cached_step ds end_round) (List.enumerate 0 (ds_recent_refs ds))
        (map snd (ds_genesis ds)) = Inr bs"
      by (auto simp: get_last_cached_block_per_authority_def genesis_round_def Let_def split: if_splits)
    then show ?thesis using start by (rule for_each_invariant) (use last_cached_step_ok [OF inv] in auto)
  qed
qed

section \<open>Ancestors of a proposal\<close>

text \<open>The state of the core between commands, as far as proposals depend on it.\<close>

definition core_ok :: "core_state \<Rightarrow> bool" where
  "core_ok k \<longleftrightarrow>
     dag_inv (kr_dag_state k) \<and> ds_context (kr_dag_state k) = kr_context k \<and>
     committee_wf (cx_committee (kr_context k)) \<and> cx_own_index (kr_context k) \<in> members (cx_committee (kr_context k)) \<and>
     vb_author (kr_last_proposed_block k) = cx_own_index (kr_context k) \<and>
     dag_lookup (kr_dag_state k) (vb_reference (kr_last_proposed_block k)) = Some (kr_last_proposed_block k)"

lemma ancestors_spec:
  assumes ok: "core_ok k" and run: "ancestors_to_propose rnd k = Inr (ancestors, k')"
    and lp: "last_proposed_round k < rnd" and bound: "rnd < 2 ^ 32"
  shows "\<exists>others. ancestors = kr_last_proposed_block k # others"
    and "distinct (map vb_author ancestors)"
    and "\<forall>a \<in> set ancestors. vb_author a \<in> members (cx_committee (kr_context k)) \<and> vb_round a < rnd \<and>
      dag_lookup (kr_dag_state k) (vb_reference a) = Some a"
    and "reached_quorum (cx_committee (kr_context k))
      (stake_of (cx_committee (kr_context k)) (vb_author ` {a \<in> set ancestors. vb_round a + 1 = rnd}))"
proof -
  let ?cm = "cx_committee (kr_context k)" and ?ds = "kr_dag_state k" and ?own = "cx_own_index (kr_context k)"
  let ?lp = "kr_last_proposed_block k"
  obtain bs others quorum where
    bs: "get_last_cached_block_per_authority ?ds rnd = Inr bs" and
    others: "set others \<subseteq> {b \<in> set bs. vb_author b \<noteq> ?own}" "\<exists>p. others = filter p bs" and
    anc: "ancestors = ?lp # others" and
    quorum: "agg_add_all quorum_is_threshold ?cm (map vb_author (filter (\<lambda>b. vb_round b = u32_sub rnd 1) ancestors)) agg_new
      = Inr quorum" "agg_reached_threshold quorum_is_threshold ?cm quorum"
    using run by (fastforce simp: ancestors_to_propose_def Let_def and_then_eq_Inr filter_res_eq_Inr)
  have "last_blocks_ok ?ds rnd bs" using ok bs by (intro last_cached_blocks_ok) (simp_all add: core_ok_def)
  then have len: "length bs = committee_size ?cm" and nth: "i < committee_size ?cm \<Longrightarrow> vb_author (bs ! i) = i \<and>
      vb_round (bs ! i) < rnd \<and> dag_lookup ?ds (vb_reference (bs ! i)) = Some (bs ! i)" for i
    using ok by (simp_all add: last_blocks_ok_def core_ok_def)
  have each: "vb_author b \<in> members ?cm \<and> vb_round b < rnd \<and> dag_lookup ?ds (vb_reference b) = Some b"
    if "b \<in> set bs" for b
    using that nth len by (auto simp: in_set_conv_nth members_eq)
  have "map vb_author bs = [0..<committee_size ?cm]"
    using len nth by (intro nth_equalityI) auto
  then have dist: "distinct (map vb_author bs)" by simp
  show "\<exists>others. ancestors = ?lp # others" using anc by blast
  show "distinct (map vb_author ancestors)"
    using dist others ok anc by (auto simp: core_ok_def distinct_map_filter)
  show all: "\<forall>a \<in> set ancestors. vb_author a \<in> members ?cm \<and> vb_round a < rnd \<and>
      dag_lookup ?ds (vb_reference a) = Some a"
    using anc each others(1) ok lp by (auto simp: core_ok_def last_proposed_round_def)
  have wf: "committee_wf ?cm" using ok by (simp add: core_ok_def)
  let ?parents = "{a \<in> set ancestors. vb_round a + 1 = rnd}"
  have sub: "u32_sub rnd (Suc 0) = rnd - 1" using lp u32_sub_exact [of 1 rnd] bound by simp
  have set: "set (map vb_author (filter (\<lambda>b. vb_round b = u32_sub rnd 1) ancestors)) = vb_author ` ?parents"
    using lp by (auto simp: sub intro!: imageI)
  have "vb_author ` ?parents \<subseteq> members ?cm" using all by auto
  then obtain agg where "agg_add_all quorum_is_threshold ?cm (map vb_author (filter (\<lambda>b. vb_round b = u32_sub rnd 1) ancestors)) agg_new
      = Inr agg" "agg_inv ?cm agg" "set (sa_votes agg) = vb_author ` ?parents"
    using agg_add_all_spec [OF wf agg_inv_new, of "map vb_author (filter (\<lambda>b. vb_round b = u32_sub rnd 1) ancestors)" quorum_is_threshold] set
    by (auto simp: agg_new_def)
  with quorum show "reached_quorum ?cm (stake_of ?cm (vb_author ` ?parents))"
    by (simp add: agg_reached_threshold_def quorum_is_threshold_def agg_inv_def)
qed

section \<open>Proposed blocks\<close>

definition proposal :: "core_state \<Rightarrow> proposal_clock \<Rightarrow> verified_block list \<Rightarrow> block" where
  "proposal k clk ancestors =
     V1 (block_v1_new (cm_epoch (cx_committee (kr_context k))) (clock_get_round (kr_threshold_clock k))
           (cx_own_index (kr_context k)) (pk_now clk) (map vb_reference ancestors)
           (fst (next_transactions (kr_transaction_consumer k)))
           (fst (take_commit_votes max_commit_votes_per_block (kr_dag_state k))) [])"

lemma ancestors_keep: "ancestors_to_propose rnd k = Inr (ancestors, k') \<Longrightarrow> \<exists>included. k' = k\<lparr> kr_last_included_ancestors := included \<rparr>"
  by (auto simp: ancestors_to_propose_def Let_def and_then_eq_Inr)

lemma add_accepted_keep:
  assumes "add_accepted_blocks bs k = Inr k'"
  shows "\<exists>clock rnd. k' = k\<lparr> kr_threshold_clock := clock, kr_signals := (kr_signals k)\<lparr> sg_new_round := rnd \<rparr> \<rparr>"
proof -
  obtain new_round clock where "k' = k\<lparr> kr_threshold_clock := clock,
      kr_signals := (case new_round of Some rnd \<Rightarrow> signal_new_round rnd (kr_signals k) | None \<Rightarrow> kr_signals k) \<rparr>"
    using assms by (auto simp: add_accepted_blocks_def and_then_eq_Inr)
  then have "k' = k\<lparr> kr_threshold_clock := clock, kr_signals := (kr_signals k)\<lparr> sg_new_round :=
      (case new_round of Some rnd \<Rightarrow> rnd | None \<Rightarrow> sg_new_round (kr_signals k)) \<rparr> \<rparr>"
    by (cases new_round) (simp_all add: signal_new_round_def)
  then show ?thesis by blast
qed

text \<open>The steps of a proposal that returned a block.\<close>

lemma try_new_block_Some:
  assumes "try_new_block cry rand check clk force k = Inr (Some b, k')"
  obtains ancestors k1 sb bytes accepted missing mgr ds k2 where
    "last_proposed_round k < clock_get_round (kr_threshold_clock k)"
    "ancestors_to_propose (clock_get_round (kr_threshold_clock k)) k = Inr (ancestors, k1)"
    "\<forall>a \<in> set ancestors. vb_timestamp_ms a \<le> pk_now clk"
    "SignedBlock_new cry (proposal k clk ancestors) (kr_block_signer k) = Inr sb"
    "cy_bcs_signed_block cry sb = Some bytes" "b = VerifiedBlock_new_verified cry sb bytes"
    "try_accept_blocks check (pk_accept clk) [b]
       (kr_block_manager k, snd (take_commit_votes max_commit_votes_per_block (kr_dag_state k))) =
       Inr ((accepted, missing), (mgr, ds))" "length accepted = 1"
    "add_accepted_blocks [b] (k1\<lparr> kr_transaction_consumer := snd (snd (next_transactions (kr_transaction_consumer k))),
        kr_block_manager := mgr, kr_dag_state := ds \<rparr>) = Inr k2"
    "k' = k2\<lparr> kr_dag_state := flush (kr_dag_state k2), kr_last_proposed_block := b,
        kr_acked := kr_acked k2 @ fst (snd (next_transactions (kr_transaction_consumer k))) \<rparr>"
proof -
  have "last_proposed_round k < clock_get_round (kr_threshold_clock k)"
    using assms by (auto simp: try_new_block_def Let_def split: if_splits)
  moreover obtain ancestors k1 where anc: "ancestors_to_propose (clock_get_round (kr_threshold_clock k)) k = Inr (ancestors, k1)"
    using assms by (auto simp: try_new_block_def Let_def and_then_eq_Inr split: if_splits)
  moreover obtain included where "k1 = k\<lparr> kr_last_included_ancestors := included \<rparr>" using ancestors_keep [OF anc] by blast
  ultimately show ?thesis
    using assms
    by (auto simp: try_new_block_def Let_def and_then_eq_Inr proposal_def case_prod_beta split: if_splits sum.split_asm
        intro!: that)
qed

text \<open>
  A block that the core proposes has the round of the threshold clock, is well formed, and its ancestors
  are blocks of the DAG with timestamps up to its own.
\<close>

lemma proposal_well_formed:
  assumes ok: "core_ok k" and run: "try_new_block cry rand check clk force k = Inr (Some b, k')"
    and bound: "clock_get_round (kr_threshold_clock k) < 2 ^ 32"
  shows "block_well_formed (cx_committee (kr_context k)) (set (map fst (ds_genesis (kr_dag_state k)))) (vb_inner b)"
    and "vb_round b = clock_get_round (kr_threshold_clock k)" "last_proposed_round k < vb_round b"
    and "\<exists>as. map (dag_lookup (kr_dag_state k)) (vb_ancestors b) = map Some as \<and> map vb_reference as = vb_ancestors b \<and>
      (\<forall>a \<in> set as. vb_timestamp_ms a \<le> vb_timestamp_ms b)"
proof -
  let ?cm = "cx_committee (kr_context k)" and ?ds = "kr_dag_state k" and ?rnd = "clock_get_round (kr_threshold_clock k)"
  from run obtain as k1 sb bytes where
    lp: "last_proposed_round k < ?rnd" and anc: "ancestors_to_propose ?rnd k = Inr (as, k1)" and
    times: "\<forall>a \<in> set as. vb_timestamp_ms a \<le> pk_now clk" and
    sb: "SignedBlock_new cry (proposal k clk as) (kr_block_signer k) = Inr sb" and b: "b = VerifiedBlock_new_verified cry sb bytes"
    by (rule try_new_block_Some) blast
  from sb b have inner: "vb_inner b = proposal k clk as"
    by (auto simp: SignedBlock_new_def and_then_eq_Inr VerifiedBlock_new_verified_def vb_inner_def)
  then have ancestors: "vb_ancestors b = map vb_reference as" and time: "vb_timestamp_ms b = pk_now clk"
    and rnd: "vb_round b = ?rnd"
    by (simp_all add: vb_ancestors_def vb_timestamp_ms_def vb_round_def proposal_def block_v1_new_def)
  note spec = ancestors_spec [OF ok anc lp bound]
  show "vb_round b = ?rnd" "last_proposed_round k < vb_round b" using rnd lp by simp_all
  show "\<exists>as. map (dag_lookup ?ds) (vb_ancestors b) = map Some as \<and> map vb_reference as = vb_ancestors b \<and>
      (\<forall>a \<in> set as. vb_timestamp_ms a \<le> vb_timestamp_ms b)"
    using spec(3) times by (intro exI [of _ as]) (simp add: ancestors time)
  have genesis: "vb_reference a \<in> set (map fst (ds_genesis ?ds))" if "a \<in> set as" "vb_round a = genesis_round" for a
  proof -
    have "map_of (ds_genesis ?ds) (vb_reference a) = Some a" using that spec(3) by (auto simp: dag_lookup_def)
    then show ?thesis by (force dest: map_of_SomeD)
  qed
  have parents: "br_author ` parents (proposal k clk as) = vb_author ` {a \<in> set as. vb_round a + 1 = ?rnd}"
  proof -
    have "parents (proposal k clk as) = vb_reference ` {a \<in> set as. vb_round a + 1 = ?rnd}"
      by (auto simp: parents_def proposal_def block_v1_new_def)
    then show ?thesis by (simp add: image_image)
  qed
  obtain others where "as = kr_last_proposed_block k # others" using spec(1) by blast
  then have "\<exists>own others. block_ancestors (proposal k clk as) = own # others \<and> br_author own = block_author (proposal k clk as)"
    using ok by (simp add: proposal_def block_v1_new_def core_ok_def)
  then show "block_well_formed ?cm (set (map fst (ds_genesis ?ds))) (vb_inner b)"
    using spec(2,3,4) lp ok genesis unfolding inner block_well_formed_def parents
    by (auto simp: proposal_def block_v1_new_def core_ok_def comp_def)
qed

end
