(* ===== verification/Proposal_Progress.thy ===== *)
theory Proposal_Progress
  imports Proposal_Properties Committer_Properties Schedule_Properties
begin

text \<open>
  A proposal that is forced by the leader timeout succeeds: the core makes a block without a panic, peers accept it, and it is in the
  store before it is broadcast.
\<close>

section \<open>A block whose ancestors are in the DAG is accepted at once\<close>

lemma find_ancestors_in_dag:
  "list_all2 (\<lambda>r a. vb_reference a = r) refs as \<Longrightarrow> find_ancestors accept reject (zip refs (map Some as)) = Inr (Some as)"
  by (induction refs as rule: list_all2_induct) auto

lemma note_known: "foldl (\<lambda>s x. note_missing r x s) (mgr, [], []) (zip (map (\<lambda>_. True) refs) refs) = (mgr, [], [])"
  by (induction refs) (auto simp: note_missing_def)

lemma accept_ready_block:
  assumes inv: "dag_inv ds" and b: "vb_round b \<noteq> 0" "vb_author b < num_authorities ds" "vb_timestamp_ms b \<le> now"
    and new: "dag_lookup ds (vb_reference b) = None"
    and own: "vb_author b = cx_own_index (ds_context ds) \<Longrightarrow> get_uncommitted_blocks_at_slot ds (slot_of (vb_reference b)) = []"
    and as: "map (dag_lookup ds) (vb_ancestors b) = map Some as" and check: "check b as = Inr (Inr ())"
    and mgr: "map_of (mg_suspended_blocks mgr) (vb_reference b) = None" "map_of (mg_missing_ancestors mgr) (vb_reference b) = None"
  shows "try_accept_blocks check now [b] (mgr, ds) =
    Inr (([b], []), (mgr\<lparr> mg_missing_blocks := bs_remove (vb_reference b) (mg_missing_blocks mgr) \<rparr>, accepted_state b ds))"
proof -
  let ?r = "vb_reference b"
  let ?mgr = "mgr\<lparr> mg_missing_blocks := bs_remove ?r (mg_missing_blocks mgr) \<rparr>"
  have len: "length as = length (vb_ancestors b)" using as by (metis length_map)
  have known: "dag_lookup ds ((vb_ancestors b) ! i) = Some (as ! i)" if "i < length as" for i
    using arg_cong [OF as, of "\<lambda>l. l ! i"] that len by simp
  have refs: "list_all2 (\<lambda>r a. vb_reference a = r) (vb_ancestors b) as"
    using known dag_lookup_ref(1) [OF inv] len by (auto simp: list_all2_conv_all_nth)
  have member: "br_author a < num_authorities ds" "dag_lookup ds a \<noteq> None" if "a \<in> set (vb_ancestors b)" for a
    using that known dag_lookup_ref(2) [OF inv] len by (auto simp: in_set_conv_nth)
  have "contains_blocks ds (vb_ancestors b) = Inr (map (\<lambda>r. dag_lookup ds r \<noteq> None) (vb_ancestors b))"
    using member by (intro contains_blocks_eq [OF inv])
  also have "map (\<lambda>r. dag_lookup ds r \<noteq> None) (vb_ancestors b) = map (\<lambda>_. True) (vb_ancestors b)"
    using member by (auto simp del: map_replicate_const)
  finally have found: "contains_blocks ds (vb_ancestors b) = Inr (map (\<lambda>_. True) (vb_ancestors b))" .
  have "contains_block ds ?r = Inr False" using contains_block_eq [OF inv, of ?r] b(2) new by simp
  then have one: "try_accept_one_block ds b mgr = Inr (Accepted b, ?mgr)"
    using found mgr note_known [of ?r mgr "vb_ancestors b"]
    by (simp add: try_accept_one_block_def Let_def del: map_replicate_const)
  have "unsuspend_step ([b], [], ?mgr) = Inr ([], [], ?mgr)" using mgr by (simp add: unsuspend_step_def Let_def)
  then have unsuspend: "try_unsuspend_children_blocks b ?mgr = Inr ([], ?mgr)"
    by (simp add: try_unsuspend_children_blocks_def while_res_unfold [of _ _ "([b], [], ?mgr)"]
        while_res_unfold [of _ _ "([], [], ?mgr)"])
  have "for_each (verify_against_ancestors check ds) [b] ([], []) = Inr ([(?r, b)], [])"
    using find_ancestors_in_dag [OF refs] check len
    by (simp add: verify_against_ancestors_def get_blocks_eq as Let_def)
  moreover have "accept_blocks now [b] ds = Inr (accepted_state b ds)"
    using accept_block_new [OF inv b(1,2) new b(3) own] by (simp add: accept_blocks_def)
  ultimately show ?thesis
    by (simp add: try_accept_blocks_def try_accept_step_def one unsuspend)
qed

section \<open>The last blocks of each authority are found\<close>

definition last_blocks_complete :: "dag_state \<Rightarrow> round \<Rightarrow> (nat \<times> block_ref list) list \<Rightarrow> verified_block list \<Rightarrow> bool" where
  "last_blocks_complete ds end_round ys bs \<longleftrightarrow>
     set ys \<subseteq> set (List.enumerate 0 (ds_recent_refs ds)) \<and> length bs = num_authorities ds \<and>
     (\<forall>i refs r. (i, refs) \<in> set ys \<longrightarrow> r \<in> set refs \<longrightarrow> evicted_of ds i < br_round r \<longrightarrow> br_round r < end_round \<longrightarrow>
        br_round r \<le> vb_round (bs ! i))"

lemma cached_range:
  assumes "br_author r = a"
  shows "BlockRef lo a digest_min \<le> r \<and> r < BlockRef hi a digest_min \<longleftrightarrow> lo \<le> br_round r \<and> br_round r < hi"
  using assms by (cases r) (auto simp: block_ref_less_eq block_ref_less digest_min_def)

lemma last_cached_step_complete:
  assumes inv: "dag_inv ds" and x: "(i, refs) \<in> set (List.enumerate 0 (ds_recent_refs ds))"
    and ev: "evicted_of ds i < end_round - 1" and bound: "end_round < 2 ^ 32"
    and p: "last_blocks_complete ds end_round ys bs"
  shows "\<exists>bs'. last_cached_step ds end_round (i, refs) bs = Inr bs' \<and> last_blocks_complete ds end_round (ys @ [(i, refs)]) bs'"
proof -
  have i: "i < num_authorities ds" "refs = ds_recent_refs ds ! i"
    using x inv by (auto simp: in_set_enumerate_eq dag_inv_def cache_wf_def)
  have rounds: "length (ds_last_committed_rounds ds) = num_authorities ds" using inv by (simp add: dag_inv_def cache_wf_def)
  have len: "length bs = num_authorities ds" and ys: "set ys \<subseteq> set (List.enumerate 0 (ds_recent_refs ds))"
    and old: "\<And>j refs r. (j, refs) \<in> set ys \<Longrightarrow> r \<in> set refs \<Longrightarrow> evicted_of ds j < br_round r \<Longrightarrow> br_round r < end_round \<Longrightarrow>
      br_round r \<le> vb_round (bs ! j)"
    using p by (auto simp: last_blocks_complete_def)
  have same: "refs' = refs" if "(i, refs') \<in> set ys" for refs' using that ys x by (auto simp: in_set_enumerate_eq)
  have add: "u32_add (evicted_of ds i) 1 = evicted_of ds i + 1" using ev bound by (intro u32_add_exact) simp
  note refs = cache_refs [OF dag_invD(2) [OF inv] i(1), folded i(2)]
  let ?hits = "filter (\<lambda>r. evicted_of ds i + 1 \<le> br_round r \<and> br_round r < end_round) refs"
  have hits: "filter (\<lambda>r. BlockRef (u32_add (evicted_of ds i) 1) i digest_min \<le> r \<and> r < BlockRef end_round i digest_min) refs = ?hits"
    using refs(1) unfolding add by (intro filter_cong refl cached_range) simp
  have size: "i < length (cm_authorities (cx_committee (ds_context ds)))" using i(1) by (simp add: committee_size_def)
  have step: "last_cached_step ds end_round (i, refs) bs =
      (case last_opt ?hits of
         Some r \<Rightarrow> and_then (expect (map_of (ds_recent_blocks ds) r) (DagPanic BlockNotFound)) (\<lambda>b. vec_set bs i b)
       | None \<Rightarrow> Inr bs)"
    using ev i(1) size rounds
    by (simp add: last_cached_step_def to_authority_index_def authority_eviction_round_def hits [simplified])
  show ?thesis
  proof (cases "?hits = []")
    case True
    then have "last_cached_step ds end_round (i, refs) bs = Inr bs" using step by (simp add: last_opt_def)
    moreover have "last_blocks_complete ds end_round (ys @ [(i, refs)]) bs"
      using True old x ys len by (auto simp: last_blocks_complete_def filter_empty_conv Suc_le_eq)
    ultimately show ?thesis by blast
  next
    case False
    let ?r = "last ?hits"
    have mem: "?r \<in> set ?hits" by (rule last_in_set [OF False])
    then obtain b where b: "map_of (ds_recent_blocks ds) ?r = Some b" using refs(1) by auto
    then have ref: "vb_reference b = ?r" using cache_lookup [OF dag_invD(2) [OF inv]] by blast
    have "last_cached_step ds end_round (i, refs) bs = Inr (bs[i := b])"
      using step False b len i(1) by (simp add: last_opt_def)
    moreover have max: "br_round r \<le> vb_round b" if "r \<in> set refs" "evicted_of ds i < br_round r" "br_round r < end_round" for r
    proof -
      have "r \<le> ?r" using that refs(2) by (intro bs_wf_last_max) (auto simp: bs_wf_def sorted_wrt_filter)
      then have "br_round r \<le> br_round ?r" by (auto simp: block_ref_less_eq)
      with ref show ?thesis by (metis vb_reference_sel(1))
    qed
    then have "last_blocks_complete ds end_round (ys @ [(i, refs)]) (bs[i := b])"
      using x ys len i(1) old same
      by (auto simp: last_blocks_complete_def nth_list_update)
    ultimately show ?thesis by blast
  qed
qed

text \<open>The blocks that are found are as late as any block of their author in the range that is not evicted.\<close>

lemma last_cached_total:
  assumes inv: "dag_inv ds" and e: "0 < end_round" "end_round < 2 ^ 32"
    and ev: "\<And>a. a < num_authorities ds \<Longrightarrow> end_round \<noteq> 1 \<Longrightarrow> evicted_of ds a < end_round - 1"
  shows "\<exists>bs. get_last_cached_block_per_authority ds end_round = Inr bs \<and>
    (\<forall>b. dag_lookup ds (vb_reference b) = Some b \<longrightarrow> vb_round b + 1 = end_round \<longrightarrow> vb_round (bs ! vb_author b) = vb_round b)"
proof (cases "end_round = 1")
  case True
  have genesis: "get_last_cached_block_per_authority ds end_round = Inr (map snd (ds_genesis ds))"
    using True by (simp add: get_last_cached_block_per_authority_def genesis_round_def)
  moreover have "vb_round (map snd (ds_genesis ds) ! vb_author b) = vb_round b"
    if "dag_lookup ds (vb_reference b) = Some b" "vb_round b + 1 = end_round" for b
    using genesis_last_blocks [OF dag_invD(1) [OF inv] e(1)] dag_lookup_ref(2) [OF inv that(1)] that(2) True
    by (auto simp: last_blocks_ok_def)
  ultimately show ?thesis by blast
next
  case False
  have "last_blocks_complete ds end_round [] (map snd (ds_genesis ds))"
    using genesis_last_blocks [OF dag_invD(1) [OF inv] e(1)] by (simp add: last_blocks_complete_def last_blocks_ok_def)
  then obtain bs where bs: "for_each (last_cached_step ds end_round) (List.enumerate 0 (ds_recent_refs ds)) (map snd (ds_genesis ds)) = Inr bs"
    "last_blocks_complete ds end_round (List.enumerate 0 (ds_recent_refs ds)) bs"
    using for_each_prefix [of "last_blocks_complete ds end_round" "[]" "map snd (ds_genesis ds)"
        "List.enumerate 0 (ds_recent_refs ds)" "last_cached_step ds end_round"]
      last_cached_step_complete [OF inv _ ev e(2)] False inv
    by (fastforce simp: in_set_enumerate_eq dag_inv_def cache_wf_def)
  then have get: "get_last_cached_block_per_authority ds end_round = Inr bs"
    using False e(1) by (simp add: get_last_cached_block_per_authority_def genesis_round_def)
  have "vb_round (bs ! vb_author b) = vb_round b"
    if b: "dag_lookup ds (vb_reference b) = Some b" "vb_round b + 1 = end_round" for b
  proof -
    have a: "vb_author b < num_authorities ds" using dag_lookup_ref(2) [OF inv b(1)] by simp
    have above: "evicted_of ds (vb_author b) < vb_round b" using ev [OF a False] b(2) by simp
    have "map_of (ds_recent_blocks ds) (vb_reference b) \<noteq> None"
      using b False cache_completeD(2) [OF dag_invD(4) [OF inv], of "vb_reference b"] above
      by (auto simp: dag_lookup_def genesis_round_def split: option.splits)
    then have "vb_reference b \<in> set (ds_recent_refs ds ! vb_author b)"
      using cache_refs(1) [OF dag_invD(2) [OF inv] a] by auto
    moreover have "(vb_author b, ds_recent_refs ds ! vb_author b) \<in> set (List.enumerate 0 (ds_recent_refs ds))"
      using a inv by (simp add: in_set_enumerate_eq dag_inv_def cache_wf_def)
    ultimately have "vb_round b \<le> vb_round (bs ! vb_author b)"
      using bs(2) above b(2) unfolding last_blocks_complete_def by fastforce
    moreover have "vb_round (bs ! vb_author b) < end_round"
      using last_cached_blocks_ok [OF inv get] a by (simp add: last_blocks_ok_def)
    ultimately show ?thesis using b(2) by simp
  qed
  with get show ?thesis by blast
qed

section \<open>Ancestors are chosen\<close>

text \<open>
  When the core is ready for a proposal: a quorum has blocks in the round before, the core has not included such blocks before, and its
  own blocks are not after its last proposal.
\<close>

definition parents_ready :: "core_state \<Rightarrow> bool" where
  "parents_ready k \<longleftrightarrow>
     (let ds = kr_dag_state k; cm = cx_committee (kr_context k); own = cx_own_index (kr_context k);
          rnd = clock_get_round (kr_threshold_clock k) in
      last_proposed_round k < rnd \<and> rnd < 2 ^ 32 \<and> last_commit_round ds < rnd \<and>
      reached_quorum cm (stake_of cm {a. \<exists>b. dag_lookup ds (vb_reference b) = Some b \<and> vb_author b = a \<and> vb_round b + 1 = rnd}) \<and>
      length (kr_last_included_ancestors k) = committee_size cm \<and>
      (\<forall>r. Some r \<in> set (kr_last_included_ancestors k) \<longrightarrow> br_round r + 1 < rnd) \<and>
      (\<forall>r b. dag_lookup ds r = Some b \<longrightarrow> vb_author b = own \<longrightarrow> vb_round b \<le> last_proposed_round k))"

lemma mark_included_total:
  assumes "\<And>b. b \<in> set bs \<Longrightarrow> vb_author b < length included"
  shows "\<exists>included'. for_each (\<lambda>b included. vec_set included (vb_author b) (Some (vb_reference b))) bs included = Inr included'"
  using for_each_total [of "\<lambda>i. length i = length included" included bs
      "\<lambda>b included. vec_set included (vb_author b) (Some (vb_reference b))"] assms by auto

definition not_included :: "core_state \<Rightarrow> verified_block \<Rightarrow> bool" where
  "not_included k b \<longleftrightarrow>
     (case kr_last_included_ancestors k ! vb_author b of Some r \<Rightarrow> br_round r < vb_round b | None \<Rightarrow> True)"

abbreviation chosen :: "core_state \<Rightarrow> verified_block list \<Rightarrow> verified_block list" where
  "chosen k bs \<equiv>
     kr_last_proposed_block k # filter (not_included k) (filter (\<lambda>b. vb_author b \<noteq> cx_own_index (kr_context k)) bs)"

lemma parents_are_chosen:
  assumes ok: "core_ok k" and ready: "parents_ready k"
    and bs: "length bs = num_authorities (kr_dag_state k)" "\<And>i. i < length bs \<Longrightarrow> vb_author (bs ! i) = i"
    and b: "dag_lookup (kr_dag_state k) (vb_reference b) = Some b" "vb_round b + 1 = clock_get_round (kr_threshold_clock k)"
    and last: "vb_round (bs ! vb_author b) = vb_round b"
  shows "vb_author b \<in> vb_author ` {c \<in> set (chosen k bs). vb_round c = vb_round b}"
proof (cases "vb_author b = cx_own_index (kr_context k)")
  case True
  then have "vb_round b \<le> last_proposed_round k" using ready b(1) by (simp add: parents_ready_def Let_def)
  then have "vb_round (kr_last_proposed_block k) = vb_round b"
    using ready b(2) by (simp add: parents_ready_def Let_def last_proposed_round_def)
  with True ok show ?thesis by (intro image_eqI [of _ _ "kr_last_proposed_block k"]) (simp_all add: core_ok_def)
next
  case False
  let ?b = "bs ! vb_author b"
  have a: "vb_author b < length bs" using dag_lookup_ref(2) [OF _ b(1)] ok bs(1) by (simp add: core_ok_def)
  then have mem: "?b \<in> set bs" "vb_author ?b = vb_author b" using bs(2) by simp_all
  moreover have "not_included k ?b"
  proof (cases "kr_last_included_ancestors k ! vb_author b")
    case (Some q)
    then have "Some q \<in> set (kr_last_included_ancestors k)"
      using a bs(1) ready ok by (metis (no_types, lifting) core_ok_def nth_mem parents_ready_def)
    then have "br_round q + 1 < clock_get_round (kr_threshold_clock k)" using ready by (simp add: parents_ready_def Let_def)
    with Some b(2) mem last show ?thesis by (simp add: not_included_def)
  qed (simp add: not_included_def mem)
  ultimately have "?b \<in> {c \<in> set (chosen k bs). vb_round c = vb_round b}" using False last by simp
  with mem(2) show ?thesis by (metis (no_types, lifting) imageI)
qed

lemma ancestors_total:
  assumes ok: "core_ok k" and ready: "parents_ready k"
  shows "\<exists>ancestors k'. ancestors_to_propose (clock_get_round (kr_threshold_clock k)) k = Inr (ancestors, k')"
proof -
  let ?cm = "cx_committee (kr_context k)" and ?ds = "kr_dag_state k" and ?own = "cx_own_index (kr_context k)"
  let ?rnd = "clock_get_round (kr_threshold_clock k)" and ?included = "kr_last_included_ancestors k"
  note r = ready [unfolded parents_ready_def Let_def]
  have inv: "dag_inv ?ds" and cx: "ds_context ?ds = kr_context k" and wf: "committee_wf ?cm"
    and own: "?own \<in> members ?cm" "vb_author (kr_last_proposed_block k) = ?own"
    using ok by (simp_all add: core_ok_def)
  have "evicted_of ?ds a < ?rnd - 1" if a: "a < num_authorities ?ds" "?rnd \<noteq> 1" for a
    using cache_completeD(1) [OF dag_invD(4) [OF inv]] cache_completeD(4) [OF dag_invD(4) [OF inv] a(1)] r a(2)
    by (auto simp: eviction_round_def)
  then obtain bs where bs: "get_last_cached_block_per_authority ?ds ?rnd = Inr bs"
    and last: "\<And>b. dag_lookup ?ds (vb_reference b) = Some b \<Longrightarrow> vb_round b + 1 = ?rnd \<Longrightarrow> vb_round (bs ! vb_author b) = vb_round b"
    using last_cached_total [OF inv, of ?rnd] r by auto
  have len: "length bs = committee_size ?cm" and nth: "\<And>i. i < length bs \<Longrightarrow> vb_author (bs ! i) = i"
    using last_cached_blocks_ok [OF inv bs] cx by (simp_all add: last_blocks_ok_def)
  have author: "vb_author b < committee_size ?cm" if "b \<in> set bs" for b using that nth len by (auto simp: in_set_conv_nth)
  have others: "filter_res (\<lambda>b. and_then (vec_get ?included (vb_author b)) (\<lambda>included.
      Inr (case included of Some r \<Rightarrow> br_round r < vb_round b | None \<Rightarrow> True))) (filter (\<lambda>b. vb_author b \<noteq> ?own) bs) =
      Inr (filter (not_included k) (filter (\<lambda>b. vb_author b \<noteq> ?own) bs))"
    using author r by (intro filter_res_Inr) (simp add: not_included_def)
  let ?as = "chosen k bs" and ?parents = "{a. \<exists>b. dag_lookup ?ds (vb_reference b) = Some b \<and> vb_author b = a \<and> vb_round b + 1 = ?rnd}"
  have members: "vb_author a \<in> members ?cm" if "a \<in> set ?as" for a
    using that author own by (auto simp: members_eq)
  obtain included where included:
    "for_each (\<lambda>b included. vec_set included (vb_author b) (Some (vb_reference b))) ?as ?included = Inr included"
    using mark_included_total [of ?as ?included] members r by (auto simp: members_eq)
  let ?votes = "map vb_author (filter (\<lambda>b. vb_round b = u32_sub ?rnd 1) ?as)"
  have votes: "set ?votes \<subseteq> members ?cm" using members by auto
  then obtain agg where agg: "agg_add_all quorum_is_threshold ?cm ?votes agg_new = Inr agg" "agg_inv ?cm agg"
    "set (sa_votes agg) = set ?votes"
    using agg_add_all_spec [OF wf agg_inv_new, of ?votes quorum_is_threshold] by (auto simp: agg_new_def)
  have "?parents \<subseteq> set ?votes"
  proof clarify
    fix b assume b: "dag_lookup ?ds (vb_reference b) = Some b" "vb_round b + 1 = ?rnd"
    have "u32_sub ?rnd 1 = vb_round b" using r b(2) by (subst u32_sub_exact) auto
    with parents_are_chosen [OF ok ready _ nth b last [OF b]] len cx show "vb_author b \<in> set ?votes" by (simp only: set_map set_filter)
  qed
  then have "stake_of ?cm ?parents \<le> sa_stake agg" using agg(2,3) stake_of_mono votes by (simp add: agg_inv_def)
  then have "agg_reached_threshold quorum_is_threshold ?cm agg"
    using r by (simp add: agg_reached_threshold_def quorum_is_threshold_def reached_quorum_def)
  with bs len others included agg(1) show ?thesis by (simp add: ancestors_to_propose_def Let_def)
qed

section \<open>The leader of a round\<close>

text \<open>The committer is the one that \<open>Core::new\<close> makes, and the swap table has a good node when it has a bad one.\<close>

definition leader_ready :: "rand \<Rightarrow> core_state \<Rightarrow> bool" where
  "leader_ready rand k \<longleftrightarrow>
     (let ls = kr_leader_schedule k; table = le_leader_swap_table ls in
      rand_ok rand \<and> le_context ls = kr_context k \<and>
      (bad_nodes table \<noteq> {} \<longrightarrow> good_nodes table \<noteq> {}) \<and> good_nodes table \<subseteq> members (cx_committee (kr_context k)) \<and>
      universal_committer_build
        (with_pipeline True (with_number_of_leaders num_leaders_per_round (UniversalCommitterBuilder_new (kr_context k))))
      = Inr (kr_committer k))"

lemma elect_leader_total:
  assumes wf: "committee_wf (cx_committee (le_context ls))" and rand: "rand_ok rand"
    and swap: "bad_nodes (le_leader_swap_table ls) \<noteq> {} \<longrightarrow> good_nodes (le_leader_swap_table ls) \<noteq> {}"
    and good: "good_nodes (le_leader_swap_table ls) \<subseteq> members (cx_committee (le_context ls))"
  shows "\<exists>l. elect_leader rand ls rnd 0 = Inr l \<and> l \<in> members (cx_committee (le_context ls))"
proof -
  let ?cm = "cx_committee (le_context ls)" and ?table = "le_leader_swap_table ls"
  obtain order where order: "mset order = mset [0..<committee_size ?cm]"
    "\<And>offset. elect_leader_stake_based rand ls rnd offset =
       (if offset < committee_size ?cm then Inr (order ! offset) else Inl (SchedulePanic LeaderOffsetTooLarge))"
    using elect_stake_based [OF rand refl, of ls rnd] by blast
  have size: "0 < committee_size ?cm" using wf by (auto simp: committee_wf_def committee_size_def)
  have mem: "order ! 0 \<in> members ?cm"
    using mset_eq_length [OF order(1)] mset_eq_setD [OF order(1)] size nth_mem [of 0 order] by (simp add: members_eq)
  obtain swapped where sw: "swap rand ?table (order ! 0) rnd 0 = Inr swapped"
    "if order ! 0 \<in> bad_nodes ?table then \<exists>a \<in> good_nodes ?table. swapped = Some a else swapped = None"
    using swap_spec [OF rand swap, of "order ! 0" rnd] by blast
  have "elect_leader rand ls rnd 0 = Inr (case swapped of Some a \<Rightarrow> a | None \<Rightarrow> order ! 0)"
    using sw(1) order(2) [of 0] size by (simp add: elect_leader_def)
  moreover have "(case swapped of Some a \<Rightarrow> a | None \<Rightarrow> order ! 0) \<in> members ?cm"
    using sw(2) mem good by (auto split: if_splits)
  ultimately show ?thesis by blast
qed

lemma first_leader_total:
  assumes wf: "committee_wf (cx_committee (kr_context k))" and ready: "leader_ready rand k" and bound: "rnd + 3 < 2 ^ 32"
  shows "\<exists>l. first_leader rand k rnd = Inr l \<and> l \<in> members (cx_committee (kr_context k))"
proof -
  let ?ls = "kr_leader_schedule k"
  note r = ready [unfolded leader_ready_def Let_def]
  obtain l where l: "elect_leader rand ?ls rnd 0 = Inr l" "l \<in> members (cx_committee (kr_context k))"
    using elect_leader_total [of ?ls rand rnd] r wf by auto
  let ?b = "with_pipeline True (with_number_of_leaders num_leaders_per_round (UniversalCommitterBuilder_new (kr_context k)))"
  have "get_leaders (elect_leader rand ?ls) (kr_committer k) rnd = map_res (elect_leader rand ?ls rnd) [0..<ub_number_of_leaders ?b]"
    using r bound by (intro pipeline_elects_every_round)
      (simp_all add: with_pipeline_def with_number_of_leaders_def UniversalCommitterBuilder_new_def default_wave_length_def minimum_wave_length_def)
  then have "get_leaders (elect_leader rand ?ls) (kr_committer k) rnd = Inr [l]"
    using l(1) by (simp add: with_pipeline_def with_number_of_leaders_def num_leaders_per_round_def)
  then show ?thesis using l(2) by (simp add: first_leader_def leaders_def)
qed

section \<open>A forced proposal succeeds\<close>

definition can_propose :: "rand \<Rightarrow> proposal_clock \<Rightarrow> core_state \<Rightarrow> bool" where
  "can_propose rand clk k \<longleftrightarrow>
     core_ok k \<and> parents_ready k \<and>
     (let ds = kr_dag_state k; cm = cx_committee (kr_context k); rnd = clock_get_round (kr_threshold_clock k);
          mgr = kr_block_manager k in
      clock_inv cm (kr_threshold_clock k) \<and>
      leader_ready rand k \<and> rnd + 3 < 2 ^ 32 \<and>
      (\<forall>r b. dag_lookup ds r = Some b \<longrightarrow> vb_timestamp_ms b \<le> pk_now clk) \<and> pk_now clk \<le> pk_accept clk \<and>
      (\<forall>r. map_of (mg_suspended_blocks mgr) r \<noteq> None \<or> map_of (mg_missing_ancestors mgr) r \<noteq> None \<longrightarrow>
         \<not> (br_round r = rnd \<and> br_author r = cx_own_index (kr_context k))))"

text \<open>Signing and serialization of a block do not fail.\<close>

definition blocks_serialize :: "crypto \<Rightarrow> byte list \<Rightarrow> bool" where
  "blocks_serialize cry key \<longleftrightarrow>
     (\<forall>b. \<exists>sb. SignedBlock_new cry b key = Inr sb) \<and> (\<forall>sb. cy_bcs_signed_block cry sb \<noteq> None)"

lemma take_votes_dag:
  defines "ds' \<equiv> \<lambda>n ds. snd (take_commit_votes n ds)"
  shows "dag_inv (ds' n ds) = dag_inv ds" "dag_lookup (ds' n ds) = dag_lookup ds" "ds_context (ds' n ds) = ds_context ds"
    "get_uncommitted_blocks_at_slot (ds' n ds) = get_uncommitted_blocks_at_slot ds"
  by (simp_all add: ds'_def take_commit_votes_def case_prod_beta dag_inv_def genesis_wf_def cache_wf_def cache_sync_def
      cache_complete_def last_commit_round_def dag_lookup_def get_uncommitted_blocks_at_slot_def fun_eq_iff
      cong: option.case_cong)

lemma clock_add_one_total:
  assumes "committee_wf c" "clock_inv c k" "br_author r \<in> members c"
  shows "\<exists>res. clock_add_blocks c [r] k = Inr res"
  using clock_add_block_less [of r k c] clock_add_block_greater [OF assms(1) _ assms(3), of k]
    clock_add_block_equal [OF assms(1) _ _ assms(3), of k] assms(2)
  by (cases "br_round r" "tk_round k" rule: linorder_cases) (auto simp: clock_add_blocks_def clock_inv_def)

lemma add_accepted_one_total:
  assumes "committee_wf (cx_committee (kr_context k))" "clock_inv (cx_committee (kr_context k)) (kr_threshold_clock k)"
    and "vb_author b \<in> members (cx_committee (kr_context k))"
  shows "\<exists>k'. add_accepted_blocks [b] k = Inr k'"
  using clock_add_one_total [OF assms(1,2), of "vb_reference b"] assms(3) by (auto simp: add_accepted_blocks_def)

text \<open>The DAG has no own block in the round of the clock.\<close>

lemma own_slot_free:
  assumes ok: "core_ok k" and ready: "parents_ready k"
    and b: "vb_round b = clock_get_round (kr_threshold_clock k)" "vb_author b = cx_own_index (kr_context k)"
  shows "dag_lookup (kr_dag_state k) (vb_reference b) = None"
    and "get_uncommitted_blocks_at_slot (kr_dag_state k) (slot_of (vb_reference b)) = []"
proof -
  let ?ds = "kr_dag_state k"
  have inv: "dag_inv ?ds" using ok by (simp add: core_ok_def)
  have lp: "last_proposed_round k < vb_round b" using ready b by (simp add: parents_ready_def Let_def)
  have none: False if "dag_lookup ?ds (vb_reference c) = Some c" "vb_round c = vb_round b" "vb_author c = vb_author b" for c
  proof -
    have "vb_round c \<le> last_proposed_round k" using ready that(1,3) b(2) by (simp add: parents_ready_def Let_def)
    with lp that(2) show False by simp
  qed
  show "dag_lookup ?ds (vb_reference b) = None"
  proof (cases "dag_lookup ?ds (vb_reference b)")
    case (Some c)
    then have "vb_reference c = vb_reference b" by (rule dag_lookup_ref(1) [OF inv])
    with Some none [of c] show ?thesis by (metis vb_reference_sel(1,2))
  qed simp
  have "c \<notin> set (get_uncommitted_blocks_at_slot ?ds (slot_of (vb_reference b)))" for c
  proof
    assume "c \<in> set (get_uncommitted_blocks_at_slot ?ds (slot_of (vb_reference b)))"
    then have c: "map_of (ds_recent_blocks ?ds) (vb_reference c) = Some c" "slot_of (vb_reference c) = slot_of (vb_reference b)"
      by (simp_all add: set_uncommitted_at_slot [OF dag_invD(2) [OF inv]])
    moreover from c(2) have "vb_round c = vb_round b" "vb_author c = vb_author b" by (simp_all add: slot_of_eq_iff)
    ultimately show False using none [of c] lp by (simp add: dag_lookup_def genesis_round_def)
  qed
  then show "get_uncommitted_blocks_at_slot ?ds (slot_of (vb_reference b)) = []" by (meson last_in_set)
qed

text \<open>The block manager accepts a block that was made from chosen ancestors.\<close>

lemma proposal_accepted:
  assumes can: "can_propose rand clk k" and anc: "ancestors_to_propose (clock_get_round (kr_threshold_clock k)) k = Inr (as, k1)"
    and inner: "vb_inner b = proposal k clk as"
  defines "ds1 \<equiv> snd (take_commit_votes max_commit_votes_per_block (kr_dag_state k))"
  shows "\<exists>mgr. try_accept_blocks check_ancestors (pk_accept clk) [b] (kr_block_manager k, ds1) = Inr (([b], []), (mgr, accepted_state b ds1))"
    and "dag_inv (accepted_state b ds1)"
proof -
  let ?cm = "cx_committee (kr_context k)" and ?ds = "kr_dag_state k" and ?rnd = "clock_get_round (kr_threshold_clock k)"
  let ?own = "cx_own_index (kr_context k)" and ?mgr = "kr_block_manager k"
  have ok: "core_ok k" and ready: "parents_ready k" and times: "pk_now clk \<le> pk_accept clk"
    and waiting: "\<And>r. br_round r = ?rnd \<Longrightarrow> br_author r = ?own \<Longrightarrow>
      map_of (mg_suspended_blocks ?mgr) r = None \<and> map_of (mg_missing_ancestors ?mgr) r = None"
    and past: "\<And>r a. dag_lookup ?ds r = Some a \<Longrightarrow> vb_timestamp_ms a \<le> pk_now clk"
    using can by (auto simp: can_propose_def Let_def)
  have lp: "last_proposed_round k < ?rnd" and bound: "?rnd < 2 ^ 32" using ready by (auto simp: parents_ready_def Let_def)
  note spec = ancestors_spec [OF ok anc lp bound]
  have b: "vb_round b = ?rnd" "vb_author b = ?own" "vb_timestamp_ms b = pk_now clk" "vb_ancestors b = map vb_reference as"
    unfolding vb_round_def vb_author_def vb_timestamp_ms_def vb_ancestors_def inner
    by (simp_all add: proposal_def block_v1_new_def)
  have inv: "dag_inv ds1" and cx: "ds_context ds1 = kr_context k" and own: "?own \<in> members ?cm"
    using ok by (simp_all add: core_ok_def take_votes_dag ds1_def)
  note free = own_slot_free [OF ok ready b(1,2)]
  have looked: "map (dag_lookup ds1) (vb_ancestors b) = map Some as" using spec(3) by (simp add: b(4) take_votes_dag ds1_def)
  have "check_ancestors b as = Inr (Inr ())" using past spec(3) by (fastforce simp: check_ancestors_eq b)
  then show "\<exists>mgr. try_accept_blocks check_ancestors (pk_accept clk) [b] (?mgr, ds1) = Inr (([b], []), (mgr, accepted_state b ds1))"
    using accept_ready_block [OF inv _ _ _ _ _ looked, of "pk_accept clk" check_ancestors ?mgr] b lp own cx times free
      waiting [of "vb_reference b"]
    by (simp add: members_eq take_votes_dag ds1_def)
  show "dag_inv (accepted_state b ds1)"
    using accepted_inv [OF inv, of b] b lp own cx free by (simp add: members_eq take_votes_dag ds1_def)
qed

lemma forced_proposal:
  assumes can: "can_propose rand clk k" and cry: "blocks_serialize cry (kr_block_signer k)"
  shows "\<exists>b k'. try_new_block cry rand check_ancestors clk True k = Inr (Some b, k') \<and>
    mem_block (ds_store (kr_dag_state k')) (vb_reference b) = Some b"
proof -
  let ?cm = "cx_committee (kr_context k)" and ?ds = "kr_dag_state k" and ?rnd = "clock_get_round (kr_threshold_clock k)"
  have ok: "core_ok k" and ready: "parents_ready k" and clock: "clock_inv ?cm (kr_threshold_clock k)"
    and times: "\<And>r b. dag_lookup ?ds r = Some b \<Longrightarrow> vb_timestamp_ms b \<le> pk_now clk"
    using can by (auto simp: can_propose_def Let_def)
  have lp: "last_proposed_round k < ?rnd" and bound: "?rnd < 2 ^ 32" using ready by (auto simp: parents_ready_def Let_def)
  have wf: "committee_wf ?cm" "cx_own_index (kr_context k) \<in> members ?cm" using ok by (simp_all add: core_ok_def)
  have "leader_ready rand k" "?rnd - 1 + 3 < 2 ^ 32" using can by (auto simp: can_propose_def Let_def)
  then obtain leader where leader: "first_leader rand k (?rnd - 1) = Inr leader" "leader \<in> members ?cm"
    using first_leader_total [OF wf(1)] by blast
  obtain as k1 where anc: "ancestors_to_propose ?rnd k = Inr (as, k1)" using ancestors_total [OF ok ready] by blast
  obtain included where k1: "k1 = k\<lparr> kr_last_included_ancestors := included \<rparr>" using ancestors_keep [OF anc] by blast
  obtain sb bytes where sb: "SignedBlock_new cry (proposal k clk as) (kr_block_signer k) = Inr sb"
    "cy_bcs_signed_block cry sb = Some bytes"
    using cry by (fastforce simp: blocks_serialize_def)
  let ?b = "VerifiedBlock_new_verified cry sb bytes"
  let ?ds1 = "snd (take_commit_votes max_commit_votes_per_block ?ds)"
  have inner: "vb_inner ?b = proposal k clk as"
    using sb by (auto simp: SignedBlock_new_def and_then_eq_Inr VerifiedBlock_new_verified_def vb_inner_def)
  have b: "vb_round ?b = ?rnd" "vb_author ?b = cx_own_index (kr_context k)"
    unfolding vb_round_def vb_author_def inner by (simp_all add: proposal_def block_v1_new_def)
  obtain mgr where accept: "try_accept_blocks check_ancestors (pk_accept clk) [?b] (kr_block_manager k, ?ds1) =
      Inr (([?b], []), (mgr, accepted_state ?b ?ds1))"
    using proposal_accepted(1) [OF can anc inner] by blast
  obtain k2 where k2: "add_accepted_blocks [?b] (k1\<lparr> kr_transaction_consumer := snd (snd (next_transactions (kr_transaction_consumer k))),
      kr_block_manager := mgr, kr_dag_state := accepted_state ?b ?ds1 \<rparr>) = Inr k2"
    using add_accepted_one_total wf clock b(2) by (fastforce simp: k1)
  then have ds2: "kr_dag_state k2 = accepted_state ?b ?ds1" using add_accepted_keep [OF k2] by auto
  have authority: "\<exists>a. committee_authority ?cm leader = Inr a"
    using leader(2) by (simp add: committee_authority_def members_eq committee_size_def)
  have past: "\<forall>a \<in> set as. vb_timestamp_ms a \<le> pk_now clk"
    using times ancestors_spec(3) [OF ok anc lp bound] by blast
  have run: "try_new_block cry rand check_ancestors clk True k = Inr (Some ?b, k2\<lparr> kr_dag_state := flush (kr_dag_state k2),
      kr_last_proposed_block := ?b, kr_acked := kr_acked k2 @ fst (snd (next_transactions (kr_transaction_consumer k))) \<rparr>)"
    using lp leader(1) authority anc past sb accept k2
    by (auto simp: try_new_block_def Let_def ready_to_propose_def case_prod_beta proposal_def k1)
  have "mem_block (ds_store (flush (kr_dag_state k2))) (vb_reference ?b) = dag_lookup (accepted_state ?b ?ds1) (vb_reference ?b)"
    using flush_persists(3) [OF proposal_accepted(2) [OF can anc inner]] b(1) lp by (simp add: ds2)
  also have "\<dots> = Some ?b" using b(1) lp by (simp add: dag_lookup_def genesis_round_def)
  finally show ?thesis using run by auto
qed

section \<open>Properties\<close>

text \<open>C4: when the leader timeout forces a proposal and a quorum has blocks in the previous round, \<open>Core::try_new_block\<close> does not
  panic and returns a block of the round of the threshold clock, after the round it proposed before. The block is in the store
  when the function returns, so before it is broadcast. Peers with the same committee and genesis accept it:
  \<open>SignedBlockVerifier::verify\<close> accepts the block, and \<open>check_ancestors\<close> accepts its ancestors.\<close>

theorem forced_proposals_succeed_and_verify:
  assumes "can_propose rand clk k" "blocks_serialize cry (kr_block_signer k)"
    and "cx_committee (sv_context sv) = cx_committee (kr_context k)" "set (sv_genesis sv) = fst ` set (ds_genesis (kr_dag_state k))"
    and "sv_transaction_verifier sv (cx_protocol_config (sv_context sv))
      (map tx_data (fst (next_transactions (kr_transaction_consumer k))))"
    and "\<forall>m. cy_signature_from_bytes cry (cy_sign cry (kr_block_signer k) m) = Some (cy_sign cry (kr_block_signer k) m)"
    and "\<forall>m. cy_verify cry (au_protocol_key (cm_authorities (cx_committee (kr_context k)) ! cx_own_index (kr_context k))) m
      (cy_sign cry (kr_block_signer k) m)"
  shows "\<exists>b k' as. try_new_block cry rand check_ancestors clk True k = Inr (Some b, k') \<and>
    mem_block (ds_store (kr_dag_state k')) (vb_reference b) = Some b \<and>
    vb_round b = clock_get_round (kr_threshold_clock k) \<and> last_proposed_round k < vb_round b \<and>
    verify cry sv (vb_signed b) = Inr () \<and>
    map (dag_lookup (kr_dag_state k)) (vb_ancestors b) = map Some as \<and> check_ancestors b as = Inr (Inr ())"
proof -
  let ?cm = "cx_committee (kr_context k)"
  obtain b k' where run: "try_new_block cry rand check_ancestors clk True k = Inr (Some b, k')"
    "mem_block (ds_store (kr_dag_state k')) (vb_reference b) = Some b"
    using forced_proposal [OF assms(1,2)] by blast
  have ok: "core_ok k" and bound: "clock_get_round (kr_threshold_clock k) < 2 ^ 32"
    using assms(1) by (simp_all add: can_propose_def parents_ready_def Let_def)
  note wf = proposal_well_formed [OF ok run(1) bound]
  obtain as where as: "map (dag_lookup (kr_dag_state k)) (vb_ancestors b) = map Some as" "map vb_reference as = vb_ancestors b"
    "\<forall>a \<in> set as. vb_timestamp_ms a \<le> vb_timestamp_ms b" using wf(4) by blast
  from run(1) obtain ancestors sb bytes where
    sb: "SignedBlock_new cry (proposal k clk ancestors) (kr_block_signer k) = Inr sb" and b: "b = VerifiedBlock_new_verified cry sb bytes"
    by (rule try_new_block_Some) blast
  have "sb_inner sb = proposal k clk ancestors \<and> verify_signature cry ?cm sb = Inr ()"
    using assms(6,7) ok by (intro signed_blocks_verify [OF sb]) (simp_all add: proposal_def block_v1_new_def core_ok_def)
  then have "verify_signature cry ?cm (vb_signed b) = Inr ()" by (simp add: b VerifiedBlock_new_verified_def)
  moreover have "block_transactions (vb_inner b) = fst (next_transactions (kr_transaction_consumer k))"
    using \<open>sb_inner sb = _ \<and> _\<close> by (simp add: b VerifiedBlock_new_verified_def vb_inner_def proposal_def block_v1_new_def)
  ultimately have "verify cry sv (vb_signed b) = Inr ()"
    using wf(1) assms(3,4,5) ok by (subst verify_eq [OF _ refl]) (simp_all add: vb_inner_def core_ok_def)
  then show ?thesis using run wf(2,3) as check_ancestors_eq [OF as(2)] by auto
qed

definition ex_core :: core_state where
  "ex_core =
     \<lparr> kr_context = ex_context, kr_threshold_clock = ThresholdClock_new 1,
       kr_transaction_consumer = TransactionConsumer_new [] ex_context None, kr_block_manager = BlockManager_new,
       kr_committer = ex_universal, kr_last_proposed_block = ex_genesis ! 0, kr_last_included_ancestors = replicate 4 None,
       kr_last_decided_leader = Slot 0 0, kr_leader_schedule = LeaderSchedule_new None ex_context LeaderSwapTable_default,
       kr_commit_observer = \<lparr> ob_sent = [], ob_consumer_alive = True \<rparr>, kr_signals = CoreSignals_new ex_context True,
       kr_block_signer = [], kr_dag_state = ex_dag, kr_acked = [] \<rparr>"

definition ex_clock :: proposal_clock where "ex_clock = \<lparr> pk_delay = 100, pk_now = 100, pk_accept = 100 \<rparr>"

lemma ex_dag_genesis: "dag_lookup ex_dag r = Some b \<Longrightarrow> b \<in> set ex_genesis"
  by (auto simp: ex_dag_lookup block_entries_def split: if_splits dest!: map_of_SomeD)

lemma ex_genesis_mem: "b \<in> set ex_genesis \<Longrightarrow> vb_author b < 4 \<and> vb_round b = 0"
  using ex_genesis_nth by (fastforce simp: in_set_conv_nth)

lemma ex_core_ok: "core_ok ex_core"
proof -
  have "vb_author (ex_genesis ! 0) = 0" "ex_genesis ! 0 \<in> set ex_genesis" using ex_genesis_nth [of 0] by simp_all
  moreover have "ds_context ex_dag = ex_context" by (simp add: ex_dag_def fresh_state_def)
  ultimately show ?thesis
    using ex_genesis_known ex_committee_wf ex_members by (simp add: core_ok_def ex_core_def ex_context_def)
qed

lemma ex_core_parents: "parents_ready ex_core"
proof -
  let ?authors = "{a. \<exists>b. dag_lookup ex_dag (vb_reference b) = Some b \<and> vb_author b = a \<and> vb_round b + 1 = 1}"
  have "i \<in> ?authors" if "i < 4" for i
    using ex_genesis_nth [OF that] ex_genesis_known [of "ex_genesis ! i"] that by auto
  moreover have "?authors \<subseteq> {..<4}" using ex_dag_genesis ex_genesis_mem by fastforce
  ultimately have authors: "?authors = {..<4}" by auto
  have "last_commit_round ex_dag = 0" by (simp add: ex_dag_def fresh_state_def last_commit_round_def)
  moreover have "vb_round (ex_genesis ! 0) = 0" using ex_genesis_nth [of 0] by simp
  moreover have "reached_quorum ex_committee (stake_of ex_committee ?authors)"
    unfolding authors by (simp add: ex_stake_of ex_thresholds)
  ultimately show ?thesis
    using ex_dag_genesis ex_genesis_mem
    by (auto simp: parents_ready_def ex_core_def last_proposed_round_def clock_get_round_def ThresholdClock_new_def ex_context_def
        committee_size_def ex_committee_def)
qed

lemma ex_core_can_propose: "can_propose ex_rand ex_clock ex_core"
proof -
  have "vb_timestamp_ms b \<le> 100" if "dag_lookup ex_dag r = Some b" for r b
    using that genesis_lookup [OF dag_invD(1) [OF ex_dag_inv], of r b]
    by (auto simp: dag_lookup_def ex_dag_def fresh_state_def MemStore_new_def mem_block_def split: if_splits)
  moreover have "universal_committer_build (with_pipeline True (with_number_of_leaders num_leaders_per_round
      (UniversalCommitterBuilder_new ex_context))) = Inr ex_universal"
    using ex_universal_built by (simp add: with_number_of_leaders_def num_leaders_per_round_def UniversalCommitterBuilder_new_def)
  then have "leader_ready ex_rand ex_core"
    using ex_rand_ok by (simp add: leader_ready_def ex_core_def LeaderSchedule_new_def LeaderSwapTable_default_def)
  moreover have "clock_inv ex_committee (ThresholdClock_new 1)" by simp
  ultimately show ?thesis
    using ex_core_ok ex_core_parents
    by (simp add: can_propose_def ex_core_def ex_clock_def BlockManager_new_def clock_get_round_def ThresholdClock_new_def ex_context_def)
qed

theorem forced_proposals_succeed_and_verify_witness:
  "\<exists>b k'. try_new_block ex_crypto ex_rand check_ancestors ex_clock True ex_core = Inr (Some b, k') \<and>
    vb_round b = 1 \<and> verify ex_crypto ex_verifier (vb_signed b) = Inr ()"
proof -
  have "blocks_serialize ex_crypto (kr_block_signer ex_core)"
    by (simp add: blocks_serialize_def SignedBlock_new_def compute_block_signature_def compute_inner_block_digest_def ok_or_def
        to_consensus_block_intent_def ex_crypto_def)
  moreover have "cx_committee (sv_context ex_verifier) = cx_committee (kr_context ex_core)"
    "set (sv_genesis ex_verifier) = fst ` set (ds_genesis (kr_dag_state ex_core))"
    by (auto simp: ex_verifier_def ex_core_def ex_dag_def fresh_state_def block_entries_def image_image)
  ultimately show ?thesis
    using forced_proposals_succeed_and_verify [OF ex_core_can_propose, of ex_crypto ex_verifier]
    by (auto simp: ex_verifier_def NoopTransactionVerifier_def ex_crypto_def ex_core_def clock_get_round_def ThresholdClock_new_def)
qed

end
