(* ===== verification/Core_Thread.thy ===== *)
theory Core_Thread
  imports Validator_Core
begin

text \<open>
  The thread that owns the core and its dispatcher (\<^verbatim>\<open>consensus/core/src/core_thread.rs\<close>). Commands are handled one at a time
  in the order of the channel. The clock readings of a command are part of the environment of its handling.
\<close>

datatype core_thread_command =
    AddBlocks "verified_block list"
  | NewBlock round bool
  | GetMissing

text \<open>What the thread sends back on the channel of a command.\<close>

datatype core_reply = MissingBlocks "block_ref list" | BlockDone

record command_clock =
  cc_now :: timestamp_ms
  cc_proposal :: proposal_clock

definition handle_command ::
  "crypto \<Rightarrow> rand \<Rightarrow> (verified_block \<Rightarrow> verified_block list \<Rightarrow> unit consensus_result res) \<Rightarrow> command_clock
     \<Rightarrow> core_thread_command \<Rightarrow> core_state \<Rightarrow> (core_reply consensus_result \<times> core_state) res" where
  "handle_command cry rand check clk command k =
     (case command of
        AddBlocks blocks \<Rightarrow>
          and_then (add_blocks cry rand check (cc_now clk) (cc_proposal clk) blocks k) (\<lambda>(result, k).
            Inr (and_then result (\<lambda>missing. Inr (MissingBlocks missing)), k))
      | NewBlock rnd force \<Rightarrow>
          and_then (new_block cry rand check (cc_proposal clk) rnd force k) (\<lambda>(result, k).
            Inr (and_then result (\<lambda>_. Inr BlockDone), k))
      | GetMissing \<Rightarrow> Inr (Inr (MissingBlocks (get_missing_blocks k)), k))"

text \<open>
  The loop of the thread over the commands it receives, until the channel is closed: the replies, whether it ended with an
  error, and the state of the core.
\<close>

fun core_thread_run ::
  "crypto \<Rightarrow> rand \<Rightarrow> (verified_block \<Rightarrow> verified_block list \<Rightarrow> unit consensus_result res)
     \<Rightarrow> (command_clock \<times> core_thread_command) list \<Rightarrow> core_state
     \<Rightarrow> (core_reply list \<times> unit consensus_result \<times> core_state) res" where
  "core_thread_run cry rand check [] k = Inr ([], Inr (), k)"
| "core_thread_run cry rand check ((clk, command) # commands) k =
     and_then (handle_command cry rand check clk command k) (\<lambda>(result, k).
       case result of
         Inl e \<Rightarrow> Inr ([], Inl e, k)
       | Inr reply \<Rightarrow>
           and_then (core_thread_run cry rand check commands k) (\<lambda>(replies, ended, k).
             Inr (reply # replies, ended, k)))"

text \<open>
  The dispatcher as its clients see it. The state is that of the thread, or \<open>None\<close> when it has ended: by an error or a panic
  in handling a command, or because its channel was closed. A command that gets no reply is an error of kind \<open>Shutdown\<close>.
\<close>

definition dispatch_command ::
  "crypto \<Rightarrow> rand \<Rightarrow> (verified_block \<Rightarrow> verified_block list \<Rightarrow> unit consensus_result res) \<Rightarrow> command_clock
     \<Rightarrow> core_thread_command \<Rightarrow> core_state option \<Rightarrow> core_reply option \<times> core_state option" where
  "dispatch_command cry rand check clk command thread =
     (case thread of
        None \<Rightarrow> (None, None)
      | Some k \<Rightarrow>
          (case handle_command cry rand check clk command k of
             Inl _ \<Rightarrow> (None, None)
           | Inr (Inl _, _) \<Rightarrow> (None, None)
           | Inr (Inr reply, k) \<Rightarrow> (Some reply, Some k)))"

definition dispatch_add_blocks ::
  "crypto \<Rightarrow> rand \<Rightarrow> (verified_block \<Rightarrow> verified_block list \<Rightarrow> unit consensus_result res) \<Rightarrow> command_clock
     \<Rightarrow> verified_block list \<Rightarrow> core_state option \<Rightarrow> block_ref list option \<times> core_state option" where
  "dispatch_add_blocks cry rand check clk blocks thread =
     (case dispatch_command cry rand check clk (AddBlocks blocks) thread of
        (Some (MissingBlocks missing), thread) \<Rightarrow> (Some missing, thread)
      | (_, thread) \<Rightarrow> (None, thread))"

definition dispatch_new_block ::
  "crypto \<Rightarrow> rand \<Rightarrow> (verified_block \<Rightarrow> verified_block list \<Rightarrow> unit consensus_result res) \<Rightarrow> command_clock
     \<Rightarrow> round \<Rightarrow> bool \<Rightarrow> core_state option \<Rightarrow> bool \<times> core_state option" where
  "dispatch_new_block cry rand check clk rnd force thread =
     (case dispatch_command cry rand check clk (NewBlock rnd force) thread of
        (reply, thread) \<Rightarrow> (reply \<noteq> None, thread))"

definition dispatch_get_missing_blocks ::
  "crypto \<Rightarrow> rand \<Rightarrow> (verified_block \<Rightarrow> verified_block list \<Rightarrow> unit consensus_result res) \<Rightarrow> command_clock
     \<Rightarrow> core_state option \<Rightarrow> block_ref list option \<times> core_state option" where
  "dispatch_get_missing_blocks cry rand check clk thread =
     (case dispatch_command cry rand check clk GetMissing thread of
        (Some (MissingBlocks missing), thread) \<Rightarrow> (Some missing, thread)
      | (_, thread) \<Rightarrow> (None, thread))"

end
