(* ===== verification/Proposal_Safety.thy ===== *)
theory Proposal_Safety
  imports Core_Thread Proposal_Properties
begin

text \<open>
  A validator does not propose two blocks in a round: neither in a run of the core thread, nor after a restart, when the last own
  block of the store takes the place of the last proposed one.
\<close>

section \<open>What the operations of the core do to its proposals\<close>

text \<open>The block the core proposed last, with the blocks it has broadcast.\<close>

abbreviation broadcast_of :: "core_state \<Rightarrow> verified_block list" where
  "broadcast_of k \<equiv> sg_block_broadcast (kr_signals k)"

definition same_proposals :: "core_state \<Rightarrow> core_state \<Rightarrow> bool" where
  "same_proposals k k' \<longleftrightarrow>
     kr_last_proposed_block k' = kr_last_proposed_block k \<and> broadcast_of k' = broadcast_of k \<and> kr_context k' = kr_context k"

lemma same_proposals_refl [simp]: "same_proposals k k"
  by (simp add: same_proposals_def)

lemma same_proposals_trans: "same_proposals k k1 \<Longrightarrow> same_proposals k1 k2 \<Longrightarrow> same_proposals k k2"
  by (simp add: same_proposals_def)

lemma add_accepted_same: "add_accepted_blocks bs k = Inr k' \<Longrightarrow> same_proposals k k'"
  by (drule add_accepted_keep) (auto simp: same_proposals_def)

lemma change_schedule_same: "change_schedule_when_due rand k = Inr (n, k') \<Longrightarrow> same_proposals k k'"
  by (auto simp: change_schedule_when_due_def and_then_eq_Inr same_proposals_def split: if_splits)

lemma commit_step_same:
  assumes "commit_step cry rand (stop, result, k) = Inr (stop', result', k')"
  shows "same_proposals k k'"
proof -
  obtain n k1 where change: "change_schedule_when_due rand k = Inr (n, k1)"
    using assms by (auto simp: commit_step_def and_then_eq_Inr)
  from assms change obtain decided where decided: "try_decide (elect_leader rand (kr_leader_schedule k1)) (kr_committer k1)
      (kr_dag_state k1) (kr_last_decided_leader k1) = Inr decided" "0 < n"
    by (auto simp: commit_step_def and_then_eq_Inr)
  have "same_proposals k1 k'"
  proof (cases "last_opt decided")
    case None
    with assms change decided show ?thesis by (simp add: commit_step_def)
  next
    case (Some l)
    with assms change decided obtain sequenced s where seq: "sequence_leaders n decided l = Inr (sequenced, s)"
      by (cases "sequence_leaders n decided l") (auto simp: commit_step_def)
    show ?thesis
    proof (cases "observer_handle_commit cry (kr_leader_schedule k1) sequenced (kr_commit_observer k1) (kr_dag_state k1)")
      case (Inl e)
      with assms change decided Some seq show ?thesis
        by (auto simp: commit_step_def Let_def same_proposals_def split: if_split_asm)
    next
      case (Inr sent)
      obtain r ob ds where "sent = (r, ob, ds)" by (rule prod_cases3)
      with assms change decided Some seq Inr show ?thesis
        by (cases r) (auto simp: commit_step_def Let_def same_proposals_def split: if_split_asm)
    qed
  qed
  with change_schedule_same [OF change] show ?thesis by (rule same_proposals_trans)
qed

lemma commit_loop_same:
  assumes "while_res (\<lambda>(stop, _, _). \<not> stop) (commit_step cry rand) (False, result, k) = Inr (stop', result', k')"
  shows "same_proposals k k'"
proof -
  let ?P = "\<lambda>(_ :: bool, _ :: committed_sub_dag list consensus_result, k1). same_proposals k k1"
  have "?P (stop', result', k') \<and> \<not> (\<lambda>(stop, _, _). \<not> stop) (stop', result', k')"
    by (rule while_res_invariant [OF assms]) (auto dest: commit_step_same same_proposals_trans)
  then show ?thesis by simp
qed

lemma try_commit_same:
  assumes "try_commit cry rand k = Inr (result, k')"
  shows "same_proposals k k'"
proof (cases "pc_mysticeti_leader_scoring_and_schedule (cx_protocol_config (kr_context k))")
  case True
  with assms show ?thesis by (auto simp: try_commit_def and_then_eq_Inr dest: commit_loop_same)
next
  case False
  with assms obtain decided where decided: "try_decide (elect_leader rand (kr_leader_schedule k)) (kr_committer k)
      (kr_dag_state k) (kr_last_decided_leader k) = Inr decided"
    by (auto simp: try_commit_def and_then_eq_Inr)
  with False assms show ?thesis
    by (cases "last_opt decided") (auto simp: try_commit_def and_then_eq_Inr Let_def same_proposals_def)
qed

lemma try_new_block_None: "try_new_block cry rand check clk force k = Inr (None, k') \<Longrightarrow> k' = k"
  by (auto simp: try_new_block_def Let_def and_then_eq_Inr case_prod_beta split: if_splits)

lemma try_new_block_proposes:
  assumes "try_new_block cry rand check clk force k = Inr (Some b, k')"
  shows "last_proposed_round k < vb_round b" "kr_last_proposed_block k' = b" "broadcast_of k' = broadcast_of k"
    "kr_context k' = kr_context k" "vb_author b = cx_own_index (kr_context k)"
proof -
  from assms obtain as k1 sb bytes mgr ds k2 where
    lp: "last_proposed_round k < clock_get_round (kr_threshold_clock k)"
    and anc: "ancestors_to_propose (clock_get_round (kr_threshold_clock k)) k = Inr (as, k1)"
    and sb: "SignedBlock_new cry (proposal k clk as) (kr_block_signer k) = Inr sb"
    and b: "b = VerifiedBlock_new_verified cry sb bytes"
    and k2: "add_accepted_blocks [b] (k1\<lparr> kr_transaction_consumer := snd (snd (next_transactions (kr_transaction_consumer k))),
        kr_block_manager := mgr, kr_dag_state := ds \<rparr>) = Inr k2"
    and k': "k' = k2\<lparr> kr_dag_state := flush (kr_dag_state k2), kr_last_proposed_block := b,
        kr_acked := kr_acked k2 @ fst (snd (next_transactions (kr_transaction_consumer k))) \<rparr>"
    by (rule try_new_block_Some)
  have "vb_inner b = proposal k clk as"
    using sb by (auto simp: b SignedBlock_new_def and_then_eq_Inr VerifiedBlock_new_verified_def vb_inner_def)
  then have "vb_round b = clock_get_round (kr_threshold_clock k)" "vb_author b = cx_own_index (kr_context k)"
    by (simp_all add: vb_round_def vb_author_def proposal_def block_v1_new_def)
  with lp show "last_proposed_round k < vb_round b" "vb_author b = cx_own_index (kr_context k)" by simp_all
  obtain included where "k1 = k\<lparr> kr_last_included_ancestors := included \<rparr>" using ancestors_keep [OF anc] by blast
  with add_accepted_same [OF k2] k' show "kr_last_proposed_block k' = b" "broadcast_of k' = broadcast_of k"
    "kr_context k' = kr_context k"
    by (simp_all add: same_proposals_def)
qed

section \<open>Runs of the core\<close>

text \<open>
  The invariant of a run that started with the last block \<open>start\<close>: a broadcast block is the last proposed one or of an
  earlier round, and it is \<open>start\<close> or of a later round.
\<close>

definition proposals_ok :: "authority_index \<Rightarrow> verified_block \<Rightarrow> core_state \<Rightarrow> bool" where
  "proposals_ok own start k \<longleftrightarrow>
     cx_own_index (kr_context k) = own \<and> vb_author (kr_last_proposed_block k) = own \<and>
     (kr_last_proposed_block k = start \<or> vb_round start < last_proposed_round k) \<and>
     (\<forall>b \<in> set (broadcast_of k). vb_author b = own \<and>
        (b = kr_last_proposed_block k \<or> vb_round b < last_proposed_round k) \<and> (b = start \<or> vb_round start < vb_round b)) \<and>
     (\<forall>b \<in> set (broadcast_of k). \<forall>c \<in> set (broadcast_of k). vb_round b = vb_round c \<longrightarrow> b = c)"

lemma proposals_same: "proposals_ok own start k \<Longrightarrow> same_proposals k k' \<Longrightarrow> proposals_ok own start k'"
  by (simp add: proposals_ok_def same_proposals_def last_proposed_round_def)

lemma proposals_new:
  assumes ok: "proposals_ok own start k" and run: "try_new_block cry rand check clk force k = Inr (Some b, k')"
  shows "proposals_ok own start k'"
proof -
  note p = try_new_block_proposes [OF run]
  have "vb_round c < vb_round b" if "c \<in> set (broadcast_of k)" for c
    using ok that p(1) by (auto simp: proposals_ok_def last_proposed_round_def)
  with ok p show ?thesis
    by (auto simp: proposals_ok_def last_proposed_round_def)
qed

lemma proposals_signal:
  assumes ok: "proposals_ok own start k" and sig: "signal_new_block (kr_last_proposed_block k) (kr_signals k) = (result, sg)"
  shows "proposals_ok own start (k\<lparr> kr_signals := sg \<rparr>)"
proof -
  have "sg_block_broadcast sg = broadcast_of k \<or> sg_block_broadcast sg = broadcast_of k @ [kr_last_proposed_block k]"
    using sig by (auto simp: signal_new_block_def split: if_splits)
  moreover have "b = kr_last_proposed_block k" if "b \<in> set (broadcast_of k)" "vb_round b = vb_round (kr_last_proposed_block k)" for b
    using ok that unfolding proposals_ok_def last_proposed_round_def by (metis less_irrefl)
  moreover have "kr_last_proposed_block k = start \<or> vb_round start < vb_round (kr_last_proposed_block k)"
    using ok by (simp add: proposals_ok_def last_proposed_round_def)
  ultimately show ?thesis using ok by (auto simp: proposals_ok_def last_proposed_round_def)
qed

lemma try_propose_ok:
  assumes ok: "proposals_ok own start k" and run: "try_propose cry rand check clk force k = Inr (result, k')"
  shows "proposals_ok own start k'"
proof -
  from run obtain proposed k1 where new: "try_new_block cry rand check clk force k = Inr (proposed, k1)"
    by (auto simp: try_propose_def and_then_eq_Inr)
  show ?thesis
  proof (cases proposed)
    case None
    with new run ok show ?thesis by (auto simp: try_propose_def dest!: try_new_block_None)
  next
    case (Some b)
    note k1 = proposals_new [OF ok new [unfolded Some]]
    obtain sent sg where sig: "signal_new_block (kr_last_proposed_block k1) (kr_signals k1) = (sent, sg)" by fastforce
    note signalled = proposals_signal [OF k1 sig]
    have last: "kr_last_proposed_block k1 = b" by (rule try_new_block_proposes(2) [OF new [unfolded Some]])
    show ?thesis
    proof (cases sent)
      case (Inl e)
      with run new Some sig last signalled show ?thesis by (auto simp: try_propose_def)
    next
      case (Inr u)
      with run new Some sig last obtain r where "try_commit cry rand (k1\<lparr> kr_signals := sg \<rparr>) = Inr (r, k')"
        by (auto simp: try_propose_def and_then_eq_Inr)
      with signalled show ?thesis by (blast intro: proposals_same try_commit_same)
    qed
  qed
qed

lemma add_blocks_ok:
  assumes ok: "proposals_ok own start k" and run: "add_blocks cry rand check now clk blocks k = Inr (result, k')"
  shows "proposals_ok own start k'"
proof -
  from run obtain accepted missing mgr ds where
    acc: "try_accept_blocks check now blocks (kr_block_manager k, kr_dag_state k) = Inr ((accepted, missing), (mgr, ds))"
    by (auto simp: add_blocks_def and_then_eq_Inr)
  let ?k = "k\<lparr> kr_block_manager := mgr, kr_dag_state := ds \<rparr>"
  have k: "proposals_ok own start ?k" using ok by (simp add: proposals_ok_def last_proposed_round_def)
  show ?thesis
  proof (cases "accepted = []")
    case True
    with run acc k show ?thesis by (auto simp: add_blocks_def)
  next
    case False
    with run acc obtain k1 committed k2 where k1: "add_accepted_blocks accepted ?k = Inr k1"
      and k2: "try_commit cry rand k1 = Inr (committed, k2)"
      and rest: "(case committed of Inl e \<Rightarrow> Inr (Inl e, k2)
        | Inr _ \<Rightarrow> and_then (try_propose cry rand check clk False k2) (\<lambda>(proposed, k).
            Inr (and_then proposed (\<lambda>_. Inr missing), k))) = Inr (result, k')"
      by (auto simp: add_blocks_def Let_def and_then_eq_Inr)
    have "proposals_ok own start k2"
      using k add_accepted_same [OF k1] try_commit_same [OF k2] by (blast intro: proposals_same)
    with rest show ?thesis by (auto simp: and_then_eq_Inr split: sum.split_asm dest: try_propose_ok)
  qed
qed

lemma handle_command_ok:
  assumes ok: "proposals_ok own start k" and run: "handle_command cry rand check clk command k = Inr (result, k')"
  shows "proposals_ok own start k'"
proof (cases command)
  case (AddBlocks blocks)
  with run show ?thesis by (auto simp: handle_command_def and_then_eq_Inr intro: add_blocks_ok [OF ok])
next
  case (NewBlock rnd force)
  with run ok show ?thesis
    by (auto simp: handle_command_def new_block_def and_then_eq_Inr split: if_splits intro: try_propose_ok [OF ok])
next
  case GetMissing
  with run ok show ?thesis by (simp add: handle_command_def)
qed

section \<open>The start of a run\<close>

lemma last_block_of_authority:
  assumes inv: "dag_inv ds" and a: "a < num_authorities ds" and get: "get_last_block_for_authority ds a = Inr b"
  shows "vb_author b = a" "dag_lookup ds (vb_reference b) = Some b"
    and "mem_block (ds_store ds) r = Some c \<Longrightarrow> br_author r = a \<Longrightarrow> br_round r \<le> vb_round b"
proof -
  have len: "length (ds_recent_refs ds) = num_authorities ds" using inv by (simp add: dag_inv_def cache_wf_def)
  note refs = cache_refs [OF dag_invD(2) [OF inv] a]
  have facts: "vb_author b = a \<and> dag_lookup ds (vb_reference b) = Some b \<and>
    (mem_block (ds_store ds) r = Some c \<longrightarrow> br_author r = a \<longrightarrow> br_round r \<le> vb_round b)"
  proof (cases "ds_recent_refs ds ! a = []")
    case True
    with get a len obtain r' where "(r', b) \<in> set (ds_genesis ds)" "br_author r' = a"
      by (auto simp: get_last_block_for_authority_def last_opt_def and_then_eq_Inr find_Some_iff) (metis nth_mem)
    moreover have "map_of (ds_genesis ds) r' = Some b" by (rule genesis_map_of [OF dag_invD(1) [OF inv] calculation(1)])
    moreover note genesis_lookup [OF dag_invD(1) [OF inv] this]
    moreover have "br_round r > 0 \<Longrightarrow> mem_block (ds_store ds) r = Some c \<Longrightarrow> br_author r = a \<Longrightarrow> False"
      using uncached_below_last(1) [OF inv, of r] True refs(1) by (cases "map_of (ds_recent_blocks ds) r") auto
    ultimately show ?thesis by (auto simp: dag_lookup_def genesis_round_def simp flip: vb_reference_sel(1,2))
  next
    case False
    let ?r = "last (ds_recent_refs ds ! a)"
    have b: "map_of (ds_recent_blocks ds) ?r = Some b" and mem: "?r \<in> set (ds_recent_refs ds ! a)"
      using get a len False by (auto simp: get_last_block_for_authority_def last_opt_def)
    have ref: "vb_reference b = ?r" "0 < br_round ?r" "br_author ?r = a"
      using cache_lookup [OF dag_invD(2) [OF inv] b] refs(1) mem by auto
    have "br_round r \<le> br_round ?r" if r: "mem_block (ds_store ds) r = Some c" "br_author r = a"
    proof (cases "map_of (ds_recent_blocks ds) r")
      case None
      with uncached_below_last(2) [OF inv, of r] r show ?thesis by simp
    next
      case (Some d)
      with r(2) refs have "r \<le> ?r" by (intro bs_wf_last_max) auto
      then show ?thesis by (auto simp: block_ref_less_eq)
    qed
    moreover have "vb_round b = br_round ?r" "vb_author b = a" using ref by (metis vb_reference_sel)+
    moreover have "dag_lookup ds (vb_reference b) = Some b"
      using b ref(1,2) by (simp add: dag_lookup_def genesis_round_def)
    ultimately show ?thesis by simp
  qed
  then show "vb_author b = a" "dag_lookup ds (vb_reference b) = Some b"
    "mem_block (ds_store ds) r = Some c \<Longrightarrow> br_author r = a \<Longrightarrow> br_round r \<le> vb_round b" by blast+
qed

lemma unwrap_result_Inr: "unwrap_result m = Inr (x, k) \<longleftrightarrow> m = Inr (Inr x, k)"
proof (cases m)
  case (Inr res)
  then show ?thesis by (cases res; cases "fst res") (auto simp: unwrap_result_def)
qed (simp add: unwrap_result_def)

lemma recover_ok:
  assumes ok: "proposals_ok own start k" and run: "recover cry rand check clk k = Inr k'"
  shows "proposals_ok own start k'"
proof -
  from run obtain quorum k1 committed k2 proposed k3 where
    k1: "add_accepted_blocks quorum k = Inr k1" and k2: "try_commit cry rand k1 = Inr (Inr committed, k2)"
    and k3: "try_propose cry rand check clk True k2 = Inr (Inr proposed, k3)"
    and rest: "(case proposed of Some _ \<Rightarrow> Inr k3
      | None \<Rightarrow> and_then (assert_that (last_proposed_round k3 > genesis_round) (CorePanic NoBlockProposedInRecovery)) (\<lambda>_.
           case signal_new_block (kr_last_proposed_block k3) (kr_signals k3) of
             (Inl _, _) \<Rightarrow> Inl (CorePanic RecoveryFailed)
           | (Inr _, signals) \<Rightarrow> Inr (k3\<lparr> kr_signals := signals \<rparr>))) = Inr k'"
    by (auto simp: recover_def and_then_eq_Inr unwrap_result_Inr)
  have "proposals_ok own start k2"
    using ok add_accepted_same [OF k1] try_commit_same [OF k2] by (blast intro: proposals_same)
  then have ok3: "proposals_ok own start k3" by (rule try_propose_ok [OF _ k3])
  show ?thesis
  proof (cases proposed)
    case None
    obtain sent sg where sig: "signal_new_block (kr_last_proposed_block k3) (kr_signals k3) = (sent, sg)" by fastforce
    with rest None have "k' = k3\<lparr> kr_signals := sg \<rparr>" by (cases sent) (auto simp: and_then_eq_Inr)
    with proposals_signal [OF ok3 sig] show ?thesis by simp
  qed (use rest ok3 in simp)
qed

lemma Core_new_ok:
  assumes run: "Core_new cry rand check clk cx ls consumer manager observer signals signer ds = Inr k"
    and "dag_inv ds" "ds_context ds = cx" "cx_own_index cx \<in> members (cx_committee cx)" "sg_block_broadcast signals = []"
  shows "\<exists>start. get_last_block_for_authority ds (cx_own_index cx) = Inr start \<and> proposals_ok (cx_own_index cx) start k"
proof -
  from run obtain start included committer last_decided where start: "get_last_block_for_authority ds (cx_own_index cx) = Inr start"
    and rec: "recover cry rand check clk
         \<lparr> kr_context = cx, kr_threshold_clock = ThresholdClock_new 0, kr_transaction_consumer = consumer,
           kr_block_manager = manager, kr_committer = committer, kr_last_proposed_block = start,
           kr_last_included_ancestors = included, kr_last_decided_leader = last_decided, kr_leader_schedule = ls,
           kr_commit_observer = observer, kr_signals = signals, kr_block_signer = signer, kr_dag_state = ds,
           kr_acked = [] \<rparr> = Inr k"
    by (auto simp: Core_new_def and_then_eq_Inr)
  have "vb_author start = cx_own_index cx"
    using last_block_of_authority(1) [OF assms(2) _ start] assms(3,4) by (simp add: members_eq)
  then have "proposals_ok (cx_own_index cx) start k"
    using assms(5) by (intro recover_ok [OF _ rec]) (simp add: proposals_ok_def)
  with start show ?thesis by blast
qed

text \<open>The states that the core thread reaches from one that \<open>Core::new\<close> made.\<close>

inductive core_reachable ::
  "crypto \<Rightarrow> rand \<Rightarrow> (verified_block \<Rightarrow> verified_block list \<Rightarrow> unit consensus_result res) \<Rightarrow> core_state \<Rightarrow> core_state \<Rightarrow> bool"
  for cry rand check k0 where
  started: "core_reachable cry rand check k0 k0"
| handled: "core_reachable cry rand check k0 k \<Longrightarrow> handle_command cry rand check clk command k = Inr (result, k') \<Longrightarrow>
    core_reachable cry rand check k0 k'"

lemma reachable_ok:
  assumes "core_reachable cry rand check k0 k" "proposals_ok own start k0"
  shows "proposals_ok own start k"
  using assms by induction (auto intro: handle_command_ok)

end
