(* ===== verification/Subscriber.thy ===== *)
theory Subscriber
  imports Authority_Service
begin

text \<open>
  Subscriptions to the block streams of peers (\<^verbatim>\<open>consensus/core/src/subscriber.rs\<close>). The delay between attempts is kept as the number
  of times it was multiplied since it was last set to its initial value. \<open>handle\<close> is \<open>handle_send_block\<close> of the authority service,
  whose result the loop only logs.
\<close>

text \<open>A running task is represented by the round it subscribed from.\<close>

record subscriber =
  sb_context :: epoch_context
  sb_subscriptions :: "round option list"

definition Subscriber_new :: "epoch_context \<Rightarrow> subscriber" where
  "Subscriber_new cx =
     \<lparr> sb_context = cx, sb_subscriptions = replicate (committee_size (cx_committee cx)) None \<rparr>"

definition unsubscribe_locked :: "authority_index \<Rightarrow> subscriber \<Rightarrow> subscriber res" where
  "unsubscribe_locked peer sb =
     and_then (vec_set (sb_subscriptions sb) peer None) (\<lambda>subscriptions.
     and_then (committee_authority (cx_committee (sb_context sb)) peer) (\<lambda>_.
       Inr (sb\<lparr> sb_subscriptions := subscriptions \<rparr>)))"

definition subscribe :: "dag_state \<Rightarrow> authority_index \<Rightarrow> subscriber \<Rightarrow> subscriber res" where
  "subscribe ds peer sb =
     (if peer = cx_own_index (sb_context sb) then Inr sb
      else and_then (get_last_block_for_authority ds peer) (\<lambda>last_block.
        and_then (unsubscribe_locked peer sb) (\<lambda>sb.
        and_then (vec_set (sb_subscriptions sb) peer (Some (vb_round last_block))) (\<lambda>subscriptions.
          Inr (sb\<lparr> sb_subscriptions := subscriptions \<rparr>)))))"

definition stop_subscriber :: "subscriber \<Rightarrow> subscriber res" where
  "stop_subscriber sb =
     for_each (\<lambda>(peer, _). unsubscribe_locked peer) (committee_authorities (cx_committee (sb_context sb))) sb"

section \<open>The loop of a subscription\<close>

definition immediate_retries :: nat where "immediate_retries = 3"

record subscription_loop =
  sl_retries :: nat
  sl_delay :: nat

definition subscription_start :: subscription_loop where
  "subscription_start = \<lparr> sl_retries = 0, sl_delay = 0 \<rparr>"

datatype retry_wait = NoWait | YieldNow | SleepFor nat

definition before_attempt :: "subscription_loop \<Rightarrow> retry_wait \<times> subscription_loop" where
  "before_attempt sl =
     (let (wait, sl) =
        (if sl_retries sl > immediate_retries then (SleepFor (sl_delay sl), sl\<lparr> sl_delay := sl_delay sl + 1 \<rparr>)
         else if sl_retries sl > 0 then (YieldNow, sl)
         else (NoWait, sl\<lparr> sl_delay := 0 \<rparr>))
      in (wait, sl\<lparr> sl_retries := sl_retries sl + 1 \<rparr>))"

text \<open>The blocks that a stream yields before it ends.\<close>

fun read_stream ::
  "(byte list \<Rightarrow> 's \<Rightarrow> 's) \<Rightarrow> byte list list \<Rightarrow> subscription_loop \<Rightarrow> 's \<Rightarrow> subscription_loop \<times> 's" where
  "read_stream handle [] sl s = (sl\<lparr> sl_retries := sl_retries sl + 1 \<rparr>, s)"
| "read_stream handle (bytes # blocks) sl s =
     read_stream handle blocks (sl\<lparr> sl_retries := 0 \<rparr>) (handle bytes s)"

text \<open>One iteration of the loop: \<open>None\<close> is a failure to subscribe.\<close>

definition subscription_attempt ::
  "(byte list \<Rightarrow> 's \<Rightarrow> 's) \<Rightarrow> byte list list option \<Rightarrow> subscription_loop \<Rightarrow> 's \<Rightarrow> retry_wait \<times> subscription_loop \<times> 's" where
  "subscription_attempt handle answer sl s =
     (let (wait, sl) = before_attempt sl in
      case answer of
        None \<Rightarrow> (wait, sl, s)
      | Some blocks \<Rightarrow> (wait, read_stream handle blocks sl s))"

fun subscription_run ::
  "(byte list \<Rightarrow> 's \<Rightarrow> 's) \<Rightarrow> byte list list option list \<Rightarrow> subscription_loop \<Rightarrow> 's \<Rightarrow> retry_wait list \<times> subscription_loop \<times> 's" where
  "subscription_run handle [] sl s = ([], sl, s)"
| "subscription_run handle (answer # answers) sl s =
     (let (wait, sl, s) = subscription_attempt handle answer sl s;
          (waits, sl, s) = subscription_run handle answers sl s
      in (wait # waits, sl, s))"

text \<open>
  Retries are positive after every attempt, so the branch that resets the delay is taken by the first attempt only: the
  delay after a long connection goes on from where it was.
\<close>

lemma read_stream_retries: "0 < sl_retries (fst (read_stream handle blocks sl s))"
  by (induction blocks arbitrary: sl s) simp_all

lemma read_stream_delay: "sl_delay (fst (read_stream handle blocks sl s)) = sl_delay sl"
  by (induction blocks arbitrary: sl s) simp_all

lemma read_stream_handles: "snd (read_stream handle blocks sl s) = fold handle blocks s"
  by (induction blocks arbitrary: sl s) simp_all

lemma attempt_retries: "0 < sl_retries (fst (snd (subscription_attempt handle answer sl s)))"
  using read_stream_retries [of handle] by (auto simp: subscription_attempt_def before_attempt_def Let_def split: option.splits)

lemma attempt_delay:
  assumes "0 < sl_retries sl" "subscription_attempt handle answer sl s = (wait, sl', s')"
  shows "sl_delay sl' = sl_delay sl + (case wait of SleepFor _ \<Rightarrow> 1 | _ \<Rightarrow> 0)"
  using assms read_stream_delay [of handle]
  by (auto simp: subscription_attempt_def before_attempt_def Let_def prod_eq_iff split: option.splits if_splits)

lemma delay_is_never_reset:
  assumes "0 < sl_retries sl" "subscription_run handle answers sl s = (waits, sl', s')"
  shows "sl_delay sl' = sl_delay sl + length (filter (\<lambda>w. \<exists>d. w = SleepFor d) waits)"
  using assms
proof (induction answers arbitrary: sl s waits)
  case (Cons answer answers)
  obtain wait sl1 s1 where a: "subscription_attempt handle answer sl s = (wait, sl1, s1)" by (metis prod_cases3)
  obtain ws where r: "subscription_run handle answers sl1 s1 = (ws, sl', s')" "waits = wait # ws"
    using Cons.prems(2) a by (auto split: prod.splits)
  from attempt_retries [of handle answer sl s] a have "0 < sl_retries sl1" by simp
  from Cons.IH [OF this r(1)] attempt_delay [OF Cons.prems(1) a] r(2) show ?case
    by (auto split: retry_wait.splits)
qed simp

end
