(* ===== verification/Broadcaster.thy ===== *)
theory Broadcaster
  imports Authority_Service
begin

text \<open>
  Sending of own blocks to each peer (\<^verbatim>\<open>consensus/core/src/broadcaster.rs\<close>). The branches of the loop are events. The timeout
  of a request follows an estimate of the round-trip time, which is not part of the state: a timeout is an event of its own.
\<close>

definition broadcast_concurrency :: nat where "broadcast_concurrency = 10"

record push_blocks =
  pb_last_block :: "verified_block option"
  pb_requests :: "verified_block list"

text \<open>The peers for which a task is spawned, and the state of a task at its start.\<close>

definition Broadcaster_new :: "epoch_context \<Rightarrow> (authority_index \<times> push_blocks) list" where
  "Broadcaster_new cx =
     map (\<lambda>(index, _). (index, \<lparr> pb_last_block = None, pb_requests = [] \<rparr>))
       (filter (\<lambda>(index, _). index \<noteq> cx_own_index cx) (committee_authorities (cx_committee cx)))"

datatype send_response = SendOk | SendError | SendTimedOut

datatype push_event = Recv recv_result | Response nat send_response | RetryTick

fun push_enabled :: "push_event \<Rightarrow> push_blocks \<Rightarrow> bool" where
  "push_enabled (Recv _) pb \<longleftrightarrow> length (pb_requests pb) < broadcast_concurrency"
| "push_enabled (Response i _) pb \<longleftrightarrow> i < length (pb_requests pb)"
| "push_enabled RetryTick pb \<longleftrightarrow> True"

definition remember_last :: "verified_block \<Rightarrow> verified_block option \<Rightarrow> verified_block option" where
  "remember_last b last_block =
     (case last_block of
        None \<Rightarrow> Some b
      | Some l \<Rightarrow> if vb_round l < vb_round b then Some b else last_block)"

text \<open>One iteration of the loop. The task has ended when the result is \<open>None\<close>.\<close>

fun push_step :: "push_event \<Rightarrow> push_blocks \<Rightarrow> push_blocks option" where
  "push_step (Recv (Received b)) pb =
     Some (pb\<lparr> pb_requests := pb_requests pb @ [b], pb_last_block := remember_last b (pb_last_block pb) \<rparr>)"
| "push_step (Recv Closed) pb = None"
| "push_step (Recv (Lagged n)) pb = Some pb"
| "push_step (Response i resp) pb =
     (let block = pb_requests pb ! i;
          rest = take i (pb_requests pb) @ drop (Suc i) (pb_requests pb) in
      Some (pb\<lparr> pb_requests := (case resp of SendOk \<Rightarrow> rest | SendError \<Rightarrow> rest @ [block] | SendTimedOut \<Rightarrow> rest @ [block]) \<rparr>))"
| "push_step RetryTick pb =
     Some (if pb_requests pb = []
           then (case pb_last_block pb of None \<Rightarrow> pb | Some b \<Rightarrow> pb\<lparr> pb_requests := [b] \<rparr>)
           else pb)"

text \<open>The loop on a sequence of events; \<open>acked\<close> are the blocks that the peer has acknowledged.\<close>

fun push_run :: "push_event list \<Rightarrow> push_blocks \<Rightarrow> verified_block list \<Rightarrow> push_blocks option \<times> verified_block list" where
  "push_run [] pb acked = (Some pb, acked)"
| "push_run (e # events) pb acked =
     (if \<not> push_enabled e pb then push_run events pb acked
      else
        let acked = (case e of Response i SendOk \<Rightarrow> acked @ [pb_requests pb ! i] | _ \<Rightarrow> acked) in
        case push_step e pb of
          None \<Rightarrow> (None, acked)
        | Some pb \<Rightarrow> push_run events pb acked)"

section \<open>Blocks are sent until they are acknowledged\<close>

lemma set_without_nth: "i < length xs \<Longrightarrow> set xs = insert (xs ! i) (set (take i xs @ drop (Suc i) xs))"
  by (subst id_take_nth_drop [of i xs]) auto

lemma push_step_keeps:
  assumes "push_enabled e pb" "push_step e pb = Some pb'"
    and "b \<in> set (pb_requests pb)" "\<not> (\<exists>i. e = Response i SendOk \<and> pb_requests pb ! i = b)"
  shows "b \<in> set (pb_requests pb')"
proof (cases e)
  case (Recv r)
  with assms show ?thesis by (cases r) auto
next
  case (Response i resp)
  have "b \<in> insert (pb_requests pb ! i) (set (take i (pb_requests pb) @ drop (Suc i) (pb_requests pb)))"
    using assms(1,3) Response set_without_nth by fastforce
  with assms Response show ?thesis by (cases resp) (auto simp: Let_def)
next
  case RetryTick
  with assms show ?thesis by auto
qed

lemma push_run_acked: "push_run events pb acked = (pb', acked') \<Longrightarrow> set acked \<subseteq> set acked'"
proof (induction events arbitrary: pb acked)
  case (Cons e events)
  then show ?case
    by (fastforce simp: Let_def split: if_splits option.splits push_event.splits send_response.splits)
qed simp

lemma requested_stays:
  assumes "push_run events pb acked = (Some pb', acked')" "b \<in> set (pb_requests pb) \<union> set acked"
  shows "b \<in> set (pb_requests pb') \<union> set acked'"
  using assms
proof (induction events arbitrary: pb acked)
  case (Cons e events)
  show ?case
  proof (cases "push_enabled e pb")
    case True
    let ?acked = "case e of Response i SendOk \<Rightarrow> acked @ [pb_requests pb ! i] | _ \<Rightarrow> acked"
    from Cons.prems(1) True obtain pb1 where
      st: "push_step e pb = Some pb1" and run: "push_run events pb1 ?acked = (Some pb', acked')"
      by (auto simp: Let_def split: option.splits)
    have "b \<in> set (pb_requests pb1) \<union> set ?acked"
    proof (cases "b \<in> set (pb_requests pb) \<and> \<not> (\<exists>i. e = Response i SendOk \<and> pb_requests pb ! i = b)")
      case True
      with push_step_keeps [OF \<open>push_enabled e pb\<close> st] show ?thesis by blast
    next
      case False
      with Cons.prems(2) show ?thesis by (auto split: push_event.splits send_response.splits)
    qed
    from Cons.IH [OF run this] show ?thesis .
  qed (use Cons in auto)
qed simp

text \<open>A block that the task has received is being sent, or the peer has acknowledged it.\<close>

lemma received_blocks_are_sent:
  assumes "push_run (Recv (Received b) # events) pb acked = (Some pb', acked')"
    and "length (pb_requests pb) < broadcast_concurrency"
  shows "b \<in> set (pb_requests pb') \<union> set acked'"
  using requested_stays [of events "pb\<lparr> pb_requests := pb_requests pb @ [b], pb_last_block := remember_last b (pb_last_block pb) \<rparr>" acked pb' acked' b]
    assms by simp

lemma in_flight_bounded:
  assumes "push_run events pb acked = (Some pb', acked')" "length (pb_requests pb) \<le> broadcast_concurrency"
  shows "length (pb_requests pb') \<le> broadcast_concurrency"
  using assms
proof (induction events arbitrary: pb acked)
  case (Cons e events)
  have "push_step e pb = Some pb1 \<Longrightarrow> push_enabled e pb \<Longrightarrow> length (pb_requests pb1) \<le> broadcast_concurrency" for pb1
    using Cons.prems(2)
    by (cases "(e, pb)" rule: push_step.cases)
      (auto simp: Let_def broadcast_concurrency_def split: send_response.splits option.splits if_splits)
  with Cons show ?case by (auto simp: Let_def split: if_splits option.splits)
qed simp

end
