(* ===== verification/Authority_Node.thy ===== *)
theory Authority_Node
  imports Core_Thread Subscriber Broadcaster Leader_Timeout
begin

text \<open>
  The start of a validator (\<^verbatim>\<open>consensus/core/src/authority_node.rs\<close>): the components are made in the order of the source and share
  one context, one store and one DAG. The network is outside of the model; \<open>streaming\<close> tells whether its client supports streams.
\<close>

record authority_node =
  an_context :: epoch_context
  an_transaction_client :: transaction_client
  an_core :: core_state
  an_leader_timeout :: leader_timeout_task
  an_commit_syncer :: commit_sync
  an_broadcaster :: "(authority_index \<times> push_blocks) list option"
  an_service :: authority_service
  an_subscriber :: "subscriber option"

definition subscribe_to_peers :: "dag_state \<Rightarrow> subscriber \<Rightarrow> subscriber res" where
  "subscribe_to_peers ds sb =
     for_each (subscribe ds)
       (filter (\<lambda>peer. peer \<noteq> cx_own_index (sb_context sb))
         (map fst (committee_authorities (cx_committee (sb_context sb))))) sb"

definition AuthorityNode_start ::
  "crypto \<Rightarrow> rand \<Rightarrow> string option \<Rightarrow> timestamp_ms \<Rightarrow> proposal_clock \<Rightarrow> bool \<Rightarrow> epoch_context \<Rightarrow> byte list
     \<Rightarrow> transaction_verifier \<Rightarrow> commit_index \<times> bool \<Rightarrow> mem_store \<Rightarrow> authority_node res" where
  "AuthorityNode_start cry rand env now clk streaming cx protocol_keypair transaction_verifier commit_consumer store =
     and_then (assert_that (is_valid_index (cx_committee cx) (cx_own_index cx)) (CorePanic InvalidOwnIndex)) (\<lambda>_.
     let (tx_client, tx_receiver) = TransactionClient_new cx;
         tx_consumer = TransactionConsumer_new tx_receiver cx None;
         core_signals = CoreSignals_new cx True;
         broadcaster = (if streaming then None else Some (Broadcaster_new cx)) in
     and_then (DagState_new cry cx store) (\<lambda>ds.
     and_then (SignedBlockVerifier_new cry cx transaction_verifier) (\<lambda>verifier.
     and_then
       (if pc_mysticeti_leader_scoring_and_schedule (cx_protocol_config cx)
        then LeaderSchedule_from_store rand env cx ds
        else Inr (LeaderSchedule_new env cx LeaderSwapTable_default)) (\<lambda>leader_schedule.
     and_then (CommitObserver_new store leader_schedule (fst commit_consumer) (snd commit_consumer)) (\<lambda>commit_observer.
     and_then (Core_new cry rand check_ancestors clk cx leader_schedule tx_consumer BlockManager_new commit_observer core_signals
                 protocol_keypair ds) (\<lambda>core.
     let service = \<lparr> as_context = cx, as_commit_vote_monitor = CommitVoteMonitor_new cx, as_block_verifier = verifier,
                     as_synchronizer = Synchronizer_start cx \<rparr> in
     and_then
       (if streaming
        then and_then (subscribe_to_peers (kr_dag_state core) (Subscriber_new cx)) (\<lambda>sb. Inr (Some sb))
        else Inr None) (\<lambda>subscriber.
       Inr \<lparr> an_context = cx, an_transaction_client = tx_client, an_core = core,
             an_leader_timeout = LeaderTimeoutTask_start cx now (sg_new_round (kr_signals core)),
             an_commit_syncer = commit_sync_start (kr_dag_state core), an_broadcaster = broadcaster,
             an_service = service, an_subscriber = subscriber \<rparr>)))))))"

end
