(* ===== verification/Validator_Start.thy ===== *)
theory Validator_Start
  imports Proposal_Progress Proposal_Safety Authority_Node
begin

text \<open>
  A validator that starts on an empty store: the parts are made without a panic, nothing is committed, and the recovery
  of the core proposes the first block. The runs of the core are shown not to be empty by this start.
\<close>

section \<open>Nothing is decided in the first rounds\<close>

lemma round_slots_first_total:
  "\<forall>c \<in> set cs. bo_leader_offset (bc_options c) = 0 \<Longrightarrow> \<exists>a. schedule rnd 0 = Inr a \<Longrightarrow>
     \<exists>p. round_slots schedule last_decided rnd cs = Inr p"
proof (induction cs)
  case (Cons c cs)
  then obtain stop xs where p: "round_slots schedule last_decided rnd cs = Inr (stop, xs)" by fastforce
  have "\<exists>elected. committer_elect_leader schedule c rnd = Inr elected"
    using Cons.prems by (auto simp: committer_elect_leader_def)
  then obtain elected where "committer_elect_leader schedule c rnd = Inr elected" ..
  with p show ?case by (cases elected) auto
qed auto

lemma nothing_decided_early:
  assumes ok: "dag_ok cm ds" and lc: "last_commit_round ds = 0" and h: "ds_highest_accepted_round ds \<le> 2"
    and uc: "committers_ok cm uc" "\<forall>c \<in> set (uc_committers uc). bo_leader_offset (bc_options c) = 0"
    and schedule: "\<exists>a. schedule 0 0 = Inr a" and last: "slot_round last_decided = 0"
  shows "try_decide schedule uc ds last_decided = Inr []"
proof -
  obtain stop xs where xs: "round_slots schedule last_decided 0 (rev (uc_committers uc)) = Inr (stop, xs)"
    using round_slots_first_total [of "rev (uc_committers uc)"] uc(2) schedule by fastforce
  have slots: "\<forall>(c, s) \<in> set xs. cx_committee (bc_context c) = cm \<and> slot_round s = genesis_round"
    using round_slots_elected [OF xs] elected_round(1) uc(1) by (fastforce simp: committers_ok_def genesis_round_def)
  obtain res where res: "decide_slots ds xs [] = Inr res"
    using genesis_slots_total [OF ok lc slots, of "[]"] by (auto simp: leaders_ok_def)
  have "decided_prefix res = []"
    using decide_slots_genesis [OF res dag_invD(2) [OF dag_okD(3) [OF ok]]] slots by fastforce
  moreover have "rev [slot_round last_decided..<ds_highest_accepted_round ds - 2 + 1] = [0]" using h last by simp
  ultimately show ?thesis
    using decide_committers_of_slots [OF xs res] unfolding try_decide_def by (simp del: upt_Suc)
qed

text \<open>The committer that the core makes.\<close>

abbreviation core_builder :: "epoch_context \<Rightarrow> universal_committer_builder" where
  "core_builder cx \<equiv> with_pipeline True (with_number_of_leaders num_leaders_per_round (UniversalCommitterBuilder_new cx))"

lemma core_committer:
  "\<exists>uc. universal_committer_build (core_builder cx) = Inr uc \<and> committers_ok (cx_committee cx) uc \<and>
     (\<forall>c \<in> set (uc_committers uc). bo_leader_offset (bc_options c) = 0)"
  by (simp add: universal_committer_build_def with_pipeline_def with_number_of_leaders_def UniversalCommitterBuilder_new_def
      num_leaders_per_round_def default_wave_length_def minimum_wave_length_def BaseCommitter_new_def committers_ok_def
      options_wf_def eval_nat_numeral Let_def)

text \<open>A commit that decides nothing leaves the core as it is.\<close>

lemma try_commit_idle:
  assumes "try_decide (elect_leader rand (kr_leader_schedule k)) (kr_committer k) (kr_dag_state k) (kr_last_decided_leader k) = Inr []"
    and "unscored_committed_subdags_count (kr_dag_state k) < le_num_commits_per_schedule (kr_leader_schedule k)"
  shows "try_commit cry rand k = Inr (Inr [], k)"
proof (cases "pc_mysticeti_leader_scoring_and_schedule (cx_protocol_config (kr_context k))")
  case True
  have "commit_step cry rand (False, Inr [], k) = Inr (True, Inr [], k)"
    using assms by (simp add: commit_step_def change_schedule_when_due_def commits_until_leader_schedule_update_def last_opt_def)
  then have "while_res (\<lambda>(stop, _, _). \<not> stop) (commit_step cry rand) (False, Inr [], k) = Inr (True, Inr [], k)"
    by (simp add: while_res_unfold [of _ _ "(False, Inr [], k)"] while_res_unfold [of _ _ "(True, Inr [], k)"])
  with True show ?thesis by (simp add: try_commit_def)
next
  case False
  have "observer_handle_commit cry (kr_leader_schedule k) [] (kr_commit_observer k) (kr_dag_state k) =
      Inr (Inr [], kr_commit_observer k, kr_dag_state k)"
    by (simp add: observer_handle_commit_def linearizer_handle_commit_def)
  with False assms(1) show ?thesis by (simp add: try_commit_def last_opt_def map_filter_simps)
qed

section \<open>The core before its first proposal\<close>

text \<open>What a validator needs to start: a committee that it belongs to, and genesis blocks that can be serialized.\<close>

definition can_start :: "crypto \<Rightarrow> rand \<Rightarrow> epoch_context \<Rightarrow> verified_block list \<Rightarrow> bool" where
  "can_start cry rand cx gs \<longleftrightarrow>
     genesis_blocks cry cx = Inr gs \<and> committee_wf (cx_committee cx) \<and> cx_own_index cx \<in> members (cx_committee cx) \<and>
     0 < pa_dag_state_cached_rounds (cx_parameters cx) \<and> rand_ok rand"

lemma fresh_sel [simp]:
  "ds_context (fresh_state cx gs) = cx" "ds_genesis (fresh_state cx gs) = block_entries gs"
  "ds_highest_accepted_round (fresh_state cx gs) = 0" "last_commit_round (fresh_state cx gs) = 0"
  "unscored_committed_subdags_count (fresh_state cx gs) = 0" "ds_store (fresh_state cx gs) = MemStore_new"
  "ds_blocks_to_write (fresh_state cx gs) = []"
  by (simp_all add: fresh_state_def last_commit_round_def unscored_committed_subdags_count_def)

lemma can_startD:
  assumes "can_start cry rand cx gs"
  shows "dag_ok (cx_committee cx) (fresh_state cx gs)" and "length gs = committee_size (cx_committee cx)"
    and "\<And>b. b \<in> set gs \<Longrightarrow> vb_round b = 0 \<and> vb_author b < committee_size (cx_committee cx) \<and> vb_ancestors b = [] \<and> vb_timestamp_ms b = 0"
    and "vb_author ` set gs = members (cx_committee cx)"
    and "\<And>b. b \<in> set gs \<Longrightarrow> dag_lookup (fresh_state cx gs) (vb_reference b) = Some b"
    and "\<And>r b. dag_lookup (fresh_state cx gs) r = Some b \<Longrightarrow> b \<in> set gs"
proof -
  have gs: "genesis_blocks cry cx = Inr gs" and wf: "committee_wf (cx_committee cx)" using assms by (simp_all add: can_start_def)
  have ne: "cm_authorities (cx_committee cx) \<noteq> []" using wf by (auto simp: committee_wf_def)
  show ok: "dag_ok (cx_committee cx) (fresh_state cx gs)"
    using fresh_state_inv [OF gs ne] fresh_state_causal [OF gs] assms by (simp add: dag_ok_def can_start_def)
  note spec = genesis_blocks_spec [OF gs]
  show "length gs = committee_size (cx_committee cx)" by (rule spec(1))
  show mem: "\<And>b. b \<in> set gs \<Longrightarrow> vb_round b = 0 \<and> vb_author b < committee_size (cx_committee cx) \<and> vb_ancestors b = [] \<and> vb_timestamp_ms b = 0"
    using spec by (auto simp: in_set_conv_nth)
  show "vb_author ` set gs = members (cx_committee cx)"
  proof
    show "members (cx_committee cx) \<subseteq> vb_author ` set gs"
    proof
      fix a assume "a \<in> members (cx_committee cx)"
      then have "a < length gs" by (simp add: members_eq spec(1))
      with spec(2) [OF this] show "a \<in> vb_author ` set gs" by (intro image_eqI [of _ _ "gs ! a"]) simp_all
    qed
  qed (use mem in \<open>auto simp: members_eq\<close>)
  show "\<And>b. b \<in> set gs \<Longrightarrow> dag_lookup (fresh_state cx gs) (vb_reference b) = Some b"
  proof -
    fix b assume b: "b \<in> set gs"
    have "map_of (ds_genesis (fresh_state cx gs)) (vb_reference b) = Some b"
      using b by (intro genesis_map_of [OF dag_invD(1) [OF dag_okD(3) [OF ok]]]) (auto simp: block_entries_def)
    with mem [OF b] show "dag_lookup (fresh_state cx gs) (vb_reference b) = Some b" by (simp add: fresh_state_lookup)
  qed
  show "\<And>r b. dag_lookup (fresh_state cx gs) r = Some b \<Longrightarrow> b \<in> set gs"
    by (auto simp: fresh_state_lookup block_entries_def split: if_splits dest!: map_of_SomeD)
qed

lemma members_quorum: "committee_wf cm \<Longrightarrow> reached_quorum cm (stake_of cm (members cm))"
  using stake_of_members [of cm] by (auto simp: reached_quorum_def committee_wf_def)

text \<open>The state of the core once the genesis blocks are accepted.\<close>

definition first_core :: "epoch_context \<Rightarrow> verified_block list \<Rightarrow> core_state \<Rightarrow> bool" where
  "first_core cx gs k \<longleftrightarrow>
     kr_context k = cx \<and> kr_dag_state k = fresh_state cx gs \<and>
     kr_last_proposed_block k \<in> set gs \<and> vb_author (kr_last_proposed_block k) = cx_own_index cx \<and>
     kr_last_included_ancestors k = replicate (committee_size (cx_committee cx)) None \<and>
     slot_round (kr_last_decided_leader k) = 0 \<and> kr_block_manager k = BlockManager_new \<and>
     (\<exists>env. kr_leader_schedule k = LeaderSchedule_new env cx LeaderSwapTable_default) \<and>
     universal_committer_build (core_builder cx) = Inr (kr_committer k) \<and>
     clock_inv (cx_committee cx) (kr_threshold_clock k) \<and> clock_get_round (kr_threshold_clock k) = 1"

lemma first_core_can_propose:
  assumes start: "can_start cry rand cx gs" and k: "first_core cx gs k" and times: "pk_now clk \<le> pk_accept clk"
  shows "can_propose rand clk k"
proof -
  note facts = can_startD [OF start]
  have s: "committee_wf (cx_committee cx)" "cx_own_index cx \<in> members (cx_committee cx)" "rand_ok rand"
    using start by (simp_all add: can_start_def)
  have f: "kr_context k = cx" "kr_dag_state k = fresh_state cx gs" "kr_last_proposed_block k \<in> set gs"
    "vb_author (kr_last_proposed_block k) = cx_own_index cx" "clock_get_round (kr_threshold_clock k) = 1"
    "kr_last_included_ancestors k = replicate (committee_size (cx_committee cx)) None"
    "clock_inv (cx_committee cx) (kr_threshold_clock k)" "kr_block_manager k = BlockManager_new"
    using k by (simp_all add: first_core_def)
  have ok: "core_ok k"
    using f s facts(5) [OF f(3)] dag_okD(3) [OF facts(1)] by (simp add: core_ok_def)
  have "{a. \<exists>b. dag_lookup (fresh_state cx gs) (vb_reference b) = Some b \<and> vb_author b = a \<and> vb_round b = 0} = vb_author ` set gs"
    using facts(3,5,6) by fastforce
  then have ready: "parents_ready k"
    using f s facts(3,4,6) members_quorum [OF s(1)] by (auto simp: parents_ready_def last_proposed_round_def)
  have "leader_ready rand k"
    using k s(3) by (auto simp: leader_ready_def first_core_def LeaderSchedule_new_def LeaderSwapTable_default_def)
  then show ?thesis
    using ok ready f times facts(3,6) by (auto simp: can_propose_def BlockManager_new_def)
qed

text \<open>While no block is after round two nothing is committed.\<close>

lemma early_commit_idle:
  assumes start: "can_start cry rand cx gs" and ok: "dag_ok (cx_committee cx) (kr_dag_state k)"
    and ds: "last_commit_round (kr_dag_state k) = 0" "ds_highest_accepted_round (kr_dag_state k) \<le> 2"
      "unscored_committed_subdags_count (kr_dag_state k) = 0"
    and k: "slot_round (kr_last_decided_leader k) = 0" "universal_committer_build (core_builder cx) = Inr (kr_committer k)"
      "kr_leader_schedule k = LeaderSchedule_new env cx LeaderSwapTable_default"
  shows "try_commit cry' rand k = Inr (Inr [], k)"
proof (rule try_commit_idle)
  let ?ls = "kr_leader_schedule k"
  have "\<exists>a. elect_leader rand ?ls 0 0 = Inr a"
    using elect_leader_total [of ?ls rand 0] start k(3)
    by (auto simp: can_start_def LeaderSchedule_new_def LeaderSwapTable_default_def)
  then show "try_decide (elect_leader rand ?ls) (kr_committer k) (kr_dag_state k) (kr_last_decided_leader k) = Inr []"
    using core_committer [of cx] k by (intro nothing_decided_early [OF ok ds(1,2)]) simp_all
  show "unscored_committed_subdags_count (kr_dag_state k) < le_num_commits_per_schedule ?ls"
    using ds(3) k(3) by (simp add: LeaderSchedule_new_def consensus_commits_per_schedule_def)
qed

section \<open>The first proposal\<close>

lemma flush_keeps:
  "ds_context (flush ds) = ds_context ds" "ds_highest_accepted_round (flush ds) = ds_highest_accepted_round ds"
  "last_commit_round (flush ds) = last_commit_round ds"
  "unscored_committed_subdags_count (flush ds) = unscored_committed_subdags_count ds"
  by (cases rule: flush_cases [of ds]; force simp: last_commit_round_def unscored_committed_subdags_count_def)+

lemma take_votes_keeps:
  "ds_highest_accepted_round (snd (take_commit_votes n ds)) = ds_highest_accepted_round ds"
  "last_commit_round (snd (take_commit_votes n ds)) = last_commit_round ds"
  "unscored_committed_subdags_count (snd (take_commit_votes n ds)) = unscored_committed_subdags_count ds"
  by (simp_all add: take_commit_votes_def case_prod_beta last_commit_round_def unscored_committed_subdags_count_def)

lemma accepted_keeps:
  "ds_highest_accepted_round (accepted_state b ds) = max (ds_highest_accepted_round ds) (vb_round b)"
  "unscored_committed_subdags_count (accepted_state b ds) = unscored_committed_subdags_count ds"
  by (simp_all add: accepted_state_def unscored_committed_subdags_count_def)

text \<open>The DAG after a forced proposal, and what the proposal keeps of the core.\<close>

lemma forced_proposal_state:
  assumes can: "can_propose rand clk k" and run: "try_new_block cry rand check_ancestors clk True k = Inr (Some b, k')"
  defines "ds1 \<equiv> snd (take_commit_votes max_commit_votes_per_block (kr_dag_state k))"
  shows "kr_dag_state k' = flush (accepted_state b ds1)" "dag_inv (accepted_state b ds1)"
    and "\<exists>rnd. kr_signals k' = (kr_signals k)\<lparr> sg_new_round := rnd \<rparr>"
    and "kr_committer k' = kr_committer k" "kr_leader_schedule k' = kr_leader_schedule k" "kr_context k' = kr_context k"
      "kr_last_decided_leader k' = kr_last_decided_leader k"
proof -
  from run obtain as k1 sb bytes accepted missing mgr ds k2 where
    anc: "ancestors_to_propose (clock_get_round (kr_threshold_clock k)) k = Inr (as, k1)"
    and sb: "SignedBlock_new cry (proposal k clk as) (kr_block_signer k) = Inr sb"
    and b: "b = VerifiedBlock_new_verified cry sb bytes"
    and accept: "try_accept_blocks check_ancestors (pk_accept clk) [b] (kr_block_manager k, ds1) = Inr ((accepted, missing), (mgr, ds))"
    and k2: "add_accepted_blocks [b] (k1\<lparr> kr_transaction_consumer := snd (snd (next_transactions (kr_transaction_consumer k))),
        kr_block_manager := mgr, kr_dag_state := ds \<rparr>) = Inr k2"
    and k': "k' = k2\<lparr> kr_dag_state := flush (kr_dag_state k2), kr_last_proposed_block := b,
        kr_acked := kr_acked k2 @ fst (snd (next_transactions (kr_transaction_consumer k))) \<rparr>"
    unfolding ds1_def by (rule try_new_block_Some)
  have inner: "vb_inner b = proposal k clk as"
    using sb by (auto simp: b SignedBlock_new_def and_then_eq_Inr VerifiedBlock_new_verified_def vb_inner_def)
  note accepted = proposal_accepted [OF can anc inner, folded ds1_def]
  have ds: "ds = accepted_state b ds1" using accepted(1) accept by auto
  show "dag_inv (accepted_state b ds1)" by (rule accepted(2))
  obtain included where k1: "k1 = k\<lparr> kr_last_included_ancestors := included \<rparr>" using ancestors_keep [OF anc] by blast
  from add_accepted_keep [OF k2] show "kr_dag_state k' = flush (accepted_state b ds1)"
    "\<exists>rnd. kr_signals k' = (kr_signals k)\<lparr> sg_new_round := rnd \<rparr>"
    "kr_committer k' = kr_committer k" "kr_leader_schedule k' = kr_leader_schedule k" "kr_context k' = kr_context k"
    "kr_last_decided_leader k' = kr_last_decided_leader k"
    unfolding k' ds k1 by auto
qed

lemma first_proposal_dag_ok:
  assumes start: "can_start cry rand cx gs" and k: "first_core cx gs k" and times: "pk_now clk \<le> pk_accept clk"
    and run: "try_new_block cry' rand check_ancestors clk True k = Inr (Some b, k')"
  shows "dag_ok (cx_committee cx) (kr_dag_state k')"
    and "dag_lookup (kr_dag_state k') = (dag_lookup (fresh_state cx gs))(vb_reference b \<mapsto> b)"
proof -
  let ?ds = "fresh_state cx gs"
  have f: "kr_context k = cx" "kr_dag_state k = ?ds" "clock_get_round (kr_threshold_clock k) = 1"
    using k by (simp_all add: first_core_def)
  note can = first_core_can_propose [OF start k times]
  note after = forced_proposal_state [OF can run] and facts = can_startD [OF start]
  have "core_ok k" using can by (simp add: can_propose_def)
  note wf = proposal_well_formed [OF this run, unfolded f, simplified]
  obtain as where as: "map (dag_lookup ?ds) (vb_ancestors b) = map Some as" "map vb_reference as = vb_ancestors b"
    using wf(4) by blast
  have known: "dag_lookup ?ds a \<noteq> None" if "a \<in> set (vb_ancestors b)" for a
    using as(1) that by (metis (no_types, lifting) imageE image_eqI list.set_map option.distinct(1))
  show lookup: "dag_lookup (kr_dag_state k') = (dag_lookup ?ds)(vb_reference b \<mapsto> b)"
    using after(1) flush_persists(2) [OF after(2)] accepted_lookup [of b] wf(2) by (simp add: take_votes_dag f)
  have zero: "br_round a = 0" if "a \<in> set (vb_ancestors b)" for a
    using known [OF that] by (simp add: fresh_state_lookup split: if_splits)
  have "vb_ancestors c = []" if "dag_lookup ?ds r = Some c" for r c using facts(3) [OF facts(6) [OF that]] by simp
  then have "dag_causal (kr_dag_state k')"
    using known zero wf(2) unfolding dag_causal_def lookup by (fastforce split: if_splits)
  moreover have "dag_inv (kr_dag_state k')" using after(1) flush_persists(1) [OF after(2)] by simp
  moreover have "ds_context (kr_dag_state k') = cx" by (simp add: after(1) flush_keeps take_votes_dag f)
  ultimately show "dag_ok (cx_committee cx) (kr_dag_state k')" using dag_okD(1) [OF facts(1)] by (simp add: dag_ok_def)
qed

text \<open>The core after its first proposal.\<close>

definition first_proposal :: "epoch_context \<Rightarrow> verified_block list \<Rightarrow> verified_block \<Rightarrow> core_state \<Rightarrow> bool" where
  "first_proposal cx gs b k \<longleftrightarrow>
     vb_round b = 1 \<and> vb_author b = cx_own_index cx \<and> kr_last_proposed_block k = b \<and>
     mem_block (ds_store (kr_dag_state k)) (vb_reference b) = Some b \<and>
     dag_ok (cx_committee cx) (kr_dag_state k) \<and> last_commit_round (kr_dag_state k) = 0 \<and>
     dag_lookup (kr_dag_state k) = (dag_lookup (fresh_state cx gs))(vb_reference b \<mapsto> b)"

lemma first_core_proposes:
  assumes start: "can_start cry rand cx gs" and k: "first_core cx gs k" and times: "pk_now clk \<le> pk_accept clk"
    and cry: "blocks_serialize cry (kr_block_signer k)"
    and signals: "sg_subscribed (kr_signals k)" "sg_context (kr_signals k) = cx"
  shows "\<exists>b k'. try_propose cry rand check_ancestors clk True k = Inr (Inr (Some b), k') \<and> first_proposal cx gs b k' \<and>
    broadcast_of k' = broadcast_of k @ (if 1 < committee_size (cx_committee cx) then [b] else [])"
proof -
  have f: "kr_context k = cx" "kr_dag_state k = fresh_state cx gs" "clock_get_round (kr_threshold_clock k) = 1"
    using k by (simp_all add: first_core_def)
  obtain env where fk: "slot_round (kr_last_decided_leader k) = 0" "universal_committer_build (core_builder cx) = Inr (kr_committer k)"
      "kr_leader_schedule k = LeaderSchedule_new env cx LeaderSwapTable_default"
    using k by (auto simp: first_core_def)
  note can = first_core_can_propose [OF start k times]
  obtain b k1 where run: "try_new_block cry rand check_ancestors clk True k = Inr (Some b, k1)"
    and stored: "mem_block (ds_store (kr_dag_state k1)) (vb_reference b) = Some b"
    using forced_proposal [OF can cry] by blast
  note after = forced_proposal_state [OF can run] and new = try_new_block_proposes [OF run]
  have "core_ok k" using can by (simp add: can_propose_def)
  note wf = proposal_well_formed [OF this run, unfolded f, simplified]
  let ?sg = "(kr_signals k1)\<lparr> sg_block_broadcast := broadcast_of k @ (if 1 < committee_size (cx_committee cx) then [b] else []) \<rparr>"
  have sig: "signal_new_block b (kr_signals k1) = (Inr (), ?sg)"
    using after(3) signals new(3) by (auto simp: signal_new_block_def)
  have idle: "try_commit cry rand (k1\<lparr> kr_signals := ?sg \<rparr>) = Inr (Inr [], k1\<lparr> kr_signals := ?sg \<rparr>)"
  proof (rule early_commit_idle [OF start])
    show "dag_ok (cx_committee cx) (kr_dag_state (k1\<lparr> kr_signals := ?sg \<rparr>))"
      using first_proposal_dag_ok [OF start k times run] by simp
  qed (use fk wf(2) in \<open>simp_all add: after flush_keeps accepted_keeps take_votes_keeps f\<close>)
  have "try_propose cry rand check_ancestors clk True k = Inr (Inr (Some b), k1\<lparr> kr_signals := ?sg \<rparr>)"
    by (simp only: try_propose_def run and_then_Inr prod.case option.case sig sum.case idle)
  moreover have "first_proposal cx gs b (k1\<lparr> kr_signals := ?sg \<rparr>)"
    using wf(2) new(2,5) stored first_proposal_dag_ok [OF start k times run]
    by (simp add: first_proposal_def f after(1) flush_keeps take_votes_keeps)
  ultimately show ?thesis by auto
qed

section \<open>The start of the core\<close>

lemma last_block_total:
  assumes inv: "dag_inv ds" and a: "a < num_authorities ds"
  shows "\<exists>b. get_last_block_for_authority ds a = Inr b"
proof -
  have len: "a < length (ds_recent_refs ds)" using inv a by (simp add: dag_inv_def cache_wf_def)
  show ?thesis
  proof (cases "ds_recent_refs ds ! a = []")
    case True
    have "br_author (fst (ds_genesis ds ! a)) = a \<and> a < length (ds_genesis ds)"
      using dag_invD(1) [OF inv] a unfolding genesis_wf_def
      by (metis (no_types, lifting) add_0 comp_apply diff_zero length_map length_upt nth_map nth_upt)
    then obtain r b where "(r, b) \<in> set (ds_genesis ds)" "br_author r = a" by (metis nth_mem prod.collapse)
    then have "List.find (\<lambda>(r, _). br_author r = a) (ds_genesis ds) \<noteq> None" by (auto simp: find_None_iff)
    with True len show ?thesis by (auto simp: get_last_block_for_authority_def last_opt_def)
  next
    case False
    then have "last (ds_recent_refs ds ! a) \<in> set (ds_recent_refs ds ! a)" by simp
    with cache_refs(1) [OF dag_invD(2) [OF inv] a] False len show ?thesis
      by (auto simp: get_last_block_for_authority_def last_opt_def)
  qed
qed

lemma first_last_block:
  assumes start: "can_start cry rand cx gs"
  shows "\<exists>b \<in> set gs. get_last_block_for_authority (fresh_state cx gs) (cx_own_index cx) = Inr b \<and> vb_author b = cx_own_index cx"
proof -
  note facts = can_startD [OF start]
  have own: "cx_own_index cx < num_authorities (fresh_state cx gs)" using start by (simp add: can_start_def members_eq)
  obtain b where b: "get_last_block_for_authority (fresh_state cx gs) (cx_own_index cx) = Inr b"
    using last_block_total [OF dag_okD(3) [OF facts(1)] own] by blast
  from last_block_of_authority [OF dag_okD(3) [OF facts(1)] own b] facts(6) b show ?thesis by blast
qed

text \<open>The genesis blocks move the clock to the first round.\<close>

lemma first_clock:
  assumes start: "can_start cry rand cx gs" and k: "kr_context k = cx" "kr_threshold_clock k = ThresholdClock_new 0"
  shows "\<exists>clock rnd. add_accepted_blocks gs k = Inr (k\<lparr> kr_threshold_clock := clock, kr_signals := (kr_signals k)\<lparr> sg_new_round := rnd \<rparr> \<rparr>) \<and>
    clock_inv (cx_committee cx) clock \<and> clock_get_round clock = 1"
proof -
  let ?cm = "cx_committee cx"
  note facts = can_startD [OF start]
  have wf: "committee_wf ?cm" using start by (simp add: can_start_def)
  have ne: "gs \<noteq> []" using facts(2) wf by (auto simp: committee_wf_def committee_size_def)
  have authors: "br_author ` set (map vb_reference gs) = members ?cm" using facts(4) by (simp add: image_image)
  have each: "br_round r = 0 \<and> br_author r \<in> members ?cm" if "r \<in> vb_reference ` set gs" for r
    using that facts(3) by (auto simp: members_eq)
  obtain clock where clock: "for_each (clock_add_block ?cm) (map vb_reference gs) (ThresholdClock_new 0) = Inr clock" "tk_round clock = 1"
    using clock_run_same_round [OF wf clock_inv_new [OF wf], of "map vb_reference gs" 0] each ne
      members_quorum [OF wf] authors
    by (auto simp: ThresholdClock_new_def agg_new_def)
  have "clock_inv ?cm clock" by (rule clock_run_inv [OF wf clock_inv_new [OF wf] clock(1)])
  moreover have "\<exists>k'. add_accepted_blocks gs k = Inr k' \<and> kr_threshold_clock k' = clock"
    using clock k by (simp add: add_accepted_blocks_def clock_add_blocks_def)
  ultimately show ?thesis using clock(2) add_accepted_keep by (fastforce simp: clock_get_round_def)
qed

lemma first_quorum:
  assumes start: "can_start cry rand cx gs"
  shows "last_quorum (fresh_state cx gs) = Inr gs"
    and "\<exists>bs. get_last_cached_block_per_authority (fresh_state cx gs) u32_max = Inr bs"
proof -
  show "last_quorum (fresh_state cx gs) = Inr gs"
    by (simp add: last_quorum_def genesis_round_def genesis_blocks_of_def block_entries_def comp_def)
  have "\<And>a. a < num_authorities (fresh_state cx gs) \<Longrightarrow> evicted_of (fresh_state cx gs) a < u32_max - 1"
    by (simp add: fresh_state_def eviction_round_def u32_max_def)
  then show "\<exists>bs. get_last_cached_block_per_authority (fresh_state cx gs) u32_max = Inr bs"
    using last_cached_total [OF dag_okD(3) [OF can_startD(1) [OF start]], of u32_max] by (auto simp: u32_max_def)
qed

lemma first_core_starts:
  assumes start: "can_start cry rand cx gs" and times: "pk_now clk \<le> pk_accept clk" and cry: "blocks_serialize cry key"
    and signals: "sg_subscribed signals" "sg_context signals = cx"
  shows "\<exists>b k. Core_new cry rand check_ancestors clk cx (LeaderSchedule_new env cx LeaderSwapTable_default) consumer
      BlockManager_new observer signals key (fresh_state cx gs) = Inr k \<and> first_proposal cx gs b k \<and>
    broadcast_of k = sg_block_broadcast signals @ (if 1 < committee_size (cx_committee cx) then [b] else [])"
proof -
  let ?ds = "fresh_state cx gs" and ?ls = "LeaderSchedule_new env cx LeaderSwapTable_default"
  note facts = can_startD [OF start]
  obtain uc where uc: "universal_committer_build (core_builder cx) = Inr uc" using core_committer [of cx] by blast
  obtain last where last: "last \<in> set gs" "get_last_block_for_authority ?ds (cx_own_index cx) = Inr last" "vb_author last = cx_own_index cx"
    using first_last_block [OF start] by blast
  have ne: "gs \<noteq> []" using last(1) by auto
  have leader: "last_commit_leader ?ds = Inr (slot_of (vb_reference (hd gs)))"
    using ne by (cases gs) (simp_all add: last_commit_leader_def fresh_state_def block_entries_def first_opt_def)
  let ?k = "\<lparr> kr_context = cx, kr_threshold_clock = ThresholdClock_new 0, kr_transaction_consumer = consumer,
      kr_block_manager = BlockManager_new, kr_committer = uc, kr_last_proposed_block = last,
      kr_last_included_ancestors = replicate (committee_size (cx_committee cx)) None,
      kr_last_decided_leader = slot_of (vb_reference (hd gs)), kr_leader_schedule = ?ls,
      kr_commit_observer = observer, kr_signals = signals, kr_block_signer = key, kr_dag_state = ?ds, kr_acked = [] \<rparr>"
  obtain clock rnd where k1: "add_accepted_blocks gs ?k = Inr (?k\<lparr> kr_threshold_clock := clock, kr_signals := signals\<lparr> sg_new_round := rnd \<rparr> \<rparr>)"
    and clock: "clock_inv (cx_committee cx) clock" "clock_get_round clock = 1"
    using first_clock [OF start, of ?k] by auto
  let ?k1 = "?k\<lparr> kr_threshold_clock := clock, kr_signals := signals\<lparr> sg_new_round := rnd \<rparr> \<rparr>"
  have first: "first_core cx gs ?k1"
    using last uc clock facts(3) [of "hd gs"] ne by (auto simp: first_core_def slot_of_def)
  obtain b k where proposed: "try_propose cry rand check_ancestors clk True ?k1 = Inr (Inr (Some b), k)" "first_proposal cx gs b k"
    "broadcast_of k = broadcast_of ?k1 @ (if 1 < committee_size (cx_committee cx) then [b] else [])"
    using first_core_proposes [OF start first times] cry signals by auto
  have idle: "try_commit cry rand ?k1 = Inr (Inr [], ?k1)"
    using facts(1) uc facts(3) [of "hd gs"] ne by (intro early_commit_idle [OF start]) (simp_all add: slot_of_def)
  obtain bs where bs: "get_last_cached_block_per_authority ?ds u32_max = Inr bs" using first_quorum(2) [OF start] by blast
  have "recover cry rand check_ancestors clk ?k = Inr k"
    using bs k1 idle proposed(1) by (simp add: recover_def first_quorum(1) [OF start] unwrap_result_def)
  then have "Core_new cry rand check_ancestors clk cx ?ls consumer BlockManager_new observer signals key ?ds = Inr k"
    using leader uc last facts(3) by (simp add: Core_new_def)
  with proposed show ?thesis by auto
qed

section \<open>The start of a validator\<close>

text \<open>A peer that has received nothing is sent the first block.\<close>

lemma first_stream:
  assumes start: "can_start cry rand cx gs" and k: "first_proposal cx gs b k"
  shows "get_cached_blocks (kr_dag_state k) (cx_own_index cx) 1 = Inr [b]"
proof -
  let ?ds = "kr_dag_state k" and ?own = "cx_own_index cx"
  have f: "vb_round b = 1" "vb_author b = ?own" "dag_ok (cx_committee cx) ?ds" "last_commit_round ?ds = 0"
    "mem_block (ds_store ?ds) (vb_reference b) = Some b"
    "dag_lookup ?ds = (dag_lookup (fresh_state cx gs))(vb_reference b \<mapsto> b)"
    using k by (simp_all add: first_proposal_def)
  have inv: "dag_inv ?ds" by (rule dag_okD(3) [OF f(3)])
  have own: "?own < num_authorities ?ds" using start dag_okD(2) [OF f(3)] by (simp add: can_start_def members_eq)
  have "evicted_of ?ds ?own = 0" using cache_completeD(4) [OF dag_invD(4) [OF inv] own] f(4) by (simp add: eviction_round_def)
  then obtain c where "map_of (ds_recent_blocks ?ds) (vb_reference b) = Some c"
    using cache_completeD(2) [OF dag_invD(4) [OF inv], of "vb_reference b"] f(1,2,5) by auto
  then have cached: "map_of (ds_recent_blocks ?ds) (vb_reference b) = Some b"
    using cache_syncD(3) [OF dag_invD(3) [OF inv] _ f(5)] by blast
  have only: "r = vb_reference b" if "map_of (ds_recent_blocks ?ds) r = Some d" for r d
  proof -
    have "0 < br_round r" using cache_lookup [OF dag_invD(2) [OF inv] that] by simp
    with that have "dag_lookup ?ds r = Some d" by (simp add: dag_lookup_def genesis_round_def)
    with f(6) \<open>0 < br_round r\<close> show ?thesis by (auto simp: fresh_state_lookup split: if_splits)
  qed
  note refs = cache_refs [OF dag_invD(2) [OF inv] own]
  have "set (ds_recent_refs ?ds ! ?own) = {vb_reference b}"
  proof (intro equalityI subsetI)
    fix r assume "r \<in> set (ds_recent_refs ?ds ! ?own)"
    then obtain d where "map_of (ds_recent_blocks ?ds) r = Some d" using refs(1) by blast
    then show "r \<in> {vb_reference b}" using only by simp
  next
    fix r assume "r \<in> {vb_reference b}"
    then show "r \<in> set (ds_recent_refs ?ds ! ?own)" using refs(1) cached f(2) by (simp add: dom_def)
  qed
  then have "ds_recent_refs ?ds ! ?own = [vb_reference b]"
    using refs(2) by (cases "ds_recent_refs ?ds ! ?own") (auto simp: bs_wf_def subset_singleton_iff)
  moreover have "?own < length (ds_recent_refs ?ds)" using own inv by (simp add: dag_inv_def cache_wf_def)
  moreover have "BlockRef 1 ?own digest_min \<le> vb_reference b"
    using cached_range [of "vb_reference b" ?own 1 2] f(1,2) by simp
  ultimately show ?thesis using cached by (simp add: get_cached_blocks_def)
qed

lemma first_last_received:
  assumes start: "can_start cry rand cx gs" and k: "first_proposal cx gs b k" and p: "p \<in> members (cx_committee cx)" "p \<noteq> cx_own_index cx"
  shows "\<exists>c. get_last_block_for_authority (kr_dag_state k) p = Inr c \<and> vb_round c = 0"
proof -
  let ?ds = "kr_dag_state k"
  have ok: "dag_ok (cx_committee cx) ?ds" and b: "vb_author b = cx_own_index cx"
    and lookup: "dag_lookup ?ds = (dag_lookup (fresh_state cx gs))(vb_reference b \<mapsto> b)"
    using k by (simp_all add: first_proposal_def)
  have pn: "p < num_authorities ?ds" using p(1) dag_okD(2) [OF ok] by (simp add: members_eq)
  obtain c where c: "get_last_block_for_authority ?ds p = Inr c" using last_block_total [OF dag_okD(3) [OF ok] pn] by blast
  note last = last_block_of_authority(1,2) [OF dag_okD(3) [OF ok] pn c]
  have "vb_reference c \<noteq> vb_reference b" using last(1) p(2) b by (metis vb_reference_sel(2))
  with last(2) lookup have "dag_lookup (fresh_state cx gs) (vb_reference c) = Some c" by simp
  from can_startD(3) [OF start can_startD(6) [OF start this]] c show ?thesis by simp
qed

lemma first_subscriptions:
  assumes start: "can_start cry rand cx gs" and k: "first_proposal cx gs b k"
  shows "\<exists>sb. subscribe_to_peers (kr_dag_state k) (Subscriber_new cx) = Inr sb \<and>
    (\<forall>p \<in> members (cx_committee cx) - {cx_own_index cx}. sb_subscriptions sb ! p = Some 0)"
proof -
  let ?cm = "cx_committee cx"
  let ?peers = "filter (\<lambda>peer. peer \<noteq> cx_own_index cx) (map fst (committee_authorities ?cm))"
  let ?P = "\<lambda>ps sb. sb_context sb = cx \<and> length (sb_subscriptions sb) = committee_size ?cm \<and> set ps \<subseteq> set ?peers \<and>
    (\<forall>p \<in> set ps. sb_subscriptions sb ! p = Some 0)"
  have peers: "set ?peers = members ?cm - {cx_own_index cx}"
    by (auto simp: committee_authorities_def members_eq committee_size_def)
  have "\<exists>t. for_each (subscribe (kr_dag_state k)) ?peers (Subscriber_new cx) = Inr t \<and> ?P ([] @ ?peers) t"
  proof (rule for_each_prefix)
    fix ps p and sb :: subscriber assume p: "p \<in> set ?peers" and sb: "?P ps sb"
    have mem: "p \<in> members ?cm" "p \<noteq> cx_own_index cx" using p peers by auto
    obtain c where c: "get_last_block_for_authority (kr_dag_state k) p = Inr c" "vb_round c = 0"
      using first_last_received [OF start k mem] by blast
    have bound: "p < committee_size ?cm" using mem(1) by (simp add: members_eq)
    then have "\<exists>a. committee_authority ?cm p = Inr a" by (simp add: committee_authority_def committee_size_def)
    with c bound mem sb have "subscribe (kr_dag_state k) p sb = Inr (sb\<lparr> sb_subscriptions := (sb_subscriptions sb)[p := Some 0] \<rparr>)"
      by (auto simp: subscribe_def unsubscribe_locked_def)
    moreover have "?P (ps @ [p]) (sb\<lparr> sb_subscriptions := (sb_subscriptions sb)[p := Some 0] \<rparr>)"
      using sb p bound by (auto simp: nth_list_update)
    ultimately show "\<exists>s'. subscribe (kr_dag_state k) p sb = Inr s' \<and> ?P (ps @ [p]) s'" by blast
  qed (simp add: Subscriber_new_def)
  then show ?thesis unfolding peers [symmetric] by (auto simp: subscribe_to_peers_def Subscriber_new_def)
qed

text \<open>The components on an empty store.\<close>

lemma observer_of_empty_store:
  "CommitObserver_new MemStore_new ls last_processed alive = Inr \<lparr> ob_sent = [], ob_consumer_alive = alive \<rparr>"
proof -
  have "u32_add last_processed 1 \<le> u32_max" by (simp add: u32_add_def u32_max_def)
  then show ?thesis
    by (simp add: CommitObserver_new_def recover_and_send_commits_def mem_read_last_commit_def mem_scan_commits_def MemStore_new_def)
qed

lemma schedule_of_empty_store:
  "LeaderSchedule_from_store rand env cx (fresh_state cx gs) = Inr (LeaderSchedule_new env cx LeaderSwapTable_default)"
  by (simp add: LeaderSchedule_from_store_def recover_last_commit_info_def mem_read_last_commit_info_def)
    (simp add: MemStore_new_def)

section \<open>Properties\<close>

text \<open>C39: a validator starts on an empty store. When its committee is valid, it is a member, and blocks can be signed and serialized,
  \<open>AuthorityNode::start\<close> makes every component without a panic, whether or not the network supports streams. The core has then
  proposed its block of round one: the block is in the store, it has been broadcast unless the validator is alone, and a
  peer that subscribes to the validator and has received nothing is sent it first. With streams the validator has subscribed to
  every other authority after round zero.\<close>

theorem validator_starts_and_proposes:
  assumes "can_start cry rand cx gs" "blocks_serialize cry key" "pk_now clk \<le> pk_accept clk"
  shows "\<exists>node b. AuthorityNode_start cry rand env now clk streaming cx key tv consumer MemStore_new = Inr node \<and>
    vb_round b = 1 \<and> vb_author b = cx_own_index cx \<and>
    mem_block (ds_store (kr_dag_state (an_core node))) (vb_reference b) = Some b \<and>
    sg_block_broadcast (kr_signals (an_core node)) = (if 1 < committee_size (cx_committee cx) then [b] else []) \<and>
    handle_subscribe_blocks cx (kr_dag_state (an_core node)) rx 0 = Inr \<lparr> st_missed = [vb_serialized b], st_receiver = rx \<rparr> \<and>
    (streaming \<longrightarrow> (\<exists>sb. an_subscriber node = Some sb \<and>
      (\<forall>p \<in> members (cx_committee cx) - {cx_own_index cx}. sb_subscriptions sb ! p = Some 0)))"
proof -
  have gs: "genesis_blocks cry cx = Inr gs" and own: "is_valid_index (cx_committee cx) (cx_own_index cx)"
    using assms(1) by (simp_all add: can_start_def is_valid_index_def members_eq)
  obtain client txs where tx: "TransactionClient_new cx = (client, txs)" by fastforce
  obtain sv where sv: "SignedBlockVerifier_new cry cx tv = Inr sv" using gs by (simp add: SignedBlockVerifier_new_def)
  let ?ls = "LeaderSchedule_new env cx LeaderSwapTable_default"
  obtain b k where core: "Core_new cry rand check_ancestors clk cx ?ls (TransactionConsumer_new txs cx None) BlockManager_new
      \<lparr> ob_sent = [], ob_consumer_alive = snd consumer \<rparr> (CoreSignals_new cx True) key (fresh_state cx gs) = Inr k"
    and first: "first_proposal cx gs b k" and sent: "broadcast_of k = (if 1 < committee_size (cx_committee cx) then [b] else [])"
    using first_core_starts [OF assms(1,3,2), of "CoreSignals_new cx True" env "TransactionConsumer_new txs cx None"
        "\<lparr> ob_sent = [], ob_consumer_alive = snd consumer \<rparr>"] by (auto simp: CoreSignals_new_def)
  obtain sb where sb: "subscribe_to_peers (kr_dag_state k) (Subscriber_new cx) = Inr sb"
    "\<forall>p \<in> members (cx_committee cx) - {cx_own_index cx}. sb_subscriptions sb ! p = Some 0"
    using first_subscriptions [OF assms(1) first] by blast
  have "\<exists>node. AuthorityNode_start cry rand env now clk streaming cx key tv consumer MemStore_new = Inr node \<and> an_core node = k \<and>
      (streaming \<longrightarrow> an_subscriber node = Some sb)"
    using own tx sv core sb(1)
    by (simp add: AuthorityNode_start_def DagState_new_empty [OF gs] schedule_of_empty_store observer_of_empty_store Let_def)
  moreover have "handle_subscribe_blocks cx (kr_dag_state k) rx 0 = Inr \<lparr> st_missed = [vb_serialized b], st_receiver = rx \<rparr>"
    using first_stream [OF assms(1) first] by (simp add: handle_subscribe_blocks_def u32_add_exact)
  ultimately show ?thesis using first sent sb(2) unfolding first_proposal_def by blast
qed

lemma ex_can_start: "can_start ex_crypto ex_rand ex_context ex_genesis"
  using ex_genesis_eq ex_committee_wf ex_rand_ok ex_members by (simp add: can_start_def ex_context_def)

lemma ex_blocks_serialize: "blocks_serialize ex_crypto key"
  by (simp add: blocks_serialize_def SignedBlock_new_def compute_block_signature_def compute_inner_block_digest_def ok_or_def
      to_consensus_block_intent_def ex_crypto_def)

theorem validator_starts_and_proposes_witness:
  "\<exists>node b. AuthorityNode_start ex_crypto ex_rand None 0 ex_clock True ex_context [] NoopTransactionVerifier (0, True) MemStore_new
      = Inr node \<and> sg_block_broadcast (kr_signals (an_core node)) = [b] \<and> vb_round b = 1"
proof -
  have "committee_size (cx_committee ex_context) = 4" by (simp add: ex_context_def committee_size_def ex_committee_def)
  then show ?thesis
    using validator_starts_and_proposes [where key = "[]" and clk = ex_clock and env = None and now = 0 and streaming = True
        and tv = NoopTransactionVerifier and consumer = "(0, True)" and rx = "[]", OF ex_can_start ex_blocks_serialize]
    by (auto simp: ex_clock_def)
qed



end
