(* ===== verification/Connection_Monitor.thy ===== *)
theory Connection_Monitor
  imports Anemo_Network
begin

text \<open>
  The monitor of the anemo connections (\<^verbatim>\<open>consensus/core/src/network/connection_monitor.rs\<close>): the status of each peer, and the gauges
  and counters that report on the known peers. The periodic statistics of a connection are copied into metrics and not modelled.
\<close>

datatype connection_status = Connected | Disconnected

datatype monitored_event = MonitoredNewPeer peer_id | MonitoredLostPeer peer_id string

record connection_monitor =
  mo_known_peers :: "(peer_id \<times> string) list"
  mo_connection_statuses :: "peer_id \<rightharpoonup> connection_status"
  mo_network_peers :: nat
  mo_network_peer_connected :: "peer_id \<rightharpoonup> nat"
  mo_network_peer_disconnects :: "peer_id \<Rightarrow> string \<Rightarrow> nat"

text \<open>\<open>peers\<close> is the number of peers of the network, unless it is gone.\<close>

fun event_peer :: "monitored_event \<Rightarrow> peer_id" where
  "event_peer (MonitoredNewPeer p) = p"
| "event_peer (MonitoredLostPeer p _) = p"

fun event_status :: "monitored_event \<Rightarrow> connection_status" where
  "event_status (MonitoredNewPeer _) = Connected"
| "event_status (MonitoredLostPeer _ _) = Disconnected"

fun status_gauge :: "connection_status \<Rightarrow> nat" where
  "status_gauge Connected = 1"
| "status_gauge Disconnected = 0"

definition handle_peer_event :: "nat option \<Rightarrow> monitored_event \<Rightarrow> connection_monitor \<Rightarrow> connection_monitor" where
  "handle_peer_event peers ev mo =
     (case peers of
        None \<Rightarrow> mo
      | Some n \<Rightarrow>
          let p = event_peer ev;
              mo = mo\<lparr> mo_network_peers := n, mo_connection_statuses := (mo_connection_statuses mo)(p \<mapsto> event_status ev) \<rparr> in
          if map_of (mo_known_peers mo) p \<noteq> None
          then
            let mo = mo\<lparr> mo_network_peer_connected := (mo_network_peer_connected mo)(p \<mapsto> status_gauge (event_status ev)) \<rparr> in
            (case ev of
               MonitoredLostPeer _ reason \<Rightarrow>
                 mo\<lparr> mo_network_peer_disconnects := (mo_network_peer_disconnects mo)
                      (p := (mo_network_peer_disconnects mo p)(reason := mo_network_peer_disconnects mo p reason + 1)) \<rparr>
             | MonitoredNewPeer _ \<Rightarrow> mo)
          else mo)"

text \<open>
  A run: the known peers are reported as disconnected, then those that are connected at the start, then each event. With each
  event comes what the network has then; \<open>subscription\<close> is what the network gives at the start.
\<close>

definition report_known :: "connection_monitor \<Rightarrow> connection_monitor" where
  "report_known mo =
     mo\<lparr> mo_network_peer_connected := fold (\<lambda>(p, _) g. g(p \<mapsto> 0)) (mo_known_peers mo) (mo_network_peer_connected mo) \<rparr>"

definition monitor_run ::
  "(nat option \<times> peer_id) list option \<Rightarrow> (nat option \<times> monitored_event) list \<Rightarrow> connection_monitor \<Rightarrow> connection_monitor" where
  "monitor_run subscription events mo =
     (case subscription of
        None \<Rightarrow> mo
      | Some connected_peers \<Rightarrow>
          fold (\<lambda>(peers, ev). handle_peer_event peers ev) events
            (fold (\<lambda>(peers, p). handle_peer_event peers (MonitoredNewPeer p)) connected_peers (report_known mo)))"

section \<open>Behaviour\<close>

text \<open>The gauge of each known peer is one exactly when its status is connected.\<close>

definition gauges_ok :: "connection_monitor \<Rightarrow> bool" where
  "gauges_ok mo \<longleftrightarrow> (\<forall>p \<in> fst ` set (mo_known_peers mo).
     mo_network_peer_connected mo p = Some (if mo_connection_statuses mo p = Some Connected then 1 else 0))"

lemma handle_peer_event_ok: "gauges_ok mo \<Longrightarrow> gauges_ok (handle_peer_event peers ev mo)"
  by (cases peers; cases ev) (auto simp: handle_peer_event_def gauges_ok_def Let_def map_of_eq_None_iff)

lemma report_known_gauge:
  "fold (\<lambda>(p, _) g. g(p \<mapsto> 0)) ks g p = (if p \<in> fst ` set ks then Some (0 :: nat) else g p)"
  by (induction ks arbitrary: g) auto

lemma monitor_run_ok:
  assumes "subscription \<noteq> None" "mo_connection_statuses mo = Map.empty"
  shows "gauges_ok (monitor_run subscription events mo)"
proof -
  have start: "gauges_ok (report_known mo)"
    using assms(2) by (simp add: gauges_ok_def report_known_def report_known_gauge)
  have connect: "gauges_ok m \<Longrightarrow> gauges_ok (fold (\<lambda>(peers, p). handle_peer_event peers (MonitoredNewPeer p)) ps m)" for ps m
    by (induction ps arbitrary: m) (auto intro: handle_peer_event_ok)
  have events: "gauges_ok m \<Longrightarrow> gauges_ok (fold (\<lambda>(peers, ev). handle_peer_event peers ev) evs m)" for evs m
    by (induction evs arbitrary: m) (auto intro: handle_peer_event_ok)
  show ?thesis using assms(1) start by (cases subscription) (auto simp: monitor_run_def intro: connect events)
qed

end
