(* ===== verification/Spec2Isabelle.thy ===== *)
theory Spec2Isabelle
  imports Committer_Properties Manager_Properties Schedule_Properties Transactions Rocksdb_Store
    Synchronizer_Properties Commit_Sync_Properties Observer_Properties Service_Properties
    Timeout_Properties Validator_Start Connection_Monitor
begin

text \<open>
  A verification of Mysticeti, the consensus protocol of Sui (\<^verbatim>\<open>src/consensus\<close>). Paths below are relative to
  \<^verbatim>\<open>src/consensus/core/src\<close> unless they start with \<^verbatim>\<open>consensus/\<close>.

  \<^bold>\<open>The program.\<close> Each validator of a committee proposes one block in a round. A block refers to blocks of a quorum of validators
  in the round before, so the blocks form a DAG. From its own copy of the DAG a validator decides, without further messages,
  which leader blocks are committed, and orders the history of each into a sub-dag of consensus output.
  The parts interact as follows. The network hands blocks of peers to the authority service, which verifies them and gives
  them to the core thread. The core passes them to the block manager, which holds a block back until its ancestors are
  in the DAG state and then accepts it there; the DAG state writes to the store. The core then asks the universal committer for decided
  leaders, has the commit observer linearize and send them, updates the leader schedule from reputation scores, and proposes
  a new block when the threshold clock has advanced; the leader timeout asks for a block when a leader is late.
  Blocks that are missing are fetched by the synchronizer, and a validator that is far behind fetches commits with the commit
  syncer. Own blocks reach peers through subscriptions or the broadcaster.

  \<^bold>\<open>Conventions.\<close> A struct is a record or a datatype with a short prefix on its fields, an enum is a datatype, and each function or method
  is a definition that carries its name. A value that is behind a lock is passed along and returned. A panic of the source is
  the left value of \<open>'a res\<close>; an error it returns is a \<open>consensus_error\<close> on the left of \<open>'a consensus_result\<close>. Rounds and
  indices are natural numbers, and sums and differences that can leave their width are written with wrap-around
  (\<open>u32_add\<close>, \<open>u32_sub\<close>, \<open>u64_add\<close>); saturating subtraction is subtraction of natural numbers. \<open>BTreeSet\<close> and \<open>BTreeMap\<close> are sorted
  lists. Digests are 256-bit words. A reading of the clock is an argument. Third-party code is an argument too: the record
  \<open>crypto\<close> (serialization, hashing, signatures), the record \<open>decoder\<close> (deserialization), \<open>rand\<close> with the law \<open>rand_ok\<close>
  (random generator), and the transaction verifier. The branches of asynchronous loops are events, so a run is a list of events
  and a statement about all lists covers every interleaving of those branches.

  \<^bold>\<open>Theories.\<close>
  \<^item> Data and shared parts. \<open>Prelude\<close>: panics, arithmetic at a width, ordered containers, loops that may panic. \<open>Committees\<close>:
    \<^verbatim>\<open>consensus/config/src/committee.rs\<close> and \<^verbatim>\<open>stake_aggregator.rs\<close>. \<open>Consensus_Types\<close>, \<open>Decoding\<close>: \<^verbatim>\<open>block.rs\<close>,
    \<^verbatim>\<open>commit.rs\<close>, \<^verbatim>\<open>error.rs\<close>, \<^verbatim>\<open>context.rs\<close>. \<open>Threshold_Clock\<close>: \<^verbatim>\<open>threshold_clock.rs\<close>. \<open>Transactions\<close>: \<^verbatim>\<open>transaction.rs\<close>.
  \<^item> Storage and DAG. \<open>Stores\<close>: \<^verbatim>\<open>storage/mod.rs\<close>, \<^verbatim>\<open>storage/mem_store.rs\<close>. \<open>Rocksdb_Store\<close>: \<^verbatim>\<open>storage/rocksdb_store.rs\<close>.
    \<open>Dag_State\<close>, with \<open>Dag_Invariant\<close>, \<open>Dag_Operations\<close>, \<open>Dag_History\<close> and \<open>Dag_Start\<close> on its behaviour: \<^verbatim>\<open>dag_state.rs\<close>.
  \<^item> Commit rule. \<open>Base_Committer\<close> and \<open>Commit_Rules\<close>: \<^verbatim>\<open>base_committer.rs\<close>. \<open>Universal_Committer\<close>: \<^verbatim>\<open>universal_committer.rs\<close>.
    \<open>Commit_Safety\<close>, \<open>Committer_Agreement\<close>, \<open>Committer_Properties\<close>: networks of DAG states and agreement between them.
    \<open>Layered_Dag\<close>: a concrete network for the examples.
  \<^item> Output. \<open>Linearizer\<close> and \<open>Commit_Sequence\<close>: \<^verbatim>\<open>linearizer.rs\<close>. \<open>Commit_Observer\<close> and \<open>Observer_Properties\<close>:
    \<^verbatim>\<open>commit_observer.rs\<close>. \<open>Leader_Scoring\<close>, \<open>Scoring_Properties\<close>, \<open>Reputation\<close>: \<^verbatim>\<open>leader_scoring.rs\<close> and
    \<^verbatim>\<open>leader_scoring_strategy.rs\<close>. \<open>Leader_Schedule\<close> and \<open>Schedule_Properties\<close>: \<^verbatim>\<open>leader_schedule.rs\<close>.
  \<^item> Blocks on their way in. \<open>Block_Verifier\<close>: \<^verbatim>\<open>block_verifier.rs\<close>. \<open>Block_Manager\<close>, with \<open>Manager_Invariant\<close>,
    \<open>Manager_Accept\<close> and \<open>Manager_Properties\<close>: \<^verbatim>\<open>block_manager.rs\<close>.
  \<^item> The core. \<open>Validator_Core\<close>: \<^verbatim>\<open>core.rs\<close>. \<open>Core_Thread\<close>: \<^verbatim>\<open>core_thread.rs\<close>. \<open>Leader_Timeout\<close> and \<open>Timeout_Properties\<close>:
    \<^verbatim>\<open>leader_timeout.rs\<close>. \<open>Proposal_Properties\<close>, \<open>Proposal_Progress\<close>, \<open>Proposal_Safety\<close>: what is proposed.
    \<open>Authority_Node\<close> and \<open>Validator_Start\<close>: \<^verbatim>\<open>authority_node.rs\<close>.
  \<^item> Between validators. \<open>Synchronizer\<close> and \<open>Synchronizer_Properties\<close>: \<^verbatim>\<open>synchronizer.rs\<close>. \<open>Commit_Syncer\<close> and
    \<open>Commit_Sync_Properties\<close>: \<^verbatim>\<open>commit_syncer.rs\<close>. \<open>Authority_Service\<close>: \<^verbatim>\<open>authority_service.rs\<close>. \<open>Subscriber\<close>: \<^verbatim>\<open>subscriber.rs\<close>.
    \<open>Broadcaster\<close>: \<^verbatim>\<open>broadcaster.rs\<close>. \<open>Tonic_Network\<close>: \<^verbatim>\<open>network/tonic_network.rs\<close>, \<^verbatim>\<open>network/tonic_tls.rs\<close>.
    \<open>Anemo_Network\<close>: \<^verbatim>\<open>network/anemo_network.rs\<close>, \<^verbatim>\<open>network/epoch_filter.rs\<close>. \<open>Connection_Monitor\<close>:
    \<^verbatim>\<open>network/connection_monitor.rs\<close>. \<open>Service_Properties\<close>: requests from end to end.

  \<^bold>\<open>Interfaces.\<close> The traits of the source are locales, each interpreted on the definitions that model its implementations:
  \<open>committee_threshold\<close> (both thresholds), \<open>block_store\<close> (the in-memory store), \<open>ancestor_checker\<close> (both block verifiers) and
  \<open>leader_scoring_strategy\<close> (the four strategies).

  \<^bold>\<open>What is shown.\<close>
  \<^item> Agreement (\<open>Committees\<close>, \<open>Commit_Safety\<close>, \<open>Committer_Agreement\<close>, \<open>Committer_Properties\<close>): two quorums share an
    honest authority; two validators that decide from the same leader with the same schedule decide sequences of which one is a
    prefix of the other; the committer does not panic; a direct commit is final. The hypotheses are on the network: causally complete
    DAGs of well-formed blocks, and less than a third of the stake misbehaving. \<open>Block_Verifier\<close> shows that verified blocks give that structure.
  \<^item> Output (\<open>Commit_Sequence\<close>, \<open>Observer_Properties\<close>, \<open>Reputation\<close>, \<open>Schedule_Properties\<close>): a sub-dag is the history not
    yet committed, in causal order and without repetition; commits form a chain; a restart sends again what was sent;
    scores are what the strategies say; bad nodes are not elected.
  \<^item> State (\<open>Dag_Start\<close>, \<open>Manager_Properties\<close>, \<open>Rocksdb_Store\<close>, \<open>Transactions\<close>): invariants and the effect of each operation on an
    abstract view, refinement of one store by the other, limits and acknowledgement of transactions.
  \<^item> A validator (\<open>Proposal_Progress\<close>, \<open>Validator_Start\<close>, \<open>Timeout_Properties\<close>): it starts, proposes blocks that others accept, and never
    proposes two blocks in a round, also across restarts.
  \<^item> Exchange (\<open>Synchronizer_Properties\<close>, \<open>Commit_Sync_Properties\<close>, \<open>Service_Properties\<close>): only verified and requested blocks
    and certified commits get in, locks on blocks are those of live guards, no range of commits is lost, and what an honest validator serves
    is accepted.

  \<^bold>\<open>Bounds and termination.\<close> Loops that walk the DAG are \<open>while_res\<close>, whose value is the panic \<open>Diverges\<close> when they do not end; for
  \<open>ancestors_at_round\<close>, the linearizer and the block manager they are shown to end. \<open>find_supported_block\<close>, also of the scoring, recurses with the fuel
  one more than the round of the block, which is enough since rounds drop along references (\<open>find_supported_total\<close>). The loop of \<open>try_commit\<close> is not
  shown to end in general. The loops of the network that wait for a connection consume a list of outcomes and give
  \<open>None\<close> when it is used up before they end; a deadline or timeout among the outcomes ends them.

  \<^bold>\<open>Not modelled.\<close>
  \<^item> Metrics and logs, which no decision depends on; the time values that only feed them.
  \<^item> Sockets, TLS, HTTP servers, their start and stop, and the scheduler of asynchronous tasks: code of libraries. What they deliver is an argument.
  \<^item> Floating-point durations: the delay between subscription attempts is a count of multiplications, and the estimate of the
    round-trip time in the broadcaster is left out.
  \<^item> Errors of the database itself, and the options it is opened with. Configuration files and the keys of
    \<^verbatim>\<open>consensus/config/src/crypto.rs\<close>, which wrap a library.
  \<^item> Test code, and the parts of the repository outside \<^verbatim>\<open>src/consensus\<close>: execution, the Move language, node, bridge,
    indexers, tools and the Narwhal protocol. They produce the transactions or consume the output of consensus, or are independent of it. Of
    \<^verbatim>\<open>src/crates/shared-crypto\<close> the intent of a block is modelled.
\<close>

end
